(* ===== verification/Phoenix_Prelude.thy ===== *)
theory Phoenix_Prelude
  imports Main "HOL-Library.Word" "HOL-Library.Monad_Syntax"
begin

text \<open>
  What every component theory shares: names for the machine integers of the C++
  sources, the byte orders the program writes numbers in (big-endian for the guest
  and for WebSocket, little-endian for the overlay file), writing a run of bytes
  into a buffer, and the collections of simplification rules the component proofs use.
\<close>

unbundle bit_operations_syntax

section \<open>Machine integers\<close>

type_synonym u8 = "8 word"
type_synonym u16 = "16 word"
type_synonym u32 = "32 word"
type_synonym u64 = "64 word"
type_synonym bytes = "8 word list"

named_theorems byte_order \<open>encode/decode round trips of multi-byte numbers\<close>
named_theorems buffer_simps \<open>reading a buffer after a run of bytes was written\<close>
named_theorems mem_simps \<open>reading guest memory after a write\<close>

section \<open>Byte orders\<close>

definition be16 :: "u8 \<Rightarrow> u8 \<Rightarrow> u16" where
  "be16 b0 b1 = push_bit 8 (ucast b0) OR ucast b1"

definition be32 :: "u8 \<Rightarrow> u8 \<Rightarrow> u8 \<Rightarrow> u8 \<Rightarrow> u32" where
  "be32 b0 b1 b2 b3 =
     push_bit 24 (ucast b0) OR push_bit 16 (ucast b1) OR push_bit 8 (ucast b2) OR ucast b3"

definition hi16 :: "u16 \<Rightarrow> u8" where
  "hi16 w = ucast (drop_bit 8 w)"

definition lo16 :: "u16 \<Rightarrow> u8" where
  "lo16 w = ucast w"

text \<open>Byte \<open>i\<close> of a 32-bit number, 0 being the least significant one.\<close>

definition byte32 :: "u32 \<Rightarrow> nat \<Rightarrow> u8" where
  "byte32 w i = ucast (drop_bit (8 * i) w)"

lemma be16_split [byte_order, simp]: "be16 (hi16 w) (lo16 w) = w"
  unfolding be16_def hi16_def lo16_def
  by (rule bit_word_eqI) (auto simp: bit_simps)

lemma hi16_be16 [byte_order, simp]: "hi16 (be16 a b) = a"
  unfolding be16_def hi16_def
  by (rule bit_word_eqI) (auto simp: bit_simps dest: bit_imp_le_length)

lemma lo16_be16 [byte_order, simp]: "lo16 (be16 a b) = b"
  unfolding be16_def lo16_def
  by (rule bit_word_eqI) (auto simp: bit_simps)

lemma be32_split [byte_order, simp]:
  "be32 (byte32 w 3) (byte32 w 2) (byte32 w 1) (byte32 w 0) = w"
proof (rule bit_word_eqI)
  fix n
  assume "n < LENGTH(32)"
  then consider "n < 8" | "8 \<le> n \<and> n < 16" | "16 \<le> n \<and> n < 24" | "24 \<le> n \<and> n < 32"
    by fastforce
  then show "bit (be32 (byte32 w 3) (byte32 w 2) (byte32 w 1) (byte32 w 0)) n \<longleftrightarrow> bit w n"
    by cases (auto simp: be32_def byte32_def bit_simps)
qed

lemmas be32_split_Suc [simp] = be32_split [unfolded One_nat_def]

lemma byte32_be32 [byte_order, simp]:
  "byte32 (be32 a b c d) 3 = a" "byte32 (be32 a b c d) 2 = b"
  "byte32 (be32 a b c d) (Suc 0) = c" "byte32 (be32 a b c d) 0 = d"
  unfolding be32_def byte32_def
  by (rule bit_word_eqI; auto simp: bit_simps dest: bit_imp_le_length)+

lemma be16_inject [simp]: "be16 a b = be16 c d \<longleftrightarrow> a = c \<and> b = d"
  by (metis hi16_be16 lo16_be16)

lemma be32_inject [simp]:
  "be32 a b c d = be32 a' b' c' d' \<longleftrightarrow> a = a' \<and> b = b' \<and> c = c' \<and> d = d'"
  by (metis byte32_be32)

section \<open>Buffers\<close>

text \<open>
  \<open>overwrite xs off ys\<close> is what \<open>memcpy\<close> of \<open>ys\<close> to \<open>xs + off\<close> leaves in the buffer,
  and what \<open>pwrite\<close> leaves in a file that is long enough.
\<close>

definition overwrite :: "'a list \<Rightarrow> nat \<Rightarrow> 'a list \<Rightarrow> 'a list" where
  "overwrite xs off ys = take off xs @ ys @ drop (off + length ys) xs"

lemma length_overwrite [buffer_simps, simp]:
  "off + length ys \<le> length xs \<Longrightarrow> length (overwrite xs off ys) = length xs"
  by (simp add: overwrite_def)

lemma nth_overwrite [buffer_simps]:
  assumes "off + length ys \<le> length xs" and "i < length xs"
  shows "overwrite xs off ys ! i
    = (if off \<le> i \<and> i < off + length ys then ys ! (i - off) else xs ! i)"
  using assms by (auto simp: overwrite_def nth_append min_def)

lemma overwrite_Nil [buffer_simps, simp]: "overwrite xs off [] = xs"
  by (simp add: overwrite_def)

lemma overwrite_all [buffer_simps, simp]:
  "length ys = length xs \<Longrightarrow> overwrite xs 0 ys = ys"
  by (simp add: overwrite_def)

lemma take_overwrite [buffer_simps, simp]:
  "off \<le> length xs \<Longrightarrow> take off (overwrite xs off ys) = take off xs"
  by (simp add: overwrite_def)

lemma overwrite_append [buffer_simps]:
  assumes "off + length ys + length zs \<le> length xs"
  shows "overwrite (overwrite xs off ys) (off + length ys) zs = overwrite xs off (ys @ zs)"
proof -
  have "take (off + length ys) (overwrite xs off ys) = take off xs @ ys"
    using assms by (simp add: overwrite_def)
  moreover have "drop (off + length ys + length zs) (overwrite xs off ys)
      = drop (off + length ys + length zs) xs"
    using assms by (simp add: overwrite_def drop_drop ac_simps)
  ultimately show ?thesis
    by (simp add: overwrite_def [of _ _ zs] overwrite_def [of _ _ "ys @ zs"] add.assoc)
qed

lemma overwrite_end [buffer_simps]: "overwrite xs (length xs) ys = xs @ ys"
  by (simp add: overwrite_def)

text \<open>Reading back a slice.\<close>

definition slice :: "nat \<Rightarrow> nat \<Rightarrow> 'a list \<Rightarrow> 'a list" where
  "slice off n xs = take n (drop off xs)"

lemma length_slice [buffer_simps, simp]:
  "off + n \<le> length xs \<Longrightarrow> length (slice off n xs) = n"
  by (simp add: slice_def)

lemma nth_slice [buffer_simps]:
  "i < n \<Longrightarrow> off + n \<le> length xs \<Longrightarrow> slice off n xs ! i = xs ! (off + i)"
  by (simp add: slice_def)

lemma slice_overwrite [buffer_simps]:
  "off + length ys \<le> length xs \<Longrightarrow> slice off (length ys) (overwrite xs off ys) = ys"
  by (simp add: slice_def overwrite_def)

lemma slice_add [buffer_simps]:
  "slice off (m + n) xs = slice off m xs @ slice (off + m) n xs"
  by (simp add: slice_def take_add drop_drop add.commute)

lemma slice_append1 [buffer_simps]:
  "off + n \<le> length xs \<Longrightarrow> slice off n (xs @ ys) = slice off n xs"
  by (simp add: slice_def)

lemma slice_append2 [buffer_simps]:
  "length xs \<le> off \<Longrightarrow> slice off n (xs @ ys) = slice (off - length xs) n ys"
  by (simp add: slice_def)

lemma slice_full [buffer_simps, simp]: "n = length xs \<Longrightarrow> slice 0 n xs = xs"
  by (simp add: slice_def)

section \<open>Words and natural numbers\<close>

lemma unat_ucast_le [simp]:
  assumes "LENGTH('a::len) \<le> LENGTH('b::len)"
  shows "unat (ucast (w :: 'a word) :: 'b word) = unat w"
proof -
  have "unat w < 2 ^ LENGTH('a)" by (rule unsigned_less)
  also have "(2 :: nat) ^ LENGTH('a) \<le> 2 ^ LENGTH('b)" using assms by simp
  finally show ?thesis by (simp add: unsigned_ucast_eq take_bit_nat_eq_self_iff)
qed

lemma unat_add_lt:
  "unat (a :: 'a::len word) + unat b < 2 ^ LENGTH('a) \<Longrightarrow> unat (a + b) = unat a + unat b"
  by (simp add: unat_word_ariths)

lemma unat_sub_le:
  "b \<le> a \<Longrightarrow> unat (a - b :: 'a::len word) = unat a - unat b"
  by (simp add: unat_sub)

lemma even_word32_bound: "unat (w :: u32) < 4294967296"
  using unsigned_less [of w] by simp

lemma u8_bound [simp]: "256 \<le> n \<Longrightarrow> unat (w :: u8) < n"
  using unsigned_less [of w, where 'a = nat] by simp

lemma u16_bound [simp]: "65536 \<le> n \<Longrightarrow> unat (w :: u16) < n"
  using unsigned_less [of w, where 'a = nat] by simp

lemma multiple_of_4_less:
  "a mod 4 = 0 \<Longrightarrow> b mod 4 = 0 \<Longrightarrow> a < b \<Longrightarrow> a + 4 \<le> (b :: nat)"
  by presburger

lemma sint_small: "unat (w :: u32) < 2147483648 \<Longrightarrow> sint w = int (unat w)"
proof -
  assume "unat w < 2147483648"
  then have "uint w < 2147483648" by (simp flip: nat_uint_eq add: nat_less_iff)
  then have "signed_take_bit 31 (uint w) = uint w" 
  proof (intro signed_take_bit_int_eq_self)
    have "0 \<le> uint w" by simp
    then show "- (2 ^ 31) \<le> uint w" by (rule order_trans [rotated]) simp
  qed simp
  then show ?thesis by (simp add: sint_uint)
qed

lemma unat_low_bits: "unat (take_bit n (w :: u32)) = unat w mod 2 ^ n"
  by (subst unsigned_take_bit_eq) (rule take_bit_eq_mod)

lemma unat_not_low_bits: "unat (take_bit 3 (NOT (w :: u32))) = 7 - unat w mod 8"
proof -
  have "take_bit 3 (NOT w) = mask 3 - take_bit 3 w" by (rule take_bit_not_eq_mask_diff)
  moreover have "take_bit 3 w \<le> mask 3" by (metis take_bit_eq_mask word_and_le1)
  moreover have "unat (mask 3 :: u32) = 7" by (simp add: mask_eq_exp_minus_1)
  moreover have "unat (take_bit 3 w) = unat w mod 8" using unat_low_bits [of 3 w] by simp
  ultimately show ?thesis by (simp add: unat_sub_le)
qed

lemma align_down_4: "unat ((w :: u32) AND NOT 3) = 4 * (unat w div 4)"
proof -
  have "w AND NOT 3 = push_bit 2 (drop_bit 2 w)"
  proof (rule bit_word_eqI)
    fix n
    have m: "(3 :: u32) = mask 2" by (simp add: mask_eq_exp_minus_1)
    show "bit (w AND NOT 3) n \<longleftrightarrow> bit (push_bit 2 (drop_bit 2 w)) n" if "n < LENGTH(32)"
      using that le_add_diff_inverse [of 2 n] unfolding m by (auto simp: bit_simps)
  qed
  moreover have "unat (push_bit 2 (drop_bit 2 w)) = 4 * (unat w div 4)"
  proof -
    have "unat w < 4294967296" by (rule even_word32_bound)
    then have "4 * (unat w div 4) < 4294967296" by (metis div_mult_self_is_m le_less_trans
        mult.commute times_div_less_eq_dividend zero_less_numeral)
    then show ?thesis
      by (simp add: push_bit_eq_mult unat_word_ariths drop_bit_eq_div unat_div mult.commute)
  qed
  ultimately show ?thesis by simp
qed

section \<open>Ordered maps\<close>

text \<open>\<open>std::map\<close> as the list of its entries in key order.\<close>

fun smap_put :: "'k::linorder \<Rightarrow> 'v \<Rightarrow> ('k \<times> 'v) list \<Rightarrow> ('k \<times> 'v) list" where
  "smap_put k v [] = [(k, v)]"
| "smap_put k v ((k', v') # xs) =
     (if k < k' then (k, v) # (k', v') # xs
      else if k = k' then (k, v) # xs
      else (k', v') # smap_put k v xs)"

definition smap_ok :: "('k::linorder \<times> 'v) list \<Rightarrow> bool" where
  "smap_ok xs \<longleftrightarrow> sorted_wrt (<) (map fst xs)"

lemma map_of_smap_put [simp]: "map_of (smap_put k v xs) = (map_of xs)(k \<mapsto> v)"
  by (induction k v xs rule: smap_put.induct) auto

lemma keys_smap_put [simp]: "fst ` set (smap_put k v xs) = insert k (fst ` set xs)"
  by (induction k v xs rule: smap_put.induct) auto

lemma smap_ok_put [simp]: "smap_ok xs \<Longrightarrow> smap_ok (smap_put k v xs)"
proof (induction k v xs rule: smap_put.induct)
  case (2 k v k' v' xs)
  then show ?case
    using keys_smap_put [of k v xs] unfolding smap_ok_def by (auto simp flip: set_map)
qed (simp add: smap_ok_def)

lemma smap_ok_distinct: "smap_ok xs \<Longrightarrow> distinct (map fst xs)"
  by (auto simp: smap_ok_def strict_sorted_iff)

lemma set_smap_put: "set (smap_put k v xs) \<subseteq> insert (k, v) (set xs)"
  by (induction k v xs rule: smap_put.induct) auto

section \<open>Circular buffers\<close>

text \<open>The entries of a buffer with a read and a write index that wrap around.\<close>

definition cq_count :: "nat \<Rightarrow> nat \<Rightarrow> nat \<Rightarrow> nat" where
  "cq_count n r w = (w + n - r) mod n"

definition cq_list :: "'a list \<Rightarrow> nat \<Rightarrow> nat \<Rightarrow> 'a list" where
  "cq_list buf r w = map (\<lambda>i. buf ! ((r + i) mod length buf)) [0..<cq_count (length buf) r w]"

lemma cq_count_cases:
  assumes "r < n" and "w < n"
  shows "cq_count n r w = (if r \<le> w then w - r else w + n - r)"
proof (cases "r \<le> w")
  case True
  then have e: "w + n - r = (w - r) + n" by simp
  show ?thesis unfolding cq_count_def if_P [OF True] e using assms by simp
qed (use assms in \<open>simp add: cq_count_def\<close>)

lemma cq_list_empty: "r < length buf \<Longrightarrow> w < length buf \<Longrightarrow> cq_list buf r w = [] \<longleftrightarrow> r = w"
  by (auto simp: cq_list_def cq_count_cases)

lemma length_cq_list: "r < length buf \<Longrightarrow> w < length buf \<Longrightarrow> length (cq_list buf r w) < length buf"
  by (simp add: cq_list_def cq_count_cases) linarith

lemma cq_list_pop:
  assumes "r < length buf" and "w < length buf" and "r \<noteq> w"
  shows "cq_list buf r w = buf ! r # cq_list buf ((r + 1) mod length buf) w"
proof -
  let ?n = "length buf"
  have r1: "(r + 1) mod ?n = (if r + 1 = ?n then 0 else r + 1)" using assms(1) by auto
  have c: "cq_count ?n r w = Suc (cq_count ?n ((r + 1) mod ?n) w)"
    using assms unfolding r1 by (subst (1 2) cq_count_cases) auto
  show ?thesis
    unfolding cq_list_def c using assms(1)
    by (simp add: upt_conv_Cons map_Suc_upt [symmetric] mod_add_left_eq del: upt_Suc)
qed

lemma cq_list_push:
  assumes "r < length buf" and "w < length buf" and "Suc (length (cq_list buf r w)) < length buf"
  shows "cq_list (buf[w := x]) r ((w + 1) mod length buf) = cq_list buf r w @ [x]"
proof -
  let ?n = "length buf" and ?k = "cq_count (length buf) r w"
  have w1: "(w + 1) mod ?n = (if w + 1 = ?n then 0 else w + 1)" using assms(2) by auto
  have k: "Suc ?k < ?n" using assms(3) by (simp add: cq_list_def)
  have c: "cq_count ?n r ((w + 1) mod ?n) = Suc ?k"
  proof -
    have lt: "(if w + 1 = ?n then 0 else w + 1) < ?n" using assms(2) by auto
    show ?thesis
      using assms(1,2) k unfolding w1 cq_count_cases [OF assms(1) lt] cq_count_cases [OF assms(1,2)]
      by (auto split: if_splits)
  qed
  have at_k: "(r + ?k) mod ?n = w"
    using assms(1,2) by (cases "r \<le> w") (simp_all add: cq_count_cases)
  have "(r + i) mod ?n \<noteq> w" if "i < ?k" for i
  proof -
    have m: "(r + j) mod ?n = (if r + j < ?n then r + j else r + j - ?n)" if "j < ?n" for j
      using assms(1) that by (simp add: mod_if)
    have "(r + i) mod ?n \<noteq> (r + ?k) mod ?n"
      using that k m [of i] m [of ?k] by (auto split: if_splits)
    then show ?thesis unfolding at_k .
  qed
  then have "buf[w := x] ! ((r + i) mod ?n) = buf ! ((r + i) mod ?n)" if "i < ?k" for i
    using that by (metis nth_list_update_neq)
  then have "map (\<lambda>i. buf[w := x] ! ((r + i) mod ?n)) [0..<?k] = map (\<lambda>i. buf ! ((r + i) mod ?n)) [0..<?k]"
    by simp
  then show ?thesis
    using at_k assms(2) c by (simp add: cq_list_def)
qed

section \<open>First in, first out\<close>

text \<open>
  What the program's buffers between a producer and a consumer promise. A state represents
  a list of messages; a message that fits is added at the end, the oldest one is taken.
  A schedule is a list of requests, \<open>Some m\<close> to offer \<open>m\<close> and \<open>None\<close> to take; a run
  records the messages accepted and the ones taken.
\<close>

fun fifo_run ::
    "('m \<Rightarrow> 's \<Rightarrow> bool) \<Rightarrow> ('m \<Rightarrow> 's \<Rightarrow> 's) \<Rightarrow> ('s \<Rightarrow> 'm option \<times> 's) \<Rightarrow>
     'm option list \<Rightarrow> 's \<Rightarrow> 'm list \<times> 'm list \<times> 's" where
  "fifo_run fits push pop [] s = ([], [], s)"
| "fifo_run fits push pop (Some m # rs) s =
     (if fits m s then
        (case fifo_run fits push pop rs (push m s) of (acc, out, s') \<Rightarrow> (m # acc, out, s'))
      else fifo_run fits push pop rs s)"
| "fifo_run fits push pop (None # rs) s =
     (case pop s of
        (None, s1) \<Rightarrow> fifo_run fits push pop rs s1
      | (Some m, s1) \<Rightarrow>
          (case fifo_run fits push pop rs s1 of (acc, out, s') \<Rightarrow> (acc, m # out, s')))"

locale fifo =
  fixes rep :: "'s \<Rightarrow> 'm list \<Rightarrow> bool"
    and fits :: "'m \<Rightarrow> 's \<Rightarrow> bool"
    and push :: "'m \<Rightarrow> 's \<Rightarrow> 's"
    and pop :: "'s \<Rightarrow> 'm option \<times> 's"
  assumes push_appends: "rep s ms \<Longrightarrow> fits m s \<Longrightarrow> rep (push m s) (ms @ [m])"
    and pop_head: "rep s (m # ms) \<Longrightarrow> \<exists>s'. pop s = (Some m, s') \<and> rep s' ms"
    and pop_empty: "rep s [] \<Longrightarrow> \<exists>s'. pop s = (None, s') \<and> rep s' []"
begin

lemma run_in_order:
  "rep s ms \<Longrightarrow> fifo_run fits push pop rs s = (acc, out, s') \<Longrightarrow>
     \<exists>left. rep s' left \<and> ms @ acc = out @ left"
proof (induction rs arbitrary: s ms acc out)
  case Nil
  then show ?case by auto
next
  case (Cons r rs)
  show ?case
  proof (cases r)
    case (Some m)
    show ?thesis
    proof (cases "fits m s")
      case True
      then obtain acc' where "fifo_run fits push pop rs (push m s) = (acc', out, s')" "acc = m # acc'"
        using Cons.prems(2) Some by (auto split: prod.splits)
      with Cons.IH [OF push_appends [OF Cons.prems(1) True]] show ?thesis by fastforce
    qed (use Cons Some in simp)
  next
    case None
    show ?thesis
    proof (cases ms)
      case Nil
      then obtain s1 where "pop s = (None, s1)" "rep s1 []" using Cons.prems(1) pop_empty by blast
      with Cons.IH [of s1 "[]"] Cons.prems(2) None Nil show ?thesis by auto
    next
      case (Cons m ms')
      then obtain s1 where s1: "pop s = (Some m, s1)" "rep s1 ms'" using Cons.prems(1) pop_head by blast
      then obtain out' where "fifo_run fits push pop rs s1 = (acc, out', s')" "out = m # out'"
        using Cons.prems(2) None by (auto split: prod.splits)
      with Cons.IH [OF s1(2)] Cons show ?thesis by fastforce
    qed
  qed
qed

end

end
