(* ===== verification/Posix_IO.thy ===== *)
theory Posix_IO
  imports Phoenix_Prelude
begin

text \<open>
  The program's loops around the kernel's transfer calls. A call may move fewer bytes
  than asked for, be interrupted by a signal, or fail; which of these happens is the
  environment's choice, so a run carries the list of answers the kernel is going to
  give. The loops are structurally recursive on that list: a run that uses up its
  answers before the buffer is done is a connection that was lost.

  \<^item> \<open>recv_exact\<close>: \<open>WebSocket::read_exact\<close> (\<^verbatim>\<open>src/webserver/websocket.cpp\<close>)
  \<^item> \<open>send_all\<close>: \<open>send_all\<close> (the same file)
  \<^item> \<open>read_all\<close>, \<open>write_all\<close>: the overlay's helpers (\<^verbatim>\<open>executor/host/overlay.cpp\<close>)

  The lemmas say that the loops hide short transfers and interruptions completely
  (the result does not depend on how the bytes were cut up) and what is left behind
  when a transfer fails half way.
\<close>

section \<open>The kernel's answers\<close>

datatype sys_result =
    Transfer nat  \<comment> \<open>this many bytes were moved; 0 on a read is end of file\<close>
  | Interrupted   \<comment> \<open>-1 with \<open>EINTR\<close>\<close>
  | Failure       \<comment> \<open>-1 with any other \<open>errno\<close>\<close>

fun moves :: "sys_result \<Rightarrow> bool" where
  "moves (Transfer k) = (0 < k)"
| "moves Interrupted = False"
| "moves Failure = False"

fun harmless :: "sys_result \<Rightarrow> bool" where
  "harmless (Transfer k) = (0 < k)"
| "harmless Interrupted = True"
| "harmless Failure = False"

text \<open>Enough answers that move something to transfer \<open>n\<close> bytes, and none that fails.\<close>

definition reliable :: "nat \<Rightarrow> sys_result list \<Rightarrow> bool" where
  "reliable n cs \<longleftrightarrow> list_all harmless cs \<and> n \<le> length (filter moves cs)"

section \<open>The loops\<close>

fun recv_exact ::
    "sys_result list \<Rightarrow> bytes \<Rightarrow> nat \<Rightarrow> bytes option \<times> sys_result list \<times> bytes" where
  "recv_exact cs inb 0 = (Some [], cs, inb)"
| "recv_exact [] inb (Suc n) = (None, [], inb)"
| "recv_exact (Interrupted # cs) inb (Suc n) = recv_exact cs inb (Suc n)"
| "recv_exact (Failure # cs) inb (Suc n) = (None, cs, inb)"
| "recv_exact (Transfer k # cs) inb (Suc n) =
     (let r = min k (min (Suc n) (length inb)) in
      if r = 0 then (None, cs, inb)
      else case recv_exact cs (drop r inb) (Suc n - r) of
             (None, cs', inb') \<Rightarrow> (None, cs', inb')
           | (Some bs, cs', inb') \<Rightarrow> (Some (take r inb @ bs), cs', inb'))"

fun send_all :: "sys_result list \<Rightarrow> bytes \<Rightarrow> bytes \<Rightarrow> bool \<times> sys_result list \<times> bytes" where
  "send_all cs out [] = (True, cs, out)"
| "send_all [] out (b # bs) = (False, [], out)"
| "send_all (Interrupted # cs) out (b # bs) = send_all cs out (b # bs)"
| "send_all (Failure # cs) out (b # bs) = (False, cs, out)"
| "send_all (Transfer k # cs) out (b # bs) =
     send_all cs (out @ take k (b # bs)) (drop k (b # bs))"

definition read_all :: "sys_result list \<Rightarrow> bytes \<Rightarrow> nat \<Rightarrow> nat \<Rightarrow> bytes option \<times> sys_result list" where
  "read_all cs dat n pos =
     (case recv_exact cs (drop pos dat) n of (r, cs', _) \<Rightarrow> (r, cs'))"

text \<open>\<open>pwrite\<close> beyond the end of a file leaves zeros in between.\<close>

definition file_put :: "bytes \<Rightarrow> nat \<Rightarrow> bytes \<Rightarrow> bytes" where
  "file_put dat pos bs = overwrite (dat @ replicate (pos - length dat) 0) pos bs"

fun write_all :: "sys_result list \<Rightarrow> bytes \<Rightarrow> nat \<Rightarrow> bytes \<Rightarrow> bool \<times> sys_result list \<times> bytes" where
  "write_all cs dat pos [] = (True, cs, dat)"
| "write_all [] dat pos (b # bs) = (False, [], dat)"
| "write_all (Interrupted # cs) dat pos (b # bs) = write_all cs dat pos (b # bs)"
| "write_all (Failure # cs) dat pos (b # bs) = (False, cs, dat)"
| "write_all (Transfer k # cs) dat pos (b # bs) =
     (if k = 0 then (False, cs, dat)
      else write_all cs (file_put dat pos (take k (b # bs))) (pos + min k (length (b # bs)))
             (drop k (b # bs)))"

section \<open>Exact reads\<close>

lemma recv_exact_Some:
  "recv_exact cs inb n = (Some bs, cs', inb') \<Longrightarrow>
     n \<le> length inb \<and> bs = take n inb \<and> inb' = drop n inb"
proof (induction cs inb n arbitrary: bs cs' inb' rule: recv_exact.induct)
  case (5 k cs inb n)
  define r where "r = min k (min (Suc n) (length inb))"
  from "5.prems" have r: "r \<noteq> 0" and rec: "\<exists>bs2. recv_exact cs (drop r inb) (Suc n - r)
      = (Some bs2, cs', inb') \<and> bs = take r inb @ bs2"
    by (auto simp: r_def Let_def split: if_splits prod.splits option.splits)
  then obtain bs2 where e: "recv_exact cs (drop r inb) (Suc n - r) = (Some bs2, cs', inb')"
    and bs: "bs = take r inb @ bs2" by blast
  have le: "r \<le> Suc n" "r \<le> length inb" by (auto simp: r_def)
  from "5.IH" [OF refl _ e [unfolded r_def]] r
  have ih: "Suc n - r \<le> length (drop r inb) \<and> bs2 = take (Suc n - r) (drop r inb)
      \<and> inb' = drop (Suc n - r) (drop r inb)"
    by (auto simp: r_def)
  moreover have "take r inb @ take (Suc n - r) (drop r inb) = take (Suc n) inb"
    using le by (metis le_add_diff_inverse take_add)
  ultimately show ?case using le bs by auto
qed auto

lemma recv_exact_length:
  "recv_exact cs inb n = (r, cs', inb') \<Longrightarrow> length inb' \<le> length inb"
proof (induction cs inb n arbitrary: r cs' inb' rule: recv_exact.induct)
  case (5 k cs inb n)
  then show ?case
    by (auto simp: Let_def split: if_splits prod.splits option.splits)
       (metis diff_le_self le_trans length_drop)+
qed auto

lemma reliable_Cons:
  "reliable n (c # cs) \<Longrightarrow> harmless c \<and> reliable (if moves c then n - 1 else n) cs"
  by (auto simp: reliable_def split: if_splits)

lemma reliable_mono: "reliable n cs \<Longrightarrow> m \<le> n \<Longrightarrow> reliable m cs"
  by (auto simp: reliable_def)

lemma recv_exact_reliable:
  assumes "reliable (n + m) cs" and "n \<le> length inb"
  shows "\<exists>cs'. recv_exact cs inb n = (Some (take n inb), cs', drop n inb) \<and> reliable m cs'"
  using assms
proof (induction cs inb n rule: recv_exact.induct)
  case (2 inb n)
  then show ?case by (simp add: reliable_def)
next
  case (3 cs inb n)
  then show ?case using reliable_Cons [of _ Interrupted cs] by fastforce
next
  case (4 cs inb n)
  then show ?case by (simp add: reliable_def)
next
  case (5 k cs inb n)
  define r where "r = min k (min (Suc n) (length inb))"
  have k: "0 < k" and rel: "reliable (Suc n + m - 1) cs"
    using "5.prems"(1) reliable_Cons [of "Suc n + m" "Transfer k" cs] by auto
  have r: "0 < r" "r \<le> Suc n" "r \<le> length inb" using k "5.prems"(2) by (auto simp: r_def)
  have rel': "reliable (Suc n - r + m) cs"
    by (rule reliable_mono [OF rel]) (use r in linarith)
  have le: "Suc n - r \<le> length (drop r inb)" using "5.prems"(2) by simp
  have nz: "r \<noteq> 0" using r by simp
  from "5.IH" [OF r_def nz rel' le] obtain cs' where e: "recv_exact cs (drop r inb) (Suc n - r)
      = (Some (take (Suc n - r) (drop r inb)), cs', drop (Suc n - r) (drop r inb))"
    and "reliable m cs'" by blast
  moreover have "take r inb @ take (Suc n - r) (drop r inb) = take (Suc n) inb"
    using r by (metis le_add_diff_inverse take_add)
  moreover have "drop (Suc n - r) (drop r inb) = drop (Suc n) inb" using r by simp
  ultimately show ?case using nz by (simp add: r_def [symmetric] Let_def)
qed auto

section \<open>Complete sends\<close>

lemma take_then_take: "take k xs @ take j (drop k xs) = take (k + j) xs"
  by (simp add: take_add)

lemma send_all_prefix:
  "send_all cs out bs = (ok, cs', out') \<Longrightarrow>
     (\<exists>k. out' = out @ take k bs) \<and> (ok \<longrightarrow> out' = out @ bs)"
proof (induction cs out bs arbitrary: ok cs' out' rule: send_all.induct)
  case (5 k cs out b bs)
  from "5.prems" have "send_all cs (out @ take k (b # bs)) (drop k (b # bs)) = (ok, cs', out')"
    by simp
  from "5.IH" [OF this] obtain j where
    "out' = (out @ take k (b # bs)) @ take j (drop k (b # bs))"
    "ok \<longrightarrow> out' = (out @ take k (b # bs)) @ drop k (b # bs)"
    by blast
  then show ?case
    by (metis append_assoc append_take_drop_id take_then_take)
qed (auto intro: exI [of _ 0])

lemma send_all_reliable:
  assumes "reliable (length bs + m) cs"
  shows "\<exists>cs'. send_all cs out bs = (True, cs', out @ bs) \<and> reliable m cs'"
  using assms
proof (induction cs out bs rule: send_all.induct)
  case (2 out b bs)
  then show ?case by (simp add: reliable_def)
next
  case (3 cs out b bs)
  then show ?case using reliable_Cons [of _ Interrupted cs] by fastforce
next
  case (4 cs out b bs)
  then show ?case by (simp add: reliable_def)
next
  case (5 k cs out b bs)
  have "0 < k" and rel: "reliable (length (b # bs) + m - 1) cs"
    using "5.prems" reliable_Cons [of "length (b # bs) + m" "Transfer k" cs] by auto
  have "reliable (length (drop k (b # bs)) + m) cs"
    by (rule reliable_mono [OF rel]) (use \<open>0 < k\<close> in simp)
  from "5.IH" [OF this] show ?case by simp
qed auto

section \<open>Writing a file\<close>

lemma file_put_inside:
  "pos \<le> length dat \<Longrightarrow> file_put dat pos bs = overwrite dat pos bs"
  by (simp add: file_put_def)

text \<open>
  Whatever happens, the bytes before the write position survive and what is in the
  file from there on is a prefix of the data; a successful write stored all of it.
\<close>

lemma write_all_at_end_aux:
  "write_all cs dat pos bs = (ok, cs', dat') \<Longrightarrow> pos = length dat \<Longrightarrow>
     (\<exists>k. dat' = dat @ take k bs) \<and> (ok \<longrightarrow> dat' = dat @ bs)"
proof (induction cs dat pos bs arbitrary: ok cs' dat' rule: write_all.induct)
  case (5 k cs dat pos b bs)
  show ?case
  proof (cases "k = 0")
    case True
    with "5.prems" show ?thesis by (auto intro: exI [of _ 0])
  next
    case False
    define f where "f = dat @ take k (b # bs)"
    have put: "file_put dat pos (take k (b # bs)) = f"
      using "5.prems"(2) by (simp add: file_put_inside overwrite_end f_def)
    have len: "pos + min k (length (b # bs)) = length f"
      using "5.prems"(2) by (simp add: f_def)
    have e: "write_all cs f (length f) (drop k (b # bs)) = (ok, cs', dat')"
      using "5.prems"(1) False put len by simp
    from "5.IH" [OF False, unfolded put len, OF e refl]
    obtain j where "dat' = f @ take j (drop k (b # bs))" "ok \<longrightarrow> dat' = f @ drop k (b # bs)"
      by blast
    then show ?thesis
      unfolding f_def by (metis append_assoc append_take_drop_id take_then_take)
  qed
qed (auto intro: exI [of _ 0])

lemmas write_all_at_end = write_all_at_end_aux [OF _ refl]

lemma read_all_reliable:
  assumes "reliable (n + m) cs" and "pos + n \<le> length dat"
  shows "\<exists>cs'. read_all cs dat n pos = (Some (slice pos n dat), cs') \<and> reliable m cs'"
proof -
  from assms recv_exact_reliable [of n m cs "drop pos dat"]
  obtain cs' where "recv_exact cs (drop pos dat) n
      = (Some (take n (drop pos dat)), cs', drop n (drop pos dat))" "reliable m cs'"
    by (auto simp: le_diff_conv2)
  then show ?thesis by (simp add: read_all_def slice_def)
qed

lemma read_all_Some:
  "read_all cs dat n pos = (Some bs, cs') \<Longrightarrow> n \<le> length dat - pos \<and> bs = slice pos n dat"
  by (auto simp: read_all_def slice_def split: prod.splits dest: recv_exact_Some)

end
