(* ===== verification/Web_Socket.thy ===== *)
theory Web_Socket
  imports Posix_IO
begin

text \<open>
  The in-process WebSocket of \<^verbatim>\<open>src/webserver/websocket.cpp\<close>: frames in and out, the
  reassembly of fragmented messages, the closing handshake. One connection is a record:
  the bytes the peer has sent and not yet been read, the bytes sent to the peer, the
  kernel's answers to come, the flags and the reassembly state of \<open>run_read_loop\<close>, and
  the callbacks that were made. The loop is one thread's; sends from other threads
  happen between its steps (they take \<open>write_mutex_\<close>).

  Shown: reading what \<open>send_frame_locked\<close> wrote gives back the frame however the
  kernel cuts the stream up, a masked client frame is unmasked, no payload above
  32 MB is accepted, a fragmented message is delivered once and whole, the read loop
  ends with the connection closed and one close callback, and at most one close frame
  is ever sent.
\<close>

section \<open>The connection\<close>

datatype ws_event =
    OnText bytes
  | OnBinary bytes
  | OnClose

record websocket =
  ws_calls :: "sys_result list"
  ws_inbound :: bytes
  ws_outbound :: bytes
  ws_shut_wr :: bool
  ws_closed :: bool
  ws_data_opcode :: u8
  ws_data_buffer :: bytes
  ws_on_text :: bool     \<comment> \<open>\<open>on_text_\<close> is set\<close>
  ws_on_binary :: bool
  ws_on_close :: bool
  ws_events :: "ws_event list"

definition OP_CONTINUATION :: u8 where "OP_CONTINUATION = 0x0"
definition OP_TEXT :: u8 where "OP_TEXT = 0x1"
definition OP_BINARY :: u8 where "OP_BINARY = 0x2"
definition OP_CLOSE :: u8 where "OP_CLOSE = 0x8"
definition OP_PING :: u8 where "OP_PING = 0x9"
definition OP_PONG :: u8 where "OP_PONG = 0xA"

definition MAX_FRAME :: u64 where "MAX_FRAME = 32 * 1024 * 1024"

lemmas opcode_defs =
  OP_CONTINUATION_def OP_TEXT_def OP_BINARY_def OP_CLOSE_def OP_PING_def OP_PONG_def

section \<open>Frames in\<close>

definition ws_read_exact :: "nat \<Rightarrow> websocket \<Rightarrow> bytes option \<times> websocket" where
  "ws_read_exact n w =
     (case recv_exact (ws_calls w) (ws_inbound w) n of
        (r, cs, inb) \<Rightarrow> (r, w\<lparr>ws_calls := cs, ws_inbound := inb\<rparr>))"

definition be_len :: "bytes \<Rightarrow> u64" where
  "be_len ext = foldl (\<lambda>p b. push_bit 8 p OR ucast b) 0 ext"

text \<open>The extended payload length: 2 bytes after 126, 8 bytes after 127.\<close>

definition read_plen :: "u64 \<Rightarrow> websocket \<Rightarrow> u64 option \<times> websocket" where
  "read_plen plen w =
     (if plen = 126 then
        (case ws_read_exact 2 w of
           (None, w1) \<Rightarrow> (None, w1)
         | (Some ext, w1) \<Rightarrow> (Some (push_bit 8 (ucast (ext ! 0)) OR ucast (ext ! 1)), w1))
      else if plen = 127 then
        (case ws_read_exact 8 w of
           (None, w1) \<Rightarrow> (None, w1)
         | (Some ext, w1) \<Rightarrow> (Some (be_len ext), w1))
      else (Some plen, w))"

definition read_mask :: "bool \<Rightarrow> websocket \<Rightarrow> bytes option \<times> websocket" where
  "read_mask masked w = (if masked then ws_read_exact 4 w else (Some [0, 0, 0, 0], w))"

definition unmask :: "bytes \<Rightarrow> bytes \<Rightarrow> bytes" where
  "unmask key payload = map (\<lambda>i. payload ! i XOR key ! (i mod 4)) [0..<length payload]"

definition read_payload :: "bool \<Rightarrow> bytes \<Rightarrow> u64 \<Rightarrow> websocket \<Rightarrow> bytes option \<times> websocket" where
  "read_payload masked key plen w =
     (if MAX_FRAME < plen then (None, w)
      else if 0 < plen then
        (case ws_read_exact (unat plen) w of
           (None, w1) \<Rightarrow> (None, w1)
         | (Some payload, w1) \<Rightarrow> (Some (if masked then unmask key payload else payload), w1))
      else (Some [], w))"

definition read_frame :: "websocket \<Rightarrow> (u8 \<times> bool \<times> bytes) option \<times> websocket" where
  "read_frame w =
     (case ws_read_exact 2 w of
        (None, w1) \<Rightarrow> (None, w1)
      | (Some hdr, w1) \<Rightarrow>
          (let fin = (hdr ! 0 AND 0x80 \<noteq> 0); opcode = hdr ! 0 AND 0x0F;
               masked = (hdr ! 1 AND 0x80 \<noteq> 0); plen0 = ucast (hdr ! 1 AND 0x7F) in
           case read_plen plen0 w1 of
             (None, w2) \<Rightarrow> (None, w2)
           | (Some plen, w2) \<Rightarrow>
               (case read_mask masked w2 of
                  (None, w3) \<Rightarrow> (None, w3)
                | (Some key, w3) \<Rightarrow>
                    (case read_payload masked key plen w3 of
                       (None, w4) \<Rightarrow> (None, w4)
                     | (Some payload, w4) \<Rightarrow> (Some (opcode, fin, payload), w4)))))"

section \<open>Frames out\<close>

definition ws_send_all :: "bytes \<Rightarrow> websocket \<Rightarrow> bool \<times> websocket" where
  "ws_send_all bs w =
     (case send_all (ws_calls w) (ws_outbound w) bs of
        (ok, cs, out) \<Rightarrow> (ok, w\<lparr>ws_calls := cs, ws_outbound := out\<rparr>))"

definition frame_header :: "u8 \<Rightarrow> nat \<Rightarrow> bytes" where
  "frame_header opcode sz =
     (let hdr0 = 0x80 OR (opcode AND 0x0F); big = of_nat sz :: u64 in
      if sz < 126 then [hdr0, of_nat sz]
      else if sz < 65536 then
        [hdr0, 126, ucast (drop_bit 8 big AND 0xFF), ucast (big AND 0xFF)]
      else hdr0 # 127 # map (\<lambda>i. ucast (drop_bit (8 * (7 - i)) big AND 0xFF)) [0..<8])"

definition send_frame_locked :: "u8 \<Rightarrow> bytes \<Rightarrow> websocket \<Rightarrow> bool \<times> websocket" where
  "send_frame_locked opcode data w =
     (case ws_send_all (frame_header opcode (length data)) w of
        (False, w1) \<Rightarrow> (False, w1)
      | (True, w1) \<Rightarrow> if 0 < length data then ws_send_all data w1 else (True, w1))"

definition send_text :: "bytes \<Rightarrow> websocket \<Rightarrow> websocket" where
  "send_text txt w =
     (if ws_closed w then w
      else case send_frame_locked OP_TEXT txt w of
             (ok, w1) \<Rightarrow> if ok then w1 else w1\<lparr>ws_closed := True\<rparr>)"

definition send_binary :: "bytes \<Rightarrow> websocket \<Rightarrow> websocket" where
  "send_binary data w =
     (if ws_closed w then w
      else case send_frame_locked OP_BINARY data w of
             (ok, w1) \<Rightarrow> if ok then w1 else w1\<lparr>ws_closed := True\<rparr>)"

definition do_close :: "u16 \<Rightarrow> bytes \<Rightarrow> websocket \<Rightarrow> websocket" where
  "do_close code reason w =
     (if ws_closed w then w
      else (snd (send_frame_locked OP_CLOSE (hi16 code # lo16 code # reason)
                   (w\<lparr>ws_closed := True\<rparr>)))\<lparr>ws_shut_wr := True\<rparr>)"

definition ws_close :: "websocket \<Rightarrow> websocket" where
  "ws_close w = do_close 1000 [] w"

section \<open>The read loop\<close>

definition deliver :: "u8 \<Rightarrow> bytes \<Rightarrow> websocket \<Rightarrow> websocket" where
  "deliver opcode payload w =
     (if opcode = OP_TEXT then
        (if ws_on_text w then w\<lparr>ws_events := ws_events w @ [OnText payload]\<rparr> else w)
      else if opcode = OP_BINARY then
        (if ws_on_binary w then w\<lparr>ws_events := ws_events w @ [OnBinary payload]\<rparr> else w)
      else w)"

definition protocol_error :: bytes where
  "protocol_error = map (\<lambda>c. of_nat (of_char c)) ''protocol error''"

definition dispatch_frame :: "u8 \<Rightarrow> bool \<Rightarrow> bytes \<Rightarrow> websocket \<Rightarrow> websocket" where
  "dispatch_frame opcode fin payload w =
     (if opcode = OP_CONTINUATION then
        (if ws_data_opcode w = 0 then w
         else let w1 = w\<lparr>ws_data_buffer := ws_data_buffer w @ payload\<rparr> in
              if fin then
                (deliver (ws_data_opcode w1) (ws_data_buffer w1) w1)
                  \<lparr>ws_data_buffer := [], ws_data_opcode := 0\<rparr>
              else w1)
      else if opcode = OP_TEXT \<or> opcode = OP_BINARY then
        (if fin then deliver opcode payload w
         else w\<lparr>ws_data_opcode := opcode, ws_data_buffer := payload\<rparr>)
      else if opcode = OP_PING then
        (case send_frame_locked OP_PONG payload w of
           (ok, w1) \<Rightarrow> if ok then w1 else w1\<lparr>ws_closed := True\<rparr>)
      else if opcode = OP_PONG then w
      else if opcode = OP_CLOSE then
        (if 2 \<le> length payload
         then do_close (be16 (payload ! 0) (payload ! 1)) (drop 2 payload) w
         else do_close 1000 [] w)
      else do_close 1002 protocol_error w)"

section \<open>Reading only consumes the stream\<close>

lemma ws_read_exact_Some:
  "ws_read_exact n w = (Some bs, w') \<Longrightarrow>
     n \<le> length (ws_inbound w) \<and> bs = take n (ws_inbound w)
     \<and> ws_inbound w' = drop n (ws_inbound w)"
  by (auto simp: ws_read_exact_def split: prod.splits dest: recv_exact_Some)

text \<open>\<open>reads w w'\<close>: only kernel answers and bytes of the stream were used up.\<close>

definition reads :: "websocket \<Rightarrow> websocket \<Rightarrow> bool" where
  "reads w w' \<longleftrightarrow> w' = w\<lparr>ws_calls := ws_calls w', ws_inbound := ws_inbound w'\<rparr>
     \<and> length (ws_inbound w') \<le> length (ws_inbound w)"

lemma reads_refl [simp, intro]: "reads w w"
  by (simp add: reads_def)

lemma reads_trans [trans]: "reads a b \<Longrightarrow> reads b c \<Longrightarrow> reads a c"
  by (cases a; cases b; cases c) (auto simp: reads_def)

lemma ws_read_exact_rest [intro]: "ws_read_exact n w = (r, w') \<Longrightarrow> reads w w'"
  by (auto simp: ws_read_exact_def reads_def split: prod.splits dest: recv_exact_length)

lemma read_plen_rest [intro]: "read_plen p w = (r, w') \<Longrightarrow> reads w w'"
  by (auto simp: read_plen_def split: if_splits prod.splits option.splits)

lemma read_mask_rest [intro]: "read_mask m w = (r, w') \<Longrightarrow> reads w w'"
  by (auto simp: read_mask_def split: if_splits)

lemma read_payload_rest [intro]: "read_payload m k p w = (r, w') \<Longrightarrow> reads w w'"
  by (auto simp: read_payload_def split: if_splits prod.splits option.splits)

lemmas read_rest = ws_read_exact_rest read_plen_rest read_mask_rest read_payload_rest

lemma read_frame_rest: "read_frame w = (r, w') \<Longrightarrow> reads w w'"
  by (auto simp: read_frame_def Let_def split: prod.splits option.splits
      dest!: read_rest intro: reads_trans)

text \<open>A frame read takes at least its two header bytes off the stream.\<close>

lemma read_frame_consumes:
  assumes "read_frame w = (Some f, w')"
  shows "length (ws_inbound w') + 2 \<le> length (ws_inbound w)"
proof -
  from assms obtain hdr w1 where h: "ws_read_exact 2 w = (Some hdr, w1)" and "reads w1 w'"
    by (auto simp: read_frame_def Let_def split: prod.splits option.splits
        dest!: read_plen_rest read_mask_rest read_payload_rest intro: reads_trans)
  then show ?thesis using ws_read_exact_Some [OF h] by (auto simp: reads_def)
qed

text \<open>\<open>sends w w'\<close>: only kernel answers were used up and bytes sent.\<close>

definition sends :: "websocket \<Rightarrow> websocket \<Rightarrow> bool" where
  "sends w w' \<longleftrightarrow> w' = w\<lparr>ws_calls := ws_calls w', ws_outbound := ws_outbound w'\<rparr>
     \<and> (\<exists>bs. ws_outbound w' = ws_outbound w @ bs)"

lemma sends_refl [simp, intro]: "sends w w"
  by (simp add: sends_def)

lemma sends_trans [trans]: "sends a b \<Longrightarrow> sends b c \<Longrightarrow> sends a c"
  by (cases a; cases b; cases c) (auto simp: sends_def)

lemma ws_send_all_sends [intro]: "ws_send_all bs w = (ok, w') \<Longrightarrow> sends w w'"
  by (auto simp: ws_send_all_def sends_def split: prod.splits dest!: send_all_prefix)

lemma send_frame_locked_sends [intro]: "send_frame_locked op data w = (ok, w') \<Longrightarrow> sends w w'"
  by (auto simp: send_frame_locked_def split: prod.splits bool.splits if_splits
      dest!: ws_send_all_sends intro: sends_trans)

lemma sends_fields:
  assumes "sends w w'"
  shows "ws_inbound w' = ws_inbound w" "ws_closed w' = ws_closed w" "ws_events w' = ws_events w"
    "ws_data_opcode w' = ws_data_opcode w" "ws_data_buffer w' = ws_data_buffer w"
    "ws_on_text w' = ws_on_text w" "ws_on_binary w' = ws_on_binary w"
    "ws_on_close w' = ws_on_close w" "ws_shut_wr w' = ws_shut_wr w"
  using assms by (cases w; cases w'; simp add: sends_def)+

lemma reads_fields:
  assumes "reads w w'"
  shows "ws_outbound w' = ws_outbound w" "ws_closed w' = ws_closed w" "ws_events w' = ws_events w"
    "ws_data_opcode w' = ws_data_opcode w" "ws_data_buffer w' = ws_data_buffer w"
    "ws_on_text w' = ws_on_text w" "ws_on_binary w' = ws_on_binary w"
    "ws_on_close w' = ws_on_close w" "ws_shut_wr w' = ws_shut_wr w"
  using assms by (cases w; cases w'; simp add: reads_def)+

lemma do_close_sends:
  obtains w1 where "sends (w\<lparr>ws_closed := True\<rparr>) w1"
    and "do_close code reason w = (if ws_closed w then w else w1\<lparr>ws_shut_wr := True\<rparr>)"
  by (metis do_close_def prod.collapse send_frame_locked_sends)

lemma do_close_fields [simp]:
  "ws_inbound (do_close code reason w) = ws_inbound w"
  "ws_closed (do_close code reason w)"
  "ws_events (do_close code reason w) = ws_events w"
  "ws_on_close (do_close code reason w) = ws_on_close w"
  by (rule do_close_sends [of w code reason], simp add: sends_fields)+

lemma deliver_fields [simp]:
  "ws_inbound (deliver op payload w) = ws_inbound w"
  "ws_closed (deliver op payload w) = ws_closed w"
  "ws_on_close (deliver op payload w) = ws_on_close w"
  by (simp_all add: deliver_def)

lemma dispatch_frame_fields [simp]:
  "ws_inbound (dispatch_frame op fin payload w) = ws_inbound w"
  "ws_on_close (dispatch_frame op fin payload w) = ws_on_close w"
proof -
  obtain ok w1 where "send_frame_locked OP_PONG payload w = (ok, w1)" "sends w w1"
    using send_frame_locked_sends by (metis surj_pair)
  then show "ws_inbound (dispatch_frame op fin payload w) = ws_inbound w"
    and "ws_on_close (dispatch_frame op fin payload w) = ws_on_close w"
    by (simp_all add: dispatch_frame_def Let_def sends_fields)
qed

definition finish_loop :: "websocket \<Rightarrow> websocket" where
  "finish_loop w =
     (let w1 = w\<lparr>ws_closed := True\<rparr> in
      if ws_on_close w1 then w1\<lparr>ws_events := ws_events w1 @ [OnClose]\<rparr> else w1)"

function read_loop :: "websocket \<Rightarrow> websocket" where
  "read_loop w =
     (if ws_closed w then finish_loop w
      else case read_frame w of
             (None, w1) \<Rightarrow> finish_loop w1
           | (Some (opcode, fin, payload), w1) \<Rightarrow>
               read_loop (dispatch_frame opcode fin payload w1))"
  by pat_completeness auto

termination read_loop
  by (relation "measure (\<lambda>w. length (ws_inbound w))")
     (auto dest: sym [THEN read_frame_consumes])

declare read_loop.simps [simp del]

definition run_read_loop :: "websocket \<Rightarrow> websocket" where
  "run_read_loop w = read_loop (w\<lparr>ws_data_opcode := 0, ws_data_buffer := []\<rparr>)"

section \<open>Reading a reliable stream\<close>

text \<open>
  \<open>feeds w n bs rest\<close>: the stream starts with \<open>bs\<close>, and the kernel's answers suffice to
  read it and \<open>n\<close> bytes more.
\<close>

definition feeds :: "websocket \<Rightarrow> bytes \<Rightarrow> nat \<Rightarrow> bytes \<Rightarrow> bool" where
  "feeds w bs n rest \<longleftrightarrow> ws_inbound w = bs @ rest \<and> reliable (length bs + n) (ws_calls w)"

lemma ws_read_exact_feeds:
  assumes "feeds w (bs @ bs') n rest"
  shows "\<exists>w'. ws_read_exact (length bs) w = (Some bs, w') \<and> reads w w' \<and> feeds w' bs' n rest"
proof -
  have "reliable (length bs + (length bs' + n)) (ws_calls w)" "length bs \<le> length (ws_inbound w)"
    using assms by (auto simp: feeds_def add.assoc)
  from recv_exact_reliable [OF this] obtain cs where
    r: "recv_exact (ws_calls w) (ws_inbound w) (length bs)
      = (Some (take (length bs) (ws_inbound w)), cs, drop (length bs) (ws_inbound w))"
    and "reliable (length bs' + n) cs" by blast
  then show ?thesis using assms by (auto simp: ws_read_exact_def feeds_def reads_def)
qed

lemma feeds_Nil: "feeds w [] n rest \<longleftrightarrow> ws_inbound w = rest \<and> reliable n (ws_calls w)"
  by (simp add: feeds_def)

text \<open>The length field: what a sender writes for a payload of \<open>n\<close> bytes.\<close>

definition len_field :: "nat \<Rightarrow> u8 \<times> bytes" where
  "len_field n =
     (let big = of_nat n :: u64 in
      if n < 126 then (of_nat n, [])
      else if n < 65536 then (126, [ucast (drop_bit 8 big AND 0xFF), ucast (big AND 0xFF)])
      else (127, map (\<lambda>i. ucast (drop_bit (8 * (7 - i)) big AND 0xFF)) [0..<8]))"

lemma frame_header_len_field:
  "frame_header op n = (0x80 OR (op AND 0x0F)) # fst (len_field n) # snd (len_field n)"
  by (simp add: frame_header_def len_field_def Let_def)

lemma ucast_and_255: "(ucast ((x :: u64) AND 0xFF) :: u8) = ucast x"
proof -
  have "x AND 0xFF = take_bit 8 x" by (simp add: take_bit_eq_mask mask_eq_exp_minus_1)
  then show ?thesis
    by (simp only:) (rule bit_word_eqI, simp add: bit_simps)
qed

lemma be_len_step:
  "push_bit 8 (drop_bit (k + 8) (w :: u64)) OR ucast (ucast (drop_bit k w AND 0xFF) :: u8) = drop_bit k w"
proof (rule bit_word_eqI)
  fix n
  show "bit (push_bit 8 (drop_bit (k + 8) w) OR ucast (ucast (drop_bit k w AND 0xFF) :: u8)) n
    \<longleftrightarrow> bit (drop_bit k w) n" if "n < LENGTH(64)"
    using that by (cases "n < 8") (auto simp: ucast_and_255 bit_simps)
qed

lemma be_len_bytes:
  "be_len (map (\<lambda>i. ucast (drop_bit (8 * (7 - i)) (big :: u64) AND 0xFF)) [0..<8]) = big"
proof -
  have l: "[0..<8] = [0, 1, 2, 3, 4, 5, 6, 7::nat]" by (simp add: upt_rec)
  have z: "drop_bit (56 + 8) big = 0" by (rule bit_word_eqI) (simp add: bit_simps)
  note steps = be_len_step [of 56 big, unfolded z] be_len_step [of 48 big] be_len_step [of 40 big]
    be_len_step [of 32 big] be_len_step [of 24 big] be_len_step [of 16 big]
    be_len_step [of 8 big] be_len_step [of 0 big]
  show ?thesis unfolding l be_len_def using steps by simp
qed

section \<open>One frame, whole\<close>

text \<open>
  A frame as a peer may send it: the header byte, the length field with the mask bit,
  the key and the payload combined with the repeated key.
\<close>

definition peer_mask :: "bytes \<Rightarrow> bytes \<Rightarrow> bytes" where
  "peer_mask key payload = map2 (XOR) payload (concat (replicate (length payload) key))"

definition wire_frame :: "bool \<Rightarrow> u8 \<Rightarrow> bytes option \<Rightarrow> bytes \<Rightarrow> bytes" where
  "wire_frame fin op key payload =
     [(if fin then 0x80 else 0) OR (op AND 0x0F),
      (case key of None \<Rightarrow> 0 | Some _ \<Rightarrow> 0x80) OR fst (len_field (length payload))]
     @ snd (len_field (length payload))
     @ (case key of None \<Rightarrow> payload | Some k \<Rightarrow> k @ peer_mask k payload)"

lemma unmask_length [simp]: "length (unmask k p) = length p"
  by (simp add: unmask_def)

lemma repeated_nth: "length k = 4 \<Longrightarrow> i < n * 4 \<Longrightarrow> concat (replicate n k) ! i = k ! (i mod 4)"
proof (induction n arbitrary: i)
  case (Suc n)
  then show ?case
  proof (cases "i < 4")
    case False
    then have "i - 4 < n * 4" "(i - 4) mod 4 = i mod 4" using Suc.prems by (simp_all add: le_mod_geq)
    with False Suc.IH [of "i - 4"] Suc.prems show ?thesis by (simp add: nth_append)
  qed (simp add: nth_append)
qed simp

lemma length_repeated [simp]: "length (concat (replicate n k)) = n * length k"
  by (induction n) simp_all

lemma peer_mask_unmask: "length k = 4 \<Longrightarrow> peer_mask k p = unmask k p"
  by (rule nth_equalityI) (simp_all add: peer_mask_def unmask_def repeated_nth)

lemma length_peer_mask [simp]: "length k = 4 \<Longrightarrow> length (peer_mask k p) = length p"
  by (simp add: peer_mask_unmask)

lemma unmask_unmask [simp]: "unmask k (unmask k p) = p"
  by (rule nth_equalityI) (simp_all add: unmask_def xor.assoc)

lemma wire_frame_header_bits:
  fixes op l :: u8
  assumes "l AND 0x80 = 0"
  shows "((if fin then 0x80 else 0) OR (op AND 0x0F)) AND 0x80 \<noteq> (0 :: u8) \<longleftrightarrow> fin"
    and "((if fin then 0x80 else 0) OR (op AND 0x0F)) AND 0x0F = op AND 0x0F"
    and "((if m then 0x80 else 0) OR l) AND 0x80 \<noteq> (0 :: u8) \<longleftrightarrow> m"
    and "((if m then 0x80 else 0) OR l) AND 0x7F = l AND 0x7F"
  using assms by (simp_all add: bit.conj_disj_distrib2 and.assoc)

lemma len_field_small: "n < 126 \<Longrightarrow> len_field n = (of_nat n, [])"
  by (simp add: len_field_def)

lemma of_nat_u8_bit7:
  assumes "n < 128"
  shows "(of_nat n :: u8) AND 0x80 = 0" and "(of_nat n :: u8) AND 0x7F = of_nat n"
proof -
  have "\<not> bit n 7" using assms by (simp add: bit_iff_odd)
  then have "\<not> bit (of_nat n :: u8) 7" by (simp only: bit_of_nat_iff) blast
  moreover have "(0x80 :: u8) = 2 ^ 7" by simp
  ultimately show "(of_nat n :: u8) AND 0x80 = 0"
    by (simp only: and_exp_eq_0_iff_not_bit not_False_eq_True)
  have "(of_nat n :: u8) AND 0x7F = take_bit 7 (of_nat n)"
    by (simp add: take_bit_eq_mask mask_eq_exp_minus_1)
  also have "\<dots> = of_nat (take_bit 7 n)"
    by (rule bit_word_eqI) (auto simp: bit_simps)
  also have "take_bit 7 n = n" using assms by (simp add: take_bit_nat_eq_self_iff)
  finally show "(of_nat n :: u8) AND 0x7F = of_nat n" .
qed

lemma len_field_bit7: "fst (len_field n) AND 0x80 = 0"
  by (cases "n < 126") (simp_all add: of_nat_u8_bit7 len_field_def Let_def)

lemma len_field_base:
  "ucast (fst (len_field n) AND 0x7F :: u8)
     = (if n < 126 then of_nat n else if n < 65536 then 126 else 127 :: u64)"
proof (cases "n < 126")
  case True
  then have "unat (of_nat n :: u8) = n" by (simp add: unat_of_nat)
  then have "ucast (of_nat n :: u8) = (of_nat n :: u64)"
    by (metis of_nat_unat ucast_id)
  with True show ?thesis by (simp add: len_field_def of_nat_u8_bit7)
qed (simp add: len_field_def Let_def)

lemma read_plen_feeds:
  assumes "feeds w (snd (len_field n) @ bs) k rest" and "n < 2 ^ 64"
  shows "\<exists>w'. read_plen (ucast (fst (len_field n) AND 0x7F)) w = (Some (of_nat n), w')
    \<and> reads w w' \<and> feeds w' bs k rest"
proof -
  consider (small) "n < 126" | (mid) "126 \<le> n \<and> n < 65536" | (big) "65536 \<le> n" by linarith
  then show ?thesis
  proof cases
    case small
    then have "(of_nat n :: u64) \<noteq> 126 \<and> (of_nat n :: u64) \<noteq> 127"
      by (simp add: word_unat_eq_iff unat_of_nat)
    with small assms(1) show ?thesis
      unfolding len_field_base by (auto simp: read_plen_def len_field_small)
  next
    case mid
    define e where "e = snd (len_field n)"
    have e: "e = [ucast (drop_bit 8 (of_nat n :: u64) AND 0xFF), ucast ((of_nat n :: u64) AND 0xFF)]"
      using mid by (simp add: e_def len_field_def Let_def)
    obtain w' where r: "ws_read_exact (length e) w = (Some e, w')" and "reads w w'" "feeds w' bs k rest"
      using ws_read_exact_feeds [OF assms(1)] by (auto simp: e_def)
    moreover have "push_bit 8 (ucast (e ! 0)) OR ucast (e ! 1) = (of_nat n :: u64)"
    proof -
      have "drop_bit (8 + 8) (of_nat n :: u64) = 0"
      proof -
        have "unat (drop_bit (8 + 8) (of_nat n :: u64)) = drop_bit (8 + 8) n"
          using mid by (simp only: unat_drop_bit_eq) (simp add: unat_of_nat)
        also have "\<dots> = 0" using mid by (simp add: drop_bit_eq_div)
        finally show ?thesis by (simp only: unat_eq_zero)
      qed
      then have "ucast (ucast (drop_bit 8 (of_nat n :: u64) AND 0xFF) :: u8) = drop_bit 8 (of_nat n :: u64)"
        using be_len_step [of 8 "of_nat n"] by simp
      then show ?thesis using be_len_step [of 0 "of_nat n"] by (simp add: e)
    qed
    ultimately show ?thesis
      using mid unfolding len_field_base by (auto simp: read_plen_def e numeral_2_eq_2)
  next
    case big
    define e where "e = snd (len_field n)"
    have e: "e = map (\<lambda>i. ucast (drop_bit (8 * (7 - i)) (of_nat n :: u64) AND 0xFF)) [0..<8]"
      using big by (simp add: e_def len_field_def Let_def)
    obtain w' where r: "ws_read_exact (length e) w = (Some e, w')" and "reads w w'" "feeds w' bs k rest"
      using ws_read_exact_feeds [OF assms(1)] by (auto simp: e_def)
    then show ?thesis
      using big e be_len_bytes [of "of_nat n"] unfolding len_field_base
      by (auto simp: read_plen_def)
  qed
qed

lemma read_payload_feeds:
  assumes "feeds w (if m then unmask key payload else payload) n rest" and "length payload \<le> 33554432"
  shows "\<exists>w'. read_payload m key (of_nat (length payload)) w = (Some payload, w')
    \<and> reads w w' \<and> feeds w' [] n rest"
proof -
  define p where "p = (if m then unmask key payload else payload)"
  have len: "length p = length payload" by (simp add: p_def)
  have sz: "unat (of_nat (length payload) :: u64) = length payload"
    using assms(2) by (simp add: unat_of_nat)
  obtain w' where r: "ws_read_exact (length p) w = (Some p, w')" "reads w w'" "feeds w' [] n rest"
    using ws_read_exact_feeds [of w p "[]"] assms(1) by (auto simp: p_def)
  have "\<not> MAX_FRAME < of_nat (length payload)"
    using assms(2) sz by (simp add: MAX_FRAME_def word_less_nat_alt)
  moreover have "0 < (of_nat (length payload) :: u64) \<longleftrightarrow> payload \<noteq> []"
    using sz by (metis length_0_conv length_greater_0_conv unat_0 word_gt_0 unat_eq_zero)
  moreover have "feeds w [] n rest \<and> reads w w" if "payload = []"
    using assms(1) that by (simp add: unmask_def split: if_splits)
  ultimately show ?thesis
    using r len sz by (auto simp: read_payload_def p_def split: if_splits)
qed

text \<open>
  Any frame, masked or not, in one piece or many, is read back exactly, and what
  follows it stays in the stream.
\<close>

lemma read_frame_wire:
  assumes "feeds w (wire_frame fin op key payload) n rest"
    and "length payload \<le> 33554432" and "\<forall>k. key = Some k \<longrightarrow> length k = 4"
  shows "\<exists>w'. read_frame w = (Some (op AND 0x0F, fin, payload), w')
    \<and> reads w w' \<and> feeds w' [] n rest"
proof -
  define m where "m = (key \<noteq> None)"
  define k where "k = (case key of None \<Rightarrow> [0, 0, 0, 0] | Some k \<Rightarrow> k)"
  define body where "body = (if m then unmask k payload else payload)"
  define hdr where "hdr = [(if fin then 0x80 else 0) OR (op AND 0x0F),
      (if m then 0x80 else 0) OR fst (len_field (length payload))]"
  have wf: "wire_frame fin op key payload
      = hdr @ snd (len_field (length payload)) @ (if m then k else []) @ body"
    using assms(3) by (auto simp: wire_frame_def m_def k_def body_def hdr_def peer_mask_unmask split: option.splits)
  obtain w1 where r1: "ws_read_exact 2 w = (Some hdr, w1)" "reads w w1"
    and f1: "feeds w1 (snd (len_field (length payload)) @ (if m then k else []) @ body) n rest"
    using ws_read_exact_feeds [OF assms(1) [unfolded wf]]
    by (auto simp: hdr_def numeral_2_eq_2)
  obtain w2 where r2: "read_plen (ucast (fst (len_field (length payload)) AND 0x7F)) w1
      = (Some (of_nat (length payload)), w2)" "reads w1 w2"
    and f2: "feeds w2 ((if m then k else []) @ body) n rest"
    using read_plen_feeds [OF f1] assms(2) by auto
  obtain w3 where r3: "read_mask m w2 = (Some k, w3)" "reads w2 w3" and f3: "feeds w3 body n rest"
  proof (cases m)
    case True
    then have "length k = 4" using assms(3) by (auto simp: m_def k_def)
    with True f2 ws_read_exact_feeds [of w2 k body n rest] that show ?thesis
      by (auto simp: read_mask_def)
  next
    case False
    with f2 that show ?thesis by (auto simp: read_mask_def m_def k_def)
  qed
  obtain w4 where r4: "read_payload m k (of_nat (length payload)) w3 = (Some payload, w4)"
    "reads w3 w4" "feeds w4 [] n rest"
    using read_payload_feeds [OF f3 [unfolded body_def] assms(2)] by auto
  have bits: "(hdr ! 0 AND 0x80 \<noteq> 0) = fin" "hdr ! 0 AND 0x0F = op AND 0x0F"
    "(hdr ! 1 AND 0x80 \<noteq> 0) = m" "hdr ! 1 AND 0x7F = fst (len_field (length payload)) AND 0x7F"
    unfolding hdr_def by (simp_all add: wire_frame_header_bits [OF len_field_bit7])
  have "reads w w4" using r1 r2 r3 r4 by (blast intro: reads_trans)
  then show ?thesis
    using r1 r2 r3 r4 by (simp add: read_frame_def Let_def bits(1,2) bits(3,4) [unfolded One_nat_def])
qed

section \<open>Sending\<close>

lemma send_frame_locked_outbound:
  assumes "send_frame_locked op data w = (True, w')"
  shows "ws_outbound w' = ws_outbound w @ frame_header op (length data) @ data"
  using assms
  by (auto simp: send_frame_locked_def ws_send_all_def split: prod.splits bool.splits if_splits
      dest!: send_all_prefix)

lemma frame_header_wire: "frame_header op (length data) @ data = wire_frame True op None data"
  by (simp add: frame_header_len_field wire_frame_def)

lemma send_frame_locked_ok:
  assumes "reliable (length (frame_header op (length data) @ data)) (ws_calls w)"
  shows "\<exists>w'. send_frame_locked op data w = (True, w')"
proof -
  from assms send_all_reliable [of "frame_header op (length data)" "length data" "ws_calls w"
      "ws_outbound w"]
  obtain cs where h: "send_all (ws_calls w) (ws_outbound w) (frame_header op (length data))
      = (True, cs, ws_outbound w @ frame_header op (length data))" and "reliable (length data) cs"
    by auto
  then have "\<exists>cs'. send_all cs (ws_outbound w @ frame_header op (length data)) data
      = (True, cs', ws_outbound w @ frame_header op (length data) @ data)"
    using send_all_reliable [of data 0 cs "ws_outbound w @ frame_header op (length data)"] by auto
  with h show ?thesis
    by (auto simp: send_frame_locked_def ws_send_all_def)
qed

section \<open>Messages in fragments\<close>

fun frag_stream :: "u8 \<Rightarrow> (bytes \<times> bytes) list \<Rightarrow> bytes" where
  "frag_stream op [] = []"
| "frag_stream op [(k, p)] = wire_frame True op (Some k) p"
| "frag_stream op ((k, p) # f # fs) = wire_frame False op (Some k) p @ frag_stream OP_CONTINUATION (f # fs)"

definition good_frags :: "(bytes \<times> bytes) list \<Rightarrow> bool" where
  "good_frags fs \<longleftrightarrow> fs \<noteq> [] \<and> list_all (\<lambda>(k, p). length k = 4 \<and> length p \<le> 33554432) fs"

definition msg_event :: "u8 \<Rightarrow> bytes \<Rightarrow> ws_event" where
  "msg_event op body = (if op = OP_TEXT then OnText body else OnBinary body)"

text \<open>The state between two messages: nothing pending, callbacks in place.\<close>

definition idle :: "websocket \<Rightarrow> bool" where
  "idle w \<longleftrightarrow> \<not> ws_closed w \<and> ws_data_opcode w = 0 \<and> ws_on_text w \<and> ws_on_binary w"

lemma read_loop_frame:
  assumes "\<not> ws_closed w" and "feeds w (wire_frame fin op (Some k) p @ bs) n rest"
    and "length p \<le> 33554432" and "length k = 4"
  shows "\<exists>w'. read_loop w = read_loop (dispatch_frame (op AND 0x0F) fin p w')
    \<and> reads w w' \<and> feeds w' bs n rest"
proof -
  have "feeds w (wire_frame fin op (Some k) p) (length bs + n) (bs @ rest)"
    using assms(2) by (simp add: feeds_def add.assoc)
  from read_frame_wire [OF this assms(3)] assms(4) obtain w' where
    "read_frame w = (Some (op AND 0x0F, fin, p), w')" "reads w w'"
    "feeds w' [] (length bs + n) (bs @ rest)" by auto
  then show ?thesis
    using assms(1) by (auto simp: read_loop.simps [of w] feeds_def)
qed

lemma data_opcodes: "op = OP_TEXT \<or> op = OP_BINARY \<Longrightarrow> op AND 0x0F = op \<and> op \<noteq> OP_CONTINUATION \<and> op \<noteq> 0"
  by (auto simp: opcode_defs)

text \<open>The tail of a message already begun: the buffer grows and is delivered at the end.\<close>

lemma read_loop_continuation:
  assumes "good_frags fs" and "feeds w (frag_stream OP_CONTINUATION fs) n rest"
    and "\<not> ws_closed w" "ws_on_text w" "ws_on_binary w"
    and "ws_data_opcode w = op" and op: "op = OP_TEXT \<or> op = OP_BINARY"
  shows "\<exists>w'. read_loop w = read_loop w' \<and> idle w' \<and> feeds w' [] n rest
    \<and> ws_on_close w' = ws_on_close w
    \<and> ws_events w' = ws_events w @ [msg_event op (ws_data_buffer w @ concat (map snd fs))]"
  using assms(1-6)
proof (induction OP_CONTINUATION fs arbitrary: w rule: frag_stream.induct)
  case 1
  then show ?case by (simp add: good_frags_def)
next
  case (2 k p)
  from read_loop_frame [of w True OP_CONTINUATION k p "[]" n rest] 2
  obtain w1 where "read_loop w = read_loop (dispatch_frame OP_CONTINUATION True p w1)"
    "reads w w1" "feeds w1 [] n rest"
    by (auto simp: good_frags_def OP_CONTINUATION_def)
  then show ?case
    using 2 op data_opcodes [OF op]
    by (intro exI [of _ "dispatch_frame OP_CONTINUATION True p w1"])
       (auto simp: dispatch_frame_def deliver_def idle_def msg_event_def reads_fields feeds_def
          opcode_defs)
next
  case (3 k p f fs)
  from read_loop_frame [of w False OP_CONTINUATION k p "frag_stream OP_CONTINUATION (f # fs)" n rest] 3
  obtain w1 where w1: "read_loop w = read_loop (dispatch_frame OP_CONTINUATION False p w1)"
    "reads w w1" "feeds w1 (frag_stream OP_CONTINUATION (f # fs)) n rest"
    by (auto simp: good_frags_def OP_CONTINUATION_def)
  define w2 where "w2 = dispatch_frame OP_CONTINUATION False p w1"
  have "good_frags (f # fs)" using "3.prems"(1) by (simp add: good_frags_def)
  moreover have "feeds w2 (frag_stream OP_CONTINUATION (f # fs)) n rest" "\<not> ws_closed w2"
    "ws_on_text w2" "ws_on_binary w2" "ws_data_opcode w2 = op"
    "ws_events w2 = ws_events w" "ws_data_buffer w2 = ws_data_buffer w @ p"
    "ws_on_close w2 = ws_on_close w"
    using w1 "3.prems" data_opcodes [OF op]
    by (auto simp: w2_def dispatch_frame_def reads_fields feeds_def opcode_defs)
  ultimately show ?case using "3.hyps" [of w2] w1(1) by (auto simp: w2_def)
qed

lemma read_loop_message:
  assumes "good_frags fs" and "feeds w (frag_stream op fs) n rest"
    and "idle w" and op: "op = OP_TEXT \<or> op = OP_BINARY"
  shows "\<exists>w'. read_loop w = read_loop w' \<and> idle w' \<and> feeds w' [] n rest
    \<and> ws_on_close w' = ws_on_close w
    \<and> ws_events w' = ws_events w @ [msg_event op (concat (map snd fs))]"
proof (cases "(op, fs)" rule: frag_stream.cases)
  case (1 op')
  with assms(1) show ?thesis by (simp add: good_frags_def)
next
  case (2 op' k p)
  from read_loop_frame [of w True op k p "[]" n rest] 2 assms
  obtain w1 where "read_loop w = read_loop (dispatch_frame op True p w1)"
    "reads w w1" "feeds w1 [] n rest"
    by (auto simp: good_frags_def idle_def data_opcodes)
  then show ?thesis
    using 2 assms data_opcodes [OF op]
    by (intro exI [of _ "dispatch_frame op True p w1"])
       (auto simp: dispatch_frame_def deliver_def idle_def msg_event_def reads_fields feeds_def
          opcode_defs)
next
  case (3 op' k p f fs')
  from read_loop_frame [of w False op k p "frag_stream OP_CONTINUATION (f # fs')" n rest] 3 assms
  obtain w1 where w1: "read_loop w = read_loop (dispatch_frame op False p w1)"
    "reads w w1" "feeds w1 (frag_stream OP_CONTINUATION (f # fs')) n rest"
    by (auto simp: good_frags_def idle_def data_opcodes)
  define w2 where "w2 = dispatch_frame op False p w1"
  have "good_frags (f # fs')" using assms(1) 3 by (simp add: good_frags_def)
  moreover have "feeds w2 (frag_stream OP_CONTINUATION (f # fs')) n rest" "\<not> ws_closed w2"
    "ws_on_text w2" "ws_on_binary w2" "ws_data_opcode w2 = op"
    "ws_events w2 = ws_events w" "ws_data_buffer w2 = p" "ws_on_close w2 = ws_on_close w"
    using w1 assms op data_opcodes [OF op]
    by (auto simp: w2_def dispatch_frame_def reads_fields feeds_def idle_def opcode_defs)
  ultimately show ?thesis
    using read_loop_continuation [of "f # fs'" w2 n rest op] op w1(1) 3 by (auto simp: w2_def)
qed

section \<open>Streams of messages\<close>

definition msgs_stream :: "(u8 \<times> (bytes \<times> bytes) list) list \<Rightarrow> bytes" where
  "msgs_stream ms = concat (map (\<lambda>(op, fs). frag_stream op fs) ms)"

definition msgs_events :: "(u8 \<times> (bytes \<times> bytes) list) list \<Rightarrow> ws_event list" where
  "msgs_events ms = map (\<lambda>(op, fs). msg_event op (concat (map snd fs))) ms"

definition good_msg :: "u8 \<times> (bytes \<times> bytes) list \<Rightarrow> bool" where
  "good_msg m \<longleftrightarrow> (fst m = OP_TEXT \<or> fst m = OP_BINARY) \<and> good_frags (snd m)"

lemma read_loop_stream:
  assumes "list_all good_msg ms" and "feeds w (msgs_stream ms) n rest" and "idle w"
  shows "\<exists>w'. read_loop w = read_loop w' \<and> idle w' \<and> feeds w' [] n rest
    \<and> ws_on_close w' = ws_on_close w \<and> ws_events w' = ws_events w @ msgs_events ms"
  using assms
proof (induction ms arbitrary: w)
  case Nil
  then show ?case by (auto simp: msgs_stream_def msgs_events_def)
next
  case (Cons m ms)
  obtain op fs where m: "m = (op, fs)" by force
  have "feeds w (frag_stream op fs) (length (msgs_stream ms) + n) (msgs_stream ms @ rest)"
    using Cons.prems(2) by (simp add: m msgs_stream_def feeds_def add.assoc)
  from read_loop_message [OF _ this Cons.prems(3)] Cons.prems(1)
  obtain w1 where w1: "read_loop w = read_loop w1" "idle w1"
    "feeds w1 [] (length (msgs_stream ms) + n) (msgs_stream ms @ rest)"
    "ws_on_close w1 = ws_on_close w" "ws_events w1 = ws_events w @ [msg_event op (concat (map snd fs))]"
    by (auto simp: m good_msg_def)
  then have "feeds w1 (msgs_stream ms) n rest" by (simp add: feeds_def)
  from Cons.IH [OF _ this w1(2)] Cons.prems(1) w1 show ?case
    by (auto simp: m msgs_events_def)
qed

lemma recv_exact_empty: "0 < n \<Longrightarrow> fst (recv_exact cs [] n) = None"
  by (induction cs "[] :: bytes" n rule: recv_exact.induct) auto

lemma read_frame_empty: "ws_inbound w = [] \<Longrightarrow> \<exists>w'. read_frame w = (None, w')"
  using recv_exact_empty [of 2 "ws_calls w"]
  by (auto simp: read_frame_def ws_read_exact_def split: prod.splits option.splits)

lemma read_loop_empty:
  assumes "ws_inbound w = []"
  shows "ws_events (read_loop w) = ws_events w @ (if ws_on_close w then [OnClose] else [])
    \<and> ws_closed (read_loop w)"
proof -
  obtain w1 where r: "read_frame w = (None, w1)" using read_frame_empty [OF assms] by blast
  with reads_fields [OF read_frame_rest [OF r]] show ?thesis
    by (auto simp: read_loop.simps [of w] finish_loop_def Let_def)
qed

section \<open>How the loop ends\<close>

lemma dispatch_frame_events:
  "\<exists>evs. ws_events (dispatch_frame op fin payload w) = ws_events w @ evs \<and> OnClose \<notin> set evs"
proof -
  define P where "P v \<longleftrightarrow> (\<exists>evs. ws_events v = ws_events w @ evs \<and> OnClose \<notin> set evs)" for v :: websocket
  obtain ok w1 where pong: "send_frame_locked OP_PONG payload w = (ok, w1)" "sends w w1"
    using send_frame_locked_sends by (metis surj_pair)
  have same: "P v" if "ws_events v = ws_events w" for v using that by (simp add: P_def)
  have deliv: "P v" if "ws_events v = ws_events (deliver o' p u)" "ws_events u = ws_events w" for v o' p u
    using that by (simp add: P_def deliver_def)
  have "P (dispatch_frame op fin payload w)"
    using pong by (simp add: dispatch_frame_def Let_def deliv [OF refl] deliv same sends_fields)
  then show ?thesis by (simp add: P_def)
qed

lemma read_loop_ends:
  "ws_closed (read_loop w) \<and> (\<exists>evs. OnClose \<notin> set evs \<and>
     ws_events (read_loop w) = ws_events w @ evs @ (if ws_on_close w then [OnClose] else []))"
proof (induction w rule: read_loop.induct)
  case (1 w)
  show ?case
  proof (cases "ws_closed w")
    case True
    then show ?thesis by (auto simp: read_loop.simps [of w] finish_loop_def Let_def)
  next
    case False
    obtain r w1 where r: "read_frame w = (r, w1)" by force
    note fields = reads_fields [OF read_frame_rest [OF r]]
    show ?thesis
    proof (cases r)
      case None
      with False r fields show ?thesis
        by (auto simp: read_loop.simps [of w] finish_loop_def Let_def)
    next
      case (Some f)
      obtain op fin p where f: "f = (op, fin, p)" by (cases f) auto
      have e: "read_loop w = read_loop (dispatch_frame op fin p w1)"
        using False r Some f by (simp add: read_loop.simps [of w])
      from dispatch_frame_events [of op fin p w1] fields obtain e1 where
        "ws_events (dispatch_frame op fin p w1) = ws_events w @ e1" "OnClose \<notin> set e1" by auto
      moreover from 1 [OF False r [symmetric] Some f [symmetric] refl] fields obtain e2 where "OnClose \<notin> set e2"
        "ws_closed (read_loop (dispatch_frame op fin p w1))"
        "ws_events (read_loop (dispatch_frame op fin p w1))
          = ws_events (dispatch_frame op fin p w1) @ e2 @ (if ws_on_close w then [OnClose] else [])"
        by auto
      ultimately show ?thesis unfolding e by (intro conjI exI [of _ "e1 @ e2"]) auto
    qed
  qed
qed

text \<open>What other threads and the owner may ask of a connection.\<close>

datatype ws_request = SendText bytes | SendBinary bytes | CloseIt | CloseWith u16 bytes

fun ws_do :: "ws_request \<Rightarrow> websocket \<Rightarrow> websocket" where
  "ws_do (SendText txt) w = send_text txt w"
| "ws_do (SendBinary bs) w = send_binary bs w"
| "ws_do CloseIt w = ws_close w"
| "ws_do (CloseWith code reason) w = do_close code reason w"

lemma ws_do_closed: "ws_closed w \<Longrightarrow> ws_do r w = w"
  by (cases r) (simp_all add: send_text_def send_binary_def ws_close_def do_close_def)

section \<open>The properties\<close>

text \<open>
  C1: a frame sent by \<open>send_frame_locked\<close> over a socket that keeps working is read
  back by \<open>read_frame\<close> with its opcode, FIN bit and payload, however either kernel cuts
  the transfers up and however often it is interrupted, and the bytes behind the frame
  stay in the stream. All three length encodings are covered.
\<close>

theorem frame_round_trip:
  assumes "reliable (length (frame_header op (length data) @ data)) (ws_calls a)"
    and "ws_outbound a = []" and "length data \<le> 33554432"
    and "ws_inbound b = ws_outbound (snd (send_frame_locked op data a)) @ rest"
    and "reliable (length (ws_outbound (snd (send_frame_locked op data a)))) (ws_calls b)"
  shows "fst (send_frame_locked op data a)
    \<and> fst (read_frame b) = Some (op AND 0x0F, True, data)
    \<and> ws_inbound (snd (read_frame b)) = rest"
proof -
  obtain a' where a': "send_frame_locked op data a = (True, a')"
    using send_frame_locked_ok [OF assms(1)] by blast
  then have out: "ws_outbound a' = wire_frame True op None data"
    using send_frame_locked_outbound [OF a'] assms(2) frame_header_wire by simp
  then have "feeds b (wire_frame True op None data) 0 rest"
    using assms(4,5) a' by (simp add: feeds_def)
  from read_frame_wire [OF this assms(3)] a' show ?thesis
    by (auto simp: feeds_def)
qed

text \<open>
  C2: a stream of text and binary messages from a client, each cut into any number of
  masked fragments, is delivered by \<open>run_read_loop\<close> as exactly one callback per message,
  in order, each with the concatenation of its unmasked fragments; then the connection
  is closed and the close callback made once.
\<close>

theorem messages_delivered:
  assumes "list_all good_msg ms"
    and "ws_inbound w = msgs_stream ms" and "reliable (length (msgs_stream ms)) (ws_calls w)"
    and "\<not> ws_closed w" and "ws_on_text w" and "ws_on_binary w" and "ws_on_close w"
  shows "ws_events (run_read_loop w) = ws_events w @ msgs_events ms @ [OnClose]
    \<and> ws_closed (run_read_loop w)"
proof -
  define w0 where "w0 = w\<lparr>ws_data_opcode := 0, ws_data_buffer := []\<rparr>"
  have "feeds w0 (msgs_stream ms) 0 []" "idle w0"
    using assms by (simp_all add: feeds_def idle_def w0_def)
  from read_loop_stream [OF assms(1) this] obtain w' where
    "read_loop w0 = read_loop w'" "feeds w' [] 0 []" "ws_on_close w'"
    "ws_events w' = ws_events w @ msgs_events ms"
    using assms(7) by (auto simp: w0_def)
  then show ?thesis
    using read_loop_empty [of w'] by (simp add: run_read_loop_def w0_def feeds_def)
qed

text \<open>
  Whatever the peer sends, no frame with more than 32 MB of payload is handed on,
  and the opcode handed on is a 4-bit number.
\<close>

theorem read_frame_bounds:
  assumes "read_frame w = (Some (op, fin, payload), w')"
  shows "length payload \<le> 33554432 \<and> unat op < 16"
proof -
  have pl: "length p \<le> 33554432" if "read_payload m k n v = (Some p, v')" for p m k n v v'
  proof -
    have n: "unat n \<le> 33554432" if "\<not> MAX_FRAME < n"
      using that by (simp add: MAX_FRAME_def word_less_nat_alt)
    show ?thesis
      using that n by (auto simp: read_payload_def split: if_splits prod.splits option.splits
          dest!: ws_read_exact_Some)
  qed
  have low: "unat (b AND 0x0F :: u8) < 16" for b
  proof -
    have "unat (b AND 0x0F) \<le> unat (0x0F :: u8)"
      by (simp only: word_le_nat_alt [symmetric] word_and_le1)
    then show ?thesis by simp
  qed
  show ?thesis
    using assms by (auto simp: read_frame_def Let_def low split: prod.splits option.splits dest: pl)
qed

text \<open>
  C3: \<open>run_read_loop\<close> always returns, whatever bytes the peer sends and however the
  kernel answers; then the connection is closed, and the close callback (if one is set)
  has been made exactly once, after every message callback.
\<close>

theorem run_read_loop_closes:
  "ws_closed (run_read_loop w) \<and> (\<exists>evs. OnClose \<notin> set evs \<and>
     ws_events (run_read_loop w) = ws_events w @ evs @ (if ws_on_close w then [OnClose] else []))"
  using read_loop_ends [of "w\<lparr>ws_data_opcode := 0, ws_data_buffer := []\<rparr>"]
  by (simp add: run_read_loop_def)

text \<open>
  C4: closing is idempotent and final: after \<open>do_close\<close> no sequence of sends and closes
  changes the connection, so at most one close frame is sent and nothing follows it.
\<close>

theorem close_is_final: "fold ws_do rs (do_close code reason w) = do_close code reason w"
  by (induction rs) (simp_all add: ws_do_closed)

section \<open>Concrete connections\<close>

definition ws_example :: websocket where
  "ws_example = \<lparr>ws_calls = [], ws_inbound = [], ws_outbound = [], ws_shut_wr = False,
     ws_closed = False, ws_data_opcode = 0, ws_data_buffer = [], ws_on_text = True,
     ws_on_binary = True, ws_on_close = True, ws_events = []\<rparr>"

definition ws_sender :: websocket where
  "ws_sender = ws_example\<lparr>ws_calls := [Transfer 1, Interrupted, Transfer 1, Transfer 1, Transfer 9]\<rparr>"

definition ws_receiver :: websocket where
  "ws_receiver = ws_example\<lparr>ws_inbound := [0x82, 2, 7, 9, 0x55],
     ws_calls := [Transfer 1, Transfer 5, Interrupted, Transfer 1, Transfer 1]\<rparr>"

theorem frame_round_trip_witness:
  "fst (send_frame_locked OP_BINARY [7, 9] ws_sender)
   \<and> fst (read_frame ws_receiver) = Some (OP_BINARY AND 0x0F, True, [7, 9])
   \<and> ws_inbound (snd (read_frame ws_receiver)) = [0x55]"
proof -
  have out: "ws_outbound (snd (send_frame_locked OP_BINARY [7, 9] ws_sender)) = [0x82, 2, 7, 9]"
    by (simp add: send_frame_locked_def ws_send_all_def frame_header_def ws_sender_def
        ws_example_def OP_BINARY_def)
  show ?thesis
    by (rule frame_round_trip; (unfold out)?)
       (simp_all add: ws_sender_def ws_receiver_def ws_example_def reliable_def frame_header_def)
qed

definition ws_client_msgs :: "(u8 \<times> (bytes \<times> bytes) list) list" where
  "ws_client_msgs = [(OP_TEXT, [([1, 2, 3, 4], [0x68]), ([5, 6, 7, 8], [0x69])]),
     (OP_BINARY, [([0, 1, 0, 1], [])])]"

definition ws_served :: websocket where
  "ws_served = ws_example\<lparr>ws_inbound := msgs_stream ws_client_msgs,
     ws_calls := Interrupted # replicate 20 (Transfer 3)\<rparr>"

theorem messages_delivered_witness:
  "ws_events (run_read_loop ws_served) = [OnText [0x68, 0x69], OnBinary [], OnClose]
   \<and> ws_closed (run_read_loop ws_served)"
proof -
  have "list_all good_msg ws_client_msgs"
    by (simp add: ws_client_msgs_def good_msg_def good_frags_def)
  moreover have "length (msgs_stream ws_client_msgs) = 20"
    by (simp add: ws_client_msgs_def msgs_stream_def wire_frame_def len_field_def)
  moreover have "msgs_events ws_client_msgs = [OnText [0x68, 0x69], OnBinary []]"
    by (simp add: ws_client_msgs_def msgs_events_def msg_event_def opcode_defs)
  ultimately show ?thesis
    using messages_delivered [of ws_client_msgs ws_served]
    by (simp add: ws_served_def ws_example_def reliable_def list_all_iff)
qed

theorem read_frame_bounds_witness:
  "length ([7, 9] :: bytes) \<le> 33554432 \<and> unat (2 :: u8) < 16"
proof -
  have "fst (read_frame ws_receiver) = Some (2, True, [7, 9])" by code_simp
  then have "read_frame ws_receiver = (Some (2, True, [7, 9]), snd (read_frame ws_receiver))"
    by (metis prod.collapse)
  from read_frame_bounds [OF this] show ?thesis .
qed

end
