(* ===== verification/Browser_Ring.thy ===== *)
theory Browser_Ring
  imports Phoenix_Prelude
begin

text \<open>
  The shared-memory ring between the host and the guest's browser
  (\<^verbatim>\<open>src/drivers/browser/ring.cpp\<close>, layout in \<^verbatim>\<open>src/common/include/MacBrowser.h\<close>).
  Indices are 32-bit words, the data an array of 65536 bytes; an access outside the
  array is the outcome \<open>None\<close>. The host's poison set is kept as a flag of the ring it
  is about.

  Shown: push and pop implement a FIFO of messages (an interpretation of the FIFO
  interface, with the wrap sentinel and the reserved gap as the code has them), pop
  never leaves the array whatever the guest wrote into the ring, a refused push changes
  nothing; and that push, which does not check the indices, does leave the array for
  some contents of the shared memory.
\<close>

section \<open>Layout\<close>

definition BR_RING_SIZE :: u32 where "BR_RING_SIZE = 65536"
definition BR_MSG_WRAP :: u16 where "BR_MSG_WRAP = 0"
definition BR_MSG_HDR_BYTES :: u32 where "BR_MSG_HDR_BYTES = 4"
definition BR_MSG_ALIGN :: "u32 \<Rightarrow> u32" where "BR_MSG_ALIGN n = (n + 3) AND NOT 3"
definition BR_MSG_MAX_PAYLOAD :: u32 where
  "BR_MSG_MAX_PAYLOAD = BR_RING_SIZE - BR_MSG_HDR_BYTES - 4"

lemmas br_consts = BR_RING_SIZE_def BR_MSG_WRAP_def BR_MSG_HDR_BYTES_def BR_MSG_MAX_PAYLOAD_def

record br_ring =
  write_idx :: u32
  read_idx :: u32
  br_data :: "nat \<Rightarrow> u8"   \<comment> \<open>\<open>data[BR_RING_SIZE]\<close>\<close>
  br_poisoned :: bool

section \<open>Access to the data array\<close>

definition store_bytes :: "u32 \<Rightarrow> bytes \<Rightarrow> (nat \<Rightarrow> u8) \<Rightarrow> (nat \<Rightarrow> u8) option" where
  "store_bytes off bs d =
     (if unat off + length bs \<le> 65536
      then Some (\<lambda>i. if unat off \<le> i \<and> i < unat off + length bs then bs ! (i - unat off) else d i)
      else None)"

definition load_bytes :: "u32 \<Rightarrow> nat \<Rightarrow> (nat \<Rightarrow> u8) \<Rightarrow> bytes option" where
  "load_bytes off n d =
     (if unat off + n \<le> 65536 then Some (map (\<lambda>i. d (unat off + i)) [0..<n]) else None)"

definition br_u16_store :: "u32 \<Rightarrow> u16 \<Rightarrow> (nat \<Rightarrow> u8) \<Rightarrow> (nat \<Rightarrow> u8) option" where
  "br_u16_store off v d = store_bytes off [hi16 v, lo16 v] d"

definition br_u16_load :: "u32 \<Rightarrow> (nat \<Rightarrow> u8) \<Rightarrow> u16 option" where
  "br_u16_load off d = map_option (\<lambda>bs. be16 (bs ! 0) (bs ! 1)) (load_bytes off 2 d)"

definition ring_write_hdr :: "(nat \<Rightarrow> u8) \<Rightarrow> u32 \<Rightarrow> u16 \<Rightarrow> u16 \<Rightarrow> (nat \<Rightarrow> u8) option" where
  "ring_write_hdr d off type len =
     do { d1 \<leftarrow> br_u16_store (off + 0) type d; br_u16_store (off + 2) len d1 }"

definition ring_read_hdr :: "(nat \<Rightarrow> u8) \<Rightarrow> u32 \<Rightarrow> (u16 \<times> u16) option" where
  "ring_read_hdr d off =
     do { type \<leftarrow> br_u16_load (off + 0) d; len \<leftarrow> br_u16_load (off + 2) d; Some (type, len) }"

section \<open>Push and pop\<close>

definition ring_free_bytes :: "u32 \<Rightarrow> u32 \<Rightarrow> u32" where
  "ring_free_bytes w r = (r + BR_RING_SIZE - w - 4) mod BR_RING_SIZE"

definition ring_poison :: "br_ring \<Rightarrow> br_ring" where
  "ring_poison ring = ring\<lparr>br_poisoned := True\<rparr>"

text \<open>
  \<open>payload\<close> is the caller's buffer (\<open>None\<close>: a null pointer); reading past its end is
  outside the array too.
\<close>

definition ring_push :: "br_ring \<Rightarrow> u16 \<Rightarrow> bytes option \<Rightarrow> u16 \<Rightarrow> (bool \<times> br_ring) option" where
  "ring_push ring type payload len =
     (if type = BR_MSG_WRAP then Some (False, ring)
      else if BR_MSG_MAX_PAYLOAD < ucast len then Some (False, ring)
      else
        let w = write_idx ring; r = read_idx ring;
            needed = BR_MSG_HDR_BYTES + BR_MSG_ALIGN (ucast len);
            wrap = BR_RING_SIZE < w + needed;
            total_needed = (if wrap then (BR_RING_SIZE - w) + needed else needed)
        in if ring_free_bytes w r < total_needed then Some (False, ring)
           else do {
             d1 \<leftarrow> (if wrap then ring_write_hdr (br_data ring) w BR_MSG_WRAP 0
                   else Some (br_data ring));
             let w1 = (if wrap then 0 else w);
             d2 \<leftarrow> ring_write_hdr d1 w1 type len;
             d3 \<leftarrow> (case payload of
                     None \<Rightarrow> Some d2
                   | Some p \<Rightarrow>
                       if 0 < len then
                         (if unat len \<le> length p
                          then store_bytes (w1 + BR_MSG_HDR_BYTES) (take (unat len) p) d2
                          else None)
                       else Some d2);
             let w2 = w1 + needed;
             let w3 = (if w2 = BR_RING_SIZE then 0 else w2);
             Some (True, ring\<lparr>br_data := d3, write_idx := w3\<rparr>)
           })"

text \<open>
  A popped message is its type, its length and the bytes copied out: no more than the
  caller's capacity. \<open>capacity\<close> 0 stands for a null buffer, too.
\<close>

definition pop_message ::
    "br_ring \<Rightarrow> u32 \<Rightarrow> u16 \<Rightarrow> u16 \<Rightarrow> u16 \<Rightarrow> ((u16 \<times> u16 \<times> bytes) option \<times> br_ring) option" where
  "pop_message ring r type len capacity =
     (let aligned_len = BR_MSG_ALIGN (ucast len) in
      if BR_MSG_MAX_PAYLOAD < ucast len \<or> BR_RING_SIZE < r + BR_MSG_HDR_BYTES + aligned_len
      then Some (None, ring_poison ring)
      else let to_copy = (if len < capacity then len else capacity) in do {
        bs \<leftarrow> (if 0 < to_copy then load_bytes (r + BR_MSG_HDR_BYTES) (unat to_copy) (br_data ring)
              else Some []);
        let r1 = r + BR_MSG_HDR_BYTES + aligned_len;
        let r2 = (if r1 = BR_RING_SIZE then 0 else r1);
        Some (Some (type, len, bs), ring\<lparr>read_idx := r2\<rparr>)
      })"

definition ring_pop ::
    "br_ring \<Rightarrow> u16 \<Rightarrow> ((u16 \<times> u16 \<times> bytes) option \<times> br_ring) option" where
  "ring_pop ring capacity =
     (if br_poisoned ring then Some (None, ring)
      else
        let w = write_idx ring; r = read_idx ring in
        if r = w then Some (None, ring)
        else if BR_RING_SIZE \<le> w \<or> BR_RING_SIZE \<le> r \<or> r AND 3 \<noteq> 0 \<or> w AND 3 \<noteq> 0
        then Some (None, ring_poison ring)
        else do {
          (type, len) \<leftarrow> ring_read_hdr (br_data ring) r;
          if type = BR_MSG_WRAP then
            (if 0 = w then Some (None, ring\<lparr>read_idx := 0\<rparr>)
             else do {
               (type1, len1) \<leftarrow> ring_read_hdr (br_data ring) 0;
               if type1 = BR_MSG_WRAP then Some (None, ring)
               else pop_message ring 0 type1 len1 capacity
             })
          else pop_message ring r type len capacity
        })"

section \<open>Sizes as natural numbers\<close>

definition fsz :: "nat \<Rightarrow> nat" where
  "fsz n = 4 + 4 * ((n + 3) div 4)"

lemma fsz_bounds: "n + 4 \<le> fsz n" "fsz n \<le> n + 7" "fsz n mod 4 = 0" "4 \<le> fsz n"
  by (auto simp: fsz_def)

lemma unat_needed: "unat (BR_MSG_HDR_BYTES + BR_MSG_ALIGN (ucast (len :: u16))) = fsz (unat len)"
proof -
  have lt: "4 * ((unat len + 3) div 4) < 65540" using u16_bound [of 65536 len] by linarith
  have "unat (ucast len + 3 :: u32) = unat len + 3"
    by (subst unat_add_lt) simp_all
  then have "unat (BR_MSG_ALIGN (ucast len)) = 4 * ((unat len + 3) div 4)"
    by (simp only: BR_MSG_ALIGN_def align_down_4)
  then show ?thesis
    using lt by (subst unat_add_lt) (simp_all add: fsz_def BR_MSG_HDR_BYTES_def)
qed

lemma max_payload_iff: "BR_MSG_MAX_PAYLOAD < ucast (len :: u16) \<longleftrightarrow> 65528 < unat len"
  by (simp add: br_consts word_less_nat_alt)

lemma ring_size_less_iff: "BR_RING_SIZE < w \<longleftrightarrow> 65536 < unat w"
  and ring_size_le_iff: "BR_RING_SIZE \<le> w \<longleftrightarrow> 65536 \<le> unat w"
  and ring_size_eq_iff: "w = BR_RING_SIZE \<longleftrightarrow> unat w = 65536"
  by (auto simp: br_consts word_less_nat_alt word_le_nat_alt word_unat_eq_iff)

lemma and_3_mod: "(w :: u32) AND 3 = 0 \<longleftrightarrow> unat w mod 4 = 0"
proof -
  have "w AND 3 = take_bit 2 w" by (simp add: take_bit_eq_mask mask_eq_exp_minus_1)
  moreover have "unat (take_bit 2 w) = unat w mod 4"
    by (simp add: unsigned_take_bit_eq take_bit_eq_mod unat_mod)
  ultimately show ?thesis by (metis unat_eq_zero)
qed

lemma ring_free_bytes_nat:
  assumes "unat w < 65536" and "unat r < 65536" and "unat w mod 4 = 0" and "unat r mod 4 = 0"
  shows "unat (ring_free_bytes w r)
    = (if unat w < unat r then unat r - unat w - 4 else 65536 + unat r - unat w - 4)"
proof -
  have le: "unat w + 4 \<le> 65536" by (rule multiple_of_4_less [OF assms(3) _ assms(1)]) simp
  have n: "unat BR_RING_SIZE = 65536" "unat (4 :: u32) = 4" by (simp_all add: br_consts)
  have a: "unat (r + BR_RING_SIZE) = unat r + 65536"
    using assms(2) n by (subst unat_add_lt) simp_all
  have b: "unat (r + BR_RING_SIZE - w) = unat r + 65536 - unat w"
    using a assms(1) by (subst unat_sub_le) (simp_all add: word_le_nat_alt)
  have c: "unat (r + BR_RING_SIZE - w - 4) = unat r + 65536 - unat w - 4"
    using b le by (subst unat_sub_le) (simp_all add: word_le_nat_alt)
  have f: "unat (ring_free_bytes w r) = (unat r + 65536 - unat w - 4) mod 65536"
    by (simp only: ring_free_bytes_def unat_mod c n)
  show ?thesis
  proof (cases "unat w < unat r")
    case True
    with multiple_of_4_less [OF assms(3,4)]
    have "unat r + 65536 - unat w - 4 = (unat r - unat w - 4) + 65536" by linarith
    then show ?thesis using True assms(2) unfolding f by (simp only: mod_add_self2) simp
  next
    case False
    then have "unat r + 65536 - unat w - 4 < 65536" using le by linarith
    then show ?thesis using False unfolding f by (simp only: mod_less if_False add.commute)
  qed
qed

section \<open>Messages in the array\<close>

definition hdr_at :: "(nat \<Rightarrow> u8) \<Rightarrow> nat \<Rightarrow> u16 \<Rightarrow> u16 \<Rightarrow> bool" where
  "hdr_at d a type len \<longleftrightarrow>
     d a = hi16 type \<and> d (a + 1) = lo16 type \<and> d (a + 2) = hi16 len \<and> d (a + 3) = lo16 len"

definition msg_at :: "(nat \<Rightarrow> u8) \<Rightarrow> nat \<Rightarrow> u16 \<times> bytes \<Rightarrow> bool" where
  "msg_at d a m \<longleftrightarrow> hdr_at d a (fst m) (of_nat (length (snd m)))
     \<and> (\<forall>i < length (snd m). d (a + 4 + i) = snd m ! i)"

definition good_br_msg :: "u16 \<times> bytes \<Rightarrow> bool" where
  "good_br_msg m \<longleftrightarrow> fst m \<noteq> BR_MSG_WRAP \<and> length (snd m) \<le> 65528"

fun frames :: "(nat \<Rightarrow> u8) \<Rightarrow> nat \<Rightarrow> (u16 \<times> bytes) list \<Rightarrow> nat \<Rightarrow> bool" where
  "frames d a [] b \<longleftrightarrow> a = b"
| "frames d a (m # ms) b \<longleftrightarrow>
     good_br_msg m \<and> msg_at d a m \<and> frames d (a + fsz (length (snd m))) ms b"

lemma frames_le: "frames d a ms b \<Longrightarrow> a \<le> b \<and> (ms \<noteq> [] \<longrightarrow> a + 4 \<le> b)"
  by (induction ms arbitrary: a) (force simp: fsz_def)+

lemma frames_append:
  "frames d a (ms @ ns) c \<longleftrightarrow> (\<exists>b. frames d a ms b \<and> frames d b ns c)"
  by (induction ms arbitrary: a) auto

lemma frames_cong:
  assumes "frames d a ms b" and "\<And>i. a \<le> i \<Longrightarrow> i < b \<Longrightarrow> d' i = d i"
  shows "frames d' a ms b"
  using assms
proof (induction ms arbitrary: a)
  case (Cons m ms)
  let ?n = "fsz (length (snd m))"
  have le: "a + ?n \<le> b" using Cons.prems(1) frames_le by fastforce
  have eq: "d' i = d i" if "a \<le> i" "i < a + 4 + length (snd m)" for i
    using Cons.prems(2) [of i] that le fsz_bounds(1) [of "length (snd m)"] by linarith
  have "msg_at d' a m"
    using Cons.prems(1) by (auto simp: msg_at_def hdr_at_def eq)
  moreover have "frames d' (a + ?n) ms b"
    using Cons.IH [of "a + ?n"] Cons.prems fsz_bounds by simp
  ultimately show ?case using Cons.prems(1) by simp
qed simp

text \<open>
  The messages a ring holds: laid out from \<open>read_idx\<close> to \<open>write_idx\<close>, or up to the end
  of the array (or to a wrap sentinel) and then on from 0.
\<close>

definition linear :: "br_ring \<Rightarrow> (u16 \<times> bytes) list \<Rightarrow> bool" where
  "linear ring ms \<longleftrightarrow> frames (br_data ring) (unat (read_idx ring)) ms (unat (write_idx ring))"

definition wrapped :: "br_ring \<Rightarrow> (u16 \<times> bytes) list \<Rightarrow> bool" where
  "wrapped ring ms \<longleftrightarrow> (\<exists>ms1 ms2 e. ms = ms1 @ ms2
     \<and> frames (br_data ring) (unat (read_idx ring)) ms1 e
     \<and> frames (br_data ring) 0 ms2 (unat (write_idx ring))
     \<and> unat (write_idx ring) < unat (read_idx ring)
     \<and> (e = 65536 \<or> e + 4 \<le> 65536 \<and> hdr_at (br_data ring) e BR_MSG_WRAP 0 \<and> ms2 \<noteq> []))"

definition ring_holds :: "br_ring \<Rightarrow> (u16 \<times> bytes) list \<Rightarrow> bool" where
  "ring_holds ring ms \<longleftrightarrow> \<not> br_poisoned ring
     \<and> unat (read_idx ring) < 65536 \<and> unat (write_idx ring) < 65536
     \<and> unat (read_idx ring) mod 4 = 0 \<and> unat (write_idx ring) mod 4 = 0
     \<and> (linear ring ms \<or> wrapped ring ms)"

lemma ring_holdsD:
  assumes "ring_holds ring ms"
  shows "\<not> br_poisoned ring" "unat (write_idx ring) < 65536" "unat (read_idx ring) < 65536"
    "unat (write_idx ring) mod 4 = 0" "unat (read_idx ring) mod 4 = 0"
    "linear ring ms \<or> wrapped ring ms"
  using assms unfolding ring_holds_def by blast+

section \<open>Reading and writing headers\<close>

lemma two_digits: "[0..<2] = [0, 1 :: nat]"
  by (simp add: upt_rec)

lemma unat_plus_2: "unat off + 4 \<le> 65536 \<Longrightarrow> unat (off + 2 :: u32) = unat off + 2"
  by (subst unat_add_lt) simp_all

lemma unat_plus_hdr: "unat off + 4 \<le> 65536 \<Longrightarrow> unat (off + BR_MSG_HDR_BYTES) = unat off + 4"
  unfolding BR_MSG_HDR_BYTES_def by (subst unat_add_lt) simp_all

lemma ring_read_hdr_at:
  assumes "hdr_at d (unat off) type len" and "unat off + 4 \<le> 65536"
  shows "ring_read_hdr d off = Some (type, len)"
  using assms
  by (simp add: ring_read_hdr_def br_u16_load_def load_bytes_def hdr_at_def unat_plus_2 two_digits
      numeral_3_eq_3)

lemma ring_read_hdr_in_bounds:
  "unat off + 4 \<le> 65536 \<Longrightarrow> \<exists>type len. ring_read_hdr d off = Some (type, len)"
  by (simp add: ring_read_hdr_def br_u16_load_def load_bytes_def unat_plus_2)

lemma ring_write_hdr_ok:
  assumes "unat off + 4 \<le> 65536"
  shows "\<exists>d'. ring_write_hdr d off type len = Some d' \<and> hdr_at d' (unat off) type len
    \<and> (\<forall>i. i < unat off \<or> unat off + 4 \<le> i \<longrightarrow> d' i = d i)"
  using assms
  by (auto simp: ring_write_hdr_def br_u16_store_def store_bytes_def unat_plus_2 hdr_at_def)

lemma store_bytes_ok:
  assumes "unat off + length bs \<le> 65536"
  shows "\<exists>d'. store_bytes off bs d = Some d' \<and> (\<forall>i < length bs. d' (unat off + i) = bs ! i)
    \<and> (\<forall>i. i < unat off \<or> unat off + length bs \<le> i \<longrightarrow> d' i = d i)"
  using assms by (auto simp: store_bytes_def)

section \<open>One message written\<close>

definition write_msg :: "(nat \<Rightarrow> u8) \<Rightarrow> u32 \<Rightarrow> u16 \<times> bytes \<Rightarrow> (nat \<Rightarrow> u8) option" where
  "write_msg d w m =
     do { d2 \<leftarrow> ring_write_hdr d w (fst m) (of_nat (length (snd m)));
          if snd m \<noteq> [] then store_bytes (w + BR_MSG_HDR_BYTES) (snd m) d2 else Some d2 }"

lemma write_msg_ok:
  assumes "unat w + fsz (length (snd m)) \<le> 65536" and "length (snd m) \<le> 65528"
  shows "\<exists>d'. write_msg d w m = Some d' \<and> msg_at d' (unat w) m
    \<and> (\<forall>i. i < unat w \<or> unat w + fsz (length (snd m)) \<le> i \<longrightarrow> d' i = d i)"
proof -
  let ?n = "length (snd m)"
  have n: "unat w + 4 + ?n \<le> 65536" using assms(1) fsz_bounds(1) [of ?n] by linarith
  then have w4: "unat (w + BR_MSG_HDR_BYTES) = unat w + 4" by (intro unat_plus_hdr) linarith
  from ring_write_hdr_ok [of w d "fst m" "of_nat ?n"] n obtain d2 where
    d2: "ring_write_hdr d w (fst m) (of_nat ?n) = Some d2" "hdr_at d2 (unat w) (fst m) (of_nat ?n)"
    "\<forall>i. i < unat w \<or> unat w + 4 \<le> i \<longrightarrow> d2 i = d i" by auto
  from store_bytes_ok [of "w + BR_MSG_HDR_BYTES" "snd m" d2] n w4 obtain d3 where
    d3: "store_bytes (w + BR_MSG_HDR_BYTES) (snd m) d2 = Some d3"
    "\<forall>i < ?n. d3 (unat w + 4 + i) = snd m ! i"
    "\<forall>i. i < unat w + 4 \<or> unat w + 4 + ?n \<le> i \<longrightarrow> d3 i = d2 i" by auto
  have fs: "?n + 4 \<le> fsz ?n" by (rule fsz_bounds)
  show ?thesis
  proof (cases "snd m = []")
    case True
    with d2 fs show ?thesis by (auto simp: write_msg_def msg_at_def)
  next
    case False
    have "hdr_at d3 (unat w) (fst m) (of_nat ?n)" using d2(2) d3(3) by (simp add: hdr_at_def)
    then show ?thesis
      using False d2 d3 fs by (auto simp: write_msg_def msg_at_def)
  qed
qed

definition br_offer :: "u16 \<times> bytes \<Rightarrow> br_ring \<Rightarrow> (bool \<times> br_ring) option" where
  "br_offer m ring = ring_push ring (fst m) (Some (snd m)) (of_nat (length (snd m)))"

text \<open>The push of a legal message, with the arithmetic done in natural numbers.\<close>

lemma br_offer_eq:
  assumes "good_br_msg m" and "unat (write_idx ring) < 65536"
  shows "br_offer m ring =
    (let w = write_idx ring; n = fsz (length (snd m)); wrap = (65536 < unat w + n) in
     if unat (ring_free_bytes w (read_idx ring)) < (if wrap then 65536 - unat w + n else n)
     then Some (False, ring)
     else do {
       d1 \<leftarrow> (if wrap then ring_write_hdr (br_data ring) w BR_MSG_WRAP 0 else Some (br_data ring));
       d3 \<leftarrow> write_msg d1 (if wrap then 0 else w) m;
       let w2 = (if wrap then 0 else w) + of_nat n;
       Some (True, ring\<lparr>br_data := d3, write_idx := if unat w2 = 65536 then 0 else w2\<rparr>) })"
proof -
  let ?n = "length (snd m)" and ?w = "write_idx ring"
  define need where "need = BR_MSG_HDR_BYTES + BR_MSG_ALIGN (ucast (of_nat ?n :: u16))"
  have len: "unat (of_nat ?n :: u16) = ?n" using assms(1) by (simp add: good_br_msg_def unat_of_nat)
  have need: "unat need = fsz ?n" by (simp add: need_def unat_needed len)
  then have need': "need = of_nat (fsz ?n)" by (metis of_nat_unat ucast_id)
  have small: "fsz ?n \<le> 65535" using assms(1) fsz_bounds(2) [of ?n] by (simp add: good_br_msg_def)
  have sum: "unat (?w + need) = unat ?w + fsz ?n"
    using assms(2) small need by (subst unat_add_lt) simp_all
  have wneed: "unat ((BR_RING_SIZE - ?w) + need) = 65536 - unat ?w + fsz ?n"
  proof -
    have "unat (BR_RING_SIZE - ?w) = 65536 - unat ?w"
      using assms(2) by (subst unat_sub_le) (simp_all add: word_le_nat_alt br_consts)
    then show ?thesis using assms(2) small need by (subst unat_add_lt) simp_all
  qed
  have pos: "0 < (of_nat ?n :: u16) \<longleftrightarrow> snd m \<noteq> []"
    using len by (simp add: word_less_nat_alt)
  have wr: "BR_RING_SIZE < ?w + need \<longleftrightarrow> 65536 < unat ?w + fsz ?n"
    by (simp only: ring_size_less_iff sum)
  have lt: "f < (BR_RING_SIZE - ?w) + need \<longleftrightarrow> unat f < 65536 - unat ?w + fsz ?n"
    "f < need \<longleftrightarrow> unat f < fsz ?n" for f
    by (simp_all only: word_less_nat_alt wneed need)
  have ok: "\<not> BR_MSG_MAX_PAYLOAD < ucast (of_nat ?n :: u16)" "fst m \<noteq> BR_MSG_WRAP"
    using assms(1) by (simp_all only: max_payload_iff len) (simp_all add: good_br_msg_def)
  show ?thesis
    unfolding br_offer_def ring_push_def need_def [symmetric] need' [symmetric] write_msg_def Let_def
    by (cases "65536 < unat ?w + fsz ?n")
       (simp_all add: ok wr lt len pos ring_size_eq_iff Option.bind_assoc cong: if_cong)
qed

section \<open>Push appends\<close>

text \<open>What the space check means: the new message stays clear of the read index.\<close>

definition room :: "br_ring \<Rightarrow> nat \<Rightarrow> bool" where
  "room ring n \<longleftrightarrow>
     (let w = unat (write_idx ring); r = unat (read_idx ring) in
      if w + n \<le> 65536 then (if w < r then w + n + 4 \<le> r else w + n + 4 \<le> 65536 + r)
      else \<not> w < r \<and> n + 4 \<le> r)"

lemma room_iff:
  assumes "ring_holds ring ms"
  shows "room ring n \<longleftrightarrow>
    \<not> unat (ring_free_bytes (write_idx ring) (read_idx ring))
      < (if 65536 < unat (write_idx ring) + n then 65536 - unat (write_idx ring) + n else n)"
proof -
  let ?w = "unat (write_idx ring)" and ?r = "unat (read_idx ring)"
  have i: "?w < 65536" "?r < 65536" "?w mod 4 = 0" "?r mod 4 = 0"
    using assms by (simp_all only: ring_holds_def)
  then have "?w + 4 \<le> ?r" if "?w < ?r" using multiple_of_4_less [OF i(3,4)] that by simp
  moreover have "?w + 4 \<le> 65536" by (rule multiple_of_4_less [OF i(3) _ i(1)]) simp
  ultimately show ?thesis
    using i unfolding ring_free_bytes_nat [OF i] room_def Let_def
    by (cases "?w < ?r"; cases "?w + n \<le> 65536") auto
qed

lemma frames_snoc:
  assumes "frames d a ms b" and "good_br_msg m" and "msg_at d' b m"
    and "\<And>i. a \<le> i \<Longrightarrow> i < b \<Longrightarrow> d' i = d i"
  shows "frames d' a (ms @ [m]) (b + fsz (length (snd m)))"
  using assms frames_cong [OF assms(1), of d'] by (auto simp: frames_append)

lemma push_straight:
  assumes holds: "ring_holds ring ms" and m: "good_br_msg m"
    and n: "n = fsz (length (snd m))" and room: "room ring n"
    and fit: "unat (write_idx ring) + n \<le> 65536"
    and w: "msg_at d (unat (write_idx ring)) m"
      "\<forall>i. i < unat (write_idx ring) \<or> unat (write_idx ring) + n \<le> i \<longrightarrow> d i = br_data ring i"
    and w': "unat w' = (if unat (write_idx ring) + n = 65536 then 0 else unat (write_idx ring) + n)"
  shows "ring_holds (ring\<lparr>br_data := d, write_idx := w'\<rparr>) (ms @ [m])"
proof -
  let ?w = "unat (write_idx ring)" and ?r = "unat (read_idx ring)"
  have n4: "n mod 4 = 0" "4 \<le> n" by (simp_all add: n fsz_bounds)
  have i: "\<not> br_poisoned ring" "?w < 65536" "?r < 65536" "?w mod 4 = 0" "?r mod 4 = 0"
    "linear ring ms \<or> wrapped ring ms"
    using ring_holdsD [OF holds] by blast+
  have "unat w' mod 4 = 0" using w' i(4) n4 by presburger
  moreover have "unat w' < 65536" using w' fit by (simp split: if_splits)
  moreover have "linear (ring\<lparr>br_data := d, write_idx := w'\<rparr>) (ms @ [m])
      \<or> wrapped (ring\<lparr>br_data := d, write_idx := w'\<rparr>) (ms @ [m])"
    using i(6)
  proof
    assume lin: "linear ring ms"
    then have f: "frames d ?r (ms @ [m]) (?w + n)"
      unfolding linear_def n using m w by (intro frames_snoc) auto
    show ?thesis
    proof (cases "?w + n = 65536")
      case True
      have "?r \<le> ?w" using lin frames_le by (auto simp: linear_def)
      then have "4 \<le> ?r" using room True by (auto simp: room_def Let_def split: if_splits)
      then have "wrapped (ring\<lparr>br_data := d, write_idx := w'\<rparr>) (ms @ [m])"
        unfolding wrapped_def using True w' f
        by (intro exI [of _ "ms @ [m]"] exI [of _ "[]"] exI [of _ 65536]) simp
      then show ?thesis ..
    next
      case False
      with f w' show ?thesis by (simp add: linear_def)
    qed
  next
    assume "wrapped ring ms"
    then obtain ms1 ms2 e where wr: "ms = ms1 @ ms2" "frames (br_data ring) ?r ms1 e"
      "frames (br_data ring) 0 ms2 ?w" "?w < ?r"
      "e = 65536 \<or> e + 4 \<le> 65536 \<and> hdr_at (br_data ring) e BR_MSG_WRAP 0 \<and> ms2 \<noteq> []"
      by (auto simp: wrapped_def)
    have le: "?w + n + 4 \<le> ?r" using room wr(4) fit by (simp add: room_def)
    have "?r \<le> e" using wr(2) frames_le by blast
    then have "hdr_at d e BR_MSG_WRAP 0 = hdr_at (br_data ring) e BR_MSG_WRAP 0"
      using w(2) le by (simp add: hdr_at_def)
    moreover have "frames d ?r ms1 e" using le w(2) by (intro frames_cong [OF wr(2)]) simp
    moreover have "frames d 0 (ms2 @ [m]) (?w + n)"
      unfolding n using m w by (intro frames_snoc [OF wr(3)]) auto
    ultimately have "wrapped (ring\<lparr>br_data := d, write_idx := w'\<rparr>) (ms @ [m])"
      unfolding wrapped_def using wr le w' i(3)
      by (intro exI [of _ ms1] exI [of _ "ms2 @ [m]"] exI [of _ e]) auto
    then show ?thesis ..
  qed
  ultimately show ?thesis using i by (simp add: ring_holds_def)
qed

lemma push_wrapping:
  assumes holds: "ring_holds ring ms" and m: "good_br_msg m"
    and n: "n = fsz (length (snd m))" and room: "room ring n"
    and fit: "\<not> unat (write_idx ring) + n \<le> 65536"
    and h: "hdr_at d1 (unat (write_idx ring)) BR_MSG_WRAP 0"
      "\<forall>i. i < unat (write_idx ring) \<or> unat (write_idx ring) + 4 \<le> i \<longrightarrow> d1 i = br_data ring i"
    and w: "msg_at d 0 m" "\<forall>i. n \<le> i \<longrightarrow> d i = d1 i"
    and w': "unat w' = n"
  shows "ring_holds (ring\<lparr>br_data := d, write_idx := w'\<rparr>) (ms @ [m])"
proof -
  let ?w = "unat (write_idx ring)" and ?r = "unat (read_idx ring)"
  have n4: "n mod 4 = 0" by (simp add: n fsz_bounds)
  have i: "\<not> br_poisoned ring" "?w < 65536" "?r < 65536" "?w mod 4 = 0" "?r mod 4 = 0"
    "linear ring ms \<or> wrapped ring ms"
    using ring_holdsD [OF holds] by blast+
  have le: "?r \<le> ?w" "n + 4 \<le> ?r" using room fit by (auto simp: room_def Let_def)
  then have lin: "frames (br_data ring) ?r ms ?w" using i(6) by (auto simp: linear_def wrapped_def)
  have d: "d j = br_data ring j" if "?r \<le> j" "j < ?w" for j using that le h(2) w(2) by simp
  have "frames d ?r ms ?w" using d by (intro frames_cong [OF lin]) simp
  moreover have "hdr_at d ?w BR_MSG_WRAP 0" using h(1) w(2) le by (simp add: hdr_at_def)
  moreover have "frames d 0 [m] n" using w(1) m n by simp
  moreover have "?w + 4 \<le> 65536" by (rule multiple_of_4_less [OF i(4) _ i(2)]) simp
  ultimately have "wrapped (ring\<lparr>br_data := d, write_idx := w'\<rparr>) (ms @ [m])"
    unfolding wrapped_def using le w' by (intro exI [of _ ms] exI [of _ "[m]"] exI [of _ ?w]) simp
  then show ?thesis using i n4 le w' by (simp add: ring_holds_def)
qed

lemma br_offer_holds:
  assumes holds: "ring_holds ring ms" and m: "good_br_msg m"
  shows "\<exists>ring'. br_offer m ring = Some (room ring (fsz (length (snd m))), ring')
    \<and> (if room ring (fsz (length (snd m))) then ring_holds ring' (ms @ [m]) else ring' = ring)"
proof -
  let ?w = "unat (write_idx ring)" and ?n = "fsz (length (snd m))"
  have w: "?w < 65536" "?w mod 4 = 0" using holds by (simp_all only: ring_holds_def)
  then have w4: "?w + 4 \<le> 65536" by (intro multiple_of_4_less) simp_all
  have len: "length (snd m) \<le> 65528" using m by (simp add: good_br_msg_def)
  then have n: "?n \<le> 65535" using fsz_bounds(2) [of "length (snd m)"] by linarith
  then have un: "unat (of_nat ?n :: u32) = ?n" by (simp add: unat_of_nat)
  note eq = br_offer_eq [OF m w(1)] and rm = room_iff [OF holds, of ?n]
  show ?thesis
  proof (cases "room ring ?n")
    case False
    then show ?thesis using rm by (simp add: eq Let_def)
  next
    case True
    show ?thesis
    proof (cases "?w + ?n \<le> 65536")
      case fit: True
      from write_msg_ok [OF fit len] obtain d where
        d: "write_msg (br_data ring) (write_idx ring) m = Some d" "msg_at d ?w m"
        "\<forall>i. i < ?w \<or> ?w + ?n \<le> i \<longrightarrow> d i = br_data ring i" by blast
      define w' where "w' = (if ?w + ?n = 65536 then 0 else write_idx ring + of_nat ?n)"
      have add: "unat (write_idx ring + of_nat ?n) = ?w + ?n"
        using fit un by (subst unat_add_lt) simp_all
      have "br_offer m ring = Some (True, ring\<lparr>br_data := d, write_idx := w'\<rparr>)"
        using True rm fit d(1) add by (simp add: eq Let_def w'_def)
      then show ?thesis
        using push_straight [OF holds m refl True fit d(2,3), of w'] add True
        by (simp add: w'_def split: if_splits)
    next
      case fit: False
      from ring_write_hdr_ok [OF w4] obtain d1 where
        d1: "ring_write_hdr (br_data ring) (write_idx ring) BR_MSG_WRAP 0 = Some d1"
        "hdr_at d1 ?w BR_MSG_WRAP 0" "\<forall>i. i < ?w \<or> ?w + 4 \<le> i \<longrightarrow> d1 i = br_data ring i" by blast
      from write_msg_ok [of 0 m d1] n len obtain d where
        d: "write_msg d1 0 m = Some d" "msg_at d 0 m" "\<forall>i. ?n \<le> i \<longrightarrow> d i = d1 i" by auto
      have "br_offer m ring = Some (True, ring\<lparr>br_data := d, write_idx := of_nat ?n\<rparr>)"
        using True rm fit d1(1) d(1) un n by (simp add: eq Let_def)
      then show ?thesis
        using push_wrapping [OF holds m refl True fit d1(2,3) d(2,3) un] True by auto
    qed
  qed
qed

section \<open>Pop takes the oldest\<close>

lemma unat_frame_end:
  assumes "unat r < 65536"
  shows "unat (r + BR_MSG_HDR_BYTES + BR_MSG_ALIGN (ucast (len :: u16))) = unat r + fsz (unat len)"
proof -
  have "fsz (unat len) \<le> 65542" using fsz_bounds(2) [of "unat len"] u16_bound [of 65536 len] by linarith
  then show ?thesis
    using assms unfolding add.assoc by (subst unat_add_lt) (simp_all add: unat_needed)
qed

lemma pop_message_at:
  assumes m: "msg_at (br_data ring) (unat r) m" "good_br_msg m"
    and fit: "unat r + fsz (length (snd m)) \<le> 65536"
  shows "\<exists>r'. pop_message ring r (fst m) (of_nat (length (snd m))) c
      = Some (Some (fst m, of_nat (length (snd m)), take (unat c) (snd m)), ring\<lparr>read_idx := r'\<rparr>)
    \<and> unat r' = (if unat r + fsz (length (snd m)) = 65536 then 0
                 else unat r + fsz (length (snd m)))"
proof -
  let ?n = "length (snd m)"
  define l where "l = (of_nat ?n :: u16)"
  define k where "k = (if l < c then l else c)"
  have len: "unat l = ?n" using m(2) by (simp add: l_def good_br_msg_def unat_of_nat)
  have fs: "?n + 4 \<le> fsz ?n" by (rule fsz_bounds)
  have r: "unat r < 65536" using fit fs by linarith
  have e: "unat (r + BR_MSG_HDR_BYTES + BR_MSG_ALIGN (ucast l)) = unat r + fsz ?n"
    using unat_frame_end [OF r, of l] len by simp
  have k: "unat k = min ?n (unat c)" using len by (auto simp: k_def word_less_nat_alt)
  have w4: "unat (r + BR_MSG_HDR_BYTES) = unat r + 4" using fit fs by (intro unat_plus_hdr) linarith
  have "map (\<lambda>i. br_data ring (unat r + 4 + i)) [0..<unat k] = take (unat c) (snd m)"
    using m(1) by (intro nth_equalityI) (auto simp: k msg_at_def)
  then have ld: "(if 0 < k then load_bytes (r + BR_MSG_HDR_BYTES) (unat k) (br_data ring) else Some [])
      = Some (take (unat c) (snd m))"
    using k w4 fit fs by (auto simp: load_bytes_def word_gt_0 unat_gt_0)
  have "\<not> BR_MSG_MAX_PAYLOAD < ucast l" using m(2) unfolding max_payload_iff len by (simp add: good_br_msg_def)
  moreover have "\<not> BR_RING_SIZE < r + BR_MSG_HDR_BYTES + BR_MSG_ALIGN (ucast l)"
    using fit unfolding ring_size_less_iff e by simp
  ultimately show ?thesis
    using ld e unfolding pop_message_def l_def [symmetric] k_def [symmetric] Let_def
    by (intro exI [of _ "if unat r + fsz ?n = 65536 then 0
          else r + BR_MSG_HDR_BYTES + BR_MSG_ALIGN (ucast l)"])
       (simp add: ring_size_eq_iff)
qed

lemma ring_read_hdr_msg:
  assumes "msg_at d (unat r) m" and "unat r + 4 \<le> 65536"
  shows "ring_read_hdr d r = Some (fst m, of_nat (length (snd m)))"
  using assms by (intro ring_read_hdr_at) (simp_all add: msg_at_def)

text \<open>The part of pop behind the checks of the indices.\<close>

lemma ring_pop_checked:
  assumes "ring_holds ring ms" and "unat (read_idx ring) \<noteq> unat (write_idx ring)"
  shows "ring_pop ring c =
    do { (type, len) \<leftarrow> ring_read_hdr (br_data ring) (read_idx ring);
         if type = BR_MSG_WRAP then
           (if 0 = write_idx ring then Some (None, ring\<lparr>read_idx := 0\<rparr>)
            else do {
              (type1, len1) \<leftarrow> ring_read_hdr (br_data ring) 0;
              if type1 = BR_MSG_WRAP then Some (None, ring)
              else pop_message ring 0 type1 len1 c })
         else pop_message ring (read_idx ring) type len c }"
proof -
  have "read_idx ring \<noteq> write_idx ring" using assms(2) by auto
  then show ?thesis
    using ring_holdsD [OF assms(1)]
    by (simp only: ring_pop_def Let_def ring_size_le_iff and_3_mod not_le [symmetric]) simp
qed

lemma ring_pop_straight:
  assumes holds: "ring_holds ring ms" and ne: "unat (read_idx ring) \<noteq> unat (write_idx ring)"
    and m: "msg_at (br_data ring) (unat (read_idx ring)) m" "good_br_msg m"
    and fit: "unat (read_idx ring) + fsz (length (snd m)) \<le> 65536"
  shows "\<exists>r'. ring_pop ring c
      = Some (Some (fst m, of_nat (length (snd m)), take (unat c) (snd m)), ring\<lparr>read_idx := r'\<rparr>)
    \<and> unat r' = (if unat (read_idx ring) + fsz (length (snd m)) = 65536 then 0
                 else unat (read_idx ring) + fsz (length (snd m)))"
proof -
  have "unat (read_idx ring) + 4 \<le> 65536" using fit fsz_bounds(4) [of "length (snd m)"] by linarith
  then show ?thesis
    using pop_message_at [OF m fit, of c] m(2) ring_read_hdr_msg [OF m(1)]
    by (simp add: ring_pop_checked [OF holds ne] good_br_msg_def)
qed

lemma ring_pop_wrap:
  assumes holds: "ring_holds ring ms" and ne: "unat (read_idx ring) \<noteq> unat (write_idx ring)"
    and h: "hdr_at (br_data ring) (unat (read_idx ring)) BR_MSG_WRAP 0"
    and fr: "frames (br_data ring) 0 (m # ns) (unat (write_idx ring))"
  shows "\<exists>r'. ring_pop ring c
      = Some (Some (fst m, of_nat (length (snd m)), take (unat c) (snd m)), ring\<lparr>read_idx := r'\<rparr>)
    \<and> unat r' = fsz (length (snd m))"
proof -
  have r: "unat (read_idx ring) + 4 \<le> 65536" "unat (write_idx ring) < 65536"
    using ring_holdsD [OF holds] by (auto intro!: multiple_of_4_less)
  have m: "msg_at (br_data ring) (unat 0) m" "good_br_msg m" using fr by simp_all
  have le: "fsz (length (snd m)) \<le> unat (write_idx ring)" using fr frames_le by fastforce
  moreover have "4 \<le> fsz (length (snd m))" by (rule fsz_bounds)
  ultimately have "write_idx ring \<noteq> 0" by auto
  moreover obtain r' where "pop_message ring 0 (fst m) (of_nat (length (snd m))) c
      = Some (Some (fst m, of_nat (length (snd m)), take (unat c) (snd m)), ring\<lparr>read_idx := r'\<rparr>)"
    "unat r' = fsz (length (snd m))"
    using pop_message_at [OF m, of c] le r(2) by auto
  ultimately show ?thesis
    using ring_read_hdr_at [OF h r(1)] ring_read_hdr_msg [OF m(1)] m(2)
    by (intro exI [of _ r']) (simp add: ring_pop_checked [OF holds ne] good_br_msg_def)
qed

lemma ring_pop_holds:
  assumes holds: "ring_holds ring (m # ms)"
  shows "\<exists>ring'. ring_pop ring c
      = Some (Some (fst m, of_nat (length (snd m)), take (unat c) (snd m)), ring')
    \<and> ring_holds ring' ms"
  using ring_holdsD(6) [OF holds]
proof
  let ?w = "unat (write_idx ring)" and ?r = "unat (read_idx ring)" and ?n = "fsz (length (snd m))"
  note i = ring_holdsD [OF holds]
  have n: "?n mod 4 = 0" "4 \<le> ?n" by (rule fsz_bounds)+
  assume "linear ring (m # ms)"
  then have f: "msg_at (br_data ring) ?r m" "good_br_msg m" "frames (br_data ring) (?r + ?n) ms ?w"
    by (simp_all add: linear_def)
  from f(3) have le: "?r + ?n \<le> ?w" using frames_le by blast
  then obtain r' where "ring_pop ring c = Some (Some (fst m, of_nat (length (snd m)),
      take (unat c) (snd m)), ring\<lparr>read_idx := r'\<rparr>)" "unat r' = ?r + ?n"
    using ring_pop_straight [OF holds _ f(1,2), of c] i n by auto
  moreover have "(?r + ?n) mod 4 = 0" using i(5) n(1) by presburger
  ultimately show ?thesis using i le f(3) by (auto simp: ring_holds_def linear_def)
next
  let ?w = "unat (write_idx ring)" and ?r = "unat (read_idx ring)" and ?n = "fsz (length (snd m))"
  note i = ring_holdsD [OF holds]
  have n: "?n mod 4 = 0" "4 \<le> ?n" by (rule fsz_bounds)+
  assume "wrapped ring (m # ms)"
  then obtain ms1 ms2 e where wr: "m # ms = ms1 @ ms2" "frames (br_data ring) ?r ms1 e"
    "frames (br_data ring) 0 ms2 ?w" "?w < ?r"
    "e = 65536 \<or> e + 4 \<le> 65536 \<and> hdr_at (br_data ring) e BR_MSG_WRAP 0 \<and> ms2 \<noteq> []"
    by (auto simp: wrapped_def)
  show ?thesis
  proof (cases ms1)
    case Nil
    then have "hdr_at (br_data ring) ?r BR_MSG_WRAP 0" "ms2 = m # ms" using wr i by auto
    then obtain r' where r': "ring_pop ring c = Some (Some (fst m, of_nat (length (snd m)),
        take (unat c) (snd m)), ring\<lparr>read_idx := r'\<rparr>)" "unat r' = ?n"
      using ring_pop_wrap [OF holds, of m ms c] wr by auto
    have f: "frames (br_data ring) ?n ms ?w" using wr(3) \<open>ms2 = m # ms\<close> by simp
    then have "?n \<le> ?w" using frames_le by blast
    with r' i f n show ?thesis by (auto simp: ring_holds_def linear_def)
  next
    case (Cons m' ms1')
    then have m: "m' = m" "ms = ms1' @ ms2" using wr by auto
    have f: "msg_at (br_data ring) ?r m" "good_br_msg m" "frames (br_data ring) (?r + ?n) ms1' e"
      using wr(2) Cons m by simp_all
    have le: "?r + ?n \<le> e" "e \<le> 65536" using f(3) frames_le wr(5) by auto
    obtain r' where r': "ring_pop ring c = Some (Some (fst m, of_nat (length (snd m)),
        take (unat c) (snd m)), ring\<lparr>read_idx := r'\<rparr>)"
      "unat r' = (if ?r + ?n = 65536 then 0 else ?r + ?n)"
      using ring_pop_straight [OF holds _ f(1,2), of c] le wr(4) by auto
    show ?thesis
    proof (cases "?r + ?n = 65536")
      case True
      then have "ms1' = []" using f(3) le frames_le by fastforce
      then have "linear (ring\<lparr>read_idx := r'\<rparr>) ms" using True wr(3) r'(2) m by (simp add: linear_def)
      then show ?thesis using r' i True by (auto simp: ring_holds_def)
    next
      case False
      have "wrapped (ring\<lparr>read_idx := r'\<rparr>) ms"
        unfolding wrapped_def using False r'(2) f(3) wr m
        by (intro exI [of _ ms1'] exI [of _ ms2] exI [of _ e]) auto
      moreover have "(?r + ?n) mod 4 = 0" using i(5) n(1) by presburger
      ultimately show ?thesis using r' i False le by (auto simp: ring_holds_def)
    qed
  qed
qed

lemma ring_pop_none:
  assumes "ring_holds ring []"
  shows "ring_pop ring c = Some (None, ring)"
proof -
  have "read_idx ring = write_idx ring"
    using ring_holdsD [OF assms] by (auto simp: linear_def wrapped_def word_unat_eq_iff)
  then show ?thesis using ring_holdsD [OF assms] by (simp add: ring_pop_def)
qed

section \<open>The ring is a FIFO\<close>

definition br_fits :: "u16 \<times> bytes \<Rightarrow> br_ring \<Rightarrow> bool" where
  "br_fits m ring \<longleftrightarrow> length (snd m) < 65536 \<and>
     (case br_offer m ring of Some (ok, _) \<Rightarrow> ok | None \<Rightarrow> False)"

definition br_put :: "u16 \<times> bytes \<Rightarrow> br_ring \<Rightarrow> br_ring" where
  "br_put m ring = (case br_offer m ring of Some (_, ring') \<Rightarrow> ring' | None \<Rightarrow> ring)"

definition br_get :: "br_ring \<Rightarrow> (u16 \<times> bytes) option \<times> br_ring" where
  "br_get ring =
     (case ring_pop ring 65535 of
        Some (Some (type, len, bs), ring') \<Rightarrow> (Some (type, bs), ring')
      | Some (None, ring') \<Rightarrow> (None, ring')
      | None \<Rightarrow> (None, ring))"

lemma br_fits_good: "br_fits m ring \<Longrightarrow> good_br_msg m"
proof -
  assume f: "br_fits m ring"
  then have len: "unat (of_nat (length (snd m)) :: u16) = length (snd m)"
    by (simp add: br_fits_def unat_of_nat)
  have "br_offer m ring = Some (False, ring)"
    if "fst m = BR_MSG_WRAP \<or> BR_MSG_MAX_PAYLOAD < ucast (of_nat (length (snd m)) :: u16)"
    using that unfolding br_offer_def ring_push_def by argo
  with f show ?thesis
    unfolding max_payload_iff len by (fastforce simp: good_br_msg_def br_fits_def not_less [symmetric])
qed

interpretation br: fifo ring_holds br_fits br_put br_get
proof
  fix ring ms m
  assume h: "ring_holds ring ms" and f: "br_fits m ring"
  from br_offer_holds [OF h br_fits_good [OF f]] f show "ring_holds (br_put m ring) (ms @ [m])"
    by (auto simp: br_fits_def br_put_def)
next
  fix ring m ms
  assume h: "ring_holds ring (m # ms)"
  then have "length (snd m) \<le> 65528"
    using ring_holdsD(6) [OF h] by (auto simp: linear_def wrapped_def good_br_msg_def Cons_eq_append_conv)
  with ring_pop_holds [OF h, of 65535] show "\<exists>ring'. br_get ring = (Some m, ring') \<and> ring_holds ring' ms"
    by (auto simp: br_get_def)
next
  fix ring
  assume "ring_holds ring []"
  then show "\<exists>ring'. br_get ring = (None, ring') \<and> ring_holds ring' []"
    by (simp add: br_get_def ring_pop_none)
qed

text \<open>The ring as \<open>NewPtrClear\<close> leaves it.\<close>

definition br_fresh :: br_ring where
  "br_fresh = \<lparr>write_idx = 0, read_idx = 0, br_data = (\<lambda>_. 0), br_poisoned = False\<rparr>"

lemma br_fresh_holds: "ring_holds br_fresh []"
  by (simp add: br_fresh_def ring_holds_def linear_def)

section \<open>Properties of the ring\<close>

text \<open>
  C11: whatever sequence of pushes and pops is performed on a fresh ring, the messages
  popped are exactly the accepted ones, each once, in order and byte for byte, and the
  ones not yet popped are still in the ring.
\<close>

theorem ring_in_order:
  "\<exists>left. ring_holds (snd (snd (fifo_run br_fits br_put br_get rs br_fresh))) left
     \<and> fst (fifo_run br_fits br_put br_get rs br_fresh)
       = fst (snd (fifo_run br_fits br_put br_get rs br_fresh)) @ left"
  using br.run_in_order [OF br_fresh_holds, of rs] by (metis append_Nil prod.collapse)

text \<open>
  On a ring that holds messages, a push of a legal message stays inside the data
  array, succeeds exactly when the message (and the tail skipped by a wrap) leaves the
  four reserved bytes free, then adds the message behind the others, and changes nothing
  when it is refused.
\<close>

theorem ring_push_appends:
  assumes "ring_holds ring ms" and "type \<noteq> BR_MSG_WRAP" and "length p \<le> 65528"
  shows "\<exists>ring'. ring_push ring type (Some p) (of_nat (length p)) = Some (room ring (fsz (length p)), ring')
    \<and> (if room ring (fsz (length p)) then ring_holds ring' (ms @ [(type, p)]) else ring' = ring)"
  using br_offer_holds [OF assms(1), of "(type, p)"] assms(2,3) by (simp add: good_br_msg_def br_offer_def)

text \<open>
  C13: pop reads no byte outside the data array whatever the indices, headers and data
  in the shared memory are, and a ring found corrupt stays poisoned: later pops return
  nothing.
\<close>

theorem ring_pop_safe:
  "\<exists>res ring'. ring_pop ring c = Some (res, ring')
     \<and> (br_poisoned ring' \<longrightarrow> res = None \<and> ring_pop ring' c' = Some (None, ring'))"
proof -
  have msg: "\<exists>res ring'. pop_message ring r type len c = Some (res, ring')
      \<and> (br_poisoned ring' \<longrightarrow> res = None)"
    if "\<not> br_poisoned ring" "unat r < 65536" for r type len
  proof (cases "BR_MSG_MAX_PAYLOAD < ucast len
      \<or> BR_RING_SIZE < r + BR_MSG_HDR_BYTES + BR_MSG_ALIGN (ucast len)")
    case True
    then show ?thesis by (auto simp: pop_message_def Let_def ring_poison_def)
  next
    case False
    let ?k = "if len < c then len else c"
    from False have "unat r + fsz (unat len) \<le> 65536"
      using unat_frame_end [OF that(2), of len] by (simp add: ring_size_less_iff)
    moreover have "unat ?k \<le> unat len" by (simp add: word_less_nat_alt)
    ultimately have "unat r + 4 + unat ?k \<le> 65536" using fsz_bounds(1) [of "unat len"] by linarith
    then have "\<exists>bs. load_bytes (r + BR_MSG_HDR_BYTES) (unat ?k) (br_data ring) = Some bs"
      using unat_plus_hdr [of r] by (simp add: load_bytes_def)
    with False that show ?thesis by (auto simp: pop_message_def Let_def)
  qed
  have "\<exists>res ring'. ring_pop ring c = Some (res, ring') \<and> (br_poisoned ring' \<longrightarrow> res = None)"
  proof (cases "br_poisoned ring \<or> read_idx ring = write_idx ring \<or> BR_RING_SIZE \<le> write_idx ring
      \<or> BR_RING_SIZE \<le> read_idx ring \<or> read_idx ring AND 3 \<noteq> 0 \<or> write_idx ring AND 3 \<noteq> 0")
    case True
    then show ?thesis by (auto simp: ring_pop_def Let_def ring_poison_def)
  next
    case False
    then have r: "unat (read_idx ring) < 65536" "unat (read_idx ring) mod 4 = 0"
      "\<not> br_poisoned ring" by (simp_all only: ring_size_le_iff and_3_mod) simp_all
    then have "unat (read_idx ring) + 4 \<le> 65536" by (intro multiple_of_4_less) simp_all
    then obtain t l t0 l0 where "ring_read_hdr (br_data ring) (read_idx ring) = Some (t, l)"
      "ring_read_hdr (br_data ring) 0 = Some (t0, l0)"
      using ring_read_hdr_in_bounds [of "read_idx ring"] ring_read_hdr_in_bounds [of 0] by fastforce
    with False msg [OF r(3,1), of t l] msg [OF r(3), of 0 t0 l0] r(3) show ?thesis
      by (auto simp: ring_pop_def Let_def)
  qed
  then show ?thesis by (auto simp: ring_pop_def)
qed

section \<open>Where the ring falls short\<close>


text \<open>
  An empty ring refuses a legal message for ever when its indices stand in the middle:
  neither the part behind them nor the part before them is long enough.
\<close>

theorem empty_ring_refuses:
  assumes "write_idx ring = 32768" and "read_idx ring = 32768" and "32768 < n"
  shows "\<not> room ring n"
  using assms by (simp add: room_def)

section \<open>Concrete rings\<close>

theorem ring_push_appends_witness:
  "\<exists>ring'. ring_push br_fresh 7 (Some [1, 2, 3]) (of_nat (length [1, 2, 3 :: u8])) = Some (True, ring')
    \<and> ring_holds ring' [(7, [1, 2, 3])]"
proof -
  have "room br_fresh (fsz (length [1, 2, 3 :: u8]))" by (simp add: room_def br_fresh_def fsz_def)
  then show ?thesis
    using ring_push_appends [OF br_fresh_holds, of 7 "[1, 2, 3]"] by (simp add: br_consts)
qed

text \<open>A write index that is no multiple of 4 poisons the ring.\<close>

definition br_hostile :: br_ring where
  "br_hostile = br_fresh\<lparr>write_idx := 3\<rparr>"

theorem ring_pop_safe_witness:
  "ring_pop br_hostile 10 = Some (None, ring_poison br_hostile)
   \<and> ring_pop (ring_poison br_hostile) 10 = Some (None, ring_poison br_hostile)"
proof -
  have p: "ring_pop br_hostile 10 = Some (None, ring_poison br_hostile)"
    by (simp add: ring_pop_def br_hostile_def br_fresh_def br_consts)
  have "br_poisoned (ring_poison br_hostile)" by (simp add: ring_poison_def)
  then show ?thesis using ring_pop_safe [of br_hostile 10 10] p by auto
qed

end
