(* ===== verification/Disk_Overlay.thy ===== *)
theory Disk_Overlay
  imports Posix_IO
begin

text \<open>
  A disk image with the Mac's changes kept apart: \<^verbatim>\<open>executor/host/overlay.cpp\<close> and
  \<^verbatim>\<open>overlay.h\<close>. The image is read-only; changed 4 KB blocks gather in memory and go out
  as one version, a run of records closed by a commit record, appended to the overlay
  file. Loading the file replays its records and cuts off what no commit vouches for.

  The overlay is a record with the fields of the class; files are byte lists, \<open>std::map\<close>s
  ordered entry lists, and every system call takes the next of the kernel's answers.
\<close>

section \<open>Constants and encodings\<close>

definition BLOCK :: nat where "BLOCK = 4096"
definition HEAD :: nat where "HEAD = 12"
definition FORMAT :: u32 where "FORMAT = 1"
definition KIND_BLOCK :: u32 where "KIND_BLOCK = 1"
definition KIND_META :: u32 where "KIND_META = 2"
definition KIND_COMMIT :: u32 where "KIND_COMMIT = 3"
definition MAX_DIRTY :: nat where "MAX_DIRTY = 4096"

definition ascii :: "string \<Rightarrow> bytes" where
  "ascii s = map (\<lambda>c. of_nat (of_char c)) s"

definition MAGIC :: bytes where "MAGIC = ascii ''XOVL''"

definition put32 :: "u32 \<Rightarrow> bytes" where
  "put32 x = map (byte32 x) [0, 1, 2, 3]"

definition get32 :: "bytes \<Rightarrow> nat \<Rightarrow> u32" where
  "get32 h i = be32 (h ! (i + 3)) (h ! (i + 2)) (h ! (i + 1)) (h ! i)"

definition put_head :: "u32 \<Rightarrow> u32 \<Rightarrow> u32 \<Rightarrow> bytes" where
  "put_head kind a b = put32 kind @ put32 a @ put32 b"

section \<open>The meta record\<close>

text \<open>\<open>std::string::find\<close> from a position; \<open>None\<close> is \<open>npos\<close>.\<close>

fun find_from :: "bytes \<Rightarrow> bytes \<Rightarrow> nat \<Rightarrow> nat option" where
  "find_from [] pat i = (if pat = [] then Some i else None)"
| "find_from (c # cs) pat i =
     (if take (length pat) (c # cs) = pat then Some i else find_from cs pat (Suc i))"

definition str_find :: "bytes \<Rightarrow> bytes \<Rightarrow> nat \<Rightarrow> nat option" where
  "str_find s pat pos = find_from (drop pos s) pat pos"

definition is_space :: "u8 \<Rightarrow> bool" where
  "is_space c \<longleftrightarrow> c = 32 \<or> (9 \<le> c \<and> c \<le> 13)"

definition is_digit :: "u8 \<Rightarrow> bool" where
  "is_digit c \<longleftrightarrow> 48 \<le> c \<and> c \<le> 57"

definition digits_value :: "bytes \<Rightarrow> nat" where
  "digits_value ds = foldl (\<lambda>n c. 10 * n + (unat c - 48)) 0 ds"

text \<open>\<open>strtoull\<close> in base 10: white space, a sign, digits; saturating, negated modulo \<open>2^64\<close>.\<close>

definition strtoull :: "bytes \<Rightarrow> nat" where
  "strtoull s =
     (let s1 = dropWhile is_space s;
          neg = (s1 \<noteq> [] \<and> hd s1 = 45);
          s2 = (if s1 \<noteq> [] \<and> (hd s1 = 45 \<or> hd s1 = 43) then tl s1 else s1);
          v = digits_value (takeWhile is_digit s2)
      in if 2 ^ 64 \<le> v then 2 ^ 64 - 1
         else if neg then (2 ^ 64 - v) mod 2 ^ 64 else v)"

text \<open>The name up to the closing quote, a backslash taken off.\<close>

fun unescape :: "bytes \<Rightarrow> bytes" where
  "unescape [] = []"
| "unescape (c # cs) =
     (if c = 34 then []
      else if c = 92 then (case cs of [] \<Rightarrow> [c] | d # ds \<Rightarrow> d # unescape ds)
      else c # unescape cs)"

definition parse_meta :: "bytes \<Rightarrow> bytes \<Rightarrow> nat \<Rightarrow> bytes \<times> nat" where
  "parse_meta json name sz =
     (let sz' =
        (case str_find json (ascii ''\"size\"'') 0 of
           None \<Rightarrow> sz
         | Some p \<Rightarrow>
             (case str_find json [58] p of
                None \<Rightarrow> sz
              | Some q \<Rightarrow> strtoull (drop (q + 1) json)));
        name' =
        (case str_find json (ascii ''\"name\"'') 0 of
           None \<Rightarrow> name
         | Some p \<Rightarrow>
             (case str_find json [58] p of
                None \<Rightarrow> name
              | Some q \<Rightarrow>
                  (case str_find json [34] q of
                     None \<Rightarrow> name
                   | Some r \<Rightarrow> unescape (drop (r + 1) json))))
      in (name', sz'))"

fun json_escape :: "bytes \<Rightarrow> bytes" where
  "json_escape [] = []"
| "json_escape (c # cs) =
     (if c = 34 \<or> c = 92 then [92] else []) @ (if c < 32 then [] else [c]) @ json_escape cs"

function dec :: "nat \<Rightarrow> bytes" where
  "dec n = (if n < 10 then [of_nat (48 + n)] else dec (n div 10) @ [of_nat (48 + n mod 10)])"
  by pat_completeness auto
termination dec by (relation "measure id") auto
declare dec.simps [simp del]

definition meta_json :: "bytes \<Rightarrow> nat \<Rightarrow> bytes" where
  "meta_json name sz =
     ascii ''{\"name\":\"'' @ json_escape name @ ascii ''\",\"size\":'' @ dec sz @ ascii ''}''"

section \<open>The overlay\<close>

type_synonym at_entry = "u32 \<times> nat"   \<comment> \<open>\<open>At\<close>: version and offset of the data in the file\<close>

record overlay =
  ov_calls :: "sys_result list"
  ov_base :: bytes               \<comment> \<open>the image; \<open>baseSize_\<close> is \<open>ov_base_size\<close>\<close>
  ov_base_size :: nat
  ov_disk :: "bytes option"      \<comment> \<open>what is at \<open>path_\<close>\<close>
  ov_open :: bool                \<comment> \<open>\<open>file_ >= 0\<close>\<close>
  ov_meta_size :: nat
  ov_meta_name :: bytes
  ov_writable :: bool
  ov_end :: nat
  ov_version :: u32
  ov_reset :: u32
  ov_dead :: nat
  ov_index :: "(u32 \<times> at_entry) list"
  ov_dirty :: "(u32 \<times> bytes) list"

text \<open>A call that only succeeds or fails.\<close>

fun sys_ok :: "sys_result list \<Rightarrow> bool \<times> sys_result list" where
  "sys_ok [] = (False, [])"
| "sys_ok (Transfer _ # cs) = (True, cs)"
| "sys_ok (Interrupted # cs) = (False, cs)"
| "sys_ok (Failure # cs) = (False, cs)"

definition ov_content :: "overlay \<Rightarrow> bytes" where
  "ov_content ov = (case ov_disk ov of None \<Rightarrow> [] | Some dat \<Rightarrow> dat)"

text \<open>\<open>truncate_fd\<close> whose result the callers ignore.\<close>

definition truncate_fd :: "nat \<Rightarrow> overlay \<Rightarrow> overlay" where
  "truncate_fd n ov =
     (case sys_ok (ov_calls ov) of
        (ok, cs) \<Rightarrow>
          ov\<lparr>ov_calls := cs,
             ov_disk := (if ok then map_option (\<lambda>dat. take n dat @ replicate (n - length dat) 0) (ov_disk ov)
                         else ov_disk ov)\<rparr>)"

section \<open>Loading\<close>

text \<open>A read whose buffer is used even when it comes up short: the rest stays zero.\<close>

definition read_into :: "sys_result list \<Rightarrow> bytes \<Rightarrow> nat \<Rightarrow> nat \<Rightarrow> bytes \<times> sys_result list" where
  "read_into cs dat n pos =
     (case recv_exact cs (drop pos dat) n of
        (_, cs', left) \<Rightarrow>
          (let got = take (length (drop pos dat) - length left) (drop pos dat)
           in (got @ replicate (n - length got) 0, cs')))"

definition put_index :: "u32 \<times> at_entry \<Rightarrow> overlay \<Rightarrow> overlay" where
  "put_index p ov =
     ov\<lparr>ov_dead := ov_dead ov + (if map_of (ov_index ov) (fst p) \<noteq> None then 1 else 0),
        ov_index := smap_put (fst p) (snd p) (ov_index ov)\<rparr>"

definition reset_to :: "u32 \<Rightarrow> overlay \<Rightarrow> overlay" where
  "reset_to b ov =
     (if b \<noteq> ov_reset ov
      then ov\<lparr>ov_dead := ov_dead ov + length (ov_index ov), ov_index := [], ov_reset := b\<rparr>
      else ov)"

definition take_meta :: "bytes option \<Rightarrow> overlay \<Rightarrow> overlay" where
  "take_meta meta ov =
     (case meta of
        None \<Rightarrow> ov
      | Some m \<Rightarrow>
          ov\<lparr>ov_meta_name := fst (parse_meta m (ov_meta_name ov) (ov_meta_size ov)),
             ov_meta_size := snd (parse_meta m (ov_meta_name ov) (ov_meta_size ov))\<rparr>)"

definition apply_commit ::
    "u32 \<Rightarrow> u32 \<Rightarrow> (u32 \<times> at_entry) list \<Rightarrow> bytes option \<Rightarrow> overlay \<Rightarrow> overlay" where
  "apply_commit a b pending meta ov =
     (take_meta meta (fold put_index pending (reset_to b ov)))\<lparr>ov_version := a\<rparr>"

function load_loop ::
    "bytes \<Rightarrow> nat \<Rightarrow> nat \<Rightarrow> (u32 \<times> at_entry) list \<Rightarrow> bytes option \<Rightarrow> overlay \<Rightarrow> nat \<times> overlay" where
  "load_loop dat pos good pending meta ov =
     (if pos + HEAD \<le> length dat then
        (case read_all (ov_calls ov) dat HEAD pos of
           (None, cs) \<Rightarrow> (good, ov\<lparr>ov_calls := cs\<rparr>)
         | (Some h, cs) \<Rightarrow>
             (let ov1 = ov\<lparr>ov_calls := cs\<rparr>; kind = get32 h 0; a = get32 h 4; b = get32 h 8;
                  pos1 = pos + HEAD in
              if kind = KIND_BLOCK then
                (if length dat < pos1 + BLOCK then (good, ov1)
                 else load_loop dat (pos1 + BLOCK) good (pending @ [(a, (b, pos1))]) meta ov1)
              else if kind = KIND_META then
                (if length dat < pos1 + unat a \<or> 65536 < unat a then (good, ov1)
                 else case read_into cs dat (unat a) pos1 of
                        (m, cs1) \<Rightarrow>
                          load_loop dat (pos1 + unat a) good pending (Some m) (ov1\<lparr>ov_calls := cs1\<rparr>))
              else if kind = KIND_COMMIT then
                load_loop dat pos1 pos1 [] None (apply_commit a b pending meta ov1)
              else (good, ov1)))
      else (good, ov))"
  by pat_completeness auto
termination load_loop
  by (relation "measure (\<lambda>(dat, pos, _). Suc (length dat) - pos)") (auto simp: HEAD_def BLOCK_def)
declare load_loop.simps [simp del]

definition load :: "overlay \<Rightarrow> overlay option" where
  "load ov =
     (case ov_disk ov of
        None \<Rightarrow> Some ov
      | Some dat \<Rightarrow>
          (case sys_ok (ov_calls ov) of
             (False, cs) \<Rightarrow> None
           | (True, cs) \<Rightarrow>
               (case read_all cs dat 8 0 of
                  (None, _) \<Rightarrow> None
                | (Some h, cs1) \<Rightarrow>
                    if take 4 h \<noteq> MAGIC \<or> get32 h 4 \<noteq> FORMAT then None
                    else
                      (case load_loop dat 8 8 [] None (ov\<lparr>ov_calls := cs1, ov_open := True\<rparr>) of
                         (good, ov1) \<Rightarrow>
                           Some ((if good < length dat then truncate_fd good ov1 else ov1)
                                   \<lparr>ov_end := good\<rparr>)))))"

text \<open>
  \<open>Overlay::open\<close>: the image must open; a failing \<open>fstat\<close> leaves its size 0. \<open>img\<close> is
  the image's content (\<open>None\<close>: no such file), \<open>disk\<close> what is at the overlay's path.
\<close>

definition base_name :: "bytes \<Rightarrow> bytes" where
  "base_name path = rev (takeWhile (\<lambda>c. c \<noteq> 47 \<and> c \<noteq> 92) (rev path))"

definition overlay_open ::
    "bytes \<Rightarrow> bytes option \<Rightarrow> bytes option \<Rightarrow> bool \<Rightarrow> sys_result list \<Rightarrow> overlay option" where
  "overlay_open image_path img disk writable cs =
     (case (img, sys_ok cs) of
        (Some base, (True, cs1)) \<Rightarrow>
          (case sys_ok cs1 of
             (st, cs2) \<Rightarrow>
               load \<lparr>ov_calls = cs2, ov_base = base, ov_base_size = (if st then length base else 0),
                 ov_disk = disk, ov_open = False, ov_meta_size = 0, ov_meta_name = base_name image_path,
                 ov_writable = writable, ov_end = 0, ov_version = 0, ov_reset = 0, ov_dead = 0,
                 ov_index = [], ov_dirty = []\<rparr>)
      | _ \<Rightarrow> None)"

section \<open>Reading\<close>

definition ov_size :: "overlay \<Rightarrow> nat" where
  "ov_size ov = (if ov_meta_size ov \<noteq> 0 then ov_meta_size ov else ov_base_size ov)"

definition readBlock :: "u32 \<Rightarrow> overlay \<Rightarrow> bytes option \<times> overlay" where
  "readBlock b ov =
     (case map_of (ov_dirty ov) b of
        Some data \<Rightarrow> (Some data, ov)
      | None \<Rightarrow>
          (case map_of (ov_index ov) b of
             Some (_, off) \<Rightarrow>
               (case read_all (ov_calls ov) (ov_content ov) BLOCK off of
                  (r, cs) \<Rightarrow> (r, ov\<lparr>ov_calls := cs\<rparr>))
           | None \<Rightarrow>
               (let at0 = unat b * BLOCK in
                if ov_base_size ov \<le> at0 then (Some (replicate BLOCK 0), ov)
                else (let n = min BLOCK (ov_base_size ov - at0) in
                      case read_all (ov_calls ov) (ov_base ov) n at0 of
                        (None, cs) \<Rightarrow> (None, ov\<lparr>ov_calls := cs\<rparr>)
                      | (Some bs, cs) \<Rightarrow>
                          (Some (bs @ replicate (BLOCK - n) 0), ov\<lparr>ov_calls := cs\<rparr>)))))"

definition in_image :: "u32 \<Rightarrow> overlay \<Rightarrow> bool" where
  "in_image b ov \<longleftrightarrow> map_of (ov_dirty ov) b = None \<and> map_of (ov_index ov) b = None"

text \<open>
  The length of a run of the image's own blocks: \<open>run\<close> bytes so far, extended while a
  whole block more is wanted and it is unchanged.
\<close>

function run_length :: "nat \<Rightarrow> nat \<Rightarrow> u32 \<Rightarrow> nat \<Rightarrow> overlay \<Rightarrow> nat" where
  "run_length n don b run ov =
     (if don + run + BLOCK \<le> n \<and> in_image (of_nat (unat b + run div BLOCK)) ov
      then run_length n don b (run + BLOCK) ov else run)"
  by pat_completeness auto
termination run_length
  by (relation "measure (\<lambda>(n, don, b, run, ov). Suc n - run)") (auto simp: BLOCK_def)
declare run_length.simps [simp del]

lemma run_length_ge: "run \<le> run_length n don b run ov"
proof (induction n don b run ov rule: run_length.induct)
  case (1 n don b run ov)
  then show ?case by (subst run_length.simps) auto
qed

function pread_loop :: "nat \<Rightarrow> nat \<Rightarrow> nat \<Rightarrow> overlay \<Rightarrow> bytes option \<times> overlay" where
  "pread_loop n offset don ov =
     (if don < n then
        (let pos = offset + don; b = of_nat (pos div BLOCK) :: u32; i = pos mod BLOCK;
             len = min (BLOCK - i) (n - don) in
         if i = 0 \<and> len = BLOCK \<and> in_image b ov then
           (let run = run_length n don b BLOCK ov;
                avail = (if pos < ov_base_size ov then ov_base_size ov - pos else 0);
                from_base = min run avail in
            case (if from_base \<noteq> 0 then read_all (ov_calls ov) (ov_base ov) from_base pos
                  else (Some [], ov_calls ov)) of
              (None, cs) \<Rightarrow> (None, ov\<lparr>ov_calls := cs\<rparr>)
            | (Some bs, cs) \<Rightarrow>
                (case pread_loop n offset (don + run) (ov\<lparr>ov_calls := cs\<rparr>) of
                   (None, ov2) \<Rightarrow> (None, ov2)
                 | (Some tail, ov2) \<Rightarrow> (Some (bs @ replicate (run - from_base) 0 @ tail), ov2)))
         else
           (case readBlock b ov of
              (None, ov1) \<Rightarrow> (None, ov1)
            | (Some block, ov1) \<Rightarrow>
                (case pread_loop n offset (don + len) ov1 of
                   (None, ov2) \<Rightarrow> (None, ov2)
                 | (Some tail, ov2) \<Rightarrow> (Some (slice i len block @ tail), ov2))))
      else (Some [], ov))"
  by pat_completeness auto
termination pread_loop
proof (relation "measure (\<lambda>(n, offset, don, ov). n - don)", goal_cases)
  case (2 n offset don ov)
  have "0 < run_length n don b BLOCK ov" for b using run_length_ge [of BLOCK n don b ov] by (simp add: BLOCK_def)
  with 2 show ?case by (auto intro!: diff_less_mono2)
next
  case (3 n offset don ov)
  then show ?case by (auto simp: BLOCK_def intro!: diff_less_mono2)
qed auto
declare pread_loop.simps [simp del]

text \<open>\<open>Some bs\<close>: as many bytes were read; \<open>None\<close>: -1.\<close>

definition ov_pread :: "nat \<Rightarrow> nat \<Rightarrow> overlay \<Rightarrow> bytes option \<times> overlay" where
  "ov_pread n offset ov =
     (if ov_size ov \<le> offset then (Some [], ov)
      else pread_loop (min n (ov_size ov - offset)) offset 0 ov)"

section \<open>Making the file\<close>

definition ov_create :: "overlay \<Rightarrow> bool \<times> overlay" where
  "ov_create ov =
     (if ov_open ov then (True, ov)
      else case sys_ok (ov_calls ov) of
             (ok, cs) \<Rightarrow>
               if \<not> ok \<or> ov_disk ov \<noteq> None then (False, ov\<lparr>ov_calls := cs\<rparr>)
               else case write_all cs [] 0 (MAGIC @ put32 FORMAT) of
                      (False, cs1, _) \<Rightarrow> (False, ov\<lparr>ov_calls := cs1, ov_disk := None\<rparr>)
                    | (True, cs1, dat) \<Rightarrow>
                        (True, ov\<lparr>ov_calls := cs1, ov_disk := Some dat, ov_open := True,
                                 ov_end := length (MAGIC @ put32 FORMAT)\<rparr>))"

section \<open>Compaction\<close>

text \<open>
  The live blocks copied one by one to the new file: whether every copy worked, the
  answers left, the new file and index.
\<close>

fun compact_blocks ::
    "(u32 \<times> at_entry) list \<Rightarrow> bytes \<Rightarrow> bool \<times> sys_result list \<times> bytes \<times> nat \<times> (u32 \<times> at_entry) list
     \<Rightarrow> bool \<times> sys_result list \<times> bytes \<times> nat \<times> (u32 \<times> at_entry) list" where
  "compact_blocks [] old st = st"
| "compact_blocks ((b, (ver, off)) # es) old (ok, cs, f, pos, idx) =
     (if \<not> ok then (ok, cs, f, pos, idx)
      else
        (case read_all cs old BLOCK off of
           (None, cs1) \<Rightarrow>
             compact_blocks es old (False, cs1, f, pos + HEAD + BLOCK, smap_put b (ver, pos + HEAD) idx)
         | (Some data, cs1) \<Rightarrow>
             (case write_all cs1 f pos (put_head KIND_BLOCK b ver @ data) of
                (ok1, cs2, f1) \<Rightarrow>
                  compact_blocks es old
                    (ok1, cs2, f1, pos + HEAD + BLOCK, smap_put b (ver, pos + HEAD) idx))))"

definition maybeCompact :: "overlay \<Rightarrow> overlay" where
  "maybeCompact ov =
     (if \<not> ov_open ov \<or> ov_dead ov < 256 \<or> ov_dead ov < length (ov_index ov) then ov
      else
        case sys_ok (ov_calls ov) of
          (False, cs) \<Rightarrow> ov\<lparr>ov_calls := cs\<rparr>
        | (True, cs) \<Rightarrow>
            (let meta = meta_json (ov_meta_name ov) (ov_size ov);
                 hd0 = MAGIC @ put32 FORMAT @ put_head KIND_META (of_nat (length meta)) 0 @ meta in
             case write_all cs [] 0 hd0 of
               (ok0, cs0, f0) \<Rightarrow>
                 (case compact_blocks (ov_index ov) (ov_content ov) (ok0, cs0, f0, length hd0, []) of
                    (ok1, cs1, f1, pos, idx) \<Rightarrow>
                      (let c = put_head KIND_COMMIT (ov_version ov) (ov_reset ov) in
                       case (if ok1 then write_all cs1 f1 pos c else (False, cs1, f1)) of
                         (ok2, cs2, f2) \<Rightarrow>
                           (case (if ok2 then sys_ok cs2 else (False, cs2)) of
                              (ok3, cs3) \<Rightarrow>
                                (case (if ok3 then sys_ok cs3 else (False, cs3)) of
                                   (False, cs4) \<Rightarrow> ov\<lparr>ov_calls := cs4\<rparr>
                                 | (True, cs4) \<Rightarrow>
                                     ov\<lparr>ov_calls := cs4, ov_disk := Some f2, ov_end := pos + length c,
                                        ov_index := idx, ov_dead := 0\<rparr>))))))"

section \<open>Writing out\<close>

text \<open>The block records of a version and the places of their data.\<close>

fun block_records :: "(u32 \<times> bytes) list \<Rightarrow> u32 \<Rightarrow> nat \<Rightarrow> bytes \<times> (u32 \<times> nat) list" where
  "block_records [] v pos = ([], [])"
| "block_records ((b, data) # ds) v pos =
     (case block_records ds v (pos + HEAD + length data) of
        (buf, places) \<Rightarrow> (put_head KIND_BLOCK b v @ data @ buf, (b, pos + HEAD) # places))"

definition sync_buffer :: "overlay \<Rightarrow> bytes \<times> (u32 \<times> nat) list" where
  "sync_buffer ov =
     (let v = ov_version ov + 1; meta = meta_json (ov_meta_name ov) (ov_size ov);
          pre = (if ov_end ov = 8 then put_head KIND_META (of_nat (length meta)) 0 @ meta else []) in
      case block_records (ov_dirty ov) v (ov_end ov + length pre) of
        (buf, places) \<Rightarrow> (pre @ buf @ put_head KIND_COMMIT v (ov_reset ov), places))"

definition ov_sync :: "overlay \<Rightarrow> bool \<times> overlay" where
  "ov_sync ov =
     (if ov_dirty ov = [] then (True, ov)
      else case ov_create ov of
             (False, ov1) \<Rightarrow> (False, ov1)
           | (True, ov1) \<Rightarrow>
               (case sync_buffer ov1 of
                  (buf, places) \<Rightarrow>
                    (case write_all (ov_calls ov1) (ov_content ov1) (ov_end ov1) buf of
                       (ok, cs, dat) \<Rightarrow>
                         (case (if ok then sys_ok cs else (False, cs)) of
                            (False, cs1) \<Rightarrow>
                              (False, truncate_fd (ov_end ov1)
                                        (ov1\<lparr>ov_calls := cs1, ov_disk := Some dat\<rparr>))
                          | (True, cs1) \<Rightarrow>
                              (let v = ov_version ov1 + 1;
                                   ov2 = fold (\<lambda>(b, off). put_index (b, (v, off))) places
                                           (ov1\<lparr>ov_calls := cs1, ov_disk := Some dat\<rparr>);
                                   ov3 = (if ov_meta_size ov2 = 0
                                          then ov2\<lparr>ov_meta_size := ov_base_size ov2\<rparr> else ov2)
                               in (True, maybeCompact
                                     (ov3\<lparr>ov_end := ov_end ov3 + length buf, ov_version := v,
                                          ov_dirty := []\<rparr>)))))))"

function pwrite_loop :: "bytes \<Rightarrow> nat \<Rightarrow> nat \<Rightarrow> overlay \<Rightarrow> bool \<times> overlay" where
  "pwrite_loop buf offset don ov =
     (if don < length buf then
        (let pos = (offset + don) mod 2 ^ 64; b = of_nat (pos div BLOCK) :: u32; i = pos mod BLOCK;
             len = min (BLOCK - i) (length buf - don) in
         case (case map_of (ov_dirty ov) b of
                 Some block \<Rightarrow> (Some block, ov)
               | None \<Rightarrow> (if len < BLOCK then readBlock b ov else (Some (replicate BLOCK 0), ov))) of
           (None, ov1) \<Rightarrow> (False, ov1)
         | (Some block, ov1) \<Rightarrow>
             pwrite_loop buf offset (don + len)
               (ov1\<lparr>ov_dirty := smap_put b (overwrite block i (slice don len buf)) (ov_dirty ov1)\<rparr>))
      else (True, ov))"
  by pat_completeness auto
termination pwrite_loop
  by (relation "measure (\<lambda>(buf, offset, don, ov). length buf - don)")
     (auto simp: BLOCK_def intro!: diff_less_mono2)
declare pwrite_loop.simps [simp del]

definition ov_pwrite :: "bytes \<Rightarrow> nat \<Rightarrow> overlay \<Rightarrow> nat option \<times> overlay" where
  "ov_pwrite buf offset ov =
     (if \<not> ov_writable ov \<or> ov_size ov < (offset + length buf) mod 2 ^ 64 then (None, ov)
      else case pwrite_loop buf offset 0 ov of
             (False, ov1) \<Rightarrow> (None, ov1)
           | (True, ov1) \<Rightarrow>
               if MAX_DIRTY \<le> length (ov_dirty ov1) then
                 (case ov_sync ov1 of
                    (ok, ov2) \<Rightarrow> (if ok then Some (length buf) else None, ov2))
               else (Some (length buf), ov1))"

text \<open>The destructor: a last sync; the descriptors are closed.\<close>

definition overlay_delete :: "overlay \<Rightarrow> overlay" where
  "overlay_delete ov = (snd (ov_sync ov))\<lparr>ov_open := False\<rparr>"

end
