(* ===== verification/Overlay_View.thy ===== *)
theory Overlay_View
  imports Disk_Overlay
begin

text \<open>
  The disk the guest sees through an overlay: one byte string, assembled from the blocks
  gathered in memory, the blocks in the overlay file and the image. Reading returns its
  bytes, writing changes exactly the bytes written, and neither depends on how the kernel
  cuts the transfers up.
\<close>

section \<open>The guest's view\<close>

definition img_byte :: "overlay \<Rightarrow> nat \<Rightarrow> u8" where
  "img_byte ov i = (if i < ov_base_size ov then ov_base ov ! i else 0)"

definition ov_block :: "overlay \<Rightarrow> u32 \<Rightarrow> bytes" where
  "ov_block ov b =
     (case map_of (ov_dirty ov) b of
        Some data \<Rightarrow> data
      | None \<Rightarrow>
          (case map_of (ov_index ov) b of
             Some (_, off) \<Rightarrow> slice off BLOCK (ov_content ov)
           | None \<Rightarrow> map (\<lambda>i. img_byte ov (unat b * BLOCK + i)) [0..<BLOCK]))"

definition ov_byte :: "overlay \<Rightarrow> nat \<Rightarrow> u8" where
  "ov_byte ov i = ov_block ov (of_nat (i div BLOCK)) ! (i mod BLOCK)"

definition ov_wf :: "overlay \<Rightarrow> bool" where
  "ov_wf ov \<longleftrightarrow> smap_ok (ov_dirty ov) \<and> smap_ok (ov_index ov)
     \<and> (\<forall>(b, d) \<in> set (ov_dirty ov). length d = BLOCK)
     \<and> (\<forall>(b, v, off) \<in> set (ov_index ov). off + BLOCK \<le> length (ov_content ov))
     \<and> ov_base_size ov \<le> length (ov_base ov)"

lemma BLOCK_pos [simp]: "0 < BLOCK" "BLOCK \<noteq> 0"
  by (simp_all add: BLOCK_def)

lemma ov_calls_irrelevant [simp]:
  "img_byte (ov\<lparr>ov_calls := cs\<rparr>) i = img_byte ov i"
  "ov_content (ov\<lparr>ov_calls := cs\<rparr>) = ov_content ov"
  "ov_block (ov\<lparr>ov_calls := cs\<rparr>) b = ov_block ov b"
  "ov_byte (ov\<lparr>ov_calls := cs\<rparr>) = ov_byte ov"
  "ov_wf (ov\<lparr>ov_calls := cs\<rparr>) = ov_wf ov"
  "ov_size (ov\<lparr>ov_calls := cs\<rparr>) = ov_size ov"
  "in_image b (ov\<lparr>ov_calls := cs\<rparr>) = in_image b ov"
  by (simp_all add: img_byte_def ov_content_def ov_block_def ov_byte_def ov_wf_def ov_size_def
      in_image_def fun_eq_iff split: option.splits)

lemma ov_wfD:
  assumes "ov_wf ov"
  shows "map_of (ov_dirty ov) b = Some d \<Longrightarrow> length d = BLOCK"
    and "map_of (ov_index ov) b = Some (v, off) \<Longrightarrow> off + BLOCK \<le> length (ov_content ov)"
    and "ov_base_size ov \<le> length (ov_base ov)"
  using assms by (auto simp: ov_wf_def dest!: map_of_SomeD)

lemma length_ov_block: "ov_wf ov \<Longrightarrow> length (ov_block ov b) = BLOCK"
  using ov_wfD [of ov] by (auto simp: ov_block_def split: option.splits)

lemma img_slice:
  assumes "ov_base_size ov \<le> length (ov_base ov)" and "n \<le> ov_base_size ov - pos"
  shows "slice pos n (ov_base ov) @ replicate k 0
    = map (\<lambda>i. if i < n then img_byte ov (pos + i) else 0) [0..<n + k]"
  using assms by (intro nth_equalityI) (auto simp: slice_def img_byte_def nth_append)

lemma img_tail:
  assumes "ov_base_size ov \<le> length (ov_base ov)"
  shows "slice pos (min run (ov_base_size ov - pos)) (ov_base ov)
      @ replicate (run - min run (ov_base_size ov - pos)) 0
    = map (\<lambda>i. img_byte ov (pos + i)) [0..<run]"
proof -
  have "map (\<lambda>i. if i < min run (ov_base_size ov - pos) then img_byte ov (pos + i) else 0) [0..<run]
      = map (\<lambda>i. img_byte ov (pos + i)) [0..<run]"
    by (auto simp: img_byte_def)
  then show ?thesis
    using img_slice [OF assms, of "min run (ov_base_size ov - pos)" pos
        "run - min run (ov_base_size ov - pos)"] by simp
qed

section \<open>Reading\<close>

lemma readBlock_view:
  assumes "ov_wf ov" and "readBlock b ov = (r, ov')"
  shows "\<exists>cs. ov' = ov\<lparr>ov_calls := cs\<rparr> \<and> (\<forall>d. r = Some d \<longrightarrow> d = ov_block ov b)"
proof (cases "map_of (ov_dirty ov) b")
  case (Some d)
  with assms show ?thesis by (auto simp: readBlock_def ov_block_def intro!: exI [of _ "ov_calls ov"])
next
  case nd: None
  show ?thesis
  proof (cases "map_of (ov_index ov) b")
    case (Some e)
    with assms nd show ?thesis
      by (auto simp: readBlock_def ov_block_def split: prod.splits dest!: read_all_Some)
  next
    case None
    have "replicate BLOCK 0 = map (\<lambda>i. img_byte ov (unat b * BLOCK + i)) [0..<BLOCK]"
      if "ov_base_size ov \<le> unat b * BLOCK"
      using that by (intro nth_equalityI) (auto simp: img_byte_def)
    then show ?thesis
      using assms nd None img_tail [OF ov_wfD(3) [OF assms(1)], of "unat b * BLOCK" BLOCK]
      by (auto simp: readBlock_def ov_block_def Let_def split: prod.splits if_splits option.splits
          dest!: read_all_Some intro: exI [of _ "ov_calls ov"])
  qed
qed

lemma readBlock_reliable:
  assumes "ov_wf ov" and "reliable (BLOCK + m) (ov_calls ov)"
  shows "\<exists>cs. readBlock b ov = (Some (ov_block ov b), ov\<lparr>ov_calls := cs\<rparr>) \<and> reliable m cs"
proof -
  have "\<exists>d cs. readBlock b ov = (Some d, ov\<lparr>ov_calls := cs\<rparr>) \<and> reliable m cs"
  proof (cases "map_of (ov_dirty ov) b")
    case (Some d)
    then show ?thesis using reliable_mono [OF assms(2), of m]
      by (auto simp: readBlock_def intro!: exI [of _ "ov_calls ov"])
  next
    case nd: None
    show ?thesis
    proof (cases "map_of (ov_index ov) b")
      case (Some e)
      with nd show ?thesis
        using read_all_reliable [OF assms(2)] ov_wfD(2) [OF assms(1), of b "fst e" "snd e"]
        by (fastforce simp: readBlock_def split: prod.splits)
    next
      case None
      let ?n = "min BLOCK (ov_base_size ov - unat b * BLOCK)"
      have "reliable (?n + m) (ov_calls ov)" by (rule reliable_mono [OF assms(2)]) simp
      moreover have "unat b * BLOCK + ?n \<le> length (ov_base ov)" if "\<not> ov_base_size ov \<le> unat b * BLOCK"
        using that ov_wfD(3) [OF assms(1)] by linarith
      ultimately show ?thesis
        using nd None read_all_reliable [of ?n m "ov_calls ov" "unat b * BLOCK" "ov_base ov"]
          reliable_mono [OF assms(2), of m]
        by (fastforce simp: readBlock_def Let_def intro: exI [of _ "ov_calls ov"])
    qed
  qed
  then show ?thesis using readBlock_view [OF assms(1)] by blast
qed

text \<open>Block numbers are 32-bit: disks of up to 16 TB.\<close>

definition MAX_DISK :: nat where "MAX_DISK = 17592186044416"

lemma block_number: "pos < MAX_DISK \<Longrightarrow> unat (of_nat (pos div BLOCK) :: u32) = pos div BLOCK"
  by (simp add: unat_of_nat MAX_DISK_def BLOCK_def)

lemma ov_byte_in_image:
  assumes "in_image (of_nat (i div BLOCK)) ov" and "i < MAX_DISK"
  shows "ov_byte ov i = img_byte ov i"
  using assms(1) block_number [OF assms(2)] by (simp add: ov_byte_def ov_block_def in_image_def)

lemma run_length_props:
  assumes "BLOCK dvd run" and "\<forall>k < run div BLOCK. in_image (of_nat (unat b + k)) ov"
    and "don + run \<le> n"
  shows "(\<forall>k < run_length n don b run ov div BLOCK. in_image (of_nat (unat b + k)) ov)
    \<and> BLOCK dvd run_length n don b run ov \<and> don + run_length n don b run ov \<le> n"
  using assms
proof (induction n don b run ov rule: run_length.induct)
  case (1 n don b run ov)
  show ?case
  proof (cases "don + run + BLOCK \<le> n \<and> in_image (of_nat (unat b + run div BLOCK)) ov")
    case True
    have d: "(run + BLOCK) div BLOCK = run div BLOCK + 1" by (rule div_add_self2) simp
    have "\<forall>k < (run + BLOCK) div BLOCK. in_image (of_nat (unat b + k)) ov"
      unfolding d using "1.prems"(2) True by (auto simp: less_Suc_eq)
    with 1 True show ?thesis by (simp add: run_length.simps [of n don b run])
  next
    case False
    then have "run_length n don b run ov = run" unfolding run_length.simps [of n don b run ov] by (rule if_not_P)
    with "1.prems" show ?thesis by simp
  qed
qed

text \<open>A run of image blocks has the image's bytes.\<close>

lemma run_bytes:
  assumes "pos mod BLOCK = 0" and "BLOCK dvd run" and "pos + run \<le> MAX_DISK"
    and "\<forall>k < run div BLOCK. in_image (of_nat (pos div BLOCK + k)) ov" and "i < run"
  shows "ov_byte ov (pos + i) = img_byte ov (pos + i)"
proof (rule ov_byte_in_image)
  have "(pos + i) div BLOCK = pos div BLOCK + i div BLOCK"
    using assms(1) by (metis div_plus_div_distrib_dvd_left mod_0_imp_dvd)
  moreover have "i div BLOCK < run div BLOCK"
    using assms(2,5) by (metis BLOCK_pos(1) dvd_mult_div_cancel less_mult_imp_div_less mult.commute)
  ultimately show "in_image (of_nat ((pos + i) div BLOCK)) ov" using assms(4) by simp
qed (use assms in simp)

lemma upt_shift: "map f [a + b..<a + c] = map (\<lambda>i. f (a + i)) [b..<c]"
  by (intro nth_equalityI) (auto simp: add.assoc)

lemma map_upt_cut: "a \<le> b \<Longrightarrow> b \<le> c \<Longrightarrow> map f [a..<c] = map f [a..<b] @ map f [b..<c]"
  by (metis le_add_diff_inverse map_append upt_add_eq_append)

text \<open>Part of one block.\<close>

lemma block_bytes:
  assumes "ov_wf ov" and "i = pos mod BLOCK" and "len \<le> BLOCK - i"
  shows "slice i len (ov_block ov (of_nat (pos div BLOCK))) = map (ov_byte ov) [pos..<pos + len]"
proof (intro nth_equalityI)
  have "pos mod BLOCK < BLOCK" by (rule mod_less_divisor) simp
  then have i: "i + len \<le> BLOCK" using assms(2,3) by linarith
  then show l: "length (slice i len (ov_block ov (of_nat (pos div BLOCK))))
      = length (map (ov_byte ov) [pos..<pos + len])"
    by (simp add: length_ov_block [OF assms(1)])
  fix j
  assume "j < length (slice i len (ov_block ov (of_nat (pos div BLOCK))))"
  then have j: "j < len" using l by simp
  have lt: "i + j < BLOCK" using i j by linarith
  have pj: "pos + j = pos div BLOCK * BLOCK + (i + j)"
    unfolding assms(2) using div_mult_mod_eq [of pos BLOCK] by linarith
  have "(pos + j) div BLOCK = pos div BLOCK" "(pos + j) mod BLOCK = i + j"
    unfolding pj using lt by simp_all
  then show "slice i len (ov_block ov (of_nat (pos div BLOCK))) ! j
      = map (ov_byte ov) [pos..<pos + len] ! j"
    using j i by (simp add: nth_slice length_ov_block [OF assms(1)] ov_byte_def)
qed

lemma pread_run:
  assumes wf: "ov_wf ov" and lt: "don < n" and max: "offset + n \<le> MAX_DISK"
    and i: "(offset + don) mod BLOCK = 0" and len: "BLOCK \<le> n - don"
    and im: "in_image (of_nat ((offset + don) div BLOCK)) ov"
    and run: "run = run_length n don (of_nat ((offset + don) div BLOCK)) BLOCK ov"
  shows "don < don + run \<and> don + run \<le> n
    \<and> slice (offset + don) (min run (ov_base_size ov - (offset + don))) (ov_base ov)
        @ replicate (run - min run (ov_base_size ov - (offset + don))) 0
      = map (ov_byte ov) [offset + don..<offset + (don + run)]"
proof -
  let ?b = "of_nat ((offset + don) div BLOCK) :: u32"
  have b: "unat ?b = (offset + don) div BLOCK" using max lt by (intro block_number) simp
  have "BLOCK div BLOCK = 1" by simp
  then have "\<forall>k < BLOCK div BLOCK. in_image (of_nat (unat ?b + k)) ov" using im b by simp
  from run_length_props [OF _ this, of don n] len lt
  have r: "\<forall>k < run div BLOCK. in_image (of_nat (unat ?b + k)) ov" "BLOCK dvd run" "don + run \<le> n"
    by (simp_all add: run)
  have "0 < run" using run_length_ge [of BLOCK n don ?b ov] by (simp add: run BLOCK_def)
  moreover have "map (\<lambda>j. img_byte ov (offset + don + j)) [0..<run]
      = map (ov_byte ov) [offset + don..<offset + (don + run)]"
    using upt_shift [of "ov_byte ov" "offset + don" 0 run] run_bytes [OF i r(2)] r max b
    by (simp add: add.assoc)
  ultimately show ?thesis using r(3) img_tail [OF ov_wfD(3) [OF wf], of "offset + don" run] by simp
qed

lemma pread_loop_view:
  assumes "ov_wf ov" and "offset + n \<le> MAX_DISK" and "pread_loop n offset don ov = (r, ov')"
  shows "\<exists>cs. ov' = ov\<lparr>ov_calls := cs\<rparr>
    \<and> (\<forall>bs. r = Some bs \<longrightarrow> bs = map (ov_byte ov) [offset + don..<offset + n])"
  using assms
proof (induction n offset don ov arbitrary: r ov' rule: pread_loop.induct)
  case (1 n offset don ov)
  define pos where "pos = offset + don"
  define b where "b = (of_nat (pos div BLOCK) :: u32)"
  define len where "len = min (BLOCK - pos mod BLOCK) (n - don)"
  note eq = pread_loop.simps [of n offset don ov, folded pos_def, unfolded Let_def, folded b_def len_def]
  consider (fin) "\<not> don < n" | (run) "don < n" "pos mod BLOCK = 0 \<and> len = BLOCK \<and> in_image b ov"
    | (one) "don < n" "\<not> (pos mod BLOCK = 0 \<and> len = BLOCK \<and> in_image b ov)" by blast
  then show ?case
  proof cases
    case fin
    with "1.prems"(3) show ?thesis by (auto simp: eq intro: exI [of _ "ov_calls ov"])
  next
    case run
    define rn where "rn = run_length n don b BLOCK ov"
    define k where "k = min rn (ov_base_size ov - pos)"
    have ln: "BLOCK \<le> n - don" using run by (simp add: len_def min_def split: if_splits)
    note pr = pread_run [OF "1.prems"(1) run(1) "1.prems"(2) _ ln _ rn_def [unfolded b_def pos_def],
        folded pos_def b_def, folded k_def]
    have cut: "don + rn \<le> n" "slice pos k (ov_base ov) @ replicate (rn - k) 0
        = map (ov_byte ov) [offset + don..<offset + (don + rn)]"
      using pr run(2) by (simp_all add: pos_def b_def)
    have kb: "min rn (if pos < ov_base_size ov then ov_base_size ov - pos else 0) = k"
      by (simp add: k_def)
    obtain q cs where q: "(if k \<noteq> 0 then read_all (ov_calls ov) (ov_base ov) k pos else (Some [], ov_calls ov))
        = (q, cs)" by force
    obtain r2 o2 where lp: "pread_loop n offset (don + rn) (ov\<lparr>ov_calls := cs\<rparr>) = (r2, o2)" by force
    have res: "(r, ov') = (case q of None \<Rightarrow> (None, ov\<lparr>ov_calls := cs\<rparr>)
        | Some bs \<Rightarrow> (case r2 of None \<Rightarrow> (None, o2)
            | Some tail \<Rightarrow> (Some (bs @ replicate (rn - k) 0 @ tail), o2)))"
      using "1.prems"(3) run unfolding eq rn_def [symmetric] kb q
      by (simp add: lp split: option.splits)
    have qs: "q = Some bs \<Longrightarrow> bs = slice pos k (ov_base ov)" for bs
      using q by (auto simp: slice_def split: if_splits dest: read_all_Some)
    have "\<exists>cs'. o2 = ov\<lparr>ov_calls := cs'\<rparr> \<and> (\<forall>bs. r2 = Some bs \<longrightarrow>
        bs = map (ov_byte ov) [offset + (don + rn)..<offset + n])" if "q = Some bs0" for bs0
    proof -
      have "ov_wf (ov\<lparr>ov_calls := cs\<rparr>)" using "1.prems"(1) by simp
      from "1.IH"(1) [OF run(1) pos_def b_def refl len_def run(2) rn_def refl, unfolded kb,
          OF refl q [symmetric] that this "1.prems"(2) lp]
      show ?thesis by auto
    qed
    then show ?thesis
      using res qs cut map_upt_cut [of "offset + don" "offset + (don + rn)" "offset + n" "ov_byte ov"]
      by (cases q; cases r2) (auto simp: pos_def append_assoc [symmetric] simp del: append_assoc)
  next
    case one
    obtain q o1 where q: "readBlock b ov = (q, o1)" by force
    from readBlock_view [OF "1.prems"(1) q] obtain cs where o1: "o1 = ov\<lparr>ov_calls := cs\<rparr>"
      and qs: "\<forall>d. q = Some d \<longrightarrow> d = ov_block ov b" by blast
    obtain r2 o2 where lp: "pread_loop n offset (don + len) o1 = (r2, o2)" by force
    have res: "(r, ov') = (case q of None \<Rightarrow> (None, o1)
        | Some block \<Rightarrow> (case r2 of None \<Rightarrow> (None, o2)
            | Some tail \<Rightarrow> (Some (slice (pos mod BLOCK) len block @ tail), o2)))"
      using "1.prems"(3) one q lp unfolding eq by (simp split: option.splits)
    have "\<exists>cs'. o2 = ov\<lparr>ov_calls := cs'\<rparr> \<and> (\<forall>bs. r2 = Some bs \<longrightarrow>
        bs = map (ov_byte ov) [offset + (don + len)..<offset + n])" if "q = Some d" for d
    proof -
      have "ov_wf o1" using "1.prems"(1) o1 by simp
      from "1.IH"(2) [OF one(1) pos_def b_def refl len_def one(2) q [symmetric] that this "1.prems"(2) lp]
      show ?thesis using o1 by auto
    qed
    moreover have "len \<le> BLOCK - pos mod BLOCK" "don + len \<le> n"
      using one(1) by (auto simp: len_def)
    ultimately show ?thesis
      using res qs o1 block_bytes [OF "1.prems"(1) refl, of len pos]
        map_upt_cut [of "offset + don" "offset + (don + len)" "offset + n" "ov_byte ov"]
      by (cases q; cases r2) (auto simp: pos_def b_def add.assoc)
  qed
qed

text \<open>With a kernel that keeps working every read completes.\<close>

lemma pread_loop_reliable:
  assumes "ov_wf ov" and "offset + n \<le> MAX_DISK" and "reliable (BLOCK * (n - don) + m) (ov_calls ov)"
  shows "\<exists>bs cs. pread_loop n offset don ov = (Some bs, ov\<lparr>ov_calls := cs\<rparr>) \<and> reliable m cs"
  using assms
proof (induction n offset don ov rule: pread_loop.induct)
  case (1 n offset don ov)
  define pos where "pos = offset + don"
  define b where "b = (of_nat (pos div BLOCK) :: u32)"
  define len where "len = min (BLOCK - pos mod BLOCK) (n - don)"
  note eq = pread_loop.simps [of n offset don ov, folded pos_def, unfolded Let_def, folded b_def len_def]
  consider (fin) "\<not> don < n" | (run) "don < n" "pos mod BLOCK = 0 \<and> len = BLOCK \<and> in_image b ov"
    | (one) "don < n" "\<not> (pos mod BLOCK = 0 \<and> len = BLOCK \<and> in_image b ov)" by blast
  then show ?case
  proof cases
    case fin
    with "1.prems"(3) show ?thesis
      using reliable_mono [OF "1.prems"(3), of m] by (auto simp: eq intro!: exI [of _ "ov_calls ov"])
  next
    case run
    define rn where "rn = run_length n don b BLOCK ov"
    define k where "k = min rn (ov_base_size ov - pos)"
    have ln: "BLOCK \<le> n - don" using run by (simp add: len_def min_def split: if_splits)
    have rn: "don < don + rn" "don + rn \<le> n"
      using pread_run [OF "1.prems"(1) run(1) "1.prems"(2) _ ln _ rn_def [unfolded b_def pos_def]] run(2)
      by (simp_all add: pos_def b_def)
    have kb: "min rn (if pos < ov_base_size ov then ov_base_size ov - pos else 0) = k"
      by (simp add: k_def)
    have "k + BLOCK * (n - (don + rn)) \<le> BLOCK * (n - don)"
    proof -
      have "BLOCK * (n - don) = BLOCK * rn + BLOCK * (n - (don + rn))"
        using rn by (simp flip: add_mult_distrib2)
      moreover have "k \<le> BLOCK * rn" by (simp add: k_def BLOCK_def min_le_iff_disj)
      ultimately show ?thesis by linarith
    qed
    then have rel: "reliable (k + (BLOCK * (n - (don + rn)) + m)) (ov_calls ov)"
      by (intro reliable_mono [OF "1.prems"(3)]) simp
    have "k \<noteq> 0 \<Longrightarrow> pos + k \<le> length (ov_base ov)"
      using ov_wfD(3) [OF "1.prems"(1)] by (auto simp: k_def)
    then obtain q cs where q: "(if k \<noteq> 0 then read_all (ov_calls ov) (ov_base ov) k pos
        else (Some [], ov_calls ov)) = (Some q, cs)" "reliable (BLOCK * (n - (don + rn)) + m) cs"
      using read_all_reliable [OF rel, of pos "ov_base ov"] reliable_mono [OF rel]
      by (cases "k = 0") auto
    have "ov_wf (ov\<lparr>ov_calls := cs\<rparr>)" using "1.prems"(1) by simp
    from "1.IH"(1) [OF run(1) pos_def b_def refl len_def run(2) rn_def refl, unfolded kb,
        OF refl q(1) [symmetric] refl this "1.prems"(2)] q(2)
    show ?thesis using run unfolding eq rn_def [symmetric] kb q(1) by auto
  next
    case one
    have "pos mod BLOCK < BLOCK" by (rule mod_less_divisor) simp
    then have len: "0 < len" "don + len \<le> n" using one(1) by (auto simp: len_def)
    have "BLOCK * (n - don) = BLOCK * len + BLOCK * (n - (don + len))"
      using len by (simp flip: add_mult_distrib2)
    moreover have "BLOCK \<le> BLOCK * len" using len by simp
    ultimately have "reliable (BLOCK + (BLOCK * (n - (don + len)) + m)) (ov_calls ov)"
      by (intro reliable_mono [OF "1.prems"(3)]) linarith
    from readBlock_reliable [OF "1.prems"(1) this, of b] obtain cs where
      q: "readBlock b ov = (Some (ov_block ov b), ov\<lparr>ov_calls := cs\<rparr>)"
      "reliable (BLOCK * (n - (don + len)) + m) cs" by blast
    have "ov_wf (ov\<lparr>ov_calls := cs\<rparr>)" using "1.prems"(1) by simp
    from "1.IH"(2) [OF one(1) pos_def b_def refl len_def one(2) q(1) [symmetric] refl this "1.prems"(2)] q(2)
    show ?thesis using one unfolding eq by (auto simp: q(1))
  qed
qed

section \<open>Writing\<close>

text \<open>\<open>ov'\<close> is \<open>ov\<close> with other dirty blocks and fewer kernel answers left.\<close>

definition dirtied :: "overlay \<Rightarrow> overlay \<Rightarrow> bool" where
  "dirtied ov ov' \<longleftrightarrow> ov' = ov\<lparr>ov_calls := ov_calls ov', ov_dirty := ov_dirty ov'\<rparr>"

lemma dirtied_refl [simp, intro]: "dirtied ov ov"
  by (simp add: dirtied_def)

lemma dirtied_trans: "dirtied a b \<Longrightarrow> dirtied b c \<Longrightarrow> dirtied a c"
  by (cases a; cases b; cases c) (auto simp: dirtied_def)

lemma put_dirty_wf:
  assumes "ov_wf ov" and "length d = BLOCK"
  shows "ov_wf (ov\<lparr>ov_calls := cs, ov_dirty := smap_put b d (ov_dirty ov)\<rparr>)"
  using assms set_smap_put [of b d "ov_dirty ov"]
  by (fastforce simp: ov_wf_def ov_content_def)

lemma put_dirty_block:
  "ov_block (ov\<lparr>ov_calls := cs, ov_dirty := smap_put b d (ov_dirty ov)\<rparr>) b'
     = (if b' = b then d else ov_block ov b')"
  by (auto simp: ov_block_def ov_content_def img_byte_def split: option.splits)

text \<open>One block of a write: the bytes written, and all others as they were.\<close>

lemma put_dirty_bytes:
  assumes wf: "ov_wf ov" and pos: "pos < MAX_DISK" and j: "j < MAX_DISK"
    and len: "pos mod BLOCK + length bs \<le> BLOCK"
    and ov': "ov' = ov\<lparr>ov_calls := cs, ov_dirty := smap_put (of_nat (pos div BLOCK))
        (overwrite block (pos mod BLOCK) bs) (ov_dirty ov)\<rparr>"
    and block: "length bs = BLOCK \<and> length block = BLOCK \<or> block = ov_block ov (of_nat (pos div BLOCK))"
  shows "ov_byte ov' j = (if pos \<le> j \<and> j < pos + length bs then bs ! (j - pos) else ov_byte ov j)"
proof (cases "j div BLOCK = pos div BLOCK")
  case True
  have lb: "length block = BLOCK" using block length_ov_block [OF wf] by auto
  define i where "i = pos mod BLOCK"
  have p: "pos = pos div BLOCK * BLOCK + i" by (simp add: i_def)
  have jj: "j = pos div BLOCK * BLOCK + j mod BLOCK" using True by (metis div_mult_mod_eq)
  have "ov_byte ov' j = overwrite block i bs ! (j mod BLOCK)"
    using True by (simp add: ov' ov_byte_def put_dirty_block i_def)
  also have "\<dots> = (if i \<le> j mod BLOCK \<and> j mod BLOCK < i + length bs then bs ! (j mod BLOCK - i)
      else block ! (j mod BLOCK))"
    using len lb by (intro nth_overwrite) (simp_all add: i_def)
  also have "\<dots> = (if pos \<le> j \<and> j < pos + length bs then bs ! (j - pos) else ov_byte ov j)"
  proof (cases "pos \<le> j \<and> j < pos + length bs")
    case True
    then show ?thesis using p jj by (metis add_diff_cancel_left add_le_cancel_left add_less_cancel_left add.assoc)
  next
    case False
    have n: "\<not> (i \<le> j mod BLOCK \<and> j mod BLOCK < i + length bs)"
      using False p jj by (metis add_le_cancel_left add_less_cancel_left add.assoc)
    moreover have "block = ov_block ov (of_nat (pos div BLOCK))"
    proof (rule ccontr)
      assume "block \<noteq> ov_block ov (of_nat (pos div BLOCK))"
      then have "length bs = BLOCK" "i = 0" using block len by (auto simp: i_def)
      with n show False by simp
    qed
    ultimately show ?thesis using False True by (auto simp: ov_byte_def)
  qed
  finally show ?thesis .
next
  case False
  then have ne: "(of_nat (j div BLOCK) :: u32) \<noteq> of_nat (pos div BLOCK)"
    using block_number [OF pos] block_number [OF j] by metis
  have "\<not> (pos \<le> j \<and> j < pos + length bs)"
  proof
    assume "pos \<le> j \<and> j < pos + length bs"
    then have "pos div BLOCK * BLOCK \<le> j" "j < pos div BLOCK * BLOCK + BLOCK"
      using len div_mult_mod_eq [of pos BLOCK] by linarith+
    then have "j div BLOCK = pos div BLOCK" by (intro div_nat_eqI) (simp_all add: mult.commute)
    with False show False ..
  qed
  with ne show ?thesis by (auto simp: ov' ov_byte_def put_dirty_block)
qed

text \<open>The block a write starts from: dirty, read, or about to be overwritten whole.\<close>

definition write_source :: "u32 \<Rightarrow> nat \<Rightarrow> overlay \<Rightarrow> bytes option \<times> overlay" where
  "write_source b len ov =
     (case map_of (ov_dirty ov) b of
        Some block \<Rightarrow> (Some block, ov)
      | None \<Rightarrow> (if len < BLOCK then readBlock b ov else (Some (replicate BLOCK 0), ov)))"

lemma write_source_view:
  assumes "ov_wf ov" and "write_source b len ov = (r, ov')" and "len \<le> BLOCK"
  shows "\<exists>cs. ov' = ov\<lparr>ov_calls := cs\<rparr>
    \<and> (\<forall>d. r = Some d \<longrightarrow> len = BLOCK \<and> length d = BLOCK \<or> d = ov_block ov b)"
  using assms readBlock_view [OF assms(1), of b]
  by (force simp: write_source_def ov_block_def intro: exI [of _ "ov_calls ov"]
      split: option.splits if_splits)

lemma write_source_reliable:
  assumes "ov_wf ov" and "reliable (BLOCK + m) (ov_calls ov)"
  shows "\<exists>d cs. write_source b len ov = (Some d, ov\<lparr>ov_calls := cs\<rparr>) \<and> reliable m cs"
proof -
  have "reliable m (ov_calls ov)" by (rule reliable_mono [OF assms(2)]) simp
  then show ?thesis
    using readBlock_reliable [OF assms, of b]
    by (cases "map_of (ov_dirty ov) b"; cases "len < BLOCK")
       (auto simp: write_source_def intro: exI [of _ "ov_calls ov"])
qed

text \<open>One turn of the write loop.\<close>

lemma pwrite_loop_step:
  assumes "don < length buf" and "offset + length buf \<le> MAX_DISK"
    and "pos = offset + don" and "b = of_nat (pos div BLOCK)"
    and "len = min (BLOCK - pos mod BLOCK) (length buf - don)"
  shows "pwrite_loop buf offset don ov =
    (case write_source b len ov of
       (None, ov1) \<Rightarrow> (False, ov1)
     | (Some block, ov1) \<Rightarrow>
         pwrite_loop buf offset (don + len)
           (ov1\<lparr>ov_dirty := smap_put b (overwrite block (pos mod BLOCK) (slice don len buf)) (ov_dirty ov1)\<rparr>))"
proof -
  have e: "(offset + don) mod 2 ^ 64 = offset + don" using assms by (simp add: MAX_DISK_def)
  show ?thesis
    unfolding pwrite_loop.simps [of buf offset don ov] write_source_def Let_def e assms(3-5)
    using assms(1) by simp
qed

lemma pwrite_loop_view:
  assumes "ov_wf ov" and "offset + length buf \<le> MAX_DISK" and "don \<le> length buf"
    and "pwrite_loop buf offset don ov = (ok, ov')"
  shows "ov_wf ov' \<and> dirtied ov ov' \<and> (\<exists>k. don \<le> k \<and> k \<le> length buf \<and> (ok \<longrightarrow> k = length buf)
    \<and> (\<forall>j < MAX_DISK. ov_byte ov' j
        = (if offset + don \<le> j \<and> j < offset + k then buf ! (j - offset) else ov_byte ov j)))"
  using assms
proof (induction "length buf - don" arbitrary: don ov rule: less_induct)
  case less
  show ?case
  proof (cases "don < length buf")
    case False
    then have "ok" "ov' = ov" using less.prems(4) by (simp_all add: pwrite_loop.simps)
    with less.prems False show ?thesis by (auto intro!: exI [of _ "length buf"])
  next
    case lt: True
    define pos where "pos = offset + don"
    define b where "b = (of_nat (pos div BLOCK) :: u32)"
    define len where "len = min (BLOCK - pos mod BLOCK) (length buf - don)"
    have m: "pos mod BLOCK < BLOCK" by (rule mod_less_divisor) simp
    have len: "0 < len" "don + len \<le> length buf" "pos mod BLOCK + len \<le> BLOCK" "len \<le> BLOCK"
      unfolding len_def using lt m by linarith+
    note step = pwrite_loop_step [OF lt less.prems(2) pos_def b_def len_def, of ov]
    obtain r o1 where src: "write_source b len ov = (r, o1)" by force
    from write_source_view [OF less.prems(1) src len(4)] obtain cs where o1: "o1 = ov\<lparr>ov_calls := cs\<rparr>"
      and bl: "\<forall>d. r = Some d \<longrightarrow> len = BLOCK \<and> length d = BLOCK \<or> d = ov_block ov b" by blast
    show ?thesis
    proof (cases r)
      case None
      then have "\<not> ok" "ov' = o1" using less.prems(4) src unfolding step by auto
      with o1 less.prems show ?thesis by (auto simp: dirtied_def intro!: exI [of _ don])
    next
      case (Some block)
      define bs where "bs = slice don len buf"
      have bs: "length bs = len" using len by (simp add: bs_def)
      define o2 where "o2 = ov\<lparr>ov_calls := cs, ov_dirty := smap_put b
          (overwrite block (pos mod BLOCK) bs) (ov_dirty ov)\<rparr>"
      have lp: "pwrite_loop buf offset (don + len) o2 = (ok, ov')"
        using less.prems(4) src Some o1 unfolding step by (simp add: o2_def bs_def)
      have lb: "length block = BLOCK" using bl Some length_ov_block [OF less.prems(1)] by auto
      have wf2: "ov_wf o2"
        unfolding o2_def using lb bs len by (intro put_dirty_wf [OF less.prems(1)]) simp
      have "pos < MAX_DISK" using lt less.prems(2) by (simp add: pos_def)
      note bytes = put_dirty_bytes [OF less.prems(1) this _ _ o2_def [unfolded b_def]]
      have by2: "ov_byte o2 j = (if pos \<le> j \<and> j < pos + len then bs ! (j - pos) else ov_byte ov j)"
        if "j < MAX_DISK" for j
        using bytes [OF that] bs len lb bl Some by (auto simp: b_def)
      have "length buf - (don + len) < length buf - don" using len lt by linarith
      from less.hyps [OF this wf2 less.prems(2) len(2) lp] obtain k where
        k: "ov_wf ov'" "dirtied o2 ov'" "don + len \<le> k" "k \<le> length buf" "ok \<longrightarrow> k = length buf"
        "\<forall>j < MAX_DISK. ov_byte ov' j
          = (if offset + (don + len) \<le> j \<and> j < offset + k then buf ! (j - offset) else ov_byte o2 j)"
        by blast
      have "ov_byte ov' j = (if offset + don \<le> j \<and> j < offset + k then buf ! (j - offset) else ov_byte ov j)"
        if "j < MAX_DISK" for j
        using k(3,6) by2 [OF that] that len by (auto simp: pos_def bs_def slice_def)
      moreover have "dirtied ov ov'"
        by (rule dirtied_trans [OF _ k(2)]) (simp add: dirtied_def o2_def)
      ultimately show ?thesis using k by (intro conjI exI [of _ k]) auto
    qed
  qed
qed

lemma pwrite_loop_reliable:
  assumes "ov_wf ov" and "offset + length buf \<le> MAX_DISK" and "don \<le> length buf"
    and "reliable (BLOCK * (length buf - don) + m) (ov_calls ov)"
  shows "\<exists>ov'. pwrite_loop buf offset don ov = (True, ov') \<and> reliable m (ov_calls ov')"
  using assms
proof (induction "length buf - don" arbitrary: don ov rule: less_induct)
  case less
  show ?case
  proof (cases "don < length buf")
    case False
    then show ?thesis
      using less.prems reliable_mono [OF less.prems(4), of m] by (auto simp: pwrite_loop.simps)
  next
    case lt: True
    define pos where "pos = offset + don"
    define b where "b = (of_nat (pos div BLOCK) :: u32)"
    define len where "len = min (BLOCK - pos mod BLOCK) (length buf - don)"
    have m: "pos mod BLOCK < BLOCK" by (rule mod_less_divisor) simp
    have len: "0 < len" "don + len \<le> length buf" "pos mod BLOCK + len \<le> BLOCK" "len \<le> BLOCK"
      unfolding len_def using lt m by linarith+
    note step = pwrite_loop_step [OF lt less.prems(2) pos_def b_def len_def, of ov]
    have "BLOCK * (length buf - don) = BLOCK * len + BLOCK * (length buf - (don + len))"
      using len by (simp flip: add_mult_distrib2)
    moreover have "BLOCK \<le> BLOCK * len" using len by simp
    ultimately have "reliable (BLOCK + (BLOCK * (length buf - (don + len)) + m)) (ov_calls ov)"
      by (intro reliable_mono [OF less.prems(4)]) linarith
    from write_source_reliable [OF less.prems(1) this, of b len] obtain d cs where
      src: "write_source b len ov = (Some d, ov\<lparr>ov_calls := cs\<rparr>)"
      and rel: "reliable (BLOCK * (length buf - (don + len)) + m) cs" by blast
    have ld: "length d = BLOCK"
      using write_source_view [OF less.prems(1) src len(4)] length_ov_block [OF less.prems(1)] by auto
    have lt2: "length buf - (don + len) < length buf - don" using len lt by linarith
    have wf2: "ov_wf (ov\<lparr>ov_calls := cs, ov_dirty := smap_put b
        (overwrite d (pos mod BLOCK) (slice don len buf)) (ov_dirty ov)\<rparr>)"
      using ld len by (intro put_dirty_wf [OF less.prems(1)]) simp
    from less.hyps [OF lt2 wf2 less.prems(2) len(2)] rel show ?thesis
      unfolding step by (simp add: src)
  qed
qed

end
