(* ===== verification/Overlay_Meta.thy ===== *)
theory Overlay_Meta
  imports Disk_Overlay
begin

text \<open>
  The meta record of an overlay file: what \<open>sync\<close> writes as JSON, \<open>parse_meta\<close> reads back,
  for every name (quotes and backslashes included; only control characters are dropped)
  and every 64-bit size.
\<close>

section \<open>Finding a substring\<close>

lemma find_from_le:
  assumes "take (length pat) (drop k s) = pat" and "k \<le> length s"
  shows "\<exists>k' \<le> k. find_from s pat i = Some (i + k') \<and> take (length pat) (drop k' s) = pat"
  using assms
proof (induction s arbitrary: k i)
  case (Cons c cs)
  show ?case
  proof (cases "take (length pat) (c # cs) = pat")
    case True
    then show ?thesis by (intro exI [of _ 0]) simp
  next
    case False
    then obtain j where k: "k = Suc j" using Cons.prems(1) by (cases k) auto
    from Cons.IH [of j "Suc i"] Cons.prems k obtain k' where
      "k' \<le> j" "find_from cs pat (Suc i) = Some (Suc i + k')" "take (length pat) (drop k' cs) = pat" by auto
    with False k show ?thesis by (intro exI [of _ "Suc k'"]) simp
  qed
qed simp

lemma find_char: "c \<notin> set xs \<Longrightarrow> find_from (xs @ c # ys) [c] i = Some (i + length xs)"
  by (induction xs arbitrary: i) auto

section \<open>Numbers\<close>

lemma digit_char:
  assumes "d < 10"
  shows "is_digit (of_nat (48 + d)) \<and> unat (of_nat (48 + d) :: u8) - 48 = d"
proof -
  have "unat (of_nat (48 + d) :: u8) = 48 + d" using assms by (simp only: unat_of_nat) simp
  then show ?thesis using assms by (simp add: is_digit_def word_le_nat_alt)
qed

lemma digits_value_snoc: "digits_value (ds @ [c]) = 10 * digits_value ds + (unat c - 48)"
  by (simp add: digits_value_def)

lemma dec_value: "digits_value (dec n) = n \<and> list_all is_digit (dec n) \<and> dec n \<noteq> []"
proof (induction n rule: dec.induct)
  case (1 n)
  show ?case
  proof (cases "n < 10")
    case True
    then show ?thesis using digit_char [of n] by (simp add: dec.simps [of n] digits_value_def)
  next
    case False
    have "n mod 10 < 10" by simp
    from digit_char [OF this] 1 [OF False] False show ?thesis
      unfolding dec.simps [of n] by (simp add: digits_value_snoc)
  qed
qed

lemma digit_not_space: "is_digit c \<Longrightarrow> \<not> is_space c \<and> c \<noteq> 45 \<and> c \<noteq> 43"
  by (auto simp: is_digit_def is_space_def word_le_nat_alt)

lemma strtoull_dec:
  assumes "sz < 2 ^ 64" and "\<not> is_digit c"
  shows "strtoull (dec sz @ c # cs) = sz"
proof -
  obtain d ds where d: "dec sz = d # ds" using dec_value [of sz] by (cases "dec sz") auto
  have dig: "is_digit d" "\<forall>x \<in> set (dec sz). is_digit x" using dec_value [of sz] d by (auto simp: list_all_iff)
  then have "dropWhile is_space (dec sz @ c # cs) = dec sz @ c # cs" using d digit_not_space by simp
  moreover have "takeWhile is_digit (dec sz @ c # cs) = dec sz" using dig assms(2) by simp
  ultimately show ?thesis
    using d digit_not_space [OF dig(1)] dec_value [of sz] assms(1)
    by (simp add: strtoull_def Let_def)
qed

section \<open>Names\<close>

lemma unescape_escape: "unescape (json_escape name @ 34 # ys) = filter (\<lambda>c. \<not> c < 32) name"
  by (induction name) auto

text \<open>In an escaped name every quote has a backslash before it.\<close>

lemma escaped_quote:
  "i < length (json_escape name) \<Longrightarrow> json_escape name ! i = 34 \<Longrightarrow>
     0 < i \<and> json_escape name ! (i - 1) = 92"
proof (induction name arbitrary: i)
  case (Cons c cs)
  define pre where "pre = (if c = 34 \<or> c = 92 then [92] else []) @ (if c < 32 then [] else [c :: u8])"
  have e: "json_escape (c # cs) = pre @ json_escape cs" by (simp add: pre_def)
  show ?case
  proof (cases "i < length pre")
    case True
    then show ?thesis
      using Cons.prems unfolding e by (auto simp: pre_def nth_append nth_Cons split: if_splits nat.splits)
  next
    case False
    then have "json_escape cs ! (i - length pre) = 34" "i - length pre < length (json_escape cs)"
      using Cons.prems unfolding e by (auto simp: nth_append)
    from Cons.IH [OF this(2,1)] False show ?thesis unfolding e by (auto simp: nth_append)
  qed
qed simp

section \<open>Reading the record back\<close>

definition json_open :: bytes where
  "json_open = [123, 34, 110, 97, 109, 101, 34, 58, 34]"

definition json_mid :: bytes where
  "json_mid = [34, 44, 34, 115, 105, 122, 101, 34, 58]"

lemma meta_json_eq: "meta_json name sz = json_open @ json_escape name @ json_mid @ dec sz @ [125]"
  by (simp add: meta_json_def json_open_def json_mid_def ascii_def)

lemma key_size: "ascii ''\"size\"'' = [34, 115, 105, 122, 101, 34]"
  and key_name: "ascii ''\"name\"'' = [34, 110, 97, 109, 101, 34]"
  by (simp_all add: ascii_def)

text \<open>The key \<open>size\<close> is not found inside the name.\<close>

lemma size_key_position:
  assumes "take 6 (drop k (json_open @ json_escape name @ ys)) = [34, 115, 105, 122, 101, 34]"
  shows "length (json_open @ json_escape name) \<le> k + 5"
proof (rule ccontr)
  let ?L = "json_open @ json_escape name" and ?J = "json_open @ json_escape name @ ys"
  assume "\<not> length ?L \<le> k + 5"
  then have lt: "k + 5 < length ?L" by linarith
  have J: "?J ! (k + j) = [34, 115, 105, 122, 101, 34] ! j" if "j < 6" for j
  proof -
    have "k \<le> length ?J" using lt by simp
    then have "take 6 (drop k ?J) ! j = ?J ! (k + j)" by (simp only: nth_take [OF that] nth_drop)
    then show ?thesis unfolding assms by simp
  qed
  have L: "?L ! (k + j) = [34, 115, 105, 122, 101, 34] ! j" if "j < 6" for j
  proof -
    have "k + j < length ?L" using that lt by linarith
    then have "?L ! (k + j) = (?L @ ys) ! (k + j)" by (simp only: nth_append if_True)
    then show ?thesis using J [OF that] by simp
  qed
  show False
  proof (cases "k + 5 < length json_open")
    case True
    then have "k \<in> {0, 1, 2, 3}" by (auto simp: json_open_def)
    then show False using L [of 1] by (auto simp: json_open_def)
  next
    case False
    define i where "i = k + 5 - length json_open"
    have i: "k + 5 = length json_open + i" "i < length (json_escape name)" using False lt by (auto simp: i_def)
    have "json_escape name ! i = 34" using L [of 5] i(1) by simp
    from escaped_quote [OF i(2) this] have "0 < i" "json_escape name ! (i - 1) = 92" by simp_all
    moreover have "k + 4 = length json_open + (i - 1)" using i(1) \<open>0 < i\<close> by linarith
    then have "?L ! (k + 4) = json_escape name ! (i - 1)" by (simp only: nth_append_length_plus)
    ultimately show False using L [of 4] by simp
  qed
qed

lemma meta_size_found:
  assumes "sz < 2 ^ 64"
  shows "snd (parse_meta (meta_json name sz) n0 s0) = sz"
proof -
  let ?J = "meta_json name sz" and ?p = "[34, 115, 105, 122, 101, 34] :: bytes"
  define m where "m = length (json_open @ json_escape name)"
  have J: "?J = (json_open @ json_escape name) @ json_mid @ dec sz @ [125]" by (simp add: meta_json_eq)
  have "take (length ?p) (drop (m + 2) ?J) = ?p" "m + 2 \<le> length ?J"
    unfolding J m_def by (simp_all add: json_mid_def)
  from find_from_le [OF this, of 0] obtain k where k: "k \<le> m + 2" "find_from ?J ?p 0 = Some k"
    "take 6 (drop k ?J) = ?p" by (auto simp: numeral_eq_Suc)
  have "m \<le> k + 5" unfolding m_def by (rule size_key_position [OF k(3) [unfolded meta_json_eq]])
  have cut: "drop k ?J = take (m + 8 - k) (drop k ?J) @ 58 # dec sz @ [125]"
  proof -
    have "drop (m + 8) ?J = 58 # dec sz @ [125]" unfolding J m_def by (simp add: json_mid_def)
    moreover have "drop k ?J = take (m + 8 - k) (drop k ?J) @ drop (m + 8) ?J"
      using k(1) append_take_drop_id [of "m + 8 - k" "drop k ?J"] by simp
    ultimately show ?thesis by simp
  qed
  have "58 \<notin> set (take (m + 8 - k) (drop k ?J))"
  proof
    assume "58 \<in> set (take (m + 8 - k) (drop k ?J))"
    then obtain j where j: "j < m + 8 - k" "j < length ?J - k" "?J ! (k + j) = 58"
      by (auto simp: in_set_conv_nth)
    show False
    proof (cases "j < 6")
      case True
      have "k \<le> length ?J" using j(2) by linarith
      then have "take 6 (drop k ?J) ! j = 58" using j(3) True by simp
      then have "?p ! j = 58" unfolding k(3) .
      moreover have "?p ! j \<in> set ?p" using True by (intro nth_mem) simp
      ultimately show False by simp
    next
      case False
      define l where "l = k + j - m"
      have l: "k + j = m + l" "l < 8" using False \<open>m \<le> k + 5\<close> j(1) by (auto simp: l_def)
      have "?J ! (m + l) = (json_mid @ dec sz @ [125]) ! l"
        by (simp only: J m_def nth_append_length_plus)
      also have "\<dots> = json_mid ! l"
      proof -
        have "l < length json_mid" using l(2) by (simp add: json_mid_def)
        then show ?thesis by (simp add: nth_append)
      qed
      also have "\<dots> \<in> set (butlast json_mid)"
      proof -
        have "l < length (butlast json_mid)" using l(2) by (simp add: json_mid_def)
        from nth_mem [OF this] nth_butlast [OF this] show ?thesis by simp
      qed
      finally have "58 \<in> set (butlast json_mid)" using l(1) j(3) by simp
      then show False by (simp add: json_mid_def)
    qed
  qed
  then have "find_from (drop k ?J) [58] k = Some (k + (m + 8 - k))"
    using find_char [of 58 "take (m + 8 - k) (drop k ?J)" "dec sz @ [125]" k] cut
    by (simp add: J m_def json_mid_def)
  moreover have "drop (9 + m) ?J = dec sz @ [125]" unfolding J m_def by (simp add: json_mid_def)
  ultimately show ?thesis
    using k(1,2) strtoull_dec [OF assms, of 125 "[]"]
    by (simp add: parse_meta_def key_size str_find_def Let_def is_digit_def)
qed

lemma meta_name_found: "fst (parse_meta (meta_json name sz) n0 s0) = filter (\<lambda>c. \<not> c < 32) name"
  using unescape_escape [of name "tl json_mid @ dec sz @ [125]"]
  by (simp add: parse_meta_def key_name str_find_def Let_def meta_json_eq json_open_def json_mid_def)

section \<open>The property\<close>

text \<open>
  C10: the name and size written into a new overlay file are read back: the size exactly,
  the name without its control characters, even when it contains quotes, backslashes,
  colons or the key names themselves.
\<close>

theorem meta_round_trip:
  assumes "sz < 2 ^ 64"
  shows "parse_meta (meta_json name sz) n0 s0 = (filter (\<lambda>c. \<not> c < 32) name, sz)"
  using meta_size_found [OF assms] meta_name_found by (metis prod.collapse)

theorem meta_round_trip_witness:
  "parse_meta (meta_json [97, 34, 115, 105, 122, 101, 7] 819200) [] 0 = ([97, 34, 115, 105, 122, 101], 819200)"
  using meta_round_trip [of 819200 "[97, 34, 115, 105, 122, 101, 7]" "[]" 0] by simp

end
