(* ===== verification/Overlay_Durability.thy ===== *)
theory Overlay_Durability
  imports Overlay_View Overlay_Meta
begin

text \<open>
  What the overlay file promises: \<open>sync\<close> does not change what the guest sees, the file
  it leaves is loaded back to the same blocks, version and size, a write that was cut
  short is ignored, and a failed one is cut off again. The file is read as a list of
  records; \<open>replay\<close> is the loading loop without the kernel in between.
\<close>

section \<open>Loading without the kernel\<close>

function replay ::
    "bytes \<Rightarrow> nat \<Rightarrow> nat \<Rightarrow> (u32 \<times> at_entry) list \<Rightarrow> bytes option \<Rightarrow> overlay \<Rightarrow> nat \<times> overlay" where
  "replay dat pos good pending meta ov =
     (if pos + HEAD \<le> length dat then
        (let h = slice pos HEAD dat; kind = get32 h 0; a = get32 h 4; b = get32 h 8;
             pos1 = pos + HEAD in
         if kind = KIND_BLOCK then
           (if length dat < pos1 + BLOCK then (good, ov)
            else replay dat (pos1 + BLOCK) good (pending @ [(a, (b, pos1))]) meta ov)
         else if kind = KIND_META then
           (if length dat < pos1 + unat a \<or> 65536 < unat a then (good, ov)
            else replay dat (pos1 + unat a) good pending (Some (slice pos1 (unat a) dat)) ov)
         else if kind = KIND_COMMIT then
           replay dat pos1 pos1 [] None (apply_commit a b pending meta ov)
         else (good, ov))
      else (good, ov))"
  by pat_completeness auto
termination replay
  by (relation "measure (\<lambda>(dat, pos, _). Suc (length dat) - pos)") (auto simp: HEAD_def BLOCK_def)
declare replay.simps [simp del]

lemma put_index_calls: "put_index p (ov\<lparr>ov_calls := cs\<rparr>) = (put_index p ov)\<lparr>ov_calls := cs\<rparr>"
  by (simp add: put_index_def)

lemma fold_put_index_calls:
  "fold put_index ps (ov\<lparr>ov_calls := cs\<rparr>) = (fold put_index ps ov)\<lparr>ov_calls := cs\<rparr>"
  by (induction ps arbitrary: ov) (simp_all add: put_index_calls)

lemma apply_commit_calls:
  "apply_commit a b ps meta (ov\<lparr>ov_calls := cs\<rparr>) = (apply_commit a b ps meta ov)\<lparr>ov_calls := cs\<rparr>"
proof -
  have "reset_to b (ov\<lparr>ov_calls := cs\<rparr>) = (reset_to b ov)\<lparr>ov_calls := cs\<rparr>"
    by (simp add: reset_to_def)
  moreover have "take_meta meta (ov\<lparr>ov_calls := cs\<rparr>) = (take_meta meta ov)\<lparr>ov_calls := cs\<rparr>" for ov
    by (simp add: take_meta_def split: option.splits)
  ultimately show ?thesis by (simp add: apply_commit_def fold_put_index_calls)
qed

lemma replay_calls:
  "replay dat pos good pending meta (ov\<lparr>ov_calls := cs\<rparr>)
     = apsnd (ov_calls_update (\<lambda>_. cs)) (replay dat pos good pending meta ov)"
proof (induction "length dat - pos" arbitrary: pos good pending meta ov rule: less_induct)
  case less
  show ?case
  proof (cases "pos + HEAD \<le> length dat")
    case True
    then have dec: "length dat - (pos + HEAD + k) < length dat - pos"
      "length dat - (pos + HEAD) < length dat - pos" for k by (auto simp: HEAD_def)
    show ?thesis
      using less [OF dec(1)] less [OF dec(2)] True
      by (simp add: replay.simps [of dat pos] Let_def apply_commit_calls)
  qed (simp add: replay.simps [of dat pos])
qed

lemma read_into_reliable:
  assumes "reliable (n + m) cs" and "pos + n \<le> length dat"
  shows "\<exists>cs'. read_into cs dat n pos = (slice pos n dat, cs') \<and> reliable m cs'"
proof -
  have "n \<le> length (drop pos dat)" using assms(2) by simp
  from recv_exact_reliable [OF assms(1) this] obtain cs' where
    "recv_exact cs (drop pos dat) n = (Some (take n (drop pos dat)), cs', drop n (drop pos dat))"
    "reliable m cs'" by blast
  then show ?thesis using assms(2) by (auto simp: read_into_def slice_def min_def)
qed

text \<open>A loop over a file that can be read is the replay of its records.\<close>

lemma load_loop_replay:
  assumes "reliable (length dat - pos + m) (ov_calls ov)"
  shows "\<exists>cs. load_loop dat pos good pending meta ov
    = apsnd (ov_calls_update (\<lambda>_. cs)) (replay dat pos good pending meta ov) \<and> reliable m cs"
  using assms
proof (induction "length dat - pos" arbitrary: pos good pending meta ov rule: less_induct)
  case less
  note eqs = load_loop.simps [of dat pos good pending meta ov]
    replay.simps [of dat pos good pending meta ov]
  have relm: "reliable m (ov_calls ov)" by (rule reliable_mono [OF less.prems]) simp
  show ?case
  proof (cases "pos + HEAD \<le> length dat")
    case False
    with relm show ?thesis by (auto simp: eqs intro!: exI [of _ "ov_calls ov"])
  next
    case True
    define h where "h = slice pos HEAD dat"
    have "reliable (HEAD + (length dat - (pos + HEAD) + m)) (ov_calls ov)"
      by (rule reliable_mono [OF less.prems]) (use True in linarith)
    from read_all_reliable [OF this True] obtain cs where
      r: "read_all (ov_calls ov) dat HEAD pos = (Some h, cs)"
      and rel: "reliable (length dat - (pos + HEAD) + m) cs" by (auto simp: h_def)
    have relm: "reliable m cs" by (rule reliable_mono [OF rel]) simp
    have step: "\<exists>cs'. load_loop dat (pos + HEAD + k) g p mt (ov'\<lparr>ov_calls := c\<rparr>)
        = apsnd (ov_calls_update (\<lambda>_. cs')) (replay dat (pos + HEAD + k) g p mt ov') \<and> reliable m cs'"
      if "reliable (length dat - (pos + HEAD + k) + m) c" for k g p mt ov' c
    proof -
      have "length dat - (pos + HEAD + k) < length dat - pos" using True by (auto simp: HEAD_def)
      from less.hyps [OF this, of "ov'\<lparr>ov_calls := c\<rparr>"] that show ?thesis
        by (auto simp: replay_calls apsnd_compose o_def)
    qed
    have relk: "reliable (length dat - (pos + HEAD + k) + m) cs" for k
      by (rule reliable_mono [OF rel]) simp
    show ?thesis
    proof (cases "get32 h 0 = KIND_META \<and> \<not> length dat < pos + HEAD + unat (get32 h 4)")
      case meta: True
      let ?a = "unat (get32 h 4)"
      have ra: "reliable (?a + (length dat - (pos + HEAD + ?a) + m)) cs"
        by (rule reliable_mono [OF rel]) (use meta in linarith)
      have "pos + HEAD + ?a \<le> length dat" using meta by linarith
      from read_into_reliable [OF ra this] obtain cs1 where
        "read_into cs dat ?a (pos + HEAD) = (slice (pos + HEAD) ?a dat, cs1)"
        "reliable (length dat - (pos + HEAD + ?a) + m) cs1" by blast
      with step [of ?a cs1] meta True r relm show ?thesis
        by (auto simp: eqs h_def [symmetric] Let_def KIND_META_def KIND_BLOCK_def)
    next
      case False
      with step [OF relk, of BLOCK] step [OF relk, of 0] True r relm show ?thesis
        by (auto simp: eqs h_def [symmetric] Let_def apply_commit_calls KIND_META_def KIND_BLOCK_def
            KIND_COMMIT_def)
    qed
  qed
qed

section \<open>The file as records\<close>

datatype ov_record =
    RBlock u32 u32 bytes   \<comment> \<open>block number, version, data\<close>
  | RMeta bytes

fun rec_bytes :: "ov_record \<Rightarrow> bytes" where
  "rec_bytes (RBlock b v d) = put_head KIND_BLOCK b v @ d"
| "rec_bytes (RMeta m) = put_head KIND_META (of_nat (length m)) 0 @ m"

fun rec_ok :: "ov_record \<Rightarrow> bool" where
  "rec_ok (RBlock b v d) \<longleftrightarrow> length d = BLOCK"
| "rec_ok (RMeta m) \<longleftrightarrow> length m \<le> 65536"

fun rec_pending :: "ov_record list \<Rightarrow> nat \<Rightarrow> (u32 \<times> at_entry) list" where
  "rec_pending [] pos = []"
| "rec_pending (RBlock b v d # rs) pos = (b, (v, pos + HEAD)) # rec_pending rs (pos + HEAD + length d)"
| "rec_pending (RMeta m # rs) pos = rec_pending rs (pos + HEAD + length m)"

fun rec_meta :: "ov_record list \<Rightarrow> bytes option \<Rightarrow> bytes option" where
  "rec_meta [] meta = meta"
| "rec_meta (RBlock b v d # rs) meta = rec_meta rs meta"
| "rec_meta (RMeta m # rs) meta = rec_meta rs (Some m)"

definition batch_bytes :: "ov_record list \<Rightarrow> u32 \<Rightarrow> u32 \<Rightarrow> bytes" where
  "batch_bytes rs v b = concat (map rec_bytes rs) @ put_head KIND_COMMIT v b"

lemma length_put32 [simp]: "length (put32 x) = 4"
  by (simp add: put32_def)

lemma length_put_head [simp]: "length (put_head k a b) = HEAD"
  by (simp add: put_head_def HEAD_def)

lemma get32_put32 [byte_order]: "get32 (put32 x @ ys) 0 = x"
  using be32_split [of x] by (simp add: get32_def put32_def)

lemma get32_skip [byte_order]: "get32 (put32 x @ ys) (4 + i) = get32 ys i"
  by (simp add: get32_def put32_def nth_append add.assoc add.commute [of 3])

lemma get32_put_head [simp]:
  "get32 (put_head k a b) 0 = k" "get32 (put_head k a b) 4 = a" "get32 (put_head k a b) 8 = b"
  using get32_skip [of k "put32 a @ put32 b" 0] get32_skip [of k "put32 a @ put32 b" 4]
    get32_skip [of a "put32 b" 0] get32_put32 [of b "[]"]
  by (simp_all add: put_head_def get32_put32)

lemma slice_put_head [simp]:
  "slice (length pre) HEAD (pre @ put_head k a b @ suf) = put_head k a b"
  by (simp add: slice_def)

lemma slice_middle: "slice (length pre + HEAD) (length d) (pre @ put_head k a b @ d @ suf) = d"
  by (simp add: slice_def)

lemma kinds_distinct [simp]:
  "KIND_BLOCK \<noteq> KIND_META" "KIND_META \<noteq> KIND_BLOCK" "KIND_COMMIT \<noteq> KIND_BLOCK"
  "KIND_COMMIT \<noteq> KIND_META"
  by (simp_all add: KIND_BLOCK_def KIND_META_def KIND_COMMIT_def)

lemma unat_meta_len: "length m \<le> 65536 \<Longrightarrow> unat (of_nat (length m) :: u32) = length m"
  by (simp add: unat_of_nat)

lemma replay_record:
  assumes "rec_ok r"
  shows "replay (pre @ rec_bytes r @ suf) (length pre) good p meta ov
    = replay (pre @ rec_bytes r @ suf) (length pre + length (rec_bytes r)) good
        (p @ rec_pending [r] (length pre)) (rec_meta [r] meta) ov"
proof (cases r)
  case (RBlock b v d)
  with assms show ?thesis
    by (subst replay.simps) (simp add: Let_def add.assoc)
next
  case (RMeta m)
  with assms show ?thesis
    using slice_middle [of pre m]
    by (subst replay.simps) (simp add: Let_def unat_meta_len add.assoc)
qed

lemma rec_pending_append:
  "rec_pending (rs @ ss) pos
     = rec_pending rs pos @ rec_pending ss (pos + length (concat (map rec_bytes rs)))"
  by (induction rs pos rule: rec_pending.induct) (simp_all add: add.assoc)

lemma replay_records:
  assumes "list_all rec_ok rs"
  shows "replay (pre @ concat (map rec_bytes rs) @ suf) (length pre) good p meta ov
    = replay (pre @ concat (map rec_bytes rs) @ suf) (length pre + length (concat (map rec_bytes rs))) good
        (p @ rec_pending rs (length pre)) (rec_meta rs meta) ov"
  using assms
proof (induction rs arbitrary: pre p meta)
  case (Cons r rs)
  have "rec_pending (r # rs) (length pre)
      = rec_pending [r] (length pre) @ rec_pending rs (length (pre @ rec_bytes r))"
    using rec_pending_append [of "[r]" rs "length pre"] by simp
  moreover have "rec_meta rs (rec_meta [r] meta) = rec_meta (r # rs) meta" by (cases r) simp_all
  ultimately show ?case
    using Cons.IH [of "pre @ rec_bytes r" "p @ rec_pending [r] (length pre)" "rec_meta [r] meta"] Cons.prems
      replay_record [of r pre "concat (map rec_bytes rs) @ suf" good p meta ov]
    by (simp add: add.assoc)
qed simp

text \<open>A committed batch takes effect.\<close>

lemma replay_batch:
  assumes "list_all rec_ok rs"
  shows "replay (pre @ batch_bytes rs v b @ suf) (length pre) good [] None ov
    = (let e = length pre + length (batch_bytes rs v b) in
       replay (pre @ batch_bytes rs v b @ suf) e e [] None
         (apply_commit v b (rec_pending rs (length pre)) (rec_meta rs None) ov))"
proof -
  let ?q = "pre @ concat (map rec_bytes rs)"
  have "replay (?q @ put_head KIND_COMMIT v b @ suf) (length ?q) good p m ov
      = replay (?q @ put_head KIND_COMMIT v b @ suf) (length ?q + HEAD) (length ?q + HEAD) [] None
          (apply_commit v b p m ov)" for p m
    by (subst replay.simps) (simp only: slice_put_head Let_def get32_put_head, simp)
  then show ?thesis
    using replay_records [OF assms, of pre "put_head KIND_COMMIT v b @ suf" good "[]" None ov]
    by (simp add: batch_bytes_def add.assoc Let_def)
qed



section \<open>The index\<close>

definition put_all :: "(u32 \<times> at_entry) list \<Rightarrow> (u32 \<times> at_entry) list \<Rightarrow> (u32 \<times> at_entry) list" where
  "put_all ps xs = fold (\<lambda>p. smap_put (fst p) (snd p)) ps xs"

lemma fold_put_index:
  "\<exists>d. fold put_index ps ov = ov\<lparr>ov_dead := d, ov_index := put_all ps (ov_index ov)\<rparr>"
proof (induction ps arbitrary: ov)
  case Nil
  show ?case by (intro exI [of _ "ov_dead ov"]) (simp add: put_all_def)
next
  case (Cons p ps)
  from Cons [of "put_index p ov"] show ?case by (auto simp: put_index_def put_all_def)
qed

lemma smap_ok_put_all: "smap_ok xs \<Longrightarrow> smap_ok (put_all ps xs)"
  unfolding put_all_def by (induction ps arbitrary: xs) simp_all

lemma map_of_put_all:
  "distinct (map fst ps) \<Longrightarrow> map_of (put_all ps xs) = map_of xs ++ map_of ps"
proof (induction ps arbitrary: xs)
  case (Cons p ps)
  then have "map_of ps (fst p) = None" by (simp add: map_of_eq_None_iff)
  then have "((map_of xs)(fst p \<mapsto> snd p) ++ map_of ps) k = (map_of xs ++ map_of (p # ps)) k" for k
    by (auto simp: map_add_def split: option.splits)
  with Cons show ?case by (simp add: put_all_def fun_eq_iff del: map_of.simps)
qed (simp add: put_all_def)

lemma apply_commit_fields:
  "ov_index (apply_commit v b ps meta ov) = put_all ps (if b = ov_reset ov then ov_index ov else [])"
  "ov_version (apply_commit v b ps meta ov) = v"
  "ov_reset (apply_commit v b ps meta ov) = b"
  "ov_base_size (apply_commit v b ps meta ov) = ov_base_size ov"
  "ov_disk (apply_commit v b ps meta ov) = ov_disk ov"
  "ov_open (apply_commit v b ps meta ov) = ov_open ov"
  "ov_base (apply_commit v b ps meta ov) = ov_base ov"
  "ov_dirty (apply_commit v b ps meta ov) = ov_dirty ov"
  "ov_writable (apply_commit v b ps meta ov) = ov_writable ov"
  "ov_meta_size (apply_commit v b ps meta ov)
     = (case meta of None \<Rightarrow> ov_meta_size ov
        | Some m \<Rightarrow> snd (parse_meta m (ov_meta_name ov) (ov_meta_size ov)))"
proof -
  obtain d where "fold put_index ps (reset_to b ov)
      = (reset_to b ov)\<lparr>ov_dead := d, ov_index := put_all ps (ov_index (reset_to b ov))\<rparr>"
    using fold_put_index by blast
  then show "ov_index (apply_commit v b ps meta ov) = put_all ps (if b = ov_reset ov then ov_index ov else [])"
    "ov_version (apply_commit v b ps meta ov) = v" "ov_reset (apply_commit v b ps meta ov) = b"
    "ov_base_size (apply_commit v b ps meta ov) = ov_base_size ov"
    "ov_disk (apply_commit v b ps meta ov) = ov_disk ov"
    "ov_open (apply_commit v b ps meta ov) = ov_open ov"
    "ov_base (apply_commit v b ps meta ov) = ov_base ov"
    "ov_dirty (apply_commit v b ps meta ov) = ov_dirty ov"
    "ov_writable (apply_commit v b ps meta ov) = ov_writable ov"
    "ov_meta_size (apply_commit v b ps meta ov)
     = (case meta of None \<Rightarrow> ov_meta_size ov
        | Some m \<Rightarrow> snd (parse_meta m (ov_meta_name ov) (ov_meta_size ov)))"
    by (simp_all add: apply_commit_def take_meta_def reset_to_def split: option.splits)
qed

text \<open>Each pending entry points at its block's data.\<close>

lemma rec_pending_data:
  assumes "(b, (v, off)) \<in> set (rec_pending rs (length pre))"
  shows "\<exists>d. RBlock b v d \<in> set rs
    \<and> off + length d \<le> length (pre @ concat (map rec_bytes rs))
    \<and> slice off (length d) (pre @ concat (map rec_bytes rs) @ suf) = d"
  using assms
proof (induction rs arbitrary: pre)
  case (Cons r rs)
  show ?case
  proof (cases r)
    case (RBlock b' v' d')
    consider "b = b'" "v = v'" "off = length pre + HEAD"
      | "(b, (v, off)) \<in> set (rec_pending rs (length (pre @ rec_bytes r)))"
      using Cons.prems RBlock by (auto simp: add.assoc)
    then show ?thesis
    proof cases
      case 1
      then show ?thesis using RBlock slice_middle [of pre d'] by (intro exI [of _ d']) simp
    next
      case 2
      from Cons.IH [OF this] show ?thesis by (auto simp: add.assoc)
    qed
  next
    case (RMeta m)
    then have "(b, (v, off)) \<in> set (rec_pending rs (length (pre @ rec_bytes r)))"
      using Cons.prems by (simp add: add.assoc)
    from Cons.IH [OF this] show ?thesis by (auto simp: add.assoc)
  qed
qed simp

section \<open>Loading what was committed\<close>

definition blank_like :: "overlay \<Rightarrow> overlay \<Rightarrow> bool" where
  "blank_like ov0 ov \<longleftrightarrow> ov_index ov0 = [] \<and> ov_version ov0 = 0 \<and> ov_reset ov0 = 0
     \<and> ov_meta_size ov0 = 0 \<and> ov_base_size ov0 = ov_base_size ov"

definition same_commit :: "overlay \<Rightarrow> overlay \<Rightarrow> bool" where
  "same_commit o1 o2 \<longleftrightarrow> ov_index o1 = ov_index o2 \<and> ov_version o1 = ov_version o2
     \<and> ov_reset o1 = ov_reset o2 \<and> ov_size o1 = ov_size o2"

definition loads_to :: "bytes \<Rightarrow> overlay \<Rightarrow> bool" where
  "loads_to dat ov \<longleftrightarrow> (\<forall>ov0. blank_like ov0 ov \<longrightarrow>
     fst (replay dat 8 8 [] None ov0) = length dat
     \<and> same_commit (snd (replay dat 8 8 [] None ov0)) ov)"

definition file_header :: bytes where
  "file_header = MAGIC @ put32 FORMAT"

lemma length_file_header [simp]: "length file_header = 8"
  by (simp add: file_header_def MAGIC_def ascii_def)

definition durable :: "overlay \<Rightarrow> bool" where
  "durable ov \<longleftrightarrow>
     (if ov_open ov then
        (\<exists>dat. ov_disk ov = Some dat \<and> ov_end ov = length dat \<and> take 8 dat = file_header
           \<and> loads_to dat ov)
      else ov_disk ov = None \<and> ov_end ov = 0 \<and> blank_like ov ov)"

lemma replay_stops: "length dat < pos + HEAD \<Longrightarrow> replay dat pos good p meta ov = (good, ov)"
  by (subst replay.simps) simp

lemma replay_keeps:
  "ov_disk (snd (replay dat pos good p meta ov)) = ov_disk ov
   \<and> ov_open (snd (replay dat pos good p meta ov)) = ov_open ov
   \<and> ov_dirty (snd (replay dat pos good p meta ov)) = ov_dirty ov
   \<and> ov_base (snd (replay dat pos good p meta ov)) = ov_base ov
   \<and> ov_base_size (snd (replay dat pos good p meta ov)) = ov_base_size ov"
proof (induction "length dat - pos" arbitrary: pos good p meta ov rule: less_induct)
  case less
  show ?case
  proof (cases "pos + HEAD \<le> length dat")
    case True
    then have dec: "length dat - (pos + HEAD + k) < length dat - pos"
      "length dat - (pos + HEAD) < length dat - pos" for k by (auto simp: HEAD_def)
    show ?thesis
      using less [OF dec(1)] less [OF dec(2)] True
      by (subst (1 2 3 4 5) replay.simps) (simp add: Let_def apply_commit_fields)
  qed (simp add: replay_stops)
qed

text \<open>A file read to its end is read the same way when more follows.\<close>

lemma slice_more: "pos + n \<le> length dat \<Longrightarrow> slice pos n (dat @ suf) = slice pos n dat"
  by (simp add: slice_def)

lemma replay_extend:
  assumes "replay dat pos good p meta ov = (length dat, ov')" and "good \<le> pos" and "pos \<le> length dat"
    and "good = pos \<longrightarrow> p = [] \<and> meta = None"
  shows "replay (dat @ suf) pos good p meta ov = replay (dat @ suf) (length dat) (length dat) [] None ov'"
  using assms
proof (induction "length dat - pos" arbitrary: pos good p meta ov rule: less_induct)
  case less
  show ?case
  proof (cases "pos + HEAD \<le> length dat")
    case False
    then have "good = length dat" "ov' = ov" using less.prems(1) by (simp_all add: replay_stops)
    with less.prems show ?thesis by auto
  next
    case True
    let ?h = "slice pos HEAD dat"
    have h: "slice pos HEAD (dat @ suf) = ?h" by (rule slice_more [OF True])
    have ne: "good \<noteq> length dat" using less.prems(2) True by (simp add: HEAD_def)
    have dec: "length dat - (pos + HEAD + k) < length dat - pos" for k using True by (auto simp: HEAD_def)
    note ih = less.hyps [OF dec]
    note eqs = replay.simps [of dat pos good p meta ov] replay.simps [of "dat @ suf" pos good p meta ov]
    consider (B) "get32 ?h 0 = KIND_BLOCK" | (M) "get32 ?h 0 = KIND_META" | (C) "get32 ?h 0 = KIND_COMMIT"
      | (X) "get32 ?h 0 \<noteq> KIND_BLOCK \<and> get32 ?h 0 \<noteq> KIND_META \<and> get32 ?h 0 \<noteq> KIND_COMMIT" by blast
    then show ?thesis
    proof cases
      case B
      have "\<not> length dat < pos + HEAD + BLOCK" using less.prems(1) True B ne by (auto simp: eqs Let_def)
      with ih [of BLOCK] less.prems True B h show ?thesis by (auto simp: eqs Let_def HEAD_def)
    next
      case M
      let ?a = "unat (get32 ?h 4)"
      have ok: "\<not> (length dat < pos + HEAD + ?a \<or> 65536 < ?a)"
        using less.prems(1) True M ne by (auto simp: eqs Let_def)
      then have "slice (pos + HEAD) ?a (dat @ suf) = slice (pos + HEAD) ?a dat" by (intro slice_more) simp
      with ih [of ?a] less.prems True M h ok show ?thesis by (auto simp: eqs Let_def HEAD_def)
    next
      case C
      with ih [of 0] less.prems True h show ?thesis by (auto simp: eqs Let_def HEAD_def)
    next
      case X
      with less.prems(1) True ne show ?thesis by (auto simp: eqs Let_def)
    qed
  qed
qed

section \<open>What sync writes\<close>

definition sync_records :: "overlay \<Rightarrow> ov_record list" where
  "sync_records ov =
     (if ov_end ov = 8 then [RMeta (meta_json (ov_meta_name ov) (ov_size ov))] else [])
     @ map (\<lambda>(b, d). RBlock b (ov_version ov + 1) d) (ov_dirty ov)"

definition meta_fits :: "overlay \<Rightarrow> bool" where
  "meta_fits ov \<longleftrightarrow> length (meta_json (ov_meta_name ov) (ov_size ov)) \<le> 65536 \<and> ov_size ov < 2 ^ 64"

lemma block_records_eq:
  "fst (block_records ds v pos) = concat (map rec_bytes (map (\<lambda>(b, d). RBlock b v d) ds))
   \<and> map (\<lambda>(b, off). (b, (v, off))) (snd (block_records ds v pos))
     = rec_pending (map (\<lambda>(b, d). RBlock b v d) ds) pos"
  by (induction ds v pos rule: block_records.induct) (auto simp: split_beta)

lemma sync_buffer_batch:
  "fst (sync_buffer ov) = batch_bytes (sync_records ov) (ov_version ov + 1) (ov_reset ov)
   \<and> map (\<lambda>(b, off). (b, (ov_version ov + 1, off))) (snd (sync_buffer ov))
     = rec_pending (sync_records ov) (ov_end ov)"
  using block_records_eq [of "ov_dirty ov" "ov_version ov + 1"]
  by (simp add: sync_buffer_def sync_records_def batch_bytes_def Let_def split_beta
      add.commute add.left_commute)

lemma sync_records_ok:
  assumes "ov_wf ov" and "meta_fits ov"
  shows "list_all rec_ok (sync_records ov)"
  using assms by (auto simp: sync_records_def list_all_iff meta_fits_def ov_wf_def)

lemma keys_pending:
  "map fst (rec_pending rs pos) = concat (map (\<lambda>r. case r of RBlock b v d \<Rightarrow> [b] | RMeta m \<Rightarrow> []) rs)"
  by (induction rs pos rule: rec_pending.induct) simp_all

lemma sync_keys: "map fst (rec_pending (sync_records ov) pos) = map fst (ov_dirty ov)"
proof -
  have "concat (map (\<lambda>r. case r of RBlock b v d \<Rightarrow> [b] | RMeta m \<Rightarrow> [])
      (map (\<lambda>(b, d). RBlock b (ov_version ov + 1) d) ds)) = map fst ds" for ds
    by (induction ds) auto
  then show ?thesis by (simp add: keys_pending sync_records_def)
qed

lemma fold_places: "fold (\<lambda>(b, off). put_index (b, (v, off))) places ov
    = fold put_index (map (\<lambda>(b, off). (b, (v, off))) places) ov"
  by (induction places arbitrary: ov) auto

text \<open>The state once the batch is in the file, before compaction.\<close>

definition committed :: "bytes \<Rightarrow> overlay \<Rightarrow> overlay" where
  "committed dat ov =
     ov\<lparr>ov_disk := Some (dat @ batch_bytes (sync_records ov) (ov_version ov + 1) (ov_reset ov)),
        ov_end := length dat + length (batch_bytes (sync_records ov) (ov_version ov + 1) (ov_reset ov)),
        ov_index := put_all (rec_pending (sync_records ov) (length dat)) (ov_index ov),
        ov_meta_size := ov_size ov, ov_version := ov_version ov + 1, ov_dirty := []\<rparr>"

lemma committed_size: "ov_size (committed dat ov) = ov_size ov"
  by (simp add: committed_def ov_size_def)

lemma committed_wf:
  assumes "ov_wf ov" and "ov_content ov = dat"
  shows "ov_wf (committed dat ov)"
proof -
  let ?p = "rec_pending (sync_records ov) (length dat)"
  let ?c = "ov_content (committed dat ov)"
  have c: "?c = dat @ batch_bytes (sync_records ov) (ov_version ov + 1) (ov_reset ov)"
    by (simp add: committed_def ov_content_def)
  have "distinct (map fst ?p)" using assms(1) by (auto simp: sync_keys ov_wf_def dest: smap_ok_distinct)
  from map_of_put_all [OF this, of "ov_index ov"]
  have mo: "map_of (put_all ?p (ov_index ov)) = map_of (ov_index ov) ++ map_of ?p" .
  have ok: "smap_ok (put_all ?p (ov_index ov))" using assms(1) by (intro smap_ok_put_all) (simp add: ov_wf_def)
  have "off + BLOCK \<le> length ?c" if "(b, (v, off)) \<in> set (put_all ?p (ov_index ov))" for b v off
  proof -
    have "map_of (put_all ?p (ov_index ov)) b = Some (v, off)"
      using that ok by (simp add: smap_ok_distinct)
    then consider "(b, (v, off)) \<in> set ?p" | "map_of (ov_index ov) b = Some (v, off)"
      unfolding mo by (auto dest: map_of_SomeD)
    then show ?thesis
    proof cases
      case 1
      from rec_pending_data [OF this, of "[]"] obtain d where
        "RBlock b v d \<in> set (sync_records ov)"
        "off + length d \<le> length (dat @ concat (map rec_bytes (sync_records ov)))" by auto
      moreover from this(1) assms(1) have "length d = BLOCK"
        by (auto simp: sync_records_def ov_wf_def split: if_splits)
      ultimately show ?thesis by (simp add: c batch_bytes_def)
    next
      case 2
      from ov_wfD(2) [OF assms(1) this] assms(2) show ?thesis by (simp add: c)
    qed
  qed
  then show ?thesis
    using assms(1) ok by (auto simp: ov_wf_def committed_def ov_content_def smap_ok_def)
qed

text \<open>Committing does not change what the guest sees.\<close>

lemma committed_block:
  assumes "ov_wf ov" and "ov_content ov = dat"
  shows "ov_block (committed dat ov) b = ov_block ov b"
proof -
  let ?p = "rec_pending (sync_records ov) (length dat)"
  let ?c = "ov_content (committed dat ov)"
  have c: "?c = dat @ batch_bytes (sync_records ov) (ov_version ov + 1) (ov_reset ov)"
    by (simp add: committed_def ov_content_def)
  have dist: "distinct (map fst ?p)" using assms(1) by (auto simp: sync_keys ov_wf_def dest: smap_ok_distinct)
  have mo: "map_of (ov_index (committed dat ov)) = map_of (ov_index ov) ++ map_of ?p"
    using map_of_put_all [OF dist, of "ov_index ov"] by (simp add: committed_def)
  have dd: "distinct (map fst (ov_dirty ov))" using assms(1) by (auto simp: ov_wf_def dest: smap_ok_distinct)
  show ?thesis
  proof (cases "map_of (ov_dirty ov) b")
    case None
    then have "map_of ?p b = None" by (metis map_of_eq_None_iff list.set_map sync_keys)
    then have i: "map_of (ov_index (committed dat ov)) b = map_of (ov_index ov) b" by (simp add: mo map_add_def)
    have "slice off BLOCK ?c = slice off BLOCK dat" if "map_of (ov_index ov) b = Some (v, off)" for v off
      using ov_wfD(2) [OF assms(1) that] assms(2) unfolding c by (intro slice_append1) simp
    then show ?thesis
      using None i assms(2)
      by (auto simp: ov_block_def committed_def img_byte_def ov_content_def split: option.splits)
  next
    case (Some d)
    then have "b \<in> set (map fst (ov_dirty ov))" by (force dest: map_of_SomeD)
    then have "b \<in> set (map fst ?p)" by (simp only: sync_keys)
    then obtain e where e: "map_of ?p b = Some e"
      by (cases "map_of ?p b") (auto simp: map_of_eq_None_iff)
    obtain v off where vo: "e = (v, off)" by force
    from rec_pending_data [of b v off "sync_records ov" dat] map_of_SomeD [OF e] vo obtain d' where
      d': "RBlock b v d' \<in> set (sync_records ov)"
      "slice off (length d') (dat @ concat (map rec_bytes (sync_records ov)) @
         put_head KIND_COMMIT (ov_version ov + 1) (ov_reset ov)) = d'" by auto
    then have "(b, d') \<in> set (ov_dirty ov)" by (auto simp: sync_records_def split: if_splits)
    then have "d' = d" "length d' = BLOCK"
      using Some dd assms(1) by (auto simp: ov_wf_def dest: map_of_is_SomeI)
    then have "slice off BLOCK ?c = d" using d'(2) by (simp add: c batch_bytes_def)
    moreover have "ov_dirty (committed dat ov) = []" by (simp add: committed_def)
    ultimately show ?thesis using Some e vo by (simp add: ov_block_def mo)
  qed
qed

lemma committed_loads:
  assumes "ov_wf ov" and "meta_fits ov" and "loads_to dat ov" and "8 \<le> length dat"
    and "ov_end ov = length dat"
  shows "loads_to (dat @ batch_bytes (sync_records ov) (ov_version ov + 1) (ov_reset ov)) (committed dat ov)"
  unfolding loads_to_def
proof (intro allI impI)
  fix ov0
  let ?v = "ov_version ov + 1" and ?rs = "sync_records ov"
  let ?b = "batch_bytes ?rs ?v (ov_reset ov)"
  define o1 where "o1 = snd (replay dat 8 8 [] None ov0)"
  assume "blank_like ov0 (committed dat ov)"
  then have bl: "blank_like ov0 ov" by (simp add: blank_like_def committed_def)
  then have r1: "replay dat 8 8 [] None ov0 = (length dat, o1)" and sc: "same_commit o1 ov"
    using assms(3) by (simp_all add: loads_to_def o1_def prod_eq_iff)
  let ?o2 = "apply_commit ?v (ov_reset ov) (rec_pending ?rs (length dat)) (rec_meta ?rs None) o1"
  have "replay (dat @ ?b) 8 8 [] None ov0 = replay (dat @ ?b) (length dat) (length dat) [] None o1"
    using replay_extend [OF r1 _ assms(4)] by simp
  also have "\<dots> = (length (dat @ ?b), ?o2)"
    using replay_batch [OF sync_records_ok [OF assms(1,2)], of dat ?v "ov_reset ov" "[]" "length dat" o1]
    by (simp add: Let_def replay_stops HEAD_def)
  finally have r2: "replay (dat @ ?b) 8 8 [] None ov0 = (length (dat @ ?b), ?o2)" .
  have bs: "ov_base_size o1 = ov_base_size ov"
    using bl replay_keeps [of dat 8 8 "[]" None ov0] by (simp add: o1_def blank_like_def)
  have rm: "rec_meta (map (\<lambda>(b, d). RBlock b ?v d) ds) m = m" for ds m by (induction ds) auto
  have "ov_size ?o2 = ov_size ov"
  proof (cases "ov_end ov = 8")
    case True
    then have "rec_meta ?rs None = Some (meta_json (ov_meta_name ov) (ov_size ov))"
      by (simp add: sync_records_def rm)
    then have "ov_meta_size ?o2 = ov_size ov"
      using assms(2) by (simp add: apply_commit_fields meta_size_found meta_fits_def)
    then show ?thesis using bs by (auto simp: ov_size_def apply_commit_fields)
  next
    case False
    then have "rec_meta ?rs None = None" by (simp add: sync_records_def rm)
    then show ?thesis using sc by (auto simp: ov_size_def apply_commit_fields same_commit_def split: if_splits)
  qed
  then have "same_commit ?o2 (committed dat ov)"
    using sc by (simp add: same_commit_def apply_commit_fields committed_size) (simp add: committed_def)
  then show "fst (replay (dat @ ?b) 8 8 [] None ov0) = length (dat @ ?b)
      \<and> same_commit (snd (replay (dat @ ?b) 8 8 [] None ov0)) (committed dat ov)"
    unfolding r2 by simp
qed

section \<open>Compaction keeps everything\<close>

definition live_records :: "bytes \<Rightarrow> (u32 \<times> at_entry) list \<Rightarrow> ov_record list" where
  "live_records old es = map (\<lambda>(b, (v, off)). RBlock b v (slice off BLOCK old)) es"

lemma compact_blocks_ok:
  assumes "compact_blocks es old (ok, cs, f, length f, idx) = (True, cs', f', pos', idx')"
    and "\<forall>(b, v, off) \<in> set es. off + BLOCK \<le> length old"
  shows "ok \<and> f' = f @ concat (map rec_bytes (live_records old es)) \<and> pos' = length f'
    \<and> idx' = put_all (rec_pending (live_records old es) (length f)) idx"
  using assms
proof (induction es arbitrary: ok cs f idx)
  case Nil
  then show ?case by (auto simp: live_records_def put_all_def)
next
  case (Cons e es)
  obtain b v off where e: "e = (b, (v, off))" by (metis surj_pair)
  have bad: "\<not> fst (compact_blocks es old (False, c, g, p, i))" for c g p i
    by (cases es) (auto simp: split_beta)
  have len: "length (slice off BLOCK old) = BLOCK" using Cons.prems(2) e by simp
  have okT: ok using Cons.prems(1) by (auto simp: e split: if_splits)
  then obtain cs1 where r: "read_all cs old BLOCK off = (Some (slice off BLOCK old), cs1)"
    using Cons.prems(1) bad
    by (auto simp: e split: prod.splits option.splits dest: read_all_Some) (metis fst_conv)
  define g where "g = f @ put_head KIND_BLOCK b v @ slice off BLOCK old"
  have lg: "length g = length f + HEAD + BLOCK" by (simp add: g_def len)
  obtain ok1 cs2 f1 where w: "write_all cs1 f (length f) (put_head KIND_BLOCK b v @ slice off BLOCK old)
      = (ok1, cs2, f1)" by (metis surj_pair)
  have c: "compact_blocks es old (ok1, cs2, f1, length f + HEAD + BLOCK, smap_put b (v, length f + HEAD) idx)
      = (True, cs', f', pos', idx')"
    using Cons.prems(1) okT r w by (simp add: e)
  have ok1: ok1 using c bad by (cases ok1) (auto, metis fst_conv)
  then have f1: "f1 = g" using write_all_at_end [OF w] by (simp add: g_def)
  from Cons.IH [of ok1 cs2 f1 "smap_put b (v, length f + HEAD) idx"] c Cons.prems(2) f1 lg
  show ?case
    using okT len by (simp add: live_records_def put_all_def e g_def add.assoc)
qed

definition compact_records :: "overlay \<Rightarrow> ov_record list" where
  "compact_records ov =
     RMeta (meta_json (ov_meta_name ov) (ov_size ov)) # live_records (ov_content ov) (ov_index ov)"

definition compacted :: "overlay \<Rightarrow> overlay" where
  "compacted ov =
     (let dat = file_header @ batch_bytes (compact_records ov) (ov_version ov) (ov_reset ov) in
      ov\<lparr>ov_disk := Some dat, ov_end := length dat,
         ov_index := put_all (rec_pending (compact_records ov) 8) [], ov_dead := 0\<rparr>)"

lemma maybeCompact_cases:
  assumes "ov_wf ov"
  shows "\<exists>cs. maybeCompact ov = ov\<lparr>ov_calls := cs\<rparr>
    \<or> maybeCompact ov = (compacted ov)\<lparr>ov_calls := cs\<rparr> \<and> ov_open ov"
proof (cases "\<not> ov_open ov \<or> ov_dead ov < 256 \<or> ov_dead ov < length (ov_index ov)")
  case True
  then have "maybeCompact ov = ov\<lparr>ov_calls := ov_calls ov\<rparr>" by (auto simp: maybeCompact_def)
  then show ?thesis by blast
next
  case False
  define meta where "meta = meta_json (ov_meta_name ov) (ov_size ov)"
  define hd0 where "hd0 = MAGIC @ put32 FORMAT @ put_head KIND_META (of_nat (length meta)) 0 @ meta"
  define c where "c = put_head KIND_COMMIT (ov_version ov) (ov_reset ov)"
  obtain s0 cs where s0: "sys_ok (ov_calls ov) = (s0, cs)" by force
  obtain ok0 cs0 f0 where w0: "write_all cs [] 0 hd0 = (ok0, cs0, f0)" by (metis surj_pair)
  obtain ok1 cs1 f1 pos idx where cb: "compact_blocks (ov_index ov) (ov_content ov)
      (ok0, cs0, f0, length hd0, []) = (ok1, cs1, f1, pos, idx)" by (metis surj_pair)
  obtain ok2 cs2 f2 where w2: "(if ok1 then write_all cs1 f1 pos c else (False, cs1, f1)) = (ok2, cs2, f2)"
    by (metis surj_pair)
  obtain ok3 cs3 where s3: "(if ok2 then sys_ok cs2 else (False, cs2)) = (ok3, cs3)" by force
  obtain ok4 cs4 where s4: "(if ok3 then sys_ok cs3 else (False, cs3)) = (ok4, cs4)" by force
  have eq: "maybeCompact ov = (if \<not> s0 then ov\<lparr>ov_calls := cs\<rparr> else if \<not> ok4 then ov\<lparr>ov_calls := cs4\<rparr>
      else ov\<lparr>ov_calls := cs4, ov_disk := Some f2, ov_end := pos + length c, ov_index := idx, ov_dead := 0\<rparr>)"
    using False
    unfolding maybeCompact_def Let_def meta_def [symmetric]
    unfolding hd0_def [symmetric] c_def [symmetric]
    by (simp add: s0 w0 cb w2 s3 s4 split: bool.splits)
  show ?thesis
  proof (cases "s0 \<and> ok4")
    case True
    then have oks: ok4 ok3 ok2 ok1 using s4 s3 w2 by (auto split: if_splits)
    have bad: "\<not> fst (compact_blocks es old (False, c, g, p, i))" for es old c g p i
      by (cases es) (auto simp: split_beta)
    have ok0: ok0 using cb oks bad by (cases ok0) (auto, metis fst_conv)
    then have f0: "f0 = hd0" using write_all_at_end [of cs "[]" hd0] w0 by simp
    have ib: "\<forall>(b, v, off) \<in> set (ov_index ov). off + BLOCK \<le> length (ov_content ov)"
      using assms by (simp add: ov_wf_def)
    have h: "hd0 = file_header @ rec_bytes (RMeta meta)" by (simp add: hd0_def file_header_def)
    from compact_blocks_ok [OF cb [unfolded f0 eqTrueI [OF oks(4)]] ib]
    have f1: "f1 = hd0 @ concat (map rec_bytes (live_records (ov_content ov) (ov_index ov)))"
      "pos = length f1"
      "idx = put_all (rec_pending (live_records (ov_content ov) (ov_index ov)) (length hd0)) []" by simp_all
    have f2: "f2 = f1 @ c" using w2 oks write_all_at_end [of cs1 f1 c] f1(2) by simp
    define D where "D = file_header @ batch_bytes (compact_records ov) (ov_version ov) (ov_reset ov)"
    have f2D: "f2 = D"
      unfolding D_def by (simp add: f2 f1(1) h batch_bytes_def compact_records_def meta_def c_def)
    have pD: "pos + length c = length D" using f1(2) f2 f2D by (metis length_append)
    have "idx = put_all (rec_pending (compact_records ov) 8) []"
      by (simp add: f1(3) compact_records_def h meta_def add.assoc)
    then have "maybeCompact ov = (compacted ov)\<lparr>ov_calls := cs4\<rparr>"
      using True eq unfolding compacted_def Let_def D_def [symmetric] f2D pD by simp
    with False show ?thesis by blast
  next
    case False
    with eq show ?thesis by auto
  qed
qed

lemma live_keys: "map fst (rec_pending (compact_records ov) pos) = map fst (ov_index ov)"
proof -
  have "concat (map (\<lambda>r. case r of RBlock b v d \<Rightarrow> [b] | RMeta m \<Rightarrow> []) (live_records old es)) = map fst es"
    for old es by (induction es) (auto simp: live_records_def)
  then show ?thesis by (simp add: keys_pending compact_records_def)
qed

lemma compact_records_ok:
  assumes "ov_wf ov" and "meta_fits ov"
  shows "list_all rec_ok (compact_records ov)"
  using assms by (auto simp: compact_records_def live_records_def list_all_iff meta_fits_def ov_wf_def)

text \<open>A block of the new index has the bytes it had.\<close>

lemma compacted_entry:
  assumes wf: "ov_wf ov"
  shows "map_of (ov_index ov) b = None \<Longrightarrow> map_of (ov_index (compacted ov)) b = None"
    and "map_of (ov_index ov) b = Some (v, off) \<Longrightarrow>
      \<exists>off'. map_of (ov_index (compacted ov)) b = Some (v, off')
        \<and> off' + BLOCK \<le> length (ov_content (compacted ov))
        \<and> slice off' BLOCK (ov_content (compacted ov)) = slice off BLOCK (ov_content ov)"
proof -
  let ?p = "rec_pending (compact_records ov) 8"
  have d0: "distinct (map fst (ov_index ov))" using wf by (auto simp: ov_wf_def dest: smap_ok_distinct)
  then have "distinct (map fst ?p)" by (simp only: live_keys)
  then have mo: "map_of (ov_index (compacted ov)) = map_of ?p"
    by (simp add: compacted_def Let_def map_of_put_all)
  have c: "ov_content (compacted ov)
      = file_header @ batch_bytes (compact_records ov) (ov_version ov) (ov_reset ov)"
    by (simp add: compacted_def Let_def ov_content_def)
  show "map_of (ov_index (compacted ov)) b = None" if "map_of (ov_index ov) b = None"
  proof -
    have "b \<notin> set (map fst (ov_index ov))" using that by (simp add: map_of_eq_None_iff)
    then have "b \<notin> set (map fst ?p)" unfolding live_keys .
    then show ?thesis by (simp add: mo map_of_eq_None_iff)
  qed
  assume s: "map_of (ov_index ov) b = Some (v, off)"
  then have "b \<in> set (map fst (ov_index ov))" by (force dest: map_of_SomeD)
  then have "b \<in> set (map fst ?p)" by (simp only: live_keys)
  then obtain v' off' where e: "map_of ?p b = Some (v', off')"
    by (cases "map_of ?p b") (auto simp: map_of_eq_None_iff)
  from rec_pending_data [of b v' off' "compact_records ov" file_header] map_of_SomeD [OF e] obtain d where
    d: "RBlock b v' d \<in> set (compact_records ov)"
    "off' + length d \<le> length (file_header @ concat (map rec_bytes (compact_records ov)))"
    "slice off' (length d) (file_header @ concat (map rec_bytes (compact_records ov)) @
       put_head KIND_COMMIT (ov_version ov) (ov_reset ov)) = d" by auto
  then obtain o1 where "(b, (v', o1)) \<in> set (ov_index ov)" "d = slice o1 BLOCK (ov_content ov)"
    by (auto simp: compact_records_def live_records_def)
  moreover from this(1) have "v' = v" "o1 = off" using s d0 map_of_is_SomeI by fastforce+
  moreover have "length (slice off BLOCK (ov_content ov)) = BLOCK" using ov_wfD(2) [OF wf s] by simp
  ultimately show "\<exists>off'. map_of (ov_index (compacted ov)) b = Some (v, off')
        \<and> off' + BLOCK \<le> length (ov_content (compacted ov))
        \<and> slice off' BLOCK (ov_content (compacted ov)) = slice off BLOCK (ov_content ov)"
    using e d by (auto simp: mo c batch_bytes_def)
qed

lemma compacted_block:
  assumes "ov_wf ov"
  shows "ov_block (compacted ov) b = ov_block ov b"
proof -
  have "ov_dirty (compacted ov) = ov_dirty ov" "img_byte (compacted ov) = img_byte ov"
    by (simp_all add: compacted_def Let_def img_byte_def fun_eq_iff)
  then show ?thesis
    using compacted_entry [OF assms, of b]
    by (cases "map_of (ov_index ov) b") (auto simp: ov_block_def split: option.splits)
qed

lemma compacted_wf:
  assumes "ov_wf ov"
  shows "ov_wf (compacted ov)"
proof -
  have "smap_ok (ov_index (compacted ov))"
    unfolding compacted_def Let_def by (simp, intro smap_ok_put_all) (simp add: smap_ok_def)
  moreover have "off' + BLOCK \<le> length (ov_content (compacted ov))"
    if "(b, (v', off')) \<in> set (ov_index (compacted ov))" for b v' off'
  proof -
    have m: "map_of (ov_index (compacted ov)) b = Some (v', off')"
      using that calculation by (simp add: smap_ok_distinct)
    then obtain v off where "map_of (ov_index ov) b = Some (v, off)"
      using compacted_entry(1) [OF assms, of b] by (cases "map_of (ov_index ov) b") auto
    from compacted_entry(2) [OF assms this] m show ?thesis by auto
  qed
  ultimately show ?thesis
    using assms by (auto simp: ov_wf_def compacted_def Let_def)
qed

lemma compacted_loads:
  assumes "ov_wf ov" and "meta_fits ov"
  shows "loads_to (ov_content (compacted ov)) (compacted ov)"
  unfolding loads_to_def
proof (intro allI impI)
  fix ov0
  let ?rs = "compact_records ov"
  let ?b = "batch_bytes ?rs (ov_version ov) (ov_reset ov)"
  assume bl: "blank_like ov0 (compacted ov)"
  have c: "ov_content (compacted ov) = file_header @ ?b"
    by (simp add: compacted_def Let_def ov_content_def)
  let ?o2 = "apply_commit (ov_version ov) (ov_reset ov) (rec_pending ?rs 8) (rec_meta ?rs None) ov0"
  have r: "replay (file_header @ ?b) 8 8 [] None ov0 = (length (file_header @ ?b), ?o2)"
    using replay_batch [OF compact_records_ok [OF assms], of file_header "ov_version ov" "ov_reset ov" "[]" 8 ov0]
    by (simp add: Let_def replay_stops HEAD_def)
  have "rec_meta (live_records old es) m = m" for old es m by (induction es) (auto simp: live_records_def)
  then have "rec_meta ?rs None = Some (meta_json (ov_meta_name ov) (ov_size ov))"
    by (simp add: compact_records_def)
  then have "ov_meta_size ?o2 = ov_size ov"
    using assms(2) by (simp add: apply_commit_fields meta_size_found meta_fits_def)
  then have "same_commit ?o2 (compacted ov)"
    using bl by (auto simp: same_commit_def apply_commit_fields ov_size_def blank_like_def compacted_def Let_def)
  then show "fst (replay (ov_content (compacted ov)) 8 8 [] None ov0) = length (ov_content (compacted ov))
      \<and> same_commit (snd (replay (ov_content (compacted ov)) 8 8 [] None ov0)) (compacted ov)"
    unfolding c r by simp
qed

section \<open>Sync\<close>

lemma loads_to_cong:
  assumes "loads_to dat o1" and "same_commit o1 o2" and "ov_base_size o1 = ov_base_size o2"
  shows "loads_to dat o2"
  using assms by (auto simp: loads_to_def same_commit_def blank_like_def)

lemma loads_header: "blank_like ov ov \<Longrightarrow> loads_to file_header ov"
  by (auto simp: loads_to_def replay_stops HEAD_def same_commit_def blank_like_def ov_size_def)

text \<open>Creating the file: it exists with its header, or nothing has changed.\<close>

lemma ov_create_durable:
  assumes "durable ov" and "ov_create ov = (ok, o1)"
  shows "(\<exists>cs dat e. o1 = ov\<lparr>ov_calls := cs, ov_disk := dat, ov_open := ov_open o1, ov_end := e\<rparr>)
    \<and> durable o1 \<and> (ok \<longrightarrow> ov_open o1)
    \<and> (\<not> ok \<longrightarrow> ov_disk o1 = ov_disk ov)
    \<and> (\<exists>suf. ov_content o1 = ov_content ov @ suf)"
proof (cases "ov_open ov")
  case True
  then show ?thesis using assms
    by (auto simp: ov_create_def intro!: exI [of _ "ov_calls ov"] exI [of _ "ov_disk ov"] exI [of _ "ov_end ov"])
next
  case False
  then have d: "ov_disk ov = None" "ov_end ov = 0" "blank_like ov ov"
    using assms(1) by (simp_all add: durable_def)
  obtain s cs where s: "sys_ok (ov_calls ov) = (s, cs)" by force
  show ?thesis
  proof (cases s)
    case no: False
    with assms(2) False d s show ?thesis
      by (auto simp: ov_create_def durable_def blank_like_def intro!: exI [of _ cs] exI [of _ "None"] exI [of _ 0])
  next
    case yes: True
    obtain w cs1 dat where w: "write_all cs [] 0 (MAGIC @ put32 FORMAT) = (w, cs1, dat)" by (metis surj_pair)
    show ?thesis
    proof (cases w)
      case no: False
      with assms(2) False d s yes w show ?thesis
        by (auto simp: ov_create_def durable_def blank_like_def ov_content_def
            intro!: exI [of _ cs1] exI [of _ "None"] exI [of _ 0])
    next
      case wrote: True
      then have dat: "dat = file_header"
        using write_all_at_end [of cs "[]" "MAGIC @ put32 FORMAT"] w by (simp add: file_header_def)
      have o1: "o1 = ov\<lparr>ov_calls := cs1, ov_disk := Some file_header, ov_open := True, ov_end := 8\<rparr>" "ok"
        using assms(2) False d s yes w wrote
        by (auto simp: ov_create_def dat MAGIC_def ascii_def)
      have "blank_like o1 o1" using d(3) by (simp add: o1 blank_like_def)
      from loads_header [OF this] have "durable o1" by (simp add: durable_def o1)
      then show ?thesis using d o1 by (auto simp: ov_content_def)
    qed
  qed
qed

lemma more_content_view:
  assumes "ov_wf ov" and "ov_content o1 = ov_content ov @ suf"
    and "ov_dirty o1 = ov_dirty ov" "ov_index o1 = ov_index ov" "ov_base o1 = ov_base ov"
    "ov_base_size o1 = ov_base_size ov"
  shows "ov_wf o1 \<and> ov_block o1 = ov_block ov"
proof
  show "ov_wf o1" using assms by (auto simp: ov_wf_def)
  have "ov_block o1 b = ov_block ov b" for b
    using assms ov_wfD(2) [OF assms(1), of b]
    by (auto simp: ov_block_def img_byte_def slice_append1 split: option.splits)
  then show "ov_block o1 = ov_block ov" ..
qed

text \<open>
  Every outcome of sync: \<open>o1\<close> is the state after the file was made, \<open>n\<close> how much of the
  batch reached the file when it failed.
\<close>

lemma ov_sync_outcome:
  assumes wf: "ov_wf ov" and du: "durable ov" and ne: "ov_dirty ov \<noteq> []"
    and sync: "ov_sync ov = (ok, ov')"
  shows "\<exists>o1. ov_create ov = (ov_open o1, o1) \<and> ov_wf o1 \<and> durable o1 \<and> ov_block o1 = ov_block ov
    \<and> ov_size o1 = ov_size ov \<and> ov_dirty o1 = ov_dirty ov \<and> ov_version o1 = ov_version ov
    \<and> ov_base_size o1 = ov_base_size ov \<and> ov_base o1 = ov_base ov \<and> meta_fits o1 = meta_fits ov
    \<and> ov_index o1 = ov_index ov
    \<and> (if ok then ov_open o1 \<and> (\<exists>cs d. ov' = maybeCompact ((committed (ov_content o1) o1)\<lparr>ov_calls := cs, ov_dead := d\<rparr>))
       else ov' = o1 \<or> (\<exists>cs n. ov' = truncate_fd (ov_end o1) (o1\<lparr>ov_calls := cs,
              ov_disk := Some (ov_content o1 @ take n (fst (sync_buffer o1)))\<rparr>)) \<and> ov_open o1)"
proof -
  obtain c o1 where c: "ov_create ov = (c, o1)" by force
  from ov_create_durable [OF du c] obtain cs dat e suf where
    o1: "o1 = ov\<lparr>ov_calls := cs, ov_disk := dat, ov_open := ov_open o1, ov_end := e\<rparr>"
    and du1: "durable o1" and co: "c \<longrightarrow> ov_open o1" and suf: "ov_content o1 = ov_content ov @ suf" by blast
  obtain p where "o1 = ov\<lparr>ov_calls := cs, ov_disk := dat, ov_open := p, ov_end := e\<rparr>" using o1 by blast
  then have f: "ov_dirty o1 = ov_dirty ov" "ov_index o1 = ov_index ov" "ov_base o1 = ov_base ov"
    "ov_base_size o1 = ov_base_size ov" "ov_version o1 = ov_version ov" "ov_size o1 = ov_size ov"
    "meta_fits o1 = meta_fits ov"
    by (simp_all add: ov_size_def meta_fits_def)
  note v = more_content_view [OF wf suf f(1-4)]
  have cop: "c = ov_open o1"
  proof (cases "ov_open ov")
    case True
    with c show ?thesis by (auto simp: ov_create_def)
  next
    case False
    then have "\<not> c \<longrightarrow> \<not> ov_open o1" using c
      by (auto simp: ov_create_def split: prod.splits if_splits bool.splits)
    with co show ?thesis by blast
  qed
  show ?thesis
  proof (cases c)
    case False
    then have "\<not> ok" "ov' = o1" using sync c ne by (auto simp: ov_sync_def)
    with v f du1 c cop show ?thesis by (intro exI [of _ o1]) simp
  next
    case True
    define buf where "buf = fst (sync_buffer o1)"
    define places where "places = snd (sync_buffer o1)"
    have sb: "sync_buffer o1 = (buf, places)" by (simp add: buf_def places_def)
    have op: "ov_open o1" using True cop by simp
    then have en: "ov_end o1 = length (ov_content o1)" using du1 by (auto simp: durable_def ov_content_def)
    obtain w cs1 dat1 where w: "write_all (ov_calls o1) (ov_content o1) (ov_end o1) buf = (w, cs1, dat1)"
      by (metis surj_pair)
    from write_all_at_end [OF w [unfolded en]] obtain n where
      n: "dat1 = ov_content o1 @ take n buf" "w \<longrightarrow> dat1 = ov_content o1 @ buf" by blast
    obtain s cs2 where s: "(if w then sys_ok cs1 else (False, cs1)) = (s, cs2)" by force
    have eq: "ov_sync ov = (if \<not> s then (False, truncate_fd (ov_end o1) (o1\<lparr>ov_calls := cs2, ov_disk := Some dat1\<rparr>))
        else (let v = ov_version o1 + 1;
                  ov2 = fold (\<lambda>(b, off). put_index (b, (v, off))) places (o1\<lparr>ov_calls := cs2, ov_disk := Some dat1\<rparr>);
                  ov3 = (if ov_meta_size ov2 = 0 then ov2\<lparr>ov_meta_size := ov_base_size ov2\<rparr> else ov2)
              in (True, maybeCompact (ov3\<lparr>ov_end := ov_end ov3 + length buf, ov_version := v, ov_dirty := []\<rparr>))))"
      using ne c True by (simp add: ov_sync_def sb w s split: bool.splits)
    show ?thesis
    proof (cases s)
      case False
      then have "\<not> ok" "ov' = truncate_fd (ov_end o1) (o1\<lparr>ov_calls := cs2, ov_disk := Some (ov_content o1 @ take n buf)\<rparr>)"
        using eq sync n by simp_all
      with v f du1 c cop op show ?thesis unfolding buf_def by (intro exI [of _ o1]) auto
    next
      case sT: True
      then have dat1: "dat1 = ov_content o1 @ buf" using s n(2) by (auto split: if_splits)
      have pl: "map (\<lambda>(b, off). (b, (ov_version o1 + 1, off))) places
          = rec_pending (sync_records o1) (length (ov_content o1))"
        using sync_buffer_batch [of o1] en by (simp add: places_def)
      have bf: "buf = batch_bytes (sync_records o1) (ov_version o1 + 1) (ov_reset o1)"
        using sync_buffer_batch [of o1] by (simp add: buf_def)
      obtain d where fp: "fold (\<lambda>(b, off). put_index (b, (ov_version o1 + 1, off))) places
          (o1\<lparr>ov_calls := cs2, ov_disk := Some dat1\<rparr>)
          = o1\<lparr>ov_calls := cs2, ov_disk := Some dat1, ov_dead := d,
              ov_index := put_all (rec_pending (sync_records o1) (length (ov_content o1))) (ov_index o1)\<rparr>"
        using fold_put_index [of _ "o1\<lparr>ov_calls := cs2, ov_disk := Some dat1\<rparr>"]
        unfolding fold_places pl by fastforce
      have ns: "\<not> \<not> s" using sT by simp
      have "ov_sync ov = (True, maybeCompact ((committed (ov_content o1) o1)\<lparr>ov_calls := cs2, ov_dead := d\<rparr>))"
        unfolding eq Let_def fp if_not_P [OF ns]
        by (intro arg_cong [of _ _ "\<lambda>x. (True, maybeCompact x)"] overlay.equality)
           (simp_all add: committed_def dat1 bf en ov_size_def)
      then have ok: ok and ov': "ov' = maybeCompact ((committed (ov_content o1) o1)\<lparr>ov_calls := cs2, ov_dead := d\<rparr>)"
        using sync by simp_all
      with v f du1 c cop op show ?thesis by (intro exI [of _ o1]) auto
    qed
  qed
qed

text \<open>The counter of superseded blocks and the kernel's answers are not part of the view.\<close>

lemma ov_dead_irrelevant:
  "ov_content (ov\<lparr>ov_calls := cs, ov_dead := d\<rparr>) = ov_content ov"
  "ov_block (ov\<lparr>ov_calls := cs, ov_dead := d\<rparr>) = ov_block ov"
  "ov_wf (ov\<lparr>ov_calls := cs, ov_dead := d\<rparr>) = ov_wf ov"
  "ov_size (ov\<lparr>ov_calls := cs, ov_dead := d\<rparr>) = ov_size ov"
  "meta_fits (ov\<lparr>ov_calls := cs, ov_dead := d\<rparr>) = meta_fits ov"
  "same_commit o1 (ov\<lparr>ov_calls := cs, ov_dead := d\<rparr>) = same_commit o1 ov"
  by (auto simp: ov_content_def ov_block_def ov_wf_def ov_size_def meta_fits_def fun_eq_iff
      img_byte_def same_commit_def split: option.splits)

lemma durable_dead: "durable (ov\<lparr>ov_calls := cs, ov_dead := d\<rparr>) = durable ov"
  by (auto simp: durable_def loads_to_def blank_like_def ov_dead_irrelevant)

lemma durable_dirty: "durable (ov\<lparr>ov_calls := cs, ov_dirty := d\<rparr>) = durable ov"
proof -
  have "same_commit x (ov\<lparr>ov_calls := cs, ov_dirty := d\<rparr>) = same_commit x ov"
    "blank_like x (ov\<lparr>ov_calls := cs, ov_dirty := d\<rparr>) = blank_like x ov" for x
    by (simp_all add: same_commit_def blank_like_def ov_size_def)
  then show ?thesis by (auto simp: durable_def loads_to_def blank_like_def)
qed

lemma durable_calls: "durable (ov\<lparr>ov_calls := cs\<rparr>) = durable ov"
  using durable_dead [where ov = ov and cs = cs and d = "ov_dead ov"] by simp

lemma compacted_fields:
  "ov_dirty (compacted ov) = ov_dirty ov" "ov_version (compacted ov) = ov_version ov"
  "ov_size (compacted ov) = ov_size ov" "ov_base (compacted ov) = ov_base ov"
  "ov_base_size (compacted ov) = ov_base_size ov" "ov_open (compacted ov) = ov_open ov"
  by (simp_all add: compacted_def Let_def ov_size_def)

lemma ov_block_calls: "ov_block (ov\<lparr>ov_calls := cs\<rparr>) = ov_block ov"
  by (rule ext) simp

lemma maybeCompact_keeps:
  assumes "ov_wf ov" and "durable ov" and "meta_fits ov"
  shows "ov_wf (maybeCompact ov) \<and> durable (maybeCompact ov) \<and> ov_block (maybeCompact ov) = ov_block ov
    \<and> ov_dirty (maybeCompact ov) = ov_dirty ov \<and> ov_version (maybeCompact ov) = ov_version ov
    \<and> ov_size (maybeCompact ov) = ov_size ov \<and> ov_base (maybeCompact ov) = ov_base ov
    \<and> ov_base_size (maybeCompact ov) = ov_base_size ov \<and> ov_open (maybeCompact ov) = ov_open ov"
proof -
  from maybeCompact_cases [OF assms(1)] obtain cs where
    "maybeCompact ov = ov\<lparr>ov_calls := cs\<rparr>
      \<or> maybeCompact ov = (compacted ov)\<lparr>ov_calls := cs\<rparr> \<and> ov_open ov" by blast
  then show ?thesis
  proof
    assume "maybeCompact ov = ov\<lparr>ov_calls := cs\<rparr>"
    with assms show ?thesis by (simp add: durable_calls ov_block_calls)
  next
    assume c: "maybeCompact ov = (compacted ov)\<lparr>ov_calls := cs\<rparr> \<and> ov_open ov"
    have "ov_disk (compacted ov) = Some (ov_content (compacted ov))"
      "ov_end (compacted ov) = length (ov_content (compacted ov))"
      "take 8 (ov_content (compacted ov)) = file_header"
      by (simp_all add: compacted_def Let_def ov_content_def)
    then have "durable (compacted ov)"
      using c compacted_loads [OF assms(1,3)] by (simp add: durable_def compacted_fields)
    moreover have "ov_block (compacted ov) = ov_block ov" by (rule ext) (rule compacted_block [OF assms(1)])
    ultimately show ?thesis
      using c compacted_wf [OF assms(1)] by (simp add: durable_calls ov_block_calls compacted_fields)
  qed
qed

lemma committed_durable:
  assumes "ov_wf ov" and "durable ov" and "ov_open ov" and "meta_fits ov"
  shows "durable (committed (ov_content ov) ov)"
proof -
  from assms(2,3) obtain dat where dat: "ov_disk ov = Some dat" "ov_end ov = length dat"
    "take 8 dat = file_header" "loads_to dat ov" by (auto simp: durable_def)
  then have c: "ov_content ov = dat" by (simp add: ov_content_def)
  have "length (take 8 dat) = 8" using dat(3) by simp
  then have len: "8 \<le> length dat" by simp
  from committed_loads [OF assms(1,4) dat(4) len dat(2)] show ?thesis
    using dat len assms(3) unfolding c by (simp add: durable_def committed_def)
qed

lemma ov_sync_True:
  assumes "ov_wf ov" and "durable ov" and "meta_fits ov" and "ov_sync ov = (True, ov')"
  shows "ov_wf ov' \<and> durable ov' \<and> ov_block ov' = ov_block ov \<and> ov_size ov' = ov_size ov
    \<and> ov_dirty ov' = [] \<and> ov_base ov' = ov_base ov \<and> ov_base_size ov' = ov_base_size ov
    \<and> (ov_dirty ov \<noteq> [] \<longrightarrow> ov_open ov' \<and> ov_version ov' = ov_version ov + 1)"
proof (cases "ov_dirty ov = []")
  case True
  with assms show ?thesis by (simp add: ov_sync_def)
next
  case False
  from ov_sync_outcome [OF assms(1,2) False assms(4)] obtain o1 cs d where
    o1: "ov_wf o1" "durable o1" "ov_block o1 = ov_block ov" "ov_size o1 = ov_size ov"
    "ov_version o1 = ov_version ov" "ov_base_size o1 = ov_base_size ov" "ov_base o1 = ov_base ov"
    "meta_fits o1 = meta_fits ov" "ov_open o1"
    and ov': "ov' = maybeCompact ((committed (ov_content o1) o1)\<lparr>ov_calls := cs, ov_dead := d\<rparr>)" by auto
  let ?c = "committed (ov_content o1) o1"
  have b: "ov_block ?c = ov_block o1" by (rule ext) (rule committed_block [OF o1(1) refl])
  have f: "ov_dirty ?c = []" "ov_version ?c = ov_version o1 + 1" "ov_base ?c = ov_base o1"
    "ov_base_size ?c = ov_base_size o1" "ov_open ?c = ov_open o1"
    by (simp_all add: committed_def)
  have mf: "meta_fits ?c" using o1(8) assms(3) committed_size [of "ov_content o1" o1]
    by (simp add: meta_fits_def) (simp add: committed_def)
  have "ov_wf ((?c)\<lparr>ov_calls := cs, ov_dead := d\<rparr>)" "durable ((?c)\<lparr>ov_calls := cs, ov_dead := d\<rparr>)"
    "meta_fits ((?c)\<lparr>ov_calls := cs, ov_dead := d\<rparr>)"
    using committed_wf [OF o1(1) refl] committed_durable [OF o1(1,2,9)] mf o1(8) assms(3)
    by (simp_all add: ov_dead_irrelevant durable_dead)
  from maybeCompact_keeps [OF this] show ?thesis
    unfolding ov' using o1 b f by (simp add: ov_dead_irrelevant committed_size)
qed

lemma truncate_fd_content:
  assumes "ov_disk ov = Some (dat @ junk)" and "n = length dat"
  shows "\<exists>cs d. truncate_fd n ov = ov\<lparr>ov_calls := cs, ov_disk := Some d\<rparr> \<and> (d = dat \<or> d = dat @ junk)"
  using assms by (cases "sys_ok (ov_calls ov)") (auto simp: truncate_fd_def)

text \<open>A failed sync loses nothing: the changes are still in memory, over the same blocks.\<close>

lemma ov_sync_False:
  assumes "ov_wf ov" and "durable ov" and "ov_sync ov = (False, ov')"
  shows "ov_wf ov' \<and> ov_block ov' = ov_block ov \<and> ov_size ov' = ov_size ov \<and> ov_dirty ov' = ov_dirty ov
    \<and> ov_version ov' = ov_version ov \<and> ov_base ov' = ov_base ov \<and> ov_base_size ov' = ov_base_size ov
    \<and> (ov_disk ov' \<noteq> None \<longrightarrow> (\<exists>dat n o1. ov_disk ov' = Some (dat @ take n (fst (sync_buffer o1)))
         \<and> ov_open o1 \<and> ov_wf o1 \<and> durable o1 \<and> ov_disk o1 = Some dat \<and> ov_block o1 = ov_block ov))"
proof -
  have ne: "ov_dirty ov \<noteq> []" using assms(3) by (auto simp: ov_sync_def)
  from ov_sync_outcome [OF assms(1,2) ne assms(3)] obtain o1 where
    o1: "ov_wf o1" "durable o1" "ov_block o1 = ov_block ov" "ov_size o1 = ov_size ov"
    "ov_dirty o1 = ov_dirty ov" "ov_version o1 = ov_version ov" "ov_base_size o1 = ov_base_size ov"
    "ov_base o1 = ov_base ov" "ov_index o1 = ov_index ov"
    and r: "ov' = o1 \<or> (\<exists>cs n. ov' = truncate_fd (ov_end o1) (o1\<lparr>ov_calls := cs,
              ov_disk := Some (ov_content o1 @ take n (fst (sync_buffer o1)))\<rparr>)) \<and> ov_open o1" by auto
  have dk: "ov_disk o1 = Some (ov_content o1) \<and> ov_end o1 = length (ov_content o1)" if "ov_open o1"
    using o1(2) that by (auto simp: durable_def ov_content_def)
  have dn: "ov_open o1" if "ov_disk o1 \<noteq> None" using o1(2) that by (auto simp: durable_def split: if_splits)
  from r show ?thesis
  proof
    assume e: "ov' = o1"
    have "ov_disk o1 = Some (ov_content o1 @ take 0 (fst (sync_buffer o1)))" if "ov_disk o1 \<noteq> None"
      using dn dk that by simp
    with e o1 dn dk show ?thesis by metis
  next
    assume "(\<exists>cs n. ov' = truncate_fd (ov_end o1) (o1\<lparr>ov_calls := cs,
              ov_disk := Some (ov_content o1 @ take n (fst (sync_buffer o1)))\<rparr>)) \<and> ov_open o1"
    then obtain cs n where op: "ov_open o1" and e: "ov' = truncate_fd (ov_end o1) (o1\<lparr>ov_calls := cs,
        ov_disk := Some (ov_content o1 @ take n (fst (sync_buffer o1)))\<rparr>)" by blast
    let ?B = "fst (sync_buffer o1)"
    obtain cs' d where t: "ov' = o1\<lparr>ov_calls := cs', ov_disk := Some d\<rparr>"
      "d = ov_content o1 \<or> d = ov_content o1 @ take n ?B"
      using truncate_fd_content [of "o1\<lparr>ov_calls := cs, ov_disk := Some (ov_content o1 @ take n ?B)\<rparr>"
          "ov_content o1" "take n ?B" "ov_end o1"] dk [OF op] unfolding e by auto
    then obtain k where k: "d = ov_content o1 @ take k ?B" by (metis append_Nil2 take_0)
    have "ov_content ov' = ov_content o1 @ take k ?B" by (simp add: t(1) k ov_content_def)
    from more_content_view [OF o1(1) this] t(1) have "ov_wf ov' \<and> ov_block ov' = ov_block o1" by simp
    moreover have "ov_disk ov' = Some (ov_content o1 @ take k ?B)" by (simp add: t(1) k)
    ultimately show ?thesis
      using o1 op dk [OF op] t(1) by (auto simp: ov_size_def)
  qed
qed

section \<open>Opening the file again\<close>

lemma header_ok: "take 4 file_header = MAGIC" "get32 file_header 4 = FORMAT" "length MAGIC = 4"
proof -
  show l: "length MAGIC = 4" by (simp add: MAGIC_def ascii_def)
  then show "take 4 file_header = MAGIC" by (simp add: file_header_def)
  have "get32 (MAGIC @ put32 FORMAT) 4 = get32 (put32 FORMAT @ []) 0" using l by (simp add: get32_def nth_append numeral_2_eq_2)
  then show "get32 file_header 4 = FORMAT" by (simp add: file_header_def get32_put32 del: append_Nil2)
qed

text \<open>Loading a committed file with anything uncommitted behind it.\<close>

lemma load_committed:
  assumes dat: "take 8 dat = file_header" "loads_to dat o1"
    and junk: "\<And>o'. replay (dat @ junk) (length dat) (length dat) [] None o' = (length dat, o')"
    and o0: "ov_disk ov0 = Some (dat @ junk)" "blank_like ov0 o1"
    and calls: "ov_calls ov0 = Transfer j # cs" "reliable (8 + length (dat @ junk)) cs"
  shows "\<exists>o2. load ov0 = Some o2 \<and> same_commit o2 o1 \<and> ov_end o2 = length dat \<and> ov_open o2
    \<and> ov_dirty o2 = ov_dirty ov0 \<and> ov_base o2 = ov_base ov0 \<and> ov_base_size o2 = ov_base_size ov0
    \<and> (ov_disk o2 = Some dat \<or> ov_disk o2 = Some (dat @ junk))"
proof -
  have len: "8 \<le> length dat" using dat(1) by (metis length_file_header length_take min.cobounded1)
  have hd: "slice 0 8 (dat @ junk) = file_header" using dat(1) len by (simp add: slice_def)
  have "0 + 8 \<le> length (dat @ junk)" using len by simp
  from read_all_reliable [OF calls(2) this] obtain cs1 where
    r: "read_all cs (dat @ junk) 8 0 = (Some file_header, cs1)" and rel: "reliable (length (dat @ junk)) cs1"
    by (auto simp: hd)
  define oi where "oi = ov0\<lparr>ov_calls := cs1, ov_open := True\<rparr>"
  have bl: "blank_like oi o1" using o0(2) by (simp add: blank_like_def oi_def)
  then have r1: "replay dat 8 8 [] None oi = (length dat, snd (replay dat 8 8 [] None oi))"
    and sc: "same_commit (snd (replay dat 8 8 [] None oi)) o1"
    using dat(2) by (simp_all add: loads_to_def prod_eq_iff)
  define oe where "oe = snd (replay dat 8 8 [] None oi)"
  have rp: "replay (dat @ junk) 8 8 [] None oi = (length dat, oe)"
    using replay_extend [OF r1 _ len, of junk] junk by (simp add: oe_def)
  have "reliable (length (dat @ junk) - 8 + 0) (ov_calls oi)" 
    using reliable_mono [OF rel, of "length (dat @ junk) - 8"] by (simp add: oi_def)
  from load_loop_replay [OF this, of 8 "[]" None] obtain cs2 where
    ll: "load_loop (dat @ junk) 8 8 [] None oi = (length dat, oe\<lparr>ov_calls := cs2\<rparr>)" unfolding rp by auto
  have keep: "ov_disk oe = ov_disk oi \<and> ov_open oe = ov_open oi \<and> ov_dirty oe = ov_dirty oi
      \<and> ov_base oe = ov_base oi \<and> ov_base_size oe = ov_base_size oi"
    unfolding oe_def by (rule replay_keeps)
  let ?o3 = "(if length dat < length (dat @ junk) then truncate_fd (length dat) (oe\<lparr>ov_calls := cs2\<rparr>)
      else oe\<lparr>ov_calls := cs2\<rparr>)\<lparr>ov_end := length dat\<rparr>"
  have ld: "load ov0 = Some ?o3"
    using o0(1) calls(1) r ll by (simp add: load_def header_ok oi_def)
  obtain cs3 d where o3: "?o3 = oe\<lparr>ov_calls := cs3, ov_disk := Some d, ov_end := length dat\<rparr>"
    and d: "d = dat \<or> d = dat @ junk"
  proof (cases "junk = []")
    case True
    then have "?o3 = oe\<lparr>ov_calls := cs2, ov_disk := Some dat, ov_end := length dat\<rparr>"
      using keep o0(1) by (intro overlay.equality) (simp_all add: oi_def)
    then show ?thesis using that by blast
  next
    case False
    have "ov_disk (oe\<lparr>ov_calls := cs2\<rparr>) = Some (dat @ junk)" using keep o0(1) by (simp add: oi_def)
    from truncate_fd_content [OF this refl] False that show ?thesis by auto
  qed
  have "same_commit (oe\<lparr>ov_calls := cs3, ov_disk := Some d, ov_end := length dat\<rparr>) o1"
    using sc unfolding oe_def [symmetric] by (auto simp: same_commit_def ov_size_def split: if_splits)
  then show ?thesis using ld keep d unfolding o3 by (auto simp: oi_def)
qed

text \<open>The blocks a commit names, under the same image, are the same view.\<close>

lemma same_commit_block:
  assumes "same_commit o2 o1" and "ov_wf o1" and "ov_dirty o2 = []"
    and "ov_content o2 = ov_content o1 @ suf"
    and "ov_base o2 = ov_base o1" "ov_base_size o2 = ov_base_size o1"
  shows "ov_block o2 = ov_block (o1\<lparr>ov_dirty := []\<rparr>)"
proof -
  have "ov_wf (o1\<lparr>ov_dirty := []\<rparr>)"
    using assms(2) by (auto simp: ov_wf_def ov_content_def smap_ok_def)
  moreover have "ov_content o2 = ov_content (o1\<lparr>ov_dirty := []\<rparr>) @ suf"
    using assms(4) by (simp add: ov_content_def)
  ultimately show ?thesis
    using more_content_view [of "o1\<lparr>ov_dirty := []\<rparr>" o2 suf] assms by (simp add: same_commit_def)
qed

section \<open>Properties of the overlay\<close>

lemma ov_byte_cong: "ov_block o1 = ov_block o2 \<Longrightarrow> ov_byte o1 = ov_byte o2"
  by (simp add: ov_byte_def fun_eq_iff)

text \<open>
  C9: \<open>pread\<close> returns the bytes of the guest's disk, clipped at its end, assembled from
  memory, overlay file and image, however the kernel cuts its reads up.
\<close>

theorem overlay_read:
  assumes "ov_wf ov" and "ov_size ov \<le> MAX_DISK" and "reliable (BLOCK * n) (ov_calls ov)"
  shows "fst (ov_pread n offset ov) = Some (map (ov_byte ov) [offset..<min (offset + n) (ov_size ov)])"
proof (cases "ov_size ov \<le> offset")
  case True
  then show ?thesis by (simp add: ov_pread_def)
next
  case False
  let ?n = "min n (ov_size ov - offset)"
  have m: "offset + ?n \<le> MAX_DISK" "offset + ?n = min (offset + n) (ov_size ov)" using assms(2) False by auto
  have "reliable (BLOCK * (?n - 0) + 0) (ov_calls ov)" by (rule reliable_mono [OF assms(3)]) simp
  from pread_loop_reliable [OF assms(1) m(1) this] obtain bs cs where
    "pread_loop ?n offset 0 ov = (Some bs, ov\<lparr>ov_calls := cs\<rparr>)" by blast
  with pread_loop_view [OF assms(1) m(1) this] False m(2) show ?thesis by (simp add: ov_pread_def)
qed

text \<open>
  C8: a write that succeeds changes exactly the bytes written, whatever block boundaries
  it crosses and even when it triggers a sync (and with it a compaction); size and image
  stay.
\<close>

theorem overlay_write:
  assumes "ov_wf ov" and "durable ov" and "meta_fits ov" and "ov_size ov \<le> MAX_DISK"
    and "offset + length buf \<le> MAX_DISK" and "ov_pwrite buf offset ov = (Some k, ov')"
  shows "k = length buf \<and> offset + length buf \<le> ov_size ov \<and> ov_size ov' = ov_size ov \<and> ov_wf ov'
    \<and> (\<forall>j < MAX_DISK. ov_byte ov' j
        = (if offset \<le> j \<and> j < offset + length buf then buf ! (j - offset) else ov_byte ov j))"
proof -
  have "(offset + length buf) mod 2 ^ 64 = offset + length buf" using assms(5) by (simp add: MAX_DISK_def)
  then have fit: "offset + length buf \<le> ov_size ov" using assms(6) by (auto simp: ov_pwrite_def split: if_splits)
  obtain ok o1 where lp: "pwrite_loop buf offset 0 ov = (ok, o1)" by force
  have ok: ok using assms(6) lp by (auto simp: ov_pwrite_def split: if_splits bool.splits prod.splits)
  note v = pwrite_loop_view [OF assms(1,5) _ lp, simplified] ok
  then have o1: "ov_wf o1" "dirtied ov o1" "\<forall>j < MAX_DISK. ov_byte o1 j
        = (if offset \<le> j \<and> j < offset + length buf then buf ! (j - offset) else ov_byte ov j)" by auto
  from o1(2) obtain cs d where d: "o1 = ov\<lparr>ov_calls := cs, ov_dirty := d\<rparr>" unfolding dirtied_def by blast
  have du: "durable o1" using assms(2) by (simp add: d durable_dirty)
  have sz: "ov_size o1 = ov_size ov" by (simp add: d ov_size_def)
  have "meta_fits o1" unfolding meta_fits_def sz using assms(3) by (simp add: d meta_fits_def)
  note f = sz this
  show ?thesis
  proof (cases "MAX_DIRTY \<le> length (ov_dirty o1)")
    case False
    with assms(6) lp ok fit o1 f show ?thesis by (auto simp: ov_pwrite_def split: if_splits)
  next
    case True
    then have s: "ov_sync o1 = (True, ov')" and k: "k = length buf"
      using assms(6) lp ok by (auto simp: ov_pwrite_def split: if_splits prod.splits)
    from ov_sync_True [OF o1(1) du f(2) s] have "ov_wf ov'" "ov_block ov' = ov_block o1" "ov_size ov' = ov_size o1"
      by simp_all
    with o1 f fit k ov_byte_cong show ?thesis by metis
  qed
qed

text \<open>
  C7: \<open>sync\<close> does not change a single byte of what the guest sees, whether it succeeds or
  fails at any point, and compaction is part of it; when it fails the changes are still
  in memory.
\<close>

theorem sync_keeps_view:
  assumes "ov_wf ov" and "durable ov" and "meta_fits ov"
  shows "ov_byte (snd (ov_sync ov)) = ov_byte ov \<and> ov_size (snd (ov_sync ov)) = ov_size ov
    \<and> ov_wf (snd (ov_sync ov))
    \<and> (if fst (ov_sync ov) then ov_dirty (snd (ov_sync ov)) = []
       else ov_dirty (snd (ov_sync ov)) = ov_dirty ov)"
proof (cases "fst (ov_sync ov)")
  case True
  then have "ov_sync ov = (True, snd (ov_sync ov))" by (simp add: prod_eq_iff)
  from ov_sync_True [OF assms this] True ov_byte_cong show ?thesis by metis
next
  case False
  then have "ov_sync ov = (False, snd (ov_sync ov))" by (simp add: prod_eq_iff)
  from ov_sync_False [OF assms(1,2) this] False ov_byte_cong show ?thesis by metis
qed

text \<open>
  C6: durability: after a sync that succeeded, opening the overlay file again over the same
  image yields the new version, the same size and the same bytes as before the sync.
\<close>

theorem sync_is_durable:
  assumes "ov_wf ov" and "durable ov" and "meta_fits ov" and "ov_dirty ov \<noteq> []"
    and "ov_base_size ov = length (ov_base ov)"
    and "ov_sync ov = (True, ov')" and "reliable (8 + length (ov_content ov')) cs"
  shows "\<exists>o2. overlay_open path (Some (ov_base ov)) (ov_disk ov') wr (Transfer 1 # Transfer 1 # Transfer 1 # cs)
      = Some o2 \<and> ov_version o2 = ov_version ov + 1 \<and> ov_size o2 = ov_size ov \<and> ov_byte o2 = ov_byte ov"
proof -
  note s = ov_sync_True [OF assms(1-3,6)]
  then obtain dat where dat: "ov_disk ov' = Some dat" "take 8 dat = file_header" "loads_to dat ov'"
    using assms(4) by (auto simp: durable_def)
  then have c: "ov_content ov' = dat" by (simp add: ov_content_def)
  define o0 where "o0 = \<lparr>ov_calls = Transfer 1 # cs, ov_base = ov_base ov, ov_base_size = length (ov_base ov),
    ov_disk = Some dat, ov_open = False, ov_meta_size = 0, ov_meta_name = base_name path,
    ov_writable = wr, ov_end = 0, ov_version = 0, ov_reset = 0, ov_dead = 0, ov_index = [], ov_dirty = []\<rparr>"
  have "replay (dat @ []) (length dat) (length dat) [] None o' = (length dat, o')" for o'
    by (simp add: replay_stops HEAD_def)
  moreover have "blank_like o0 ov'" using s assms(5) by (simp add: blank_like_def o0_def)
  ultimately obtain o2 where o2: "load o0 = Some o2" "same_commit o2 ov'" "ov_dirty o2 = []"
    "ov_base o2 = ov_base ov" "ov_base_size o2 = ov_base_size ov" "ov_disk o2 = Some dat"
    using load_committed [OF dat(2,3), of "[]" o0 1 cs] assms(5,7) by (auto simp: o0_def c)
  have "ov_block o2 = ov_block (ov'\<lparr>ov_dirty := []\<rparr>)"
    using o2 s by (intro same_commit_block [of o2 ov' "[]"]) (simp_all add: ov_content_def c [unfolded ov_content_def])
  also have "ov'\<lparr>ov_dirty := []\<rparr> = ov'" using s by simp
  finally have "ov_byte o2 = ov_byte ov" using s by (intro ov_byte_cong) simp
  then show ?thesis
    using o2 s assms(4) dat(1) by (simp add: overlay_open_def o0_def same_commit_def)
qed


section \<open>Concrete overlays\<close>

definition ov_ex :: overlay where
  "ov_ex = \<lparr>ov_calls = [Transfer 1, Transfer 8, Transfer 100000, Transfer 1], ov_base = [1, 2, 3],
     ov_base_size = 3, ov_disk = None, ov_open = False, ov_meta_size = 0, ov_meta_name = [120],
     ov_writable = True, ov_end = 0, ov_version = 0, ov_reset = 0, ov_dead = 0, ov_index = [],
     ov_dirty = [(0, replicate BLOCK 7)]\<rparr>"

definition ov_ex_read :: overlay where
  "ov_ex_read = ov_ex\<lparr>ov_calls := replicate (BLOCK * 5) (Transfer 1)\<rparr>"

definition ov_ex_open :: overlay where
  "ov_ex_open = ov_ex\<lparr>ov_disk := Some file_header, ov_open := True, ov_end := 8\<rparr>"

lemma ov_ex_size: "ov_size ov_ex = 3" "ov_size ov_ex_read = 3" "ov_size ov_ex_open = 3"
  by (simp_all add: ov_size_def ov_ex_def ov_ex_read_def ov_ex_open_def)

lemma ov_ex_meta: "length (meta_json [120] 3) \<le> 65536"
  by (simp add: meta_json_def ascii_def dec.simps)

lemma ov_ex_ok: "ov_wf ov_ex" "durable ov_ex" "meta_fits ov_ex"
  using ov_ex_meta ov_ex_size
  by (simp_all add: ov_wf_def smap_ok_def durable_def blank_like_def meta_fits_def ov_ex_def)

lemma ov_ex_read_ok: "ov_wf ov_ex_read"
  using ov_ex_ok(1) by (simp add: ov_ex_read_def)


theorem overlay_read_witness: "fst (ov_pread 5 1 ov_ex_read) = Some [7, 7]"
proof -
  have "reliable (BLOCK * 5) (ov_calls ov_ex_read)"
    by (simp add: ov_ex_read_def reliable_def list_all_iff)
  from overlay_read [OF ov_ex_read_ok _ this, of 1] have
    "fst (ov_pread 5 1 ov_ex_read) = Some (map (ov_byte ov_ex_read) [1..<3])"
    by (simp add: ov_ex_size MAX_DISK_def)
  moreover have "ov_byte ov_ex_read i = 7" if "i < 3" for i
  proof -
    have "i div BLOCK = 0" "i mod BLOCK = i" "i < BLOCK" using that by (simp_all add: BLOCK_def)
    then show ?thesis by (simp add: ov_byte_def ov_block_def ov_ex_read_def ov_ex_def)
  qed
  ultimately show ?thesis by (simp add: upt_rec)
qed

theorem overlay_write_witness:
  "fst (ov_pwrite [9] 1 ov_ex) = Some 1 \<and> ov_byte (snd (ov_pwrite [9] 1 ov_ex)) 1 = 9"
proof -
  have b: "Suc 0 div BLOCK = 0" "Suc 0 mod BLOCK = 1" "min (BLOCK - Suc 0) (Suc 0) = 1" by (simp_all add: BLOCK_def)
  have "fst (ov_pwrite [9] 1 ov_ex) = Some 1"
    using b ov_ex_size
    by (simp add: ov_pwrite_def pwrite_loop.simps ov_ex_def Let_def MAX_DIRTY_def)
  then have "ov_pwrite [9] 1 ov_ex = (Some 1, snd (ov_pwrite [9] 1 ov_ex))" by (metis prod.collapse)
  from overlay_write [OF ov_ex_ok _ _ this] show ?thesis
    using \<open>fst (ov_pwrite [9] 1 ov_ex) = Some 1\<close> by (simp add: ov_ex_size MAX_DISK_def)
qed

theorem sync_keeps_view_witness: "ov_size (snd (ov_sync ov_ex)) = 3"
  using sync_keeps_view [OF ov_ex_ok] by (simp add: ov_ex_size)

lemma write_all_once:
  "0 < k \<Longrightarrow> length bs \<le> k \<Longrightarrow>
     write_all (Transfer k # cs) dat pos bs = (True, if bs = [] then Transfer k # cs else cs, file_put dat pos bs)
     \<or> bs = []"
  by (cases bs) auto

lemma ov_ex_sync: "fst (ov_sync ov_ex)"
proof -
  let ?h = "MAGIC @ put32 FORMAT"
  have h: "length ?h = 8" using length_file_header by (simp add: file_header_def)
  then have "?h \<noteq> []" by auto
  then have w1: "write_all [Transfer 8, Transfer 100000, Transfer 1] [] 0 ?h
      = (True, [Transfer 100000, Transfer 1], file_put [] 0 ?h)"
    using write_all_once [of 8 ?h "[Transfer 100000, Transfer 1]" "[]" 0] h by auto
  define o1 where "o1 = ov_ex\<lparr>ov_calls := [Transfer 100000, Transfer 1],
      ov_disk := Some (file_put [] 0 ?h), ov_open := True, ov_end := 8\<rparr>"
  have c: "ov_create ov_ex = (True, o1)"
    using w1 h by (simp add: ov_create_def o1_def) (simp add: ov_ex_def)
  define buf where "buf = fst (sync_buffer o1)"
  have sz: "ov_size o1 = 3" by (simp add: ov_size_def o1_def ov_ex_def)
  have "length (meta_json (ov_meta_name o1) (ov_size o1)) \<le> 65536"
    using ov_ex_meta sz by (simp add: o1_def ov_ex_def)
  then have len: "length buf \<le> 100000" "buf \<noteq> []"
    using sync_buffer_batch [of o1]
    by (auto simp: buf_def batch_bytes_def sync_records_def HEAD_def BLOCK_def put_head_def put32_def
        o1_def ov_ex_def)
  then have "write_all [Transfer 100000, Transfer 1] (ov_content o1) 8 buf
      = (True, [Transfer 1], file_put (ov_content o1) 8 buf)"
    using write_all_once [of 100000 buf "[Transfer 1]" "ov_content o1" 8] by auto
  then show ?thesis
    using c by (simp add: ov_sync_def split_beta buf_def) (simp add: o1_def ov_ex_def Let_def split_beta)
qed

theorem sync_is_durable_witness:
  "\<exists>o2. overlay_open [] (Some [1, 2, 3]) (ov_disk (snd (ov_sync ov_ex))) True (Transfer 1 # Transfer 1 #
       Transfer 1 # replicate (8 + length (ov_content (snd (ov_sync ov_ex)))) (Transfer 4))
     = Some o2 \<and> ov_version o2 = 1 \<and> ov_size o2 = 3"
proof -
  have s: "ov_sync ov_ex = (True, snd (ov_sync ov_ex))" using ov_ex_sync by (simp add: prod_eq_iff)
  have d: "ov_dirty ov_ex \<noteq> []" "ov_base_size ov_ex = length (ov_base ov_ex)" "ov_base ov_ex = [1, 2, 3]"
    "ov_version ov_ex = 0" by (simp_all add: ov_ex_def)
  have "reliable n (replicate n (Transfer 4))" for n by (simp add: reliable_def list_all_iff)
  from sync_is_durable [OF ov_ex_ok d(1,2) s this, of "[]" True] d(3,4) show ?thesis
    by (auto simp: ov_ex_size)
qed


end
