(* ===== verification/Mac_Memory.thy ===== *)
theory Mac_Memory
  imports Phoenix_Prelude
begin

text \<open>
  The Mac's memory as the drivers see it through \<open>ReadMacInt32\<close> and its relatives
  (\<^verbatim>\<open>src/common/include/cpu_emulation.h\<close>): bytes at 32-bit addresses, numbers big-endian.
  A read returns a 32-bit number whatever its width, as in the code.

  The locale \<open>byte_memory\<close> states what a byte-addressed memory promises; its lemmas are
  about the wide accesses. It is interpreted here on the drivers' flat memory and in
  \<open>Guest_Memory\<close> on the page table behind the CPU cores.
\<close>

section \<open>The interface\<close>

definition load16 :: "('m \<Rightarrow> u32 \<Rightarrow> u8) \<Rightarrow> 'm \<Rightarrow> u32 \<Rightarrow> u16" where
  "load16 rd m a = be16 (rd m a) (rd m (a + 1))"

definition store16 :: "('m \<Rightarrow> u32 \<Rightarrow> u8 \<Rightarrow> 'm) \<Rightarrow> 'm \<Rightarrow> u32 \<Rightarrow> u16 \<Rightarrow> 'm" where
  "store16 wr m a v = wr (wr m a (hi16 v)) (a + 1) (lo16 v)"

definition load32 :: "('m \<Rightarrow> u32 \<Rightarrow> u8) \<Rightarrow> 'm \<Rightarrow> u32 \<Rightarrow> u32" where
  "load32 rd m a = be32 (rd m a) (rd m (a + 1)) (rd m (a + 2)) (rd m (a + 3))"

definition store32 :: "('m \<Rightarrow> u32 \<Rightarrow> u8 \<Rightarrow> 'm) \<Rightarrow> 'm \<Rightarrow> u32 \<Rightarrow> u32 \<Rightarrow> 'm" where
  "store32 wr m a v =
     wr (wr (wr (wr m a (byte32 v 3)) (a + 1) (byte32 v 2)) (a + 2) (byte32 v 1)) (a + 3) (byte32 v 0)"

locale byte_memory =
  fixes rd :: "'m \<Rightarrow> u32 \<Rightarrow> u8"
    and wr :: "'m \<Rightarrow> u32 \<Rightarrow> u8 \<Rightarrow> 'm"
    and usable :: "'m \<Rightarrow> u32 \<Rightarrow> bool"
    and same :: "'m \<Rightarrow> u32 \<Rightarrow> u32 \<Rightarrow> bool"
  assumes rd_wr: "usable m a \<Longrightarrow> usable m b \<Longrightarrow> rd (wr m a v) b = (if same m a b then v else rd m b)"
    and usable_wr: "usable m a \<Longrightarrow> usable (wr m a v) b = usable m b"
    and same_wr: "usable m a \<Longrightarrow> same (wr m a v) b c = same m b c"
    and same_refl: "same m a a"
begin

lemma load16_store16:
  assumes "usable m a" "usable m (a + 1)" and "\<not> same m (a + 1) a"
  shows "load16 rd (store16 wr m a v) a = v"
  using assms by (simp add: load16_def store16_def rd_wr usable_wr same_wr same_refl)

lemma load32_store32:
  assumes "usable m a" "usable m (a + 1)" "usable m (a + 2)" "usable m (a + 3)"
    and "\<not> same m (a + 1) a" "\<not> same m (a + 2) a" "\<not> same m (a + 3) a"
      "\<not> same m (a + 2) (a + 1)" "\<not> same m (a + 3) (a + 1)" "\<not> same m (a + 3) (a + 2)"
  shows "load32 rd (store32 wr m a v) a = v"
  using assms by (simp add: load32_def store32_def rd_wr usable_wr same_wr same_refl)

lemma store16_frame:
  assumes "usable m a" "usable m (a + 1)" "usable m b" and "\<not> same m a b" "\<not> same m (a + 1) b"
  shows "rd (store16 wr m a v) b = rd m b"
  using assms by (simp add: store16_def rd_wr usable_wr same_wr)

lemma store32_frame:
  assumes "usable m a" "usable m (a + 1)" "usable m (a + 2)" "usable m (a + 3)" "usable m b"
    and "\<not> same m a b" "\<not> same m (a + 1) b" "\<not> same m (a + 2) b" "\<not> same m (a + 3) b"
  shows "rd (store32 wr m a v) b = rd m b"
  using assms by (simp add: store32_def rd_wr usable_wr same_wr)

end

section \<open>Flat memory\<close>

type_synonym mac_mem = "u32 \<Rightarrow> u8"

definition peek :: "mac_mem \<Rightarrow> u32 \<Rightarrow> u8" where
  "peek m a = m a"

definition poke :: "mac_mem \<Rightarrow> u32 \<Rightarrow> u8 \<Rightarrow> mac_mem" where
  "poke m a v = m(a := v)"

definition ReadMacInt8 :: "mac_mem \<Rightarrow> u32 \<Rightarrow> u32" where
  "ReadMacInt8 m a = ucast (peek m a)"

definition ReadMacInt16 :: "mac_mem \<Rightarrow> u32 \<Rightarrow> u32" where
  "ReadMacInt16 m a = ucast (load16 peek m a)"

definition ReadMacInt32 :: "mac_mem \<Rightarrow> u32 \<Rightarrow> u32" where
  "ReadMacInt32 m a = load32 peek m a"

definition WriteMacInt8 :: "u32 \<Rightarrow> u32 \<Rightarrow> mac_mem \<Rightarrow> mac_mem" where
  "WriteMacInt8 a v m = poke m a (ucast v)"

definition WriteMacInt16 :: "u32 \<Rightarrow> u32 \<Rightarrow> mac_mem \<Rightarrow> mac_mem" where
  "WriteMacInt16 a v m = store16 poke m a (ucast v)"

definition WriteMacInt32 :: "u32 \<Rightarrow> u32 \<Rightarrow> mac_mem \<Rightarrow> mac_mem" where
  "WriteMacInt32 a v m = store32 poke m a v"

fun mac_read :: "mac_mem \<Rightarrow> u32 \<Rightarrow> nat \<Rightarrow> bytes" where
  "mac_read m a 0 = []"
| "mac_read m a (Suc n) = m a # mac_read m (a + 1) n"

fun mac_write :: "u32 \<Rightarrow> bytes \<Rightarrow> mac_mem \<Rightarrow> mac_mem" where
  "mac_write a [] m = m"
| "mac_write a (b # bs) m = mac_write (a + 1) bs (m(a := b))"

definition Mac_memset :: "u32 \<Rightarrow> u8 \<Rightarrow> nat \<Rightarrow> mac_mem \<Rightarrow> mac_mem" where
  "Mac_memset a c n m = mac_write a (replicate n c) m"

definition Mac2Mac_memcpy :: "u32 \<Rightarrow> u32 \<Rightarrow> nat \<Rightarrow> mac_mem \<Rightarrow> mac_mem" where
  "Mac2Mac_memcpy dst src n m = mac_write dst (mac_read m src n) m"

interpretation flat: byte_memory peek poke "\<lambda>_ _. True" "\<lambda>_. (=)"
  by unfold_locales (auto simp: peek_def poke_def)

section \<open>Reading what was written\<close>

lemma ucast_ucast_16: "(ucast (ucast (w :: u16) :: u32) :: u16) = w"
  by (rule bit_word_eqI) (simp add: bit_simps)

lemma Read8_Write8 [mem_simps]: "ReadMacInt8 (WriteMacInt8 a v m) a = ucast (ucast v :: u8)"
  by (simp add: ReadMacInt8_def WriteMacInt8_def peek_def poke_def)

lemma Read16_Write16 [mem_simps]: "ReadMacInt16 (WriteMacInt16 a v m) a = ucast (ucast v :: u16)"
  by (simp add: ReadMacInt16_def WriteMacInt16_def flat.load16_store16)

lemma Read32_Write32 [mem_simps]: "ReadMacInt32 (WriteMacInt32 a v m) a = v"
  by (simp add: ReadMacInt32_def WriteMacInt32_def flat.load32_store32)

text \<open>Byte by byte, for accesses of different widths at nearby addresses.\<close>

lemma peek_poke [mem_simps]: "peek (poke m a v) b = (if a = b then v else peek m b)"
  by (auto simp: peek_def poke_def)

lemmas mac_bytes =
  ReadMacInt8_def ReadMacInt16_def ReadMacInt32_def load16_def load32_def
  WriteMacInt8_def WriteMacInt16_def WriteMacInt32_def store16_def store32_def

lemma length_mac_read [simp]: "length (mac_read m a n) = n"
  by (induction m a n rule: mac_read.induct) auto

lemma mac_read_nth: "i < n \<Longrightarrow> mac_read m a n ! i = m (a + of_nat i)"
  by (induction m a n arbitrary: i rule: mac_read.induct) (auto simp: nth_Cons add.assoc split: nat.splits)

lemma mac_read_cong: "(\<And>i. i < n \<Longrightarrow> m (a + of_nat i) = m' (a + of_nat i)) \<Longrightarrow> mac_read m a n = mac_read m' a n"
  by (rule nth_equalityI) (simp_all add: mac_read_nth)

lemma mac_write_outside:
  "(\<And>i. i < length bs \<Longrightarrow> b \<noteq> a + of_nat i) \<Longrightarrow> mac_write a bs m b = m b"
proof (induction a bs m rule: mac_write.induct)
  case (2 a x bs m)
  have "b \<noteq> a + 1 + of_nat i" if "i < length bs" for i
    using "2.prems" [of "Suc i"] that by (simp add: add.assoc)
  then have "mac_write (a + 1) bs (m(a := x)) b = (m(a := x)) b" by (rule "2.IH")
  then show ?case using "2.prems" [of 0] by simp
qed simp

lemma mac_write_inside:
  "i < length bs \<Longrightarrow> length bs \<le> 2 ^ 32 \<Longrightarrow> mac_write a bs m (a + of_nat i) = bs ! i"
proof (induction a bs m arbitrary: i rule: mac_write.induct)
  case (2 a x bs m)
  show ?case
  proof (cases i)
    case 0
    have "a \<noteq> a + 1 + of_nat j" if "j < length bs" for j
    proof
      assume "a = a + 1 + of_nat j"
      then have "(of_nat (Suc j) :: u32) = 0" by (simp add: add.assoc)
      then have "unat (of_nat (Suc j) :: u32) = 0" by simp
      then show False using that "2.prems"(2) by (simp only: unat_of_nat) simp
    qed
    then have "mac_write (a + 1) bs (m(a := x)) a = (m(a := x)) a" by (intro mac_write_outside) blast
    then show ?thesis by (simp add: 0)
  next
    case (Suc j)
    have "mac_write (a + 1) bs (m(a := x)) (a + 1 + of_nat j) = bs ! j"
      using "2.prems" Suc by (intro "2.IH") simp_all
    then show ?thesis by (simp add: Suc add.assoc)
  qed
qed simp

lemma mac_read_write:
  "length bs \<le> 2 ^ 32 \<Longrightarrow> mac_read (mac_write a bs m) a (length bs) = bs"
  by (rule nth_equalityI) (simp_all add: mac_read_nth mac_write_inside)

section \<open>Accesses at a distance\<close>

text \<open>The \<open>n\<close> bytes at \<open>a\<close> and the \<open>k\<close> bytes at \<open>b\<close> have none in common.\<close>

definition clear_of :: "u32 \<Rightarrow> nat \<Rightarrow> u32 \<Rightarrow> nat \<Rightarrow> bool" where
  "clear_of a n b k \<longleftrightarrow> n \<le> unat (b - a) \<and> k \<le> unat (a - b)"

lemma clear_of_commute: "clear_of a n b k \<Longrightarrow> clear_of b k a n"
  by (simp add: clear_of_def)

lemma clear_of_ne:
  assumes "clear_of a n b k" and "i < n" and "j < k" and "k \<le> 2 ^ 32" and "n \<le> 2 ^ 32"
  shows "b + of_nat j \<noteq> a + of_nat i"
proof
  assume e: "b + of_nat j = a + of_nat i"
  show False
  proof (cases "j \<le> i")
    case True
    have "b - a = of_nat (i - j)" using e True by (simp add: of_nat_diff algebra_simps)
    then have "unat (b - a) = i - j" using assms(2,5) by (simp add: unat_of_nat)
    then show False using assms(1,2) by (simp add: clear_of_def) linarith
  next
    case False
    then have "a - b = of_nat (j - i)" using e by (simp add: of_nat_diff algebra_simps)
    then have "unat (a - b) = j - i" using assms(3,4) by (simp add: unat_of_nat)
    then show False using assms(1,3) by (simp add: clear_of_def) linarith
  qed
qed

text \<open>A memory changes at most in the \<open>n\<close> bytes at \<open>a\<close>.\<close>

definition changes_within :: "u32 \<Rightarrow> nat \<Rightarrow> mac_mem \<Rightarrow> mac_mem \<Rightarrow> bool" where
  "changes_within a n m m' \<longleftrightarrow> n \<le> 2 ^ 32 \<and> (\<forall>b. (\<forall>i < n. b \<noteq> a + of_nat i) \<longrightarrow> m' b = m b)"

lemma write_changes:
  "changes_within a 1 m (WriteMacInt8 a v m)"
  "changes_within a 2 m (WriteMacInt16 a v m)"
  "changes_within a 4 m (WriteMacInt32 a v m)"
proof -
  have lt: "i < (2 :: nat) \<longleftrightarrow> i = 0 \<or> i = 1" "i < (4 :: nat) \<longleftrightarrow> i = 0 \<or> i = 1 \<or> i = 2 \<or> i = 3" for i by auto
  show "changes_within a 1 m (WriteMacInt8 a v m)"
    by (simp add: changes_within_def WriteMacInt8_def poke_def)
  show "changes_within a 2 m (WriteMacInt16 a v m)"
    by (simp add: changes_within_def WriteMacInt16_def store16_def poke_def lt)
  show "changes_within a 4 m (WriteMacInt32 a v m)"
    by (simp add: changes_within_def WriteMacInt32_def store32_def poke_def lt)
qed

lemma mac_write_changes: "length bs \<le> 2 ^ 32 \<Longrightarrow> changes_within a (length bs) m (mac_write a bs m)"
  by (simp add: changes_within_def mac_write_outside)

lemma read_clear:
  assumes "changes_within a n m m'" and "clear_of a n b k"
  shows "k = 1 \<Longrightarrow> ReadMacInt8 m' b = ReadMacInt8 m b"
    and "k = 2 \<Longrightarrow> ReadMacInt16 m' b = ReadMacInt16 m b"
    and "k = 4 \<Longrightarrow> ReadMacInt32 m' b = ReadMacInt32 m b"
    and "k \<le> 2 ^ 32 \<Longrightarrow> mac_read m' b k = mac_read m b k"
proof -
  have e: "m' (b + of_nat j) = m (b + of_nat j)" if "j < k" "k \<le> 2 ^ 32" for j
    using assms(1) clear_of_ne [OF assms(2) _ that] unfolding changes_within_def by blast
  show "ReadMacInt8 m' b = ReadMacInt8 m b" if "k = 1"
    using e [of 0] that by (simp add: ReadMacInt8_def peek_def)
  show "ReadMacInt16 m' b = ReadMacInt16 m b" if "k = 2"
    using e [of 0] e [of 1] that by (simp add: ReadMacInt16_def load16_def peek_def)
  show "ReadMacInt32 m' b = ReadMacInt32 m b" if "k = 4"
    using e [of 0] e [of 1] e [of 2] e [of 3] that by (simp add: ReadMacInt32_def load32_def peek_def)
  show "mac_read m' b k = mac_read m b k" if "k \<le> 2 ^ 32" using e [OF _ that] by (rule mac_read_cong)
qed

lemma read_write_clear [mem_simps]:
  "clear_of a 1 b 1 \<Longrightarrow> ReadMacInt8 (WriteMacInt8 a v m) b = ReadMacInt8 m b"
  "clear_of a 2 b 1 \<Longrightarrow> ReadMacInt8 (WriteMacInt16 a v m) b = ReadMacInt8 m b"
  "clear_of a 4 b 1 \<Longrightarrow> ReadMacInt8 (WriteMacInt32 a v m) b = ReadMacInt8 m b"
  "clear_of a 1 b 2 \<Longrightarrow> ReadMacInt16 (WriteMacInt8 a v m) b = ReadMacInt16 m b"
  "clear_of a 2 b 2 \<Longrightarrow> ReadMacInt16 (WriteMacInt16 a v m) b = ReadMacInt16 m b"
  "clear_of a 4 b 2 \<Longrightarrow> ReadMacInt16 (WriteMacInt32 a v m) b = ReadMacInt16 m b"
  "clear_of a 1 b 4 \<Longrightarrow> ReadMacInt32 (WriteMacInt8 a v m) b = ReadMacInt32 m b"
  "clear_of a 2 b 4 \<Longrightarrow> ReadMacInt32 (WriteMacInt16 a v m) b = ReadMacInt32 m b"
  "clear_of a 4 b 4 \<Longrightarrow> ReadMacInt32 (WriteMacInt32 a v m) b = ReadMacInt32 m b"
  by (rule read_clear [OF write_changes(1)] read_clear [OF write_changes(2)] read_clear [OF write_changes(3)];
      (assumption | rule refl))+

lemma read_mac_write_clear [mem_simps]:
  assumes "length bs \<le> 2 ^ 32"
  shows "clear_of a (length bs) b 1 \<Longrightarrow> ReadMacInt8 (mac_write a bs m) b = ReadMacInt8 m b"
    and "clear_of a (length bs) b 2 \<Longrightarrow> ReadMacInt16 (mac_write a bs m) b = ReadMacInt16 m b"
    and "clear_of a (length bs) b 4 \<Longrightarrow> ReadMacInt32 (mac_write a bs m) b = ReadMacInt32 m b"
  using read_clear(1-3) [OF mac_write_changes [OF assms]] by blast+

lemma mac_read_clear [mem_simps]:
  assumes "k \<le> 2 ^ 32"
  shows "clear_of a 1 b k \<Longrightarrow> mac_read (WriteMacInt8 a v m) b k = mac_read m b k"
    and "clear_of a 2 b k \<Longrightarrow> mac_read (WriteMacInt16 a v m) b k = mac_read m b k"
    and "clear_of a 4 b k \<Longrightarrow> mac_read (WriteMacInt32 a v m) b k = mac_read m b k"
  using read_clear(4) [OF write_changes(1) _ assms] read_clear(4) [OF write_changes(2) _ assms]
    read_clear(4) [OF write_changes(3) _ assms] by blast+

text \<open>Fields of one structure.\<close>

lemma clear_of_offsets [simp]: "clear_of (p + x) n (p + y) k = clear_of x n y k" "clear_of p n (p + y) k = clear_of 0 n y k"
  "clear_of (p + x) n p k = clear_of x n 0 k"
  by (simp_all add: clear_of_def)

lemma clear_of_numerals [simp]:
  "clear_of (numeral x) n (numeral y) k \<longleftrightarrow> n \<le> unat (numeral y - numeral x :: u32) \<and> k \<le> unat (numeral x - numeral y :: u32)"
  "clear_of 0 n (numeral y) k \<longleftrightarrow> n \<le> unat (numeral y :: u32) \<and> k \<le> unat (- numeral y :: u32)"
  "clear_of (numeral x) n 0 k \<longleftrightarrow> n \<le> unat (- numeral x :: u32) \<and> k \<le> unat (numeral x :: u32)"
  by (simp_all add: clear_of_def)

text \<open>Parts of two structures that do not overlap.\<close>

lemma unat_neg_word: "(x :: u32) \<noteq> 0 \<Longrightarrow> unat (- x) = 2 ^ 32 - unat x"
proof -
  assume x: "x \<noteq> 0"
  have "unat (- x + x) = 0" by simp
  then have "(unat (- x) + unat x) mod 2 ^ 32 = 0" by (simp only: unat_word_ariths) simp
  moreover have "0 < unat x" using x by (simp add: unat_gt_0)
  moreover have "unat x < 2 ^ 32" "unat (- x) < 2 ^ 32" using unsigned_less [of x] unsigned_less [of "- x"] by simp_all
  moreover from calculation(1) obtain q where "unat (- x) + unat x = 2 ^ 32 * q" by (auto simp: mod_eq_0_iff_dvd elim!: dvdE)
  ultimately have "0 < 2 ^ 32 * q" "2 ^ 32 * q < 2 ^ 32 * (2 :: nat)" "unat (- x) + unat x = 2 ^ 32 * q" by linarith+
  then have "unat (- x) + unat x = 2 ^ 32" by (cases q) (simp_all split: nat.splits)
  then show ?thesis by simp
qed

lemma clear_of_parts:
  assumes "clear_of a n b k" and "i + n' \<le> n" and "j + k' \<le> k" and "0 < n'" and "0 < k'"
  shows "clear_of (a + of_nat i) n' (b + of_nat j) k'"
proof -
  have step: "n' \<le> unat ((b + of_nat j) - (a + of_nat i))"
    if "clear_of a n b k" "i + n' \<le> n" "j < k" "0 < n'" for a b :: u32 and n k i j n'
  proof -
    let ?x = "b - a"
    have x: "n \<le> unat ?x" "k \<le> unat (- ?x)" using that(1) by (simp_all add: clear_of_def)
    have "?x \<noteq> 0" using x(1) that(2,4) by auto
    then have neg: "unat (- ?x) = 2 ^ 32 - unat ?x" by (rule unat_neg_word)
    then have lt: "unat ?x + j < 2 ^ 32" using x that(3) by linarith
    then have "unat (of_nat j :: u32) = j" by (simp add: unat_of_nat)
    then have xj: "unat (?x + of_nat j) = unat ?x + j" using lt by (simp add: unat_add_lt)
    have "i \<le> unat ?x + j" using x(1) that(2) by linarith
    then have i: "unat (of_nat i :: u32) = i" using lt by (simp add: unat_of_nat)
    have "(of_nat i :: u32) \<le> ?x + of_nat j" unfolding word_le_nat_alt xj i using x(1) that(2) by linarith
    then have "unat (?x + of_nat j - of_nat i) = unat ?x + j - i" by (simp add: unat_sub_le xj i)
    moreover have e: "(b + of_nat j) - (a + of_nat i) = ?x + of_nat j - of_nat i" by (simp add: algebra_simps)
    ultimately show ?thesis using x(1) that(2) unfolding e by linarith
  qed
  show ?thesis
    unfolding clear_of_def
    using step [OF assms(1,2) _ assms(4), of j] step [OF clear_of_commute [OF assms(1)] assms(3) _ assms(5), of i] assms
    by simp
qed

text \<open>The first halfword of a number.\<close>

lemma Read16_high: "ReadMacInt16 m a = drop_bit 16 (ReadMacInt32 m a)"
  unfolding ReadMacInt16_def ReadMacInt32_def load16_def load32_def be16_def be32_def
  by (rule bit_word_eqI) (auto simp: bit_simps dest: bit_imp_le_length)

end
