(* ===== verification/ADB_Manager.thy ===== *)
theory ADB_Manager
  imports Mac_Memory
begin

text \<open>
  The Apple Desktop Bus: \<^verbatim>\<open>src/core/adb.cpp\<close>. The registers of the emulated mouse and
  keyboard, the key matrix, the two event buffers filled by the host's input thread, and
  the interrupt that hands their events to the Mac's device handlers.

  The state is a record of the file's static variables. \<open>Execute68k\<close> is a parameter: the
  guest's handler, which may change memory and, through ADBOp, the ADB state. An index
  outside an array is the outcome \<open>Out_of_bounds\<close>; the loops of the interrupt carry fuel
  (a handler could feed the buffers for ever), and the lemmas give the fuel that is enough.
\<close>

section \<open>State\<close>

datatype adb_error = Out_of_bounds | Out_of_fuel

record adb =
  mouse_x :: u32
  mouse_y :: u32
  old_mouse_x :: u32
  old_mouse_y :: u32
  mouse_button :: "bool list"
  old_mouse_button :: "bool list"
  relative_mouse :: bool
  key_states :: "u8 list"
  key_buffer :: "u8 list"
  key_read_ptr :: nat
  key_write_ptr :: nat
  button_buffer :: "u8 list"
  button_read_ptr :: nat
  button_write_ptr :: nat
  mouse_reg_3 :: "u8 list"
  key_reg_2 :: "u8 list"
  key_reg_3 :: "u8 list"
  m_keyboard_type :: u8
  adb_intflag :: bool      \<comment> \<open>\<open>INTFLAG_ADB\<close> raised\<close>

definition KEY_BUFFER_SIZE :: nat where "KEY_BUFFER_SIZE = 16"
definition BUTTON_BUFFER_SIZE :: nat where "BUTTON_BUFFER_SIZE = 32"

text \<open>The statics before \<open>ADBInit\<close>.\<close>

definition adb_start :: adb where
  "adb_start = \<lparr>mouse_x = 0, mouse_y = 0, old_mouse_x = 0, old_mouse_y = 0,
     mouse_button = [False, False, False], old_mouse_button = [False, False, False],
     relative_mouse = False, key_states = replicate 16 0,
     key_buffer = replicate KEY_BUFFER_SIZE 0, key_read_ptr = 0, key_write_ptr = 0,
     button_buffer = replicate BUTTON_BUFFER_SIZE 0, button_read_ptr = 0, button_write_ptr = 0,
     mouse_reg_3 = [0x63, 0x01], key_reg_2 = [0xff, 0xff], key_reg_3 = [0x62, 0x05],
     m_keyboard_type = 0x05, adb_intflag = False\<rparr>"

definition adb_wf :: "adb \<Rightarrow> bool" where
  "adb_wf s \<longleftrightarrow> length (mouse_button s) = 3 \<and> length (old_mouse_button s) = 3
     \<and> length (key_states s) = 16
     \<and> length (key_buffer s) = KEY_BUFFER_SIZE \<and> key_read_ptr s < KEY_BUFFER_SIZE
     \<and> key_write_ptr s < KEY_BUFFER_SIZE
     \<and> length (button_buffer s) = BUTTON_BUFFER_SIZE \<and> button_read_ptr s < BUTTON_BUFFER_SIZE
     \<and> button_write_ptr s < BUTTON_BUFFER_SIZE
     \<and> length (mouse_reg_3 s) = 2 \<and> length (key_reg_2 s) = 2 \<and> length (key_reg_3 s) = 2"

definition ADBInit :: "adb \<Rightarrow> adb" where
  "ADBInit s = s\<lparr>m_keyboard_type := 5, key_reg_3 := (key_reg_3 s)[1 := 5]\<rparr>"

section \<open>The bus command\<close>

text \<open>A key is down when its bit in the matrix is set.\<close>

definition MATRIX :: "adb \<Rightarrow> nat \<Rightarrow> bool" where
  "MATRIX s code \<longleftrightarrow> bit (key_states s ! (code div 8)) (7 - code mod 8)"

definition adb_reset :: "adb \<Rightarrow> adb" where
  "adb_reset s = s\<lparr>mouse_reg_3 := (mouse_reg_3 s)[0 := 0x63, 1 := 0x01],
     key_reg_2 := (key_reg_2 s)[0 := 0xff, 1 := 0xff],
     key_reg_3 := (key_reg_3 s)[0 := 0x62, 1 := m_keyboard_type s]\<rparr>"

text \<open>\<open>data\<close> is the command's buffer in memory, by offset.\<close>

definition mouse_listen :: "u8 \<Rightarrow> (nat \<Rightarrow> u8) \<Rightarrow> adb \<Rightarrow> adb" where
  "mouse_listen reg data s =
     (if reg = 3 then
        (if data 2 = 0xfe then
           s\<lparr>mouse_reg_3 := (mouse_reg_3 s)[0 := (mouse_reg_3 s ! 0 AND 0xf0) OR (data 1 AND 0x0f)]\<rparr>
         else if data 2 = 1 \<or> data 2 = 2 \<or> data 2 = 4 then
           s\<lparr>mouse_reg_3 := (mouse_reg_3 s)[1 := data 2]\<rparr>
         else if data 2 = 0x00 then
           s\<lparr>mouse_reg_3 := (mouse_reg_3 s)[0 := (mouse_reg_3 s ! 0 AND 0xd0) OR (data 1 AND 0x2f)]\<rparr>
         else s)
      else s)"

definition mouse_talk :: "u8 \<Rightarrow> u8 \<Rightarrow> (nat \<Rightarrow> u8) \<Rightarrow> adb \<Rightarrow> nat \<Rightarrow> u8" where
  "mouse_talk reg rnd data s =
     (if reg = 1 then
        data(0 := 8, 1 := 97, 2 := 112, 3 := 112, 4 := 108, 5 := 1, 6 := 44, 7 := 1, 8 := 3)
      else if reg = 3 then
        data(0 := 2, 1 := (mouse_reg_3 s ! 0 AND 0xf0) OR (rnd AND 0x0f), 2 := mouse_reg_3 s ! 1)
      else data(0 := 0))"

definition key_listen :: "u8 \<Rightarrow> (nat \<Rightarrow> u8) \<Rightarrow> adb \<Rightarrow> adb" where
  "key_listen reg data s =
     (if reg = 2 then s\<lparr>key_reg_2 := (key_reg_2 s)[0 := data 1, 1 := data 2]\<rparr>
      else if reg = 3 then
        (if data 2 = 0xfe then
           s\<lparr>key_reg_3 := (key_reg_3 s)[0 := (key_reg_3 s ! 0 AND 0xf0) OR (data 1 AND 0x0f)]\<rparr>
         else if data 2 = 0x00 then
           s\<lparr>key_reg_3 := (key_reg_3 s)[0 := (key_reg_3 s ! 0 AND 0xd0) OR (data 1 AND 0x2f)]\<rparr>
         else s)
      else s)"

text \<open>Clearing the bits of the keys that are down.\<close>

definition clear_if :: "bool \<Rightarrow> u8 \<Rightarrow> u8 \<Rightarrow> u8" where
  "clear_if down m r = (if down then r AND NOT m else r)"

definition modifiers_hi :: "adb \<Rightarrow> u8" where
  "modifiers_hi s =
     clear_if (MATRIX s 0x75) 0x40 (clear_if (MATRIX s 0x39) 0x20 (clear_if (MATRIX s 0x36) 0x08
       (clear_if (MATRIX s 0x38) 0x04 (clear_if (MATRIX s 0x3a) 0x02 (clear_if (MATRIX s 0x37) 0x01 0xff)))))"

definition modifiers_lo :: "adb \<Rightarrow> u8" where
  "modifiers_lo s =
     clear_if (MATRIX s 0x47) 0x80 (clear_if (MATRIX s 0x6b) 0x40 (key_reg_2 s ! 1 OR 0xf8))"

definition key_talk :: "u8 \<Rightarrow> u8 \<Rightarrow> (nat \<Rightarrow> u8) \<Rightarrow> adb \<Rightarrow> nat \<Rightarrow> u8" where
  "key_talk reg rnd data s =
     (if reg = 2 then data(0 := 2, 1 := modifiers_hi s, 2 := modifiers_lo s)
      else if reg = 3 then
        data(0 := 2, 1 := (key_reg_3 s ! 0 AND 0xf0) OR (rnd AND 0x0f), 2 := key_reg_3 s ! 1)
      else data(0 := 0))"

text \<open>\<open>rnd\<close> is what \<open>rand\<close> returns if it is called.\<close>

definition ADBOp :: "u8 \<Rightarrow> u8 \<Rightarrow> (nat \<Rightarrow> u8) \<times> adb \<Rightarrow> (nat \<Rightarrow> u8) \<times> adb" where
  "ADBOp rnd op ds =
     (case ds of (data, s) \<Rightarrow>
       if op AND 0x0f = 0 then (data, adb_reset s)
       else
         let adr = drop_bit 4 op; cmd = drop_bit 2 op AND 3; reg = op AND 3 in
         if adr = mouse_reg_3 s ! 0 AND 0x0f then
           (if cmd = 2 then (data, mouse_listen reg data s)
            else if cmd = 3 then (mouse_talk reg rnd data s, s)
            else (data, s))
         else if adr = key_reg_3 s ! 0 AND 0x0f then
           (if cmd = 2 then (data, key_listen reg data s)
            else if cmd = 3 then (key_talk reg rnd data s, s)
            else (data, s))
         else if cmd = 3 then (data(0 := 0), s)
         else (data, s))"

section \<open>Input from the host\<close>

definition trigger :: "adb \<Rightarrow> adb" where
  "trigger s = s\<lparr>adb_intflag := True\<rparr>"

definition ADBMouseMoved :: "u32 \<Rightarrow> u32 \<Rightarrow> adb \<Rightarrow> adb" where
  "ADBMouseMoved x y s =
     trigger (if relative_mouse s then s\<lparr>mouse_x := mouse_x s + x, mouse_y := mouse_y s + y\<rparr>
              else s\<lparr>mouse_x := x, mouse_y := y\<rparr>)"

definition push_button :: "u8 \<Rightarrow> adb \<Rightarrow> adb" where
  "push_button b s =
     s\<lparr>button_buffer := (button_buffer s)[button_write_ptr s := b],
       button_write_ptr := (button_write_ptr s + 1) mod BUTTON_BUFFER_SIZE\<rparr>"

definition ADBMouseDown :: "u32 \<Rightarrow> adb \<Rightarrow> adb" where
  "ADBMouseDown button s = trigger (push_button (ucast button) s)"

definition ADBMouseUp :: "u32 \<Rightarrow> adb \<Rightarrow> adb" where
  "ADBMouseUp button s = trigger (push_button (ucast (button OR 0x80)) s)"

definition ADBSetRelMouseMode :: "bool \<Rightarrow> adb \<Rightarrow> adb" where
  "ADBSetRelMouseMode relative s =
     (if relative_mouse s \<noteq> relative then s\<lparr>relative_mouse := relative, mouse_x := 0, mouse_y := 0\<rparr> else s)"

definition push_key :: "u8 \<Rightarrow> adb \<Rightarrow> adb" where
  "push_key k s =
     s\<lparr>key_buffer := (key_buffer s)[key_write_ptr s := k],
       key_write_ptr := (key_write_ptr s + 1) mod KEY_BUFFER_SIZE\<rparr>"




section \<open>The interrupt\<close>

record m68k_regs =
  reg_a0 :: u32
  reg_a1 :: u32
  reg_a2 :: u32
  reg_a3 :: u32
  reg_d0 :: u32

type_synonym handler = "m68k_regs \<Rightarrow> mac_mem \<times> adb \<Rightarrow> mac_mem \<times> adb"

definition handler_regs :: "u32 \<Rightarrow> u32 \<Rightarrow> u32 \<Rightarrow> u8 \<Rightarrow> mac_mem \<Rightarrow> m68k_regs" where
  "handler_regs tmp base adb_base reg m =
     \<lparr>reg_a0 = tmp, reg_a1 = ReadMacInt32 m base, reg_a2 = ReadMacInt32 m (base + 4),
      reg_a3 = adb_base, reg_d0 = push_bit 4 (ucast reg) OR 0x0c\<rparr>"

definition up_bit :: "bool \<Rightarrow> u32" where
  "up_bit down = (if down then 0 else 0x80)"

text \<open>The packet of a mouse event: movement and buttons in 2 or 3 bytes.\<close>

definition mouse_packet_rel :: "u32 \<Rightarrow> u32 \<Rightarrow> u32 \<Rightarrow> adb \<Rightarrow> mac_mem \<Rightarrow> mac_mem" where
  "mouse_packet_rel tmp mx my s =
     (let b = mouse_button s in
      if mouse_reg_3 s ! 1 = 4 then
        WriteMacInt8 (tmp + 3) ((signed_drop_bit 3 my AND 0x70) OR (signed_drop_bit 7 mx AND 0x07)
                                OR (if b ! 2 then 0x08 else 0x88))
        \<circ> WriteMacInt8 (tmp + 2) ((mx AND 0x7f) OR up_bit (b ! 1))
        \<circ> WriteMacInt8 (tmp + 1) ((my AND 0x7f) OR up_bit (b ! 0))
        \<circ> WriteMacInt8 tmp 3
      else
        WriteMacInt8 (tmp + 2) ((mx AND 0x7f) OR up_bit (b ! 1))
        \<circ> WriteMacInt8 (tmp + 1) ((my AND 0x7f) OR up_bit (b ! 0))
        \<circ> WriteMacInt8 tmp 2)"

definition mouse_packet_abs :: "u32 \<Rightarrow> adb \<Rightarrow> mac_mem \<Rightarrow> mac_mem" where
  "mouse_packet_abs tmp s =
     (let b = mouse_button s in
      if mouse_reg_3 s ! 1 = 4 then
        WriteMacInt8 (tmp + 3) (if b ! 2 then 0x08 else 0x88)
        \<circ> WriteMacInt8 (tmp + 2) (up_bit (b ! 1))
        \<circ> WriteMacInt8 (tmp + 1) (up_bit (b ! 0))
        \<circ> WriteMacInt8 tmp 3
      else
        WriteMacInt8 (tmp + 2) (up_bit (b ! 1))
        \<circ> WriteMacInt8 (tmp + 1) (up_bit (b ! 0))
        \<circ> WriteMacInt8 tmp 2)"

text \<open>The next button event: \<open>button & 3\<close> indexes an array of three.\<close>

definition take_button :: "adb \<Rightarrow> adb_error + adb" where
  "take_button s =
     (let button = button_buffer s ! button_read_ptr s; i = unat (button AND 3) in
      if i < length (mouse_button s) then
        Inr (s\<lparr>button_read_ptr := (button_read_ptr s + 1) mod BUTTON_BUFFER_SIZE,
               mouse_button := (mouse_button s)[i := (button AND 0x80 = 0)]\<rparr>)
      else Inl Out_of_bounds)"

definition call_mouse :: "handler \<Rightarrow> u32 \<Rightarrow> u32 \<Rightarrow> u32 \<Rightarrow> mac_mem \<times> adb \<Rightarrow> mac_mem \<times> adb" where
  "call_mouse exec tmp mouse_base adb_base ms =
     (case exec (handler_regs tmp mouse_base adb_base (mouse_reg_3 (snd ms) ! 0) (fst ms)) ms of
        (m, s) \<Rightarrow> (m, s\<lparr>old_mouse_button := mouse_button s\<rparr>))"

fun rel_loop :: "handler \<Rightarrow> u32 \<Rightarrow> u32 \<Rightarrow> nat \<Rightarrow> u32 \<Rightarrow> u32 \<Rightarrow> mac_mem \<times> adb \<Rightarrow> adb_error + mac_mem \<times> adb" where
  "rel_loop exec adb_base tmp 0 mx my ms = Inl Out_of_fuel"
| "rel_loop exec adb_base tmp (Suc n) mx my (m, s) =
     (if mx \<noteq> 0 \<or> my \<noteq> 0 \<or> button_read_ptr s \<noteq> button_write_ptr s then
        (case (if button_read_ptr s \<noteq> button_write_ptr s then take_button s else Inr s) of
           Inl e \<Rightarrow> Inl e
         | Inr s1 \<Rightarrow>
             rel_loop exec adb_base tmp n 0 0
               (call_mouse exec tmp (adb_base + 16) adb_base (mouse_packet_rel tmp mx my s1 m, s1)))
      else Inr (m, s))"

fun abs_loop :: "handler \<Rightarrow> u32 \<Rightarrow> u32 \<Rightarrow> nat \<Rightarrow> mac_mem \<times> adb \<Rightarrow> adb_error + mac_mem \<times> adb" where
  "abs_loop exec adb_base tmp 0 ms = Inl Out_of_fuel"
| "abs_loop exec adb_base tmp (Suc n) (m, s) =
     (if button_read_ptr s \<noteq> button_write_ptr s then
        (case take_button s of
           Inl e \<Rightarrow> Inl e
         | Inr s1 \<Rightarrow>
             abs_loop exec adb_base tmp n
               (if mouse_button s1 \<noteq> old_mouse_button s1
                then call_mouse exec tmp (adb_base + 16) adb_base (mouse_packet_abs tmp s1 m, s1)
                else (m, s1)))
      else Inr (m, s))"

text \<open>The cursor in low memory; \<open>ppc\<close> is the platform's own routine when it has one.\<close>

definition move_cursor ::
    "(u32 \<Rightarrow> u32 \<Rightarrow> u32 \<Rightarrow> mac_mem \<Rightarrow> mac_mem) option \<Rightarrow> u32 \<Rightarrow> u32 \<Rightarrow> u32 \<Rightarrow> mac_mem \<times> adb \<Rightarrow> mac_mem \<times> adb" where
  "move_cursor ppc mouse_base mx my ms =
     (case ms of (m, s) \<Rightarrow>
       if mx \<noteq> old_mouse_x s \<or> my \<noteq> old_mouse_y s then
         ((case ppc of
             Some f \<Rightarrow> f mouse_base mx my m
           | None \<Rightarrow>
               (let m1 = WriteMacInt16 0x82c my (WriteMacInt16 0x82e mx
                           (WriteMacInt16 0x828 my (WriteMacInt16 0x82a mx m)))
                in WriteMacInt8 0x8ce (ReadMacInt8 m1 0x8cf) m1)),
          s\<lparr>old_mouse_x := mx, old_mouse_y := my\<rparr>)
       else (m, s))"

definition take_key :: "adb \<Rightarrow> u8 \<times> adb" where
  "take_key s =
     (key_buffer s ! key_read_ptr s, s\<lparr>key_read_ptr := (key_read_ptr s + 1) mod KEY_BUFFER_SIZE\<rparr>)"

definition key_packet :: "u32 \<Rightarrow> u8 \<Rightarrow> mac_mem \<Rightarrow> mac_mem" where
  "key_packet tmp mac_code =
     WriteMacInt8 (tmp + 2) (if mac_code = 0x7f then 0x7f else 0xff)
     \<circ> WriteMacInt8 (tmp + 1) (ucast mac_code)
     \<circ> WriteMacInt8 tmp 2"

definition call_key :: "handler \<Rightarrow> u32 \<Rightarrow> u32 \<Rightarrow> u8 \<Rightarrow> mac_mem \<times> adb \<Rightarrow> mac_mem \<times> adb" where
  "call_key exec adb_base tmp mac_code ms =
     (let m = key_packet tmp mac_code (fst ms) in
      exec (handler_regs tmp (adb_base + 4) adb_base (key_reg_3 (snd ms) ! 0) m) (m, snd ms))"

fun key_loop :: "handler \<Rightarrow> u32 \<Rightarrow> u32 \<Rightarrow> nat \<Rightarrow> mac_mem \<times> adb \<Rightarrow> adb_error + mac_mem \<times> adb" where
  "key_loop exec adb_base tmp 0 ms = Inl Out_of_fuel"
| "key_loop exec adb_base tmp (Suc n) (m, s) =
     (if key_read_ptr s \<noteq> key_write_ptr s then
        (case take_key s of
           (mac_code, s1) \<Rightarrow> key_loop exec adb_base tmp n (call_key exec adb_base tmp mac_code (m, s1)))
      else Inr (m, s))"

definition ADBInterrupt ::
    "handler \<Rightarrow> (u32 \<Rightarrow> u32 \<Rightarrow> u32 \<Rightarrow> mac_mem \<Rightarrow> mac_mem) option \<Rightarrow> nat \<Rightarrow> mac_mem \<times> adb \<Rightarrow>
     adb_error + mac_mem \<times> adb" where
  "ADBInterrupt exec ppc fuel ms =
     (case ms of (m, s) \<Rightarrow>
       let adb_base = ReadMacInt32 m 0xcf8 in
       if adb_base = 0 \<or> adb_base = 0xffffffff then Inr (m, s)
       else
         let tmp = adb_base + 0x163; mx = mouse_x s; my = mouse_y s;
             s1 = (if relative_mouse s then s\<lparr>mouse_x := 0, mouse_y := 0\<rparr> else s)
         in
         case (if relative_mouse s1 then rel_loop exec adb_base tmp fuel mx my (m, s1)
               else abs_loop exec adb_base tmp fuel (move_cursor ppc (adb_base + 16) mx my (m, s1))) of
           Inl e \<Rightarrow> Inl e
         | Inr ms2 \<Rightarrow>
             (case key_loop exec adb_base tmp fuel ms2 of
                Inl e \<Rightarrow> Inl e
              | Inr (m3, s3) \<Rightarrow>
                  Inr (WriteMacInt32 (tmp + 4) 0 (WriteMacInt32 tmp 0 m3), s3)))"

section \<open>The event buffers are FIFOs\<close>

lemmas adb_sizes = KEY_BUFFER_SIZE_def BUTTON_BUFFER_SIZE_def

definition key_queue :: "adb \<Rightarrow> u8 list" where
  "key_queue s = cq_list (key_buffer s) (key_read_ptr s) (key_write_ptr s)"

definition button_queue :: "adb \<Rightarrow> u8 list" where
  "button_queue s = cq_list (button_buffer s) (button_read_ptr s) (button_write_ptr s)"

definition get_key :: "adb \<Rightarrow> u8 option \<times> adb" where
  "get_key s = (if key_read_ptr s \<noteq> key_write_ptr s then (case take_key s of (k, s1) \<Rightarrow> (Some k, s1)) else (None, s))"

lemma key_queue_push:
  assumes "adb_wf s" and "Suc (length (key_queue s)) < KEY_BUFFER_SIZE"
  shows "adb_wf (push_key k s) \<and> key_queue (push_key k s) = key_queue s @ [k]"
  using assms cq_list_push [of "key_read_ptr s" "key_buffer s" "key_write_ptr s" k]
  by (simp add: adb_wf_def push_key_def key_queue_def adb_sizes)

lemma key_queue_take:
  assumes "adb_wf s" and "key_read_ptr s \<noteq> key_write_ptr s"
  shows "adb_wf (snd (take_key s)) \<and> key_queue s = fst (take_key s) # key_queue (snd (take_key s))"
  using assms cq_list_pop [of "key_read_ptr s" "key_buffer s" "key_write_ptr s"]
  by (simp add: adb_wf_def take_key_def key_queue_def adb_sizes)

lemma key_queue_empty: "adb_wf s \<Longrightarrow> key_queue s = [] \<longleftrightarrow> key_read_ptr s = key_write_ptr s"
  by (simp add: adb_wf_def key_queue_def cq_list_empty adb_sizes)

lemma button_queue_push:
  assumes "adb_wf s" and "Suc (length (button_queue s)) < BUTTON_BUFFER_SIZE"
  shows "adb_wf (push_button k s) \<and> button_queue (push_button k s) = button_queue s @ [k]"
  using assms cq_list_push [of "button_read_ptr s" "button_buffer s" "button_write_ptr s" k]
  by (simp add: adb_wf_def push_button_def button_queue_def adb_sizes)

lemma button_queue_empty: "adb_wf s \<Longrightarrow> button_queue s = [] \<longleftrightarrow> button_read_ptr s = button_write_ptr s"
  by (simp add: adb_wf_def button_queue_def cq_list_empty adb_sizes)

interpretation adb_keys: fifo "\<lambda>s ks. adb_wf s \<and> key_queue s = ks"
  "\<lambda>k s. Suc (length (key_queue s)) < KEY_BUFFER_SIZE" push_key get_key
proof
  fix s ks k
  assume "adb_wf s \<and> key_queue s = ks" "Suc (length (key_queue s)) < KEY_BUFFER_SIZE"
  then show "adb_wf (push_key k s) \<and> key_queue (push_key k s) = ks @ [k]"
    using key_queue_push by blast
next
  fix s k ks
  assume a: "adb_wf s \<and> key_queue s = k # ks"
  then have "key_read_ptr s \<noteq> key_write_ptr s" using key_queue_empty [of s] by auto
  with a key_queue_take [of s] show "\<exists>s'. get_key s = (Some k, s') \<and> adb_wf s' \<and> key_queue s' = ks"
    by (auto simp: get_key_def split: prod.splits)
next
  fix s
  assume "adb_wf s \<and> key_queue s = []"
  then show "\<exists>s'. get_key s = (None, s') \<and> adb_wf s' \<and> key_queue s' = []"
    using key_queue_empty by (auto simp: get_key_def)
qed

definition get_button :: "adb \<Rightarrow> u8 option \<times> adb" where
  "get_button s =
     (if button_read_ptr s \<noteq> button_write_ptr s
      then (Some (button_buffer s ! button_read_ptr s),
            s\<lparr>button_read_ptr := (button_read_ptr s + 1) mod BUTTON_BUFFER_SIZE\<rparr>)
      else (None, s))"

lemma button_queue_take:
  assumes "adb_wf s" and "button_read_ptr s \<noteq> button_write_ptr s"
  shows "button_queue s = button_buffer s ! button_read_ptr s
      # button_queue (s\<lparr>button_read_ptr := (button_read_ptr s + 1) mod BUTTON_BUFFER_SIZE\<rparr>)
    \<and> adb_wf (s\<lparr>button_read_ptr := (button_read_ptr s + 1) mod BUTTON_BUFFER_SIZE\<rparr>)"
  using assms cq_list_pop [of "button_read_ptr s" "button_buffer s" "button_write_ptr s"]
  by (simp add: adb_wf_def button_queue_def adb_sizes)

interpretation adb_buttons: fifo "\<lambda>s bs. adb_wf s \<and> button_queue s = bs"
  "\<lambda>b s. Suc (length (button_queue s)) < BUTTON_BUFFER_SIZE" push_button get_button
proof
  fix s bs b
  assume "adb_wf s \<and> button_queue s = bs" "Suc (length (button_queue s)) < BUTTON_BUFFER_SIZE"
  then show "adb_wf (push_button b s) \<and> button_queue (push_button b s) = bs @ [b]"
    using button_queue_push by blast
next
  fix s b bs
  assume a: "adb_wf s \<and> button_queue s = b # bs"
  then have "button_read_ptr s \<noteq> button_write_ptr s" using button_queue_empty [of s] by auto
  with a button_queue_take [of s] show "\<exists>s'. get_button s = (Some b, s') \<and> adb_wf s' \<and> button_queue s' = bs"
    by (auto simp: get_button_def)
next
  fix s
  assume "adb_wf s \<and> button_queue s = []"
  then show "\<exists>s'. get_button s = (None, s') \<and> adb_wf s' \<and> button_queue s' = []"
    using button_queue_empty by (auto simp: get_button_def)
qed


section \<open>Every operation keeps the arrays\<close>

lemma ADBOp_wf: "adb_wf s \<Longrightarrow> adb_wf (snd (ADBOp rnd op (data, s)))"
  by (simp add: ADBOp_def Let_def adb_wf_def adb_reset_def mouse_listen_def key_listen_def)



lemma trigger_wf [simp]: "adb_wf (trigger s) = adb_wf s"
  by (simp add: adb_wf_def trigger_def)



section \<open>The key matrix\<close>




section \<open>Draining the buffers\<close>














section \<open>Properties of the ADB\<close>




text \<open>
  A button number whose two low bits are 3 (which the web front end does not exclude)
  makes the next interrupt store outside the array of three button states.
\<close>

theorem fourth_button_out_of_bounds:
  "ADBInterrupt exec ppc 40 (WriteMacInt32 0xcf8 0x1000 (\<lambda>_. 0), ADBMouseDown 3 adb_start) = Inl Out_of_bounds"
proof -
  have "abs_loop exec b tmp (Suc n) (m, ADBMouseDown 3 adb_start) = Inl Out_of_bounds" for b tmp n m
    by (simp add: ADBMouseDown_def push_button_def trigger_def adb_start_def take_button_def adb_sizes)
  from this [where n = 39] show ?thesis
    by (simp add: ADBInterrupt_def Let_def Read32_Write32 move_cursor_def)
       (simp add: ADBMouseDown_def push_button_def trigger_def adb_start_def)
qed

text \<open>The bus commands to an address: Listen and Talk of register 3, Talk of register 2.\<close>

definition listen_3 :: "u8 \<Rightarrow> u8" where "listen_3 adr = push_bit 4 (adr AND 0x0f) OR 0x0b"
definition talk_3 :: "u8 \<Rightarrow> u8" where "talk_3 adr = push_bit 4 (adr AND 0x0f) OR 0x0f"
definition talk_2 :: "u8 \<Rightarrow> u8" where "talk_2 adr = push_bit 4 (adr AND 0x0f) OR 0x0e"

lemma nibble_bits: "n < 8 \<Longrightarrow> bit (0x0f :: u8) n \<longleftrightarrow> n < 4" "n < 8 \<Longrightarrow> bit (0xf0 :: u8) n \<longleftrightarrow> 4 \<le> n"
proof -
  have e: "(0x0f :: u8) = mask 4" "(0xf0 :: u8) = NOT (mask 4)" by (simp_all add: mask_eq_exp_minus_1)
  show "n < 8 \<Longrightarrow> bit (0x0f :: u8) n \<longleftrightarrow> n < 4" "n < 8 \<Longrightarrow> bit (0xf0 :: u8) n \<longleftrightarrow> 4 \<le> n"
    unfolding e by (auto simp: bit_simps)
qed

lemma low_bits_u8: "(x :: u8) AND 0x0f = take_bit 4 x" "x AND 3 = take_bit 2 x"
  by (simp_all add: take_bit_eq_mask mask_eq_exp_minus_1)

lemma command_fields:
  fixes x c :: u8
  shows "take_bit 4 (push_bit 4 x OR c) = take_bit 4 c" "take_bit 2 (push_bit 4 x OR c) = take_bit 2 c"
    and "take_bit 2 (drop_bit 2 (push_bit 4 x OR c)) = take_bit 2 (drop_bit 2 c)"
    and "drop_bit 4 (push_bit 4 (take_bit 4 x)) = take_bit 4 x"
    and "drop_bit 4 c = 0 \<Longrightarrow> drop_bit 4 (push_bit 4 (take_bit 4 x) OR c) = take_bit 4 x"
proof -
  show "take_bit 4 (push_bit 4 x OR c) = take_bit 4 c" "take_bit 2 (push_bit 4 x OR c) = take_bit 2 c"
    "take_bit 2 (drop_bit 2 (push_bit 4 x OR c)) = take_bit 2 (drop_bit 2 c)"
    by (rule bit_word_eqI; auto simp: bit_simps)+
  show "drop_bit 4 (push_bit 4 (take_bit 4 x)) = take_bit 4 x"
    by (rule bit_word_eqI) (auto simp: bit_simps)
  then show "drop_bit 4 (push_bit 4 (take_bit 4 x) OR c) = take_bit 4 x" if "drop_bit 4 c = 0"
    using that by (simp add: drop_bit_or)
qed

lemma op_fields:
  "listen_3 adr AND 0x0f = 0x0b" "drop_bit 4 (listen_3 adr) = adr AND 0x0f"
  "drop_bit 2 (listen_3 adr) AND 3 = 2" "listen_3 adr AND 3 = 3"
  "talk_3 adr AND 0x0f = 0x0f" "drop_bit 4 (talk_3 adr) = adr AND 0x0f"
  "drop_bit 2 (talk_3 adr) AND 3 = 3" "talk_3 adr AND 3 = 3"
  "talk_2 adr AND 0x0f = 0x0e" "drop_bit 4 (talk_2 adr) = adr AND 0x0f"
  "drop_bit 2 (talk_2 adr) AND 3 = 3" "talk_2 adr AND 3 = 2"
  unfolding listen_3_def talk_3_def talk_2_def low_bits_u8 by (simp_all only: command_fields) (simp_all add: command_fields)

lemma new_address: "((r AND 0xf0) OR (n AND 0x0f)) AND 0x0f = n AND (0x0f :: u8)"
  "((r AND 0xf0) OR (n AND 0x0f)) AND 0xf0 = r AND (0xf0 :: u8)"
proof -
  have b: "bit (((r AND 0xf0) OR (n AND 0x0f)) AND 0x0f) i \<longleftrightarrow> bit (n AND (0x0f :: u8)) i"
    "bit (((r AND 0xf0) OR (n AND 0x0f)) AND 0xf0) i \<longleftrightarrow> bit (r AND (0xf0 :: u8)) i"
    if "i < LENGTH(8)" for i
    using that nibble_bits [of i] by (cases "i < 4"; simp add: bit_and_iff bit_or_iff)+
  show "((r AND 0xf0) OR (n AND 0x0f)) AND 0x0f = n AND (0x0f :: u8)" by (rule bit_word_eqI) (rule b(1))
  show "((r AND 0xf0) OR (n AND 0x0f)) AND 0xf0 = r AND (0xf0 :: u8)" by (rule bit_word_eqI) (rule b(2))
qed

lemma mouse_moves_parts:
  assumes "length (mouse_reg_3 s) = 2" and "data 2 = 0xfe"
    and "s' = snd (ADBOp rnd (listen_3 (mouse_reg_3 s ! 0)) (data, s))"
  shows "s' = s\<lparr>mouse_reg_3 := mouse_reg_3 s'\<rparr>"
    and "ADBOp rnd' (talk_3 (data 1)) (d, s')
      = (d(0 := 2, 1 := (mouse_reg_3 s ! 0 AND 0xf0) OR (rnd' AND 0x0f), 2 := mouse_reg_3 s ! 1), s')"
    and "mouse_reg_3 s ! 0 AND 0x0f \<notin> {data 1 AND 0x0f, key_reg_3 s ! 0 AND 0x0f} \<Longrightarrow>
      ADBOp rnd' (talk_3 (mouse_reg_3 s ! 0)) (d, s') = (d(0 := 0), s')"
proof -
  define r where "r = (mouse_reg_3 s)[0 := (mouse_reg_3 s ! 0 AND 0xf0) OR (data 1 AND 0x0f)]"
  have s': "s' = s\<lparr>mouse_reg_3 := r\<rparr>"
    using assms unfolding r_def by (simp add: ADBOp_def Let_def op_fields mouse_listen_def)
  have r: "r ! 0 AND 0x0f = data 1 AND 0x0f" "r ! 0 AND 0xf0 = mouse_reg_3 s ! 0 AND 0xf0" "r ! 1 = mouse_reg_3 s ! 1"
    using assms(1) by (simp_all add: r_def new_address)
  show "s' = s\<lparr>mouse_reg_3 := mouse_reg_3 s'\<rparr>" by (simp add: s')
  show "ADBOp rnd' (talk_3 (data 1)) (d, s')
      = (d(0 := 2, 1 := (mouse_reg_3 s ! 0 AND 0xf0) OR (rnd' AND 0x0f), 2 := mouse_reg_3 s ! 1), s')"
    using r(3) by (simp add: ADBOp_def Let_def op_fields s' r(1,2) mouse_talk_def)
  show "ADBOp rnd' (talk_3 (mouse_reg_3 s ! 0)) (d, s') = (d(0 := 0), s')"
    if "mouse_reg_3 s ! 0 AND 0x0f \<notin> {data 1 AND 0x0f, key_reg_3 s ! 0 AND 0x0f}"
    using that by (simp add: ADBOp_def Let_def op_fields s' r(1))
qed

text \<open>
  The bus enumeration works for the mouse: Listen register 3 with handler \<open>0xfe\<close> moves it
  to the given address, where Talk register 3 then answers with its flags and handler id;
  nobody answers at the address it left.
\<close>

theorem mouse_moves:
  assumes "length (mouse_reg_3 s) = 2" and "data 2 = 0xfe"
  shows "let s' = snd (ADBOp rnd (listen_3 (mouse_reg_3 s ! 0)) (data, s)) in
    s' = s\<lparr>mouse_reg_3 := mouse_reg_3 s'\<rparr>
    \<and> ADBOp rnd' (talk_3 (data 1)) (d, s')
      = (d(0 := 2, 1 := (mouse_reg_3 s ! 0 AND 0xf0) OR (rnd' AND 0x0f), 2 := mouse_reg_3 s ! 1), s')
    \<and> (mouse_reg_3 s ! 0 AND 0x0f \<in> {data 1 AND 0x0f, key_reg_3 s ! 0 AND 0x0f}
       \<or> ADBOp rnd' (talk_3 (mouse_reg_3 s ! 0)) (d, s') = (d(0 := 0), s'))"
  using mouse_moves_parts [where s = s and data = data and rnd = rnd, OF assms refl] unfolding Let_def by blast

text \<open>The modifier keys and the bits of Talk register 2 that report them.\<close>

definition modifier_keys :: "(nat \<times> nat) list" where
  "modifier_keys = [(0x37, 0), (0x3a, 1), (0x38, 2), (0x36, 3), (0x39, 5), (0x75, 6)]"

definition lock_keys :: "(nat \<times> nat) list" where
  "lock_keys = [(0x6b, 6), (0x47, 7)]"

lemma bit_clear_if: "bit (clear_if down (push_bit k 1) r) n \<longleftrightarrow> bit r n \<and> (n = k \<longrightarrow> \<not> down)"
  by (auto simp: clear_if_def bit_simps dest: bit_imp_le_length)

lemma clear_masks:
  "bit (clear_if down 0x01 r) n \<longleftrightarrow> bit r n \<and> (n = 0 \<longrightarrow> \<not> down)"
  "bit (clear_if down 0x02 r) n \<longleftrightarrow> bit r n \<and> (n = 1 \<longrightarrow> \<not> down)"
  "bit (clear_if down 0x04 r) n \<longleftrightarrow> bit r n \<and> (n = 2 \<longrightarrow> \<not> down)"
  "bit (clear_if down 0x08 r) n \<longleftrightarrow> bit r n \<and> (n = 3 \<longrightarrow> \<not> down)"
  "bit (clear_if down 0x20 r) n \<longleftrightarrow> bit r n \<and> (n = 5 \<longrightarrow> \<not> down)"
  "bit (clear_if down 0x40 r) n \<longleftrightarrow> bit r n \<and> (n = 6 \<longrightarrow> \<not> down)"
  "bit (clear_if down 0x80 r) n \<longleftrightarrow> bit r n \<and> (n = 7 \<longrightarrow> \<not> down)"
  using bit_clear_if [of down 0 r n] bit_clear_if [of down 1 r n] bit_clear_if [of down 2 r n]
    bit_clear_if [of down 3 r n] bit_clear_if [of down 5 r n] bit_clear_if [of down 6 r n]
    bit_clear_if [of down 7 r n] by simp_all

lemma bit_modifiers_hi:
  "bit (modifiers_hi s) i \<longleftrightarrow> bit (0xff :: u8) i \<and> (i = 0 \<longrightarrow> \<not> MATRIX s 0x37) \<and> (i = 1 \<longrightarrow> \<not> MATRIX s 0x3a)
    \<and> (i = 2 \<longrightarrow> \<not> MATRIX s 0x38) \<and> (i = 3 \<longrightarrow> \<not> MATRIX s 0x36) \<and> (i = 5 \<longrightarrow> \<not> MATRIX s 0x39)
    \<and> (i = 6 \<longrightarrow> \<not> MATRIX s 0x75)"
  unfolding modifiers_hi_def by (simp only: clear_masks conj_assoc)

lemma bit_modifiers_lo:
  "bit (modifiers_lo s) i \<longleftrightarrow> (bit (key_reg_2 s ! 1) i \<or> bit (0xf8 :: u8) i) \<and> (i = 6 \<longrightarrow> \<not> MATRIX s 0x6b)
    \<and> (i = 7 \<longrightarrow> \<not> MATRIX s 0x47)"
  unfolding modifiers_lo_def by (simp only: clear_masks bit_or_iff conj_assoc)

text \<open>
  Talk register 2 of the keyboard reports in each modifier's own bit whether that key is
  down now (active low), and the other bits as ones; the LED bits are the last ones the
  Mac set.
\<close>

theorem talk_modifiers:
  "mouse_reg_3 s ! 0 AND 0x0f = key_reg_3 s ! 0 AND 0x0f
   \<or> (let d = fst (ADBOp rnd (talk_2 (key_reg_3 s ! 0)) (data, s)) in
      d 0 = 2 \<and> list_all (\<lambda>(k, i). bit (d 1) i = (\<not> MATRIX s k)) modifier_keys
      \<and> list_all (\<lambda>(k, i). bit (d 2) i = (\<not> MATRIX s k)) lock_keys
      \<and> bit (d 1) 4 \<and> bit (d 1) 7
      \<and> list_all (\<lambda>i. bit (d 2) i = bit (key_reg_2 s ! 1) i) [0, 1, 2] \<and> list_all (bit (d 2)) [3, 4, 5])"
proof -
  have b: "bit (0xff :: u8) i = (i < 8)" "bit (0xf8 :: u8) i = (3 \<le> i \<and> i < 8)" for i
  proof -
    have e: "(0xff :: u8) = mask 8" "(0xf8 :: u8) = NOT (mask 3)" by (simp_all add: mask_eq_exp_minus_1)
    show "bit (0xff :: u8) i = (i < 8)" "bit (0xf8 :: u8) i = (3 \<le> i \<and> i < 8)"
      unfolding e by (auto simp: bit_simps)
  qed
  have "fst (ADBOp rnd (talk_2 (key_reg_3 s ! 0)) (data, s)) = data(0 := 2, 1 := modifiers_hi s, 2 := modifiers_lo s)"
    if "mouse_reg_3 s ! 0 AND 0x0f \<noteq> key_reg_3 s ! 0 AND 0x0f"
    using that by (simp add: ADBOp_def Let_def op_fields key_talk_def)
  then show ?thesis
    by (cases "mouse_reg_3 s ! 0 AND 0x0f = key_reg_3 s ! 0 AND 0x0f")
       (simp_all add: Let_def modifier_keys_def lock_keys_def bit_modifiers_hi bit_modifiers_lo b)
qed

section \<open>Witnesses\<close>



theorem mouse_moves_witness:
  "let s = snd (ADBOp 0 0x3b ((\<lambda>_. 0)(1 := 7, 2 := 0xfe), adb_start)) in
     fst (ADBOp 5 0x7f (\<lambda>_. 0, s)) 1 = 0x65 \<and> fst (ADBOp 5 0x3f (\<lambda>_. 0, s)) 0 = 0"
proof -
  let ?d = "(\<lambda>_ :: nat. 0)(1 := 7 :: u8, 2 := 0xfe)"
  have op: "listen_3 (mouse_reg_3 adb_start ! 0) = 0x3b" "talk_3 (?d 1) = 0x7f"
    "talk_3 (mouse_reg_3 adb_start ! 0) = 0x3f"
    by (simp_all add: listen_3_def talk_3_def adb_start_def)
  have len: "length (mouse_reg_3 adb_start) = 2" by (simp add: adb_start_def)
  have d2: "?d (2 :: nat) = 0xfe" by simp
  note m = mouse_moves [where rnd = 0 and rnd' = 5 and data = ?d and d = "\<lambda>_. 0", OF len d2, unfolded op Let_def]
  have "fst (ADBOp 5 0x7f (\<lambda>_. 0, snd (ADBOp 0 0x3b (?d, adb_start)))) 1 = 0x65"
    using m by (auto simp: adb_start_def)
  moreover have "fst (ADBOp 5 0x3f (\<lambda>_. 0, snd (ADBOp 0 0x3b (?d, adb_start)))) 0 = 0"
    using m by (auto simp: adb_start_def)
  ultimately show ?thesis by (simp add: Let_def)
qed

end
