(* ===== verification/Guest_Memory.thy ===== *)
theory Guest_Memory
  imports Mac_Memory
begin

text \<open>
  Guest memory behind the CPU cores: \<^verbatim>\<open>src/cpu/core/guest_memory.cpp\<close> and the class
  \<open>GuestMemory\<close> of \<^verbatim>\<open>src/cpu/core/cpu_core.h\<close>. A table with one entry per 64 KB page holds
  the difference between the host and the guest address; the list of windows serves the way
  back. An access to an unmapped page goes to the \<open>Io\<close> object, if there is one.

  A host address is a 64-bit number, 0 the null pointer; the bytes the host addresses hold are
  the field \<open>heap\<close>. The \<open>Io\<close> object is a record of its two functions and its state: what they
  do is the embedder's code.
\<close>

section \<open>State\<close>

definition PAGE_SHIFT :: nat where "PAGE_SHIFT = 16"
definition PAGE_BYTES :: nat where "PAGE_BYTES = 2 ^ PAGE_SHIFT"
definition NUM_PAGES :: nat where "NUM_PAGES = 2 ^ (32 - PAGE_SHIFT)"
definition UNMAPPED :: u64 where "UNMAPPED = 0x8000000000000000"   \<comment> \<open>\<open>INTPTR_MIN\<close>\<close>


record window =
  win_guest :: u32
  win_size :: u64
  win_host :: u64

record 'io io_ops =
  io_read_op :: "'io \<Rightarrow> u32 \<Rightarrow> nat \<Rightarrow> u32 \<times> 'io"
  io_write_op :: "'io \<Rightarrow> u32 \<Rightarrow> u32 \<Rightarrow> nat \<Rightarrow> 'io"

record 'io gm =
  delta_table :: "nat \<Rightarrow> u64"
  windows :: "window list"
  addr_mask :: u32
  io_obj :: "'io io_ops option"
  io_state :: 'io
  heap :: "u64 \<Rightarrow> u8"

definition GuestMemory :: "'io \<Rightarrow> (u64 \<Rightarrow> u8) \<Rightarrow> 'io gm" where
  "GuestMemory io h = \<lparr>delta_table = (\<lambda>_. UNMAPPED), windows = [], addr_mask = 0xffffffff, io_obj = None,
     io_state = io, heap = h\<rparr>"

definition set_io :: "'io io_ops option \<Rightarrow> 'io gm \<Rightarrow> 'io gm" where
  "set_io io m = m\<lparr>io_obj := io\<rparr>"

definition set_address_bits :: "nat \<Rightarrow> 'io gm \<Rightarrow> 'io gm" where
  "set_address_bits bits m = m\<lparr>addr_mask := (if 32 \<le> bits then 0xffffffff else push_bit bits 1 - 1)\<rparr>"

section \<open>Mapping\<close>







section \<open>Lookups\<close>

definition page_delta :: "'io gm \<Rightarrow> u32 \<Rightarrow> u64" where
  "page_delta m a = delta_table m (unat (a AND addr_mask m) div PAGE_BYTES)"

definition host_addr :: "'io gm \<Rightarrow> u32 \<Rightarrow> u64" where
  "host_addr m a = (if page_delta m a = UNMAPPED then 0 else page_delta m a + ucast (a AND addr_mask m))"

definition mapped :: "'io gm \<Rightarrow> u32 \<Rightarrow> bool" where
  "mapped m a \<longleftrightarrow> page_delta m a \<noteq> UNMAPPED"

fun find_guest :: "window list \<Rightarrow> u64 \<Rightarrow> u32 option" where
  "find_guest [] p = None"
| "find_guest (w # ws) p =
     (if win_host w \<le> p \<and> p - win_host w < win_size w
      then Some (win_guest w + ucast (p - win_host w)) else find_guest ws p)"

definition guest_addr :: "'io gm \<Rightarrow> u64 \<Rightarrow> u32 option" where
  "guest_addr m p = find_guest (windows m) p"

fun uniform_loop :: "u64 \<Rightarrow> u64 list \<Rightarrow> u64 option" where
  "uniform_loop found [] = (if found = UNMAPPED then None else Some found)"
| "uniform_loop found (d # ds) =
     (if d = UNMAPPED then uniform_loop found ds
      else if found \<noteq> UNMAPPED \<and> d \<noteq> found then None
      else uniform_loop d ds)"

definition uniform :: "'io gm \<Rightarrow> u64 option" where
  "uniform m = uniform_loop UNMAPPED (map (delta_table m) [0..<NUM_PAGES])"

section \<open>Accesses\<close>

definition io_read :: "u32 \<Rightarrow> nat \<Rightarrow> 'io gm \<Rightarrow> u32 \<times> 'io gm" where
  "io_read a sz m =
     (case io_obj m of
        None \<Rightarrow> (0, m)
      | Some io \<Rightarrow> (case io_read_op io (io_state m) a sz of (v, s) \<Rightarrow> (v, m\<lparr>io_state := s\<rparr>)))"

definition io_write :: "u32 \<Rightarrow> u32 \<Rightarrow> nat \<Rightarrow> 'io gm \<Rightarrow> 'io gm" where
  "io_write a v sz m =
     (case io_obj m of
        None \<Rightarrow> m
      | Some io \<Rightarrow> m\<lparr>io_state := io_write_op io (io_state m) a v sz\<rparr>)"

definition poke_host :: "u64 \<Rightarrow> u8 \<Rightarrow> 'io gm \<Rightarrow> 'io gm" where
  "poke_host p v m = m\<lparr>heap := (heap m)(p := v)\<rparr>"

definition read8 :: "u32 \<Rightarrow> 'io gm \<Rightarrow> u8 \<times> 'io gm" where
  "read8 a m =
     (let a = a AND addr_mask m; p = host_addr m a in
      if p \<noteq> 0 then (heap m p, m)
      else (case io_read a 1 m of (v, m1) \<Rightarrow> (ucast v, m1)))"

definition write8 :: "u32 \<Rightarrow> u8 \<Rightarrow> 'io gm \<Rightarrow> 'io gm" where
  "write8 a v m =
     (let a = a AND addr_mask m; p = host_addr m a in
      if p \<noteq> 0 then poke_host p v m else io_write a (ucast v) 1 m)"

text \<open>The loops of the slow paths: from the first byte up, and from the last byte down.\<close>

fun read_bytes :: "u32 \<Rightarrow> nat \<Rightarrow> u32 \<Rightarrow> 'io gm \<Rightarrow> u32 \<times> 'io gm" where
  "read_bytes a 0 v m = (v, m)"
| "read_bytes a (Suc n) v m =
     (case read8 a m of (b, m1) \<Rightarrow> read_bytes (a + 1) n (push_bit 8 v OR ucast b) m1)"

fun write_bytes :: "u32 \<Rightarrow> nat \<Rightarrow> u32 \<Rightarrow> 'io gm \<Rightarrow> 'io gm" where
  "write_bytes a 0 v m = m"
| "write_bytes a (Suc i) v m = write_bytes a i (drop_bit 8 v) (write8 (a + of_nat i) (ucast v) m)"

definition slow_read :: "u32 \<Rightarrow> nat \<Rightarrow> 'io gm \<Rightarrow> u32 \<times> 'io gm" where
  "slow_read a sz m =
     (if host_addr m a = 0 \<and> host_addr m (a + of_nat sz - 1) = 0 then io_read a sz m
      else read_bytes a sz 0 m)"

definition slow_write :: "u32 \<Rightarrow> u32 \<Rightarrow> nat \<Rightarrow> 'io gm \<Rightarrow> 'io gm" where
  "slow_write a v sz m =
     (if host_addr m a = 0 \<and> host_addr m (a + of_nat sz - 1) = 0 then io_write a v sz m
      else write_bytes a sz v m)"


definition read32 :: "u32 \<Rightarrow> 'io gm \<Rightarrow> u32 \<times> 'io gm" where
  "read32 a m =
     (let a = a AND addr_mask m; p = host_addr m a in
      if p \<noteq> 0 \<and> unat a mod PAGE_BYTES \<le> PAGE_BYTES - 4
      then (be32 (heap m p) (heap m (p + 1)) (heap m (p + 2)) (heap m (p + 3)), m)
      else slow_read a 4 m)"

definition write16 :: "u32 \<Rightarrow> u16 \<Rightarrow> 'io gm \<Rightarrow> 'io gm" where
  "write16 a v m =
     (let a = a AND addr_mask m; p = host_addr m a in
      if p \<noteq> 0 \<and> unat a mod PAGE_BYTES \<le> PAGE_BYTES - 2
      then poke_host (p + 1) (lo16 v) (poke_host p (hi16 v) m)
      else slow_write a (ucast v) 2 m)"

definition write32 :: "u32 \<Rightarrow> u32 \<Rightarrow> 'io gm \<Rightarrow> 'io gm" where
  "write32 a v m =
     (let a = a AND addr_mask m; p = host_addr m a in
      if p \<noteq> 0 \<and> unat a mod PAGE_BYTES \<le> PAGE_BYTES - 4
      then poke_host (p + 3) (byte32 v 0) (poke_host (p + 2) (byte32 v 1)
             (poke_host (p + 1) (byte32 v 2) (poke_host p (byte32 v 3) m)))
      else slow_write a v 4 m)"

section \<open>The page table and the windows agree\<close>

lemmas gm_sizes = PAGE_BYTES_def PAGE_SHIFT_def NUM_PAGES_def

definition covers :: "window \<Rightarrow> nat \<Rightarrow> bool" where
  "covers w p \<longleftrightarrow> unat (win_guest w) \<le> p * PAGE_BYTES
     \<and> p * PAGE_BYTES < unat (win_guest w) + unat (win_size w)"

definition win_delta :: "window \<Rightarrow> u64" where
  "win_delta w = win_host w - ucast (win_guest w)"

definition window_ok :: "window \<Rightarrow> bool" where
  "window_ok w \<longleftrightarrow> unat (win_guest w) mod PAGE_BYTES = 0 \<and> unat (win_size w) mod PAGE_BYTES = 0
     \<and> unat (win_guest w) + unat (win_size w) \<le> 2 ^ 32
     \<and> unat (win_host w) + unat (win_size w) \<le> 2 ^ 64 \<and> win_delta w \<noteq> UNMAPPED"

definition gm_wf :: "'io gm \<Rightarrow> bool" where
  "gm_wf m \<longleftrightarrow> (\<forall>w \<in> set (windows m). window_ok w \<and> (\<forall>p. covers w p \<longrightarrow> delta_table m p = win_delta w))
     \<and> (\<forall>p. delta_table m p \<noteq> UNMAPPED \<longrightarrow> (\<exists>w \<in> set (windows m). covers w p))"

lemma gm_wf_new: "gm_wf (GuestMemory io h)"
  by (simp add: gm_wf_def GuestMemory_def)







section \<open>Translating addresses\<close>

lemma full_mask [simp]: "x AND 0xffffffff = (x :: u32)"
proof -
  have "(0xffffffff :: u32) = mask 32" by (simp add: mask_eq_exp_minus_1)
  then show ?thesis by (simp only: take_bit_eq_mask [symmetric]) (rule take_bit_word_eq_self, simp)
qed

lemma host_addr_masked [simp]: "host_addr m (a AND addr_mask m) = host_addr m a"
  by (simp add: host_addr_def page_delta_def and.assoc)

lemma find_guest_some:
  "find_guest ws p = Some a \<Longrightarrow> \<exists>w \<in> set ws. unat (p - win_host w) < unat (win_size w)
     \<and> a = win_guest w + ucast (p - win_host w)"
  by (induction ws) (auto simp: word_less_nat_alt split: if_splits)

lemma find_guest_none:
  "find_guest ws p = None \<Longrightarrow> w \<in> set ws \<Longrightarrow> win_host w \<le> p \<Longrightarrow> unat (win_size w) \<le> unat (p - win_host w)"
  by (induction ws) (auto simp: word_less_nat_alt split: if_splits)

lemma window_offset:
  assumes "window_ok w" and "unat d < unat (win_size w)"
  shows "unat (win_guest w + ucast d) = unat (win_guest w) + unat d"
    and "covers w (unat (win_guest w + ucast d) div PAGE_BYTES)"
    and "(ucast (win_guest w + ucast d) :: u64) = ucast (win_guest w) + d"
proof -
  have le: "unat (win_guest w) + unat (win_size w) \<le> 2 ^ 32" using assms(1) by (simp add: window_ok_def)
  then have d: "unat d < 2 ^ 32" using assms(2) by linarith
  then have du: "unat (ucast d :: u32) = unat d" by (simp add: unsigned_ucast_eq take_bit_nat_eq_self_iff)
  show u: "unat (win_guest w + ucast d) = unat (win_guest w) + unat d"
    using le assms(2) by (subst unat_add_lt) (simp_all add: du)
  show "covers w (unat (win_guest w + ucast d) div PAGE_BYTES)"
  proof -
    obtain k where k: "unat (win_guest w) = PAGE_BYTES * k"
      using assms(1) by (auto simp: window_ok_def mod_eq_0_iff_dvd)
    have "(PAGE_BYTES * k + unat d) div PAGE_BYTES * PAGE_BYTES \<le> PAGE_BYTES * k + unat d" by (rule div_times_less_eq_dividend)
    moreover have "k \<le> (PAGE_BYTES * k + unat d) div PAGE_BYTES" by (simp add: gm_sizes)
    then have "PAGE_BYTES * k \<le> (PAGE_BYTES * k + unat d) div PAGE_BYTES * PAGE_BYTES" by (simp add: gm_sizes)
    ultimately show ?thesis using assms(2) unfolding covers_def u k by linarith
  qed
  show "(ucast (win_guest w + ucast d) :: u64) = ucast (win_guest w) + d"
    by (rule word_unat_eq_iff [THEN iffD2]) (use u le assms(2) in \<open>simp add: unat_add_lt\<close>)
qed

lemma page_floor:
  "PAGE_BYTES * k \<le> x div PAGE_BYTES * PAGE_BYTES \<longleftrightarrow> PAGE_BYTES * k \<le> x"
  "x div PAGE_BYTES * PAGE_BYTES < PAGE_BYTES * k \<longleftrightarrow> x < PAGE_BYTES * k"
proof -
  have pos: "0 < PAGE_BYTES" by (simp add: gm_sizes)
  have "k \<le> x div PAGE_BYTES \<longleftrightarrow> PAGE_BYTES * k \<le> x"
    using less_eq_div_iff_mult_less_eq [OF pos] by (simp add: mult.commute)
  then show "PAGE_BYTES * k \<le> x div PAGE_BYTES * PAGE_BYTES \<longleftrightarrow> PAGE_BYTES * k \<le> x"
    using pos by (simp add: mult.commute [of _ PAGE_BYTES])
  then show "x div PAGE_BYTES * PAGE_BYTES < PAGE_BYTES * k \<longleftrightarrow> x < PAGE_BYTES * k" by linarith
qed

lemma covers_page:
  assumes "window_ok w"
  shows "covers w (x div PAGE_BYTES) \<longleftrightarrow> unat (win_guest w) \<le> x \<and> x < unat (win_guest w) + unat (win_size w)"
proof -
  obtain k n where "unat (win_guest w) = PAGE_BYTES * k" "unat (win_size w) = PAGE_BYTES * n"
    using assms by (auto simp: window_ok_def mod_eq_0_iff_dvd elim!: dvdE)
  then show ?thesis by (simp add: covers_def page_floor flip: distrib_left)
qed

lemma host_in_window:
  assumes "gm_wf m" and "addr_mask m = 0xffffffff" and "w \<in> set (windows m)" and "unat d < unat (win_size w)"
  shows "host_addr m (win_guest w + ucast d) = win_host w + d"
proof -
  have w: "window_ok w" "\<And>p. covers w p \<Longrightarrow> delta_table m p = win_delta w"
    using assms(1,3) by (auto simp: gm_wf_def)
  have mask: "x AND addr_mask m = x" for x :: u32
    unfolding assms(2) by (rule full_mask)
  have "page_delta m (win_guest w + ucast d) = win_delta w"
    unfolding page_delta_def mask by (intro w(2) window_offset [OF w(1) assms(4)])
  moreover have "win_delta w \<noteq> UNMAPPED" using w(1) by (simp add: window_ok_def)
  ultimately show ?thesis
    unfolding host_addr_def mask by (simp add: window_offset(3) [OF w(1) assms(4)] win_delta_def)
qed

lemma host_has_window:
  assumes "gm_wf m" and "addr_mask m = 0xffffffff" and "host_addr m a \<noteq> 0"
  shows "\<exists>w \<in> set (windows m). win_host w \<le> host_addr m a \<and> unat (host_addr m a - win_host w) < unat (win_size w)"
proof -
  have mask: "x AND addr_mask m = x" for x :: u32
    unfolding assms(2) by (rule full_mask)
  let ?p = "unat a div PAGE_BYTES"
  have "delta_table m ?p \<noteq> UNMAPPED" using assms(3) by (auto simp: host_addr_def page_delta_def mask)
  then obtain w where w: "w \<in> set (windows m)" "covers w ?p" "window_ok w" "delta_table m ?p = win_delta w"
    using assms(1) by (auto simp: gm_wf_def)
  then have in_w: "unat (win_guest w) \<le> unat a" "unat a < unat (win_guest w) + unat (win_size w)"
    using covers_page [OF w(3)] by blast+
  have h: "host_addr m a = win_host w + (ucast a - ucast (win_guest w))"
    using w(3,4) by (simp add: host_addr_def page_delta_def mask win_delta_def window_ok_def)
  have "unat (ucast a - ucast (win_guest w) :: u64) = unat a - unat (win_guest w)"
    using in_w(1) by (simp add: unat_sub word_le_nat_alt)
  moreover have "unat (win_host w) + (unat a - unat (win_guest w)) < 2 ^ 64"
    using w(3) in_w unfolding window_ok_def by linarith
  with calculation have "unat (win_host w + (ucast a - ucast (win_guest w)))
      = unat (win_host w) + (unat a - unat (win_guest w))"
    by (subst unat_add_lt) simp_all
  ultimately have "win_host w \<le> host_addr m a" "unat (host_addr m a - win_host w) < unat (win_size w)"
    using in_w unfolding h by (simp_all add: word_le_nat_alt)
  with w(1) show ?thesis by blast
qed

text \<open>
  C16: the way back from a host pointer is exact: \<open>guest\<close> returns an address that translates to
  that pointer, and when it finds none, no guest address translates to it.
\<close>

theorem guest_of_host:
  assumes "gm_wf m" and "addr_mask m = 0xffffffff" and "p \<noteq> 0"
  shows "case guest_addr m p of Some a \<Rightarrow> host_addr m a = p | None \<Rightarrow> (\<forall>a. host_addr m a \<noteq> p)"
proof (cases "guest_addr m p")
  case None
  then show ?thesis
    using host_has_window [OF assms(1,2)] find_guest_none [of "windows m" p] assms(3)
    by (fastforce simp: guest_addr_def)
next
  case (Some a)
  from find_guest_some [OF Some [unfolded guest_addr_def]] obtain w where
    "w \<in> set (windows m)" "unat (p - win_host w) < unat (win_size w)" "a = win_guest w + ucast (p - win_host w)"
    by blast
  with host_in_window [OF assms(1,2)] Some show ?thesis by simp
qed


section \<open>Accesses of two and four bytes\<close>

text \<open>
  An address is usable when its byte is host memory. Identity addressing translates guest
  address 0 to the null pointer, which the accesses take for unmapped.
\<close>

definition usable :: "'io gm \<Rightarrow> u32 \<Rightarrow> bool" where
  "usable m a \<longleftrightarrow> host_addr m a \<noteq> 0"


definition poke_guest :: "'io gm \<Rightarrow> u32 \<Rightarrow> u8 \<Rightarrow> 'io gm" where
  "poke_guest m a v = write8 a v m"



lemma write8_usable: "usable m a \<Longrightarrow> write8 a v m = poke_host (host_addr m a) v m"
  by (simp add: write8_def Let_def usable_def)

lemma poke_host_keeps [simp]: "host_addr (poke_host p v m) = host_addr m" "addr_mask (poke_host p v m) = addr_mask m"
  "usable (poke_host p v m) = usable m" "heap (poke_host p v m) = (heap m)(p := v)"
  by (simp_all add: poke_host_def host_addr_def page_delta_def usable_def fun_eq_iff)

lemma io_write_keeps [simp]: "host_addr (io_write a v n m) = host_addr m" "heap (io_write a v n m) = heap m"
  by (simp_all add: io_write_def host_addr_def page_delta_def fun_eq_iff split: option.splits)


text \<open>The address masks \<open>set_address_bits\<close> sets for an address space of whole pages.\<close>

definition mask_ok :: "'io gm \<Rightarrow> bool" where
  "mask_ok m \<longleftrightarrow> (\<exists>b. PAGE_SHIFT \<le> b \<and> b \<le> 32 \<and> addr_mask m = mask b)"

lemma mask_ok_bits: "PAGE_SHIFT \<le> bits \<Longrightarrow> mask_ok (set_address_bits bits m)"
proof -
  have "(0xffffffff :: u32) = mask 32" by (simp add: mask_eq_exp_minus_1)
  then show "PAGE_SHIFT \<le> bits \<Longrightarrow> mask_ok (set_address_bits bits m)"
    unfolding mask_ok_def set_address_bits_def
    by (intro exI [of _ "min bits 32"]) (auto simp: min_def PAGE_SHIFT_def mask_eq_exp_minus_1 push_bit_eq_mult)
qed

lemma unat_add_mod: "b \<le> 32 \<Longrightarrow> unat (x + y :: u32) mod 2 ^ b = (unat x + unat y) mod 2 ^ b"
proof -
  assume "b \<le> 32"
  then have "(2 :: nat) ^ b dvd 2 ^ 32" by (rule le_imp_power_dvd)
  then have "(unat x + unat y) mod 2 ^ 32 mod 2 ^ b = (unat x + unat y) mod 2 ^ b" by (rule mod_mod_cancel)
  then show ?thesis by (simp add: unat_word_ariths)
qed

text \<open>The bytes of an access that stays within a page are neighbours on the host.\<close>

lemma host_in_page:
  assumes "mask_ok m" and "usable m a" and "unat (a AND addr_mask m) mod PAGE_BYTES + i < PAGE_BYTES"
  shows "host_addr m (a + of_nat i) = host_addr m a + of_nat i"
proof -
  obtain b where b: "PAGE_SHIFT \<le> b" "b \<le> 32" "addr_mask m = mask b" using assms(1) by (auto simp: mask_ok_def)
  have low: "unat (x AND addr_mask m) = unat x mod 2 ^ b" for x
    using unat_low_bits [of b x] by (simp add: b(3) take_bit_eq_mask)
  have dvd: "PAGE_BYTES dvd 2 ^ b" using b(1) by (simp add: PAGE_BYTES_def le_imp_power_dvd)
  have off: "unat a mod 2 ^ b mod PAGE_BYTES + i < PAGE_BYTES" using assms(3) by (simp add: low)
  obtain q where q: "(2 :: nat) ^ b = PAGE_BYTES * q" using dvd by blast
  let ?x = "unat a mod 2 ^ b"
  have x: "?x < PAGE_BYTES * q" using q by (metis mod_less_divisor zero_less_numeral zero_less_power)
  have same_page: "(?x + i) div PAGE_BYTES = ?x div PAGE_BYTES"
  proof -
    have "?x + i = ?x div PAGE_BYTES * PAGE_BYTES + (?x mod PAGE_BYTES + i)" by (simp add: add.assoc [symmetric])
    then show ?thesis using off by (metis add.right_neutral div_less div_mult_self3 gr_zeroI less_zeroE)
  qed
  have no_wrap: "?x + i < 2 ^ b"
  proof -
    have "?x div PAGE_BYTES < q" using x by (simp add: less_mult_imp_div_less mult.commute)
    then have "(?x + i) div PAGE_BYTES < q" unfolding same_page .
    then show ?thesis unfolding q using dividend_less_div_times by (metis div_less_iff_less_mult gm_sizes(1) mult.commute zero_less_numeral zero_less_power)
  qed
  have "unat (a + of_nat i) mod 2 ^ b = (unat a + i) mod 2 ^ b"
  proof -
    have "(2 :: nat) ^ b dvd 2 ^ 32" using b(2) by (rule le_imp_power_dvd)
    then have "(unat a + i) mod 2 ^ 32 mod 2 ^ b = (unat a + i) mod 2 ^ b" by (rule mod_mod_cancel)
    then show ?thesis by (simp add: unat_word_ariths unat_of_nat mod_add_right_eq)
  qed
  also have "\<dots> = ?x + i" using no_wrap by (metis mod_add_left_eq mod_less)
  finally have xi: "unat ((a + of_nat i) AND addr_mask m) = unat (a AND addr_mask m) + i" by (simp add: low)
  then have page: "page_delta m (a + of_nat i) = page_delta m a"
    unfolding page_delta_def using same_page by (simp add: low)
  have "(ucast ((a + of_nat i) AND addr_mask m) :: u64) = ucast (a AND addr_mask m) + of_nat i"
    using xi by (metis of_nat_add of_nat_unat)
  then show ?thesis using assms(2) page by (auto simp: host_addr_def usable_def)
qed

text \<open>The bytes the slow paths read and write.\<close>

lemma bytes_of_halfword: "ucast (ucast (v :: u16) :: u32) = lo16 v" "ucast (drop_bit 8 (ucast v :: u32)) = hi16 v"
  unfolding lo16_def hi16_def by (rule bit_word_eqI; auto simp: bit_simps dest: bit_imp_le_length)+

lemma bytes_of_word: "ucast v = byte32 v 0" "ucast (drop_bit 8 v) = byte32 v 1"
  "ucast (drop_bit 8 (drop_bit 8 v)) = byte32 v 2" "ucast (drop_bit 8 (drop_bit 8 (drop_bit 8 v))) = byte32 v 3"
  by (simp_all add: byte32_def)



lemma masked_add:
  assumes "mask_ok m"
  shows "((a AND addr_mask m) + i) AND addr_mask m = (a + i) AND addr_mask m"
proof -
  obtain b where b: "addr_mask m = mask b" "b \<le> 32" using assms by (auto simp: mask_ok_def)
  have low: "unat (x AND addr_mask m) = unat x mod 2 ^ b" for x
    using unat_low_bits [of b x] by (simp add: b take_bit_eq_mask)
  show ?thesis
    by (rule word_unat_eq_iff [THEN iffD2]) (simp add: low unat_add_mod [OF b(2)] mod_add_left_eq)
qed

lemma masked_offset:
  assumes "mask_ok m"
  shows "host_addr m ((a AND addr_mask m) + i) = host_addr m (a + i)" "usable m ((a AND addr_mask m) + i) = usable m (a + i)"
  using masked_add [OF assms, of a i] by (metis host_addr_masked) (metis host_addr_masked usable_def masked_add [OF assms])

lemma read8_cong: "host_addr m a = host_addr m b \<Longrightarrow> usable m a \<Longrightarrow> read8 a m = read8 b m"
  by (simp add: read8_def Let_def usable_def)



lemma host_0 [simp]: "usable m a \<Longrightarrow> host_addr m a \<noteq> 0" by (simp add: usable_def)



text \<open>Writing: the slow path stores the bytes in the other order.\<close>

lemma poke_host_commute: "p \<noteq> q \<Longrightarrow> poke_host p x (poke_host q y m) = poke_host q y (poke_host p x m)"
  by (simp add: poke_host_def fun_upd_twist)


lemma poke_guest_host: "usable m a \<Longrightarrow> poke_guest m a v = poke_host (host_addr m a) v m"
  by (simp add: poke_guest_def write8_usable)

lemma store16_host:
  "usable m a \<Longrightarrow> usable m (a + 1) \<Longrightarrow>
     store16 poke_guest m a v = poke_host (host_addr m (a + 1)) (lo16 v) (poke_host (host_addr m a) (hi16 v) m)"
  by (simp add: store16_def poke_guest_host)


text \<open>The bytes of a wide access lie at different places on the host.\<close>

definition apart :: "'io gm \<Rightarrow> u32 list \<Rightarrow> bool" where
  "apart m as \<longleftrightarrow> list_all (usable m) as \<and> distinct (map (host_addr m) as)"

lemma write16_bytes:
  assumes "mask_ok m" and "apart m [a, a + 1]"
  shows "write16 a v m = store16 poke_guest m a v"
proof -
  have u: "usable m a" "usable m (a + 1)" and ne: "host_addr m a \<noteq> host_addr m (a + 1)"
    using assms(2) by (simp_all add: apart_def)
  have m0: "usable m (a AND addr_mask m)" "usable m ((a AND addr_mask m) + 1)"
    "host_addr m ((a AND addr_mask m) + 1) = host_addr m (a + 1)"
    using u masked_offset [OF assms(1), of a 1] by (simp_all add: usable_def)
  show ?thesis
  proof (cases "unat (a AND addr_mask m) mod PAGE_BYTES \<le> PAGE_BYTES - 2")
    case True
    then have "unat (a AND addr_mask m) mod PAGE_BYTES + 1 < PAGE_BYTES" by (simp add: gm_sizes)
    from host_in_page [OF assms(1) u(1) this] True u show ?thesis
      by (simp add: write16_def Let_def store16_host)
  next
    case False
    have "write_bytes (a AND addr_mask m) 2 (ucast v) m
        = poke_host (host_addr m a) (hi16 v) (poke_host (host_addr m (a + 1)) (lo16 v) m)"
      by (simp add: numeral_2_eq_2 write8_usable m0 bytes_of_halfword)
    also have "\<dots> = store16 poke_guest m a v" using ne by (simp add: store16_host u poke_host_commute)
    finally show ?thesis using False u by (simp add: write16_def Let_def slow_write_def)
  qed
qed




text \<open>
  An access with no byte in host memory is exactly one call of the I/O object, with the
  masked address, the whole value and its size, and touches no memory.
\<close>

theorem unmapped_access:
  assumes "\<not> usable m a" and "\<not> usable m ((a AND addr_mask m) + 3)"
  shows "read32 a m = io_read (a AND addr_mask m) 4 m \<and> write32 a v m = io_write (a AND addr_mask m) v 4 m
    \<and> heap (snd (read32 a m)) = heap m \<and> heap (write32 a v m) = heap m"
proof -
  have "host_addr m a = 0" "host_addr m ((a AND addr_mask m) + of_nat 4 - 1) = 0"
    using assms by (simp_all add: usable_def add_diff_eq [symmetric])
  then show ?thesis
    by (simp add: read32_def write32_def Let_def slow_read_def slow_write_def io_read_def
        split: option.splits prod.splits)
qed

lemma uniform_loop_found:
  "found \<noteq> UNMAPPED \<Longrightarrow> uniform_loop found ds = (if set ds \<subseteq> {found, UNMAPPED} then Some found else None)"
  by (induction ds) auto

text \<open>
  \<open>uniform\<close> finds the one offset all mapped pages share, and nothing when two pages
  differ or none is mapped.
\<close>

theorem uniform_offset:
  "uniform m = Some d \<longleftrightarrow> d \<noteq> UNMAPPED \<and> insert UNMAPPED (delta_table m ` {..< NUM_PAGES}) = {UNMAPPED, d}"
proof -
  have "uniform_loop UNMAPPED ds = Some d \<longleftrightarrow> d \<noteq> UNMAPPED \<and> insert UNMAPPED (set ds) = {UNMAPPED, d}" for ds
  proof (induction ds)
    case (Cons x ds)
    have "d \<noteq> UNMAPPED \<and> insert UNMAPPED (insert x S) = {UNMAPPED, d} \<longleftrightarrow> x = d \<and> S \<subseteq> {x, UNMAPPED}"
      if "x \<noteq> UNMAPPED" for S using that by blast
    with Cons show ?case by (cases "x = UNMAPPED") (simp_all add: uniform_loop_found)
  next
    case Nil
    then show ?case by (simp add: doubleton_eq_iff)
  qed
  then show ?thesis unfolding uniform_def by (simp add: lessThan_atLeast0)
qed

section \<open>Witnesses\<close>

text \<open>Two windows next to each other for the guest and far apart on the host.\<close>

definition two_windows :: "unit gm" where
  "two_windows = (GuestMemory () (\<lambda>_. 0))\<lparr>
     delta_table := (\<lambda>p. if p = 1 then 0x500000 else if p = 2 then 0x900000 else UNMAPPED),
     windows := [\<lparr>win_guest = 0x10000, win_size = 0x10000, win_host = 0x510000\<rparr>,
                 \<lparr>win_guest = 0x20000, win_size = 0x10000, win_host = 0x920000\<rparr>]\<rparr>"

lemma two_windows_wf: "gm_wf two_windows" "addr_mask two_windows = 0xffffffff" "mask_ok two_windows"
proof -
  have c: "covers \<lparr>win_guest = 0x10000, win_size = 0x10000, win_host = 0x510000\<rparr> p \<longleftrightarrow> p = 1"
    "covers \<lparr>win_guest = 0x20000, win_size = 0x10000, win_host = 0x920000\<rparr> p \<longleftrightarrow> p = 2" for p
    by (auto simp: covers_def gm_sizes)
  show "gm_wf two_windows"
    by (auto simp: gm_wf_def two_windows_def GuestMemory_def window_ok_def win_delta_def gm_sizes UNMAPPED_def c
        split: if_splits)
  show m: "addr_mask two_windows = 0xffffffff" by (simp add: two_windows_def GuestMemory_def)
  show "mask_ok two_windows"
    unfolding mask_ok_def m by (intro exI [of _ 32]) (simp add: gm_sizes mask_eq_exp_minus_1)
qed

lemma two_windows_host:
  "host_addr two_windows a = (let p = unat a div 65536 in
     if p = 1 then 0x500000 + ucast a else if p = 2 then 0x900000 + ucast a else 0)"
  by (simp add: host_addr_def page_delta_def two_windows_wf(2) Let_def gm_sizes)
     (simp add: two_windows_def UNMAPPED_def)

theorem guest_of_host_witness:
  "guest_addr two_windows 0x920004 = Some 0x20004 \<and> host_addr two_windows 0x20004 = 0x920004"
  using guest_of_host [OF two_windows_wf(1,2), of "0x920004"]
  by (simp add: guest_addr_def two_windows_def GuestMemory_def)



theorem unmapped_access_witness:
  "read32 0x80000000 two_windows = (0, two_windows)"
  using unmapped_access [where m = two_windows and a = "0x80000000"]
  by (simp add: usable_def two_windows_host two_windows_wf(2) Let_def io_read_def)
     (simp add: two_windows_def GuestMemory_def)

end
