(* ===== verification/Mac_Util.thy ===== *)
theory Mac_Util
  imports ADB_Manager "HOL-Library.Signed_Division"
begin

text \<open>
  Helpers of the drivers: \<^verbatim>\<open>src/core/macos_util.cpp\<close> and the offsets of
  \<^verbatim>\<open>src/common/include/macos_util.h\<close>. Queues of the Mac OS are linked lists in guest
  memory; a walk along one carries fuel, since the guest could close it to a ring, and the
  lemmas show that as much fuel as the queue has elements is enough. \<open>localtime\<close> and
  \<open>mktime\<close> are the host's: their broken-down time is an argument.
\<close>

section \<open>Structures in guest memory\<close>

abbreviation qLink :: u32 where "qLink \<equiv> 0"
abbreviation qType :: u32 where "qType \<equiv> 4"
abbreviation qFlags :: u32 where "qFlags \<equiv> 0"
abbreviation qHead :: u32 where "qHead \<equiv> 2"
abbreviation qTail :: u32 where "qTail \<equiv> 6"
abbreviation dsQLink :: u32 where "dsQLink \<equiv> 6"
abbreviation dsQDrive :: u32 where "dsQDrive \<equiv> 12"
abbreviation paramErr :: int where "paramErr \<equiv> - 50"

text \<open>The list of elements from a link on.\<close>

fun chain :: "mac_mem \<Rightarrow> u32 \<Rightarrow> u32 list \<Rightarrow> bool" where
  "chain m e [] = (e = 0)"
| "chain m e (x # xs) = (e \<noteq> 0 \<and> x = e \<and> chain m (ReadMacInt32 m (e + qLink)) xs)"

section \<open>Queues\<close>

definition EnqueueMac :: "u32 \<Rightarrow> u32 \<Rightarrow> mac_mem \<Rightarrow> mac_mem" where
  "EnqueueMac elem queue m =
     (let m1 = WriteMacInt32 (elem + qLink) 0 m in
      if ReadMacInt32 m1 (queue + qTail) = 0
      then WriteMacInt32 (queue + qTail) elem (WriteMacInt32 (queue + qHead) elem m1)
      else WriteMacInt32 (queue + qTail) elem
             (WriteMacInt32 (ReadMacInt32 m1 (queue + qTail) + qLink) elem m1))"

text \<open>The queue header at \<open>queue\<close> and its elements.\<close>

definition mac_queue :: "mac_mem \<Rightarrow> u32 \<Rightarrow> u32 list \<Rightarrow> bool" where
  "mac_queue m queue es \<longleftrightarrow> chain m (ReadMacInt32 m (queue + qHead)) es
     \<and> ReadMacInt32 m (queue + qTail) = (if es = [] then 0 else last es)"

text \<open>The links of the elements and the header do not overlap.\<close>

definition links_apart :: "u32 list \<Rightarrow> bool" where
  "links_apart as \<longleftrightarrow> sorted_wrt (\<lambda>a b. clear_of a 4 b 4) as"

definition queue_apart :: "u32 \<Rightarrow> u32 list \<Rightarrow> bool" where
  "queue_apart queue es \<longleftrightarrow> links_apart ((queue + qHead) # (queue + qTail) # es)"

lemma chain_outside:
  assumes "chain m e es" and "\<forall>x \<in> set es. ReadMacInt32 m' x = ReadMacInt32 m x"
  shows "chain m' e es"
  using assms by (induction m e es rule: chain.induct) auto

lemma chain_nonzero: "chain m e (es @ [x]) \<Longrightarrow> x \<noteq> 0"
  by (induction es arbitrary: e) auto

lemma chain_snoc:
  assumes "chain m e (es @ [x])" and "y \<noteq> 0" and "ReadMacInt32 m' x = y" and "ReadMacInt32 m' y = 0"
    and "\<forall>z \<in> set es. ReadMacInt32 m' z = ReadMacInt32 m z"
  shows "chain m' e (es @ [x, y])"
  using assms by (induction es arbitrary: e) auto

text \<open>
  \<open>EnqueueMac\<close> appends the element to the queue and touches nothing but the links
  concerned, whether the queue was empty or not.
\<close>

theorem enqueue_appends:
  assumes "mac_queue m queue es" and "elem \<noteq> 0" and "queue_apart queue (es @ [elem])"
  shows "mac_queue (EnqueueMac elem queue m) queue (es @ [elem])"
proof -
  let ?m1 = "WriteMacInt32 elem 0 m"
  have far: "clear_of (queue + 2) 4 (queue + 6) 4" "clear_of (queue + 2) 4 elem 4" "clear_of (queue + 6) 4 elem 4"
    and es: "\<And>x. x \<in> set es \<Longrightarrow> clear_of (queue + 2) 4 x 4 \<and> clear_of (queue + 6) 4 x 4 \<and> clear_of x 4 elem 4"
    and chain_far: "links_apart es"
    using assms(3) by (auto simp: queue_apart_def links_apart_def sorted_wrt_append)
  note near = far [THEN clear_of_commute]
  have nearer: "clear_of x 4 (queue + 2) 4" "clear_of x 4 (queue + 6) 4" "clear_of elem 4 x 4" if "x \<in> set es" for x
    using es [OF that] clear_of_commute by blast+
  show ?thesis
  proof (cases es rule: rev_cases)
    case Nil
    then have "ReadMacInt32 m (queue + 6) = 0" using assms(1) by (simp add: mac_queue_def)
    then show ?thesis
      using assms(2) far near Nil
      by (simp add: mac_queue_def EnqueueMac_def Let_def read_write_clear Read32_Write32)
  next
    case (snoc es' x)
    have q: "chain m (ReadMacInt32 m (queue + 2)) (es' @ [x])" "ReadMacInt32 m (queue + 6) = x"
      using assms(1) snoc by (simp_all add: mac_queue_def)
    have x: "x \<in> set es" by (simp add: snoc)
    have ne: "x \<noteq> 0" by (rule chain_nonzero [OF q(1)])
    let ?m = "WriteMacInt32 (queue + 6) elem (WriteMacInt32 x elem ?m1)"
    have m: "EnqueueMac elem queue m = ?m"
      using q(2) ne near nearer [OF x] by (simp add: EnqueueMac_def Let_def read_write_clear)
    have "clear_of x 4 z 4" if "z \<in> set es'" for z
      using chain_far snoc that clear_of_commute by (auto simp: links_apart_def sorted_wrt_append)
    then have "\<forall>z \<in> set es'. ReadMacInt32 ?m z = ReadMacInt32 m z"
      using es nearer snoc by (auto simp: read_write_clear)
    then have "chain ?m (ReadMacInt32 m (queue + 2)) (es' @ [x, elem])"
      using far near es [OF x] nearer [OF x]
      by (intro chain_snoc [OF q(1) assms(2)]) (simp_all add: read_write_clear Read32_Write32)
    then show ?thesis
      using far near nearer [OF x] clear_of_commute [OF far(1)] unfolding mac_queue_def m
      by (simp add: snoc read_write_clear Read32_Write32)
  qed
qed

section \<open>Drive numbers\<close>

fun drive_number_loop :: "nat \<Rightarrow> mac_mem \<Rightarrow> int \<Rightarrow> u32 \<Rightarrow> bool option" where
  "drive_number_loop 0 m num e = None"
| "drive_number_loop (Suc n) m num e =
     (if e \<noteq> 0 then
        (if int (unat (ReadMacInt16 m (e - dsQLink + dsQDrive))) = num then Some False
         else drive_number_loop n m num (ReadMacInt32 m (e + qLink)))
      else Some True)"

definition is_drive_number_free :: "nat \<Rightarrow> mac_mem \<Rightarrow> int \<Rightarrow> bool option" where
  "is_drive_number_free fuel m num = drive_number_loop fuel m num (ReadMacInt32 m (0x308 + qHead))"

fun find_free_loop :: "nat \<Rightarrow> nat \<Rightarrow> mac_mem \<Rightarrow> int \<Rightarrow> int option" where
  "find_free_loop 0 fuel m num = None"
| "find_free_loop (Suc n) fuel m num =
     (case is_drive_number_free fuel m num of
        None \<Rightarrow> None
      | Some True \<Rightarrow> Some num
      | Some False \<Rightarrow> find_free_loop n fuel m (num + 1))"

definition FindFreeDriveNumber :: "nat \<Rightarrow> mac_mem \<Rightarrow> int \<Rightarrow> int option" where
  "FindFreeDriveNumber fuel m num = find_free_loop fuel fuel m num"

definition drive_numbers :: "mac_mem \<Rightarrow> u32 list \<Rightarrow> int list" where
  "drive_numbers m = map (\<lambda>e. int (unat (ReadMacInt16 m (e - dsQLink + dsQDrive))))"

lemma drive_number_loop_chain:
  "chain m e es \<Longrightarrow> length es < n \<Longrightarrow> drive_number_loop n m num e = Some (num \<notin> set (drive_numbers m es))"
proof (induction n arbitrary: e es)
  case (Suc n)
  then show ?case by (cases es) (auto simp: drive_numbers_def)
qed simp

lemma find_free_loop_least:
  assumes "chain m (ReadMacInt32 m (0x308 + qHead)) es" and "length es < fuel"
  shows "card (set (drive_numbers m es) \<inter> {num ..}) < n \<Longrightarrow>
    \<exists>d \<ge> num. find_free_loop n fuel m num = Some d \<and> d \<notin> set (drive_numbers m es)
      \<and> {num ..< d} \<subseteq> set (drive_numbers m es)"
proof (induction n arbitrary: num)
  case (Suc n)
  let ?D = "set (drive_numbers m es)"
  have free: "is_drive_number_free fuel m num = Some (num \<notin> ?D)"
    unfolding is_drive_number_free_def by (rule drive_number_loop_chain [OF assms])
  show ?case
  proof (cases "num \<in> ?D")
    case True
    have "?D \<inter> {num ..} = insert num (?D \<inter> {num + 1 ..})" using True by auto
    then have "card (?D \<inter> {num ..}) = Suc (card (?D \<inter> {num + 1 ..}))" by simp
    with Suc obtain d where "d \<ge> num + 1" "find_free_loop n fuel m (num + 1) = Some d" "d \<notin> ?D" "{num + 1 ..< d} \<subseteq> ?D"
      by fastforce
    moreover have "{num ..< d} \<subseteq> insert num {num + 1 ..< d}" by auto
    ultimately show ?thesis using True free by (intro exI [of _ d]) auto
  qed (use free in \<open>auto intro!: exI [of _ num]\<close>)
qed simp

text \<open>
  The search for a drive number ends, and its result is the least number from the start
  on that no element of the drive queue has, so no two drives share a number.
\<close>

theorem find_free_drive:
  assumes "chain m (ReadMacInt32 m (0x308 + qHead)) es" and "length es < fuel"
  shows "\<exists>d \<ge> num. FindFreeDriveNumber fuel m num = Some d \<and> d \<notin> set (drive_numbers m es)
    \<and> {num ..< d} \<subseteq> set (drive_numbers m es)"
proof -
  have "card (set (drive_numbers m es) \<inter> {num ..}) \<le> card (set (drive_numbers m es))" by (intro card_mono) auto
  also have "\<dots> \<le> length es" using card_length [of "drive_numbers m es"] by (simp add: drive_numbers_def)
  finally show ?thesis
    unfolding FindFreeDriveNumber_def using assms by (intro find_free_loop_least) simp_all
qed

section \<open>Disk images\<close>

text \<open>\<open>loff_t\<close> sizes are integers; the result is the start of the data and its length.\<close>

definition FileDiskLayout :: "int \<Rightarrow> int \<times> int" where
  "FileDiskLayout sz =
     (if sz = 419284 \<or> sz = 838484 then (84, (sz - 84) AND NOT 0x1ff)
      else let start_byte = sz AND 0x1ff in (start_byte, sz - start_byte))"

lemma and_511: "(x :: int) AND 0x1ff = x mod 512"
proof -
  have "(0x1ff :: int) = mask 9" by (simp add: mask_eq_exp_minus_1)
  then show ?thesis by (simp only: take_bit_eq_mask [symmetric] take_bit_eq_mod) simp
qed

text \<open>
  The layout found for a disk image lies inside the file, consists of whole 512-byte
  blocks and leaves less than one block over.
\<close>

theorem disk_layout:
  "case FileDiskLayout sz of (start, len) \<Rightarrow>
     0 \<le> start \<and> len mod 512 = 0 \<and> start + len \<le> sz \<and> sz < start + len + 512"
proof -
  have "(419200 :: int) AND NOT 511 = 418816" "(838400 :: int) AND NOT 511 = 838144" by simp_all
  then show ?thesis
    by (auto simp: FileDiskLayout_def Let_def and_511 minus_mod_eq_mult_div)
qed

section \<open>DebugUtil\<close>

definition DebugUtil ::
    "handler \<Rightarrow> (u32 \<Rightarrow> u32 \<Rightarrow> u32 \<Rightarrow> mac_mem \<Rightarrow> mac_mem) option \<Rightarrow> nat \<Rightarrow> u32 \<Rightarrow> mac_mem \<times> adb \<Rightarrow>
     adb_error + u32 \<times> mac_mem \<times> adb" where
  "DebugUtil exec ppc fuel selector ms =
     (if selector = 0 then Inr (3, ms)
      else if selector = 1 \<or> selector = 2 then Inr (0, ms)
      else if selector = 3 then
        (case ADBInterrupt exec ppc fuel ms of Inl e \<Rightarrow> Inl e | Inr ms1 \<Rightarrow> Inr (0, ms1))
      else Inr (word_of_int paramErr, ms))"

section \<open>Dates\<close>

text \<open>The fields of \<open>struct tm\<close> the code uses, as \<open>localtime\<close> delivers them.\<close>

record tm =
  tm_year :: int
  tm_yday :: int
  tm_hour :: int
  tm_min :: int
  tm_sec :: int

definition mac_days :: "tm \<Rightarrow> int" where
  "mac_days local =
     (let TM_EPOCH_YEAR = 1900; MAC_EPOCH_YEAR = 1904;
          a4 = drop_bit 2 (tm_year local + TM_EPOCH_YEAR) - of_bool (tm_year local AND 3 = 0);
          b4 = drop_bit 2 MAC_EPOCH_YEAR - of_bool (MAC_EPOCH_YEAR AND 3 = 0);
          a100 = a4 sdiv 25 - of_bool (a4 smod 25 < 0);
          b100 = b4 sdiv 25 - of_bool (b4 smod 25 < 0);
          a400 = drop_bit 2 a100; b400 = drop_bit 2 b100;
          intervening_leap_days = (a4 - b4) - (a100 - b100) + (a400 - b400)
      in tm_yday local + 365 * (tm_year local - 4) + intervening_leap_days)"

definition TimeToMacTime :: "tm \<Rightarrow> u32" where
  "TimeToMacTime local =
     (let days = word_of_int (mac_days local) in
      word_of_int (tm_sec local) + 60 * (word_of_int (tm_min local) + 60 * (word_of_int (tm_hour local) + 24 * days)))"

text \<open>\<open>base\<close> is what \<open>mktime\<close> returns for 1 January 1904, 0:00 local time.\<close>

definition MacTimeToTime :: "int \<Rightarrow> u32 \<Rightarrow> int" where
  "MacTimeToTime base t = (if base = - 1 then - 1 else base + int (unat t))"

text \<open>The Gregorian calendar, year by year.\<close>

definition leap_year :: "int \<Rightarrow> bool" where
  "leap_year y \<longleftrightarrow> 4 dvd y \<and> (\<not> 100 dvd y \<or> 400 dvd y)"

definition year_days :: "int \<Rightarrow> int" where
  "year_days y = 365 + of_bool (leap_year y)"

lemma div_step: "0 < (c :: int) \<Longrightarrow> y div c = (y - 1) div c + of_bool (c dvd y)"
proof -
  assume c: "0 < c"
  show ?thesis
  proof (cases "c dvd y")
    case True
    then obtain q where q: "y = c * q" by blast
    have "(c * q - 1) div c = q - 1"
      by (rule int_div_pos_eq [where r = "c - 1"]) (use c in \<open>simp_all add: algebra_simps\<close>)
    with q c show ?thesis by simp
  next
    case False
    then have "0 < y mod c" using c by (simp add: mod_eq_0_iff_dvd [symmetric] order_less_le)
    have "(y - 1) div c = y div c"
      by (rule int_div_pos_eq [where r = "y mod c - 1"])
        (use c \<open>0 < y mod c\<close> pos_mod_bound [OF c, of y] in \<open>simp_all add: algebra_simps\<close>)
    with False show ?thesis by simp
  qed
qed

definition leaps_before :: "int \<Rightarrow> int" where
  "leaps_before y = (y - 1) div 4 - (y - 1) div 100 + (y - 1) div 400"

lemma leap_combine:
  assumes "q4 = p4 + of_bool A" and "q100 = p100 + of_bool B" and "q400 = p400 + (of_bool C :: int)"
    and "C \<longrightarrow> B" and "B \<longrightarrow> A"
  shows "q4 - q100 + q400 = p4 - p100 + p400 + of_bool (A \<and> (\<not> B \<or> C))"
  using assms by (cases A; cases B; cases C) simp_all

lemma leaps_before_step: "leaps_before (y + 1) = leaps_before y + of_bool (leap_year y)"
proof -
  have "400 dvd y \<longrightarrow> 100 dvd y" "100 dvd y \<longrightarrow> 4 dvd y"
    using dvd_trans [of "100 :: int" 400 y] dvd_trans [of "4 :: int" 100 y] by simp_all
  then show ?thesis
    unfolding leaps_before_def leap_year_def add_diff_cancel_right'
    by (intro leap_combine div_step) simp_all
qed

lemma days_from_1904:
  "(\<Sum>y \<in> {1904 ..< 1904 + int n}. year_days y) = 365 * int n + leaps_before (1904 + int n) - 460"
proof (induction n)
  case (Suc n)
  have "{1904 ..< 1904 + int (Suc n)} = insert (1904 + int n) {1904 ..< 1904 + int n}" by auto
  with Suc leaps_before_step [of "1904 + int n"] show ?case
    by (simp add: year_days_def algebra_simps)
qed (simp add: leaps_before_def)

lemma sdiv_nonneg: "0 \<le> a \<Longrightarrow> a sdiv 25 = a div 25" "0 \<le> a \<Longrightarrow> (a smod 25 < 0) = False" for a :: int
proof -
  assume "0 \<le> a"
  then show "a sdiv 25 = a div 25" by (cases "a = 0") (simp_all add: signed_divide_int_def)
  have "0 \<le> a smod 25" using \<open>0 \<le> a\<close> by (cases "a = 0") (simp_all add: signed_modulo_int_def)
  then show "(a smod 25 < 0) = False" by simp
qed

lemma code_leap_days:
  assumes "4 \<le> y"
  shows "let a4 = drop_bit 2 (y + 1900) - of_bool (y AND 3 = 0); a100 = a4 sdiv 25 - of_bool (a4 smod 25 < 0)
    in a4 - a100 + drop_bit 2 a100 = leaps_before (y + 1900)"
proof -
  have "(3 :: int) = mask 2" by (simp add: mask_eq_exp_minus_1)
  then have m: "y AND 3 = y mod 4" by (simp only: take_bit_eq_mask [symmetric] take_bit_eq_mod) simp
  have "(y + 1900) div 4 = (y + 1899) div 4 + of_bool (4 dvd y + 1900)" using div_step [of 4 "y + 1900"] by simp
  moreover have "4 dvd y + 1900 \<longleftrightarrow> y mod 4 = 0" by presburger
  ultimately have a4: "drop_bit 2 (y + 1900) - of_bool (y AND 3 = 0) = (y + 1899) div 4"
    by (simp add: drop_bit_eq_div m)
  have "0 \<le> (y + 1899) div 4" using assms by simp
  note sd = sdiv_nonneg [OF this]
  have "(y + 1899) div 4 div 25 = (y + 1899) div 100" "(y + 1899) div 100 div 4 = (y + 1899) div 400"
    by (simp_all flip: zdiv_zmult2_eq)
  then show ?thesis
    unfolding a4 Let_def sd by (simp add: drop_bit_eq_div leaps_before_def add.commute)
qed

text \<open>
  The Mac date of a local time is the number of seconds since 1904 that counting the days
  of the Gregorian calendar year by year gives (as a 32-bit number).
\<close>

theorem mac_time_counts_days:
  assumes "4 \<le> tm_year local"
  shows "TimeToMacTime local = word_of_int (tm_sec local + 60 * (tm_min local + 60 * (tm_hour local
    + 24 * (tm_yday local + (\<Sum>y \<in> {1904 ..< 1900 + tm_year local}. year_days y)))))"
proof -
  define n where "n = nat (tm_year local - 4)"
  have n: "1900 + tm_year local = 1904 + int n" "365 * int n = 365 * (tm_year local - 4)" using assms by (simp_all add: n_def)
  have y: "leaps_before (1904 + int n) = leaps_before (tm_year local + 1900)" using n(1) by (simp add: add.commute)
  have b: "(475 :: int) sdiv 25 = 19" "((475 :: int) smod 25 < 0) = False" by (simp_all add: sdiv_nonneg)
  have "mac_days local = tm_yday local + (\<Sum>y \<in> {1904 ..< 1900 + tm_year local}. year_days y)"
    using code_leap_days [OF assms] unfolding n(1) days_from_1904 n(2) y mac_days_def Let_def by (simp add: b)
  then show ?thesis by (simp add: TimeToMacTime_def Let_def)
qed

section \<open>Witnesses\<close>

theorem enqueue_appends_witness:
  "mac_queue (EnqueueMac 0x3000 0x1000 (EnqueueMac 0x2000 0x1000 (\<lambda>_. 0))) 0x1000 [0x2000, 0x3000]"
proof -
  have "mac_queue (\<lambda>_. 0) 0x1000 []"
    by (simp add: mac_queue_def ReadMacInt32_def load32_def peek_def be32_def)
  from enqueue_appends [OF this, of "0x2000"] have "mac_queue (EnqueueMac 0x2000 0x1000 (\<lambda>_. 0)) 0x1000 [0x2000]"
    by (simp add: queue_apart_def links_apart_def)
  from enqueue_appends [OF this, of "0x3000"] show ?thesis
    by (simp add: queue_apart_def links_apart_def)
qed

theorem find_free_drive_witness:
  "FindFreeDriveNumber 5 (WriteMacInt32 0x30a 0x2006 (WriteMacInt16 0x200c 1 (\<lambda>_. 0))) 1 = Some 2"
proof -
  let ?m = "WriteMacInt32 0x30a 0x2006 (WriteMacInt16 0x200c 1 (\<lambda>_. 0))"
  have zero: "ReadMacInt32 (\<lambda>_. 0) a = 0" for a
    by (simp add: ReadMacInt32_def load32_def peek_def be32_def)
  have "ReadMacInt32 ?m 0x30a = 0x2006" "ReadMacInt32 ?m 0x2006 = 0" "ReadMacInt16 ?m 0x200c = 1"
    by (simp_all add: Read32_Write32 Read16_Write16 read_write_clear zero)
  then have c: "chain ?m (ReadMacInt32 ?m (0x308 + qHead)) [0x2006]" and d: "drive_numbers ?m [0x2006] = [1]"
    by (simp_all add: drive_numbers_def)
  from find_free_drive [OF c, of 5 1] obtain n where n: "n \<ge> 1" "FindFreeDriveNumber 5 ?m 1 = Some n" "n \<noteq> 1"
    "{1 ..< n} \<subseteq> {1}" by (auto simp: d)
  have "n = 2"
  proof (rule ccontr)
    assume "n \<noteq> 2"
    with n(1,3) have "2 \<in> {1 ..< n}" by simp
    with n(4) have "(2 :: int) \<in> {1}" by (rule subsetD)
    then show False by simp
  qed
  with n(2) show ?thesis by simp
qed

theorem mac_time_counts_days_witness:
  "TimeToMacTime \<lparr>tm_year = 100, tm_yday = 60, tm_hour = 12, tm_min = 0, tm_sec = 0\<rparr> = 3034756800"
proof -
  have "(\<Sum>y \<in> {1904 ..< 2000}. year_days y) = 35064"
    using days_from_1904 [of 96] by (simp add: leaps_before_def)
  then show ?thesis
    using mac_time_counts_days [of "\<lparr>tm_year = 100, tm_yday = 60, tm_hour = 12, tm_min = 0, tm_sec = 0\<rparr>"] by simp
qed

end
