(* ===== verification/Host_Clock.thy ===== *)
theory Host_Clock
  imports Mac_Util
begin

text \<open>
  Time: the arithmetic on host times and the conversions to Mac times of
  \<^verbatim>\<open>src/core/timer_unix.cpp\<close> (the \<open>HAVE_CLOCK_GETTIME\<close> branches, seconds and
  nanoseconds), and the virtual clock of \<^verbatim>\<open>src/common/vclock.cpp\<close> and \<^verbatim>\<open>vclock.h\<close>, which
  counts executed instructions. Host times are pairs of integers (\<open>time_t\<close> and \<open>long\<close> have 64
  bits, far more than the values reach); results the code narrows to 32 bits are narrowed
  here. The host's clock and the PPC core's instruction counter are arguments.
\<close>

section \<open>Host times\<close>

record tm_time =
  tv_sec :: int
  tv_nsec :: int

definition int32 :: "int \<Rightarrow> int" where
  "int32 x = sint (word_of_int x :: u32)"

definition timer_add_time :: "tm_time \<Rightarrow> tm_time \<Rightarrow> tm_time" where
  "timer_add_time a b =
     (let s = tv_sec a + tv_sec b; n = tv_nsec a + tv_nsec b in
      if 1000000000 \<le> n then \<lparr>tv_sec = s + 1, tv_nsec = n - 1000000000\<rparr> else \<lparr>tv_sec = s, tv_nsec = n\<rparr>)"

definition timer_sub_time :: "tm_time \<Rightarrow> tm_time \<Rightarrow> tm_time" where
  "timer_sub_time a b =
     (let s = tv_sec a - tv_sec b; n = tv_nsec a - tv_nsec b in
      if n < 0 then \<lparr>tv_sec = s - 1, tv_nsec = n + 1000000000\<rparr> else \<lparr>tv_sec = s, tv_nsec = n\<rparr>)"

text \<open>The difference is returned as a 32-bit \<open>int\<close>.\<close>

definition timer_cmp_time :: "tm_time \<Rightarrow> tm_time \<Rightarrow> int" where
  "timer_cmp_time a b =
     (if tv_sec a = tv_sec b then int32 (tv_nsec a - tv_nsec b) else int32 (tv_sec a - tv_sec b))"

definition timer_mac2host_time :: "int \<Rightarrow> tm_time" where
  "timer_mac2host_time mactime =
     (if 0 < mactime
      then \<lparr>tv_sec = mactime sdiv 1000, tv_nsec = (mactime smod 1000) * 1000000\<rparr>
      else \<lparr>tv_sec = int32 (- mactime) sdiv 1000000, tv_nsec = (int32 (- mactime) smod 1000000) * 1000\<rparr>)"

definition timer_host2mac_time :: "tm_time \<Rightarrow> int" where
  "timer_host2mac_time hosttime =
     (if tv_sec hosttime < 0 then 0
      else
        let t = word_of_int (tv_sec hosttime * 1000000 + tv_nsec hosttime sdiv 1000) :: u64 in
        if 0x7fffffff < t then int32 (int (unat (t div 1000))) else int32 (- int (unat t)))"

text \<open>The length of a host time in nanoseconds; normalised times have less than a second of them.\<close>

definition ns :: "tm_time \<Rightarrow> int" where
  "ns t = tv_sec t * 1000000000 + tv_nsec t"

definition time_norm :: "tm_time \<Rightarrow> bool" where
  "time_norm t \<longleftrightarrow> 0 \<le> tv_nsec t \<and> tv_nsec t < 1000000000"

lemma add_time_ns: "ns (timer_add_time a b) = ns a + ns b"
  by (simp add: timer_add_time_def ns_def Let_def algebra_simps)

lemma sub_time_ns: "ns (timer_sub_time a b) = ns a - ns b"
  by (simp add: timer_sub_time_def ns_def Let_def algebra_simps)

lemma time_norm_ops: "time_norm a \<Longrightarrow> time_norm b \<Longrightarrow> time_norm (timer_add_time a b)"
  "time_norm a \<Longrightarrow> time_norm b \<Longrightarrow> time_norm (timer_sub_time a b)"
  by (auto simp: timer_add_time_def timer_sub_time_def time_norm_def Let_def)

lemma int32_small: "- 2147483648 \<le> x \<Longrightarrow> x < 2147483648 \<Longrightarrow> int32 x = x"
  unfolding int32_def by (simp add: sint_sbintrunc' signed_take_bit_int_eq_self)

lemma ns_less:
  assumes "time_norm a" and "time_norm b"
  shows "ns a < ns b \<longleftrightarrow> tv_sec a < tv_sec b \<or> tv_sec a = tv_sec b \<and> tv_nsec a < tv_nsec b"
  using assms by (auto simp: ns_def time_norm_def)

lemma ns_eq: "time_norm a \<Longrightarrow> time_norm b \<Longrightarrow> ns a = ns b \<longleftrightarrow> a = b"
  using ns_less [of a b] ns_less [of b a] by (cases a; cases b) auto

text \<open>Times before the year 2038 compare as they should.\<close>

definition sec31 :: "tm_time \<Rightarrow> bool" where
  "sec31 t \<longleftrightarrow> time_norm t \<and> 0 \<le> tv_sec t \<and> tv_sec t < 2147483648"

lemma cmp_time:
  assumes "sec31 a" and "sec31 b"
  shows "timer_cmp_time a b < 0 \<longleftrightarrow> ns a < ns b" and "timer_cmp_time a b \<le> 0 \<longleftrightarrow> ns a \<le> ns b"
proof -
  have n: "time_norm a" "time_norm b" using assms by (simp_all add: sec31_def)
  have i: "int32 (tv_nsec a - tv_nsec b) = tv_nsec a - tv_nsec b" "int32 (tv_sec a - tv_sec b) = tv_sec a - tv_sec b"
    using assms by (auto simp: sec31_def time_norm_def intro!: int32_small)
  show less: "timer_cmp_time a b < 0 \<longleftrightarrow> ns a < ns b"
    unfolding ns_less [OF n] timer_cmp_time_def i by auto
  have "timer_cmp_time a b = 0 \<longleftrightarrow> a = b"
    unfolding timer_cmp_time_def i by (cases a; cases b) auto
  with less show "timer_cmp_time a b \<le> 0 \<longleftrightarrow> ns a \<le> ns b" using ns_eq [OF n] by linarith
qed

section \<open>Mac times\<close>

lemma sdiv_pos: "0 \<le> a \<Longrightarrow> 0 < c \<Longrightarrow> a sdiv c = a div c" "0 \<le> a \<Longrightarrow> 0 < c \<Longrightarrow> a smod c = a mod c" for a c :: int
  by (cases "a = 0"; simp add: signed_divide_int_def signed_modulo_int_def)+

lemma mac2host_pos:
  assumes "0 < t"
  shows "timer_mac2host_time t = \<lparr>tv_sec = t div 1000, tv_nsec = (t mod 1000) * 1000000\<rparr>"
  using assms by (simp add: timer_mac2host_time_def sdiv_pos)

lemma mac2host_neg:
  assumes "- 2147483648 < t" and "t \<le> 0"
  shows "timer_mac2host_time t = \<lparr>tv_sec = (- t) div 1000000, tv_nsec = ((- t) mod 1000000) * 1000\<rparr>"
proof -
  have i: "int32 (- t) = - t" using assms by (intro int32_small) simp_all
  have s: "(- t) sdiv 1000000 = (- t) div 1000000" "(- t) smod 1000000 = (- t) mod 1000000"
    by (rule sdiv_pos; use assms(2) in simp)+
  have "(0 < t) = False" using assms(2) by simp
  then show ?thesis unfolding timer_mac2host_time_def i s by (simp only: if_False)
qed

lemma host2mac_usec:
  assumes "0 \<le> tv_sec h" and "0 \<le> tv_nsec h" and "u = tv_sec h * 1000000 + tv_nsec h div 1000"
    and "u < 2147483648000"
  shows "timer_host2mac_time h = (if u \<le> 2147483647 then - u else u div 1000)"
proof -
  let ?t = "word_of_int u :: u64"
  have u: "0 \<le> u" using assms(1-3) by simp
  have "int (unat ?t) = u" using u assms(4) by (simp add: uint_word_of_int)
  then have t: "unat ?t = nat u" by linarith
  have d: "int (unat (?t div 1000)) = u div 1000" using u by (simp add: unat_div t zdiv_int)
  have less: "0x7fffffff < ?t \<longleftrightarrow> 2147483647 < u" using u by (simp add: word_less_nat_alt t zless_nat_eq_int_zless)
  have i: "u \<le> 2147483647 \<Longrightarrow> int32 (- u) = - u" "int32 (u div 1000) = u div 1000"
    using u assms(4) by (auto intro!: int32_small)
  show ?thesis
    using assms(1,2) i less unfolding timer_host2mac_time_def Let_def
    by (simp add: sdiv_pos assms(3) [symmetric] d [simplified] t u)
qed

lemma mac_time_round_trip_parts:
  assumes "- 2147483648 < t" and "t < 2147483648"
  shows "timer_host2mac_time (timer_mac2host_time t)
      = (if t \<le> 0 then t else if t * 1000 \<le> 2147483647 then - (t * 1000) else t)
    \<and> ns (timer_mac2host_time t) = (if t \<le> 0 then - t * 1000 else t * 1000000)
    \<and> sec31 (timer_mac2host_time t)"
proof (cases "t \<le> 0")
  case True
  have e: "(- t) div 1000000 * 1000000 + (- t) mod 1000000 = - t" by (rule div_mult_mod_eq)
  have "timer_host2mac_time (timer_mac2host_time t) = t"
    unfolding mac2host_neg [OF assms(1) True] using assms True e
    by (subst host2mac_usec [where u = "- t"]) simp_all
  moreover have "ns (timer_mac2host_time t) = - t * 1000"
    unfolding mac2host_neg [OF assms(1) True] ns_def tm_time.select_convs using e by linarith
  moreover have "sec31 (timer_mac2host_time t)"
  proof -
    have m: "0 \<le> (- t) mod 1000000" "(- t) mod 1000000 < 1000000" by simp_all
    have "0 \<le> (- t) div 1000000" using True by (simp add: pos_imp_zdiv_nonneg_iff)
    then show ?thesis
      unfolding mac2host_neg [OF assms(1) True] sec31_def time_norm_def tm_time.select_convs
      using e m assms True by linarith
  qed
  ultimately show ?thesis using True by simp
next
  case False
  then have pos: "0 < t" by simp
  have e: "t div 1000 * 1000 + t mod 1000 = t" by (rule div_mult_mod_eq)
  have e2: "t div 1000 * 1000000 + t mod 1000 * 1000 = t * 1000" using e by linarith
  have "t mod 1000 * 1000000 div 1000 = t mod 1000 * 1000"
    using div_mult_mult1 [of 1000 "t mod 1000 * 1000" 1] by (simp add: mult.commute mult.left_commute)
  then have "timer_host2mac_time (timer_mac2host_time t)
      = (if t * 1000 \<le> 2147483647 then - (t * 1000) else t * 1000 div 1000)"
    unfolding mac2host_pos [OF pos] using assms pos e2
    by (subst host2mac_usec [where u = "t * 1000"]) (simp_all add: mult.commute)
  moreover have "ns (timer_mac2host_time t) = t * 1000000"
    unfolding mac2host_pos [OF pos] ns_def tm_time.select_convs using e by linarith
  moreover have "sec31 (timer_mac2host_time t)"
  proof -
    have m: "0 \<le> t mod 1000" "t mod 1000 < 1000" by simp_all
    have "0 \<le> t div 1000" using pos by (simp add: pos_imp_zdiv_nonneg_iff)
    then show ?thesis
      unfolding mac2host_pos [OF pos] sec31_def time_norm_def tm_time.select_convs
      using e m assms by linarith
  qed
  ultimately show ?thesis using False by simp
qed

text \<open>
  C22: converting a Mac delay to host time and back keeps its length: microseconds come back
  as they were, milliseconds come back as microseconds where these fit into 31 bits and
  unchanged otherwise; and the host time in between has exactly that length.
\<close>

theorem mac_time_round_trip:
  assumes "- 2147483648 < t" and "t < 2147483648"
  shows "timer_host2mac_time (timer_mac2host_time t)
      = (if t \<le> 0 then t else if t * 1000 \<le> 2147483647 then - (t * 1000) else t)
    \<and> ns (timer_mac2host_time t) = (if t \<le> 0 then - t * 1000 else t * 1000000)
    \<and> sec31 (timer_mac2host_time t)"
  by (rule mac_time_round_trip_parts [OF assms])

theorem mac_time_round_trip_witness:
  "timer_host2mac_time (timer_mac2host_time 20) = - 20000 \<and> timer_host2mac_time (timer_mac2host_time 3000000) = 3000000"
  using mac_time_round_trip [of 20] mac_time_round_trip [of 3000000] by simp

text \<open>
  Comparing two times more than 2^31 seconds apart goes wrong, because the difference is
  narrowed to an \<open>int\<close>: the later time compares as the earlier one.
\<close>

theorem cmp_time_wraps:
  "timer_cmp_time \<lparr>tv_sec = 2147483648 + 5, tv_nsec = 0\<rparr> \<lparr>tv_sec = 5, tv_nsec = 0\<rparr> < 0
   \<and> ns \<lparr>tv_sec = 5, tv_nsec = 0\<rparr> < ns \<lparr>tv_sec = 2147483648 + 5, tv_nsec = 0\<rparr>"
  by (simp add: timer_cmp_time_def int32_def ns_def)

section \<open>The virtual clock\<close>

abbreviation VCLOCK_INSNS_PER_USEC :: u64 where "VCLOCK_INSNS_PER_USEC \<equiv> 20"
abbreviation VCLOCK_START_UNIX :: u64 where "VCLOCK_START_UNIX \<equiv> 1767225600"
abbreviation VCLOCK_START_MAC :: u64 where "VCLOCK_START_MAC \<equiv> VCLOCK_START_UNIX + 2082844800"
abbreviation VCLOCK_APP_START_USEC :: u64 where "VCLOCK_APP_START_USEC \<equiv> 100000000"

record vclock =
  vclock_enabled :: bool
  vclock_app_lo :: u32
  vclock_app_hi :: u32
  vclock_app_insns :: u64
  vclock_rebased :: bool
  vclock_idle_depth :: int
  vclock_ram_top :: u32
  vclock_skipped :: u64

definition vclock_start :: vclock where
  "vclock_start = \<lparr>vclock_enabled = False, vclock_app_lo = 0xffffffff, vclock_app_hi = 0, vclock_app_insns = 0,
     vclock_rebased = False, vclock_idle_depth = 0, vclock_ram_top = 0x40000000, vclock_skipped = 0\<rparr>"

definition vclock_usec :: "vclock \<Rightarrow> u64" where
  "vclock_usec c = vclock_app_insns c div VCLOCK_INSNS_PER_USEC + vclock_skipped c"

definition vclock_mac_time :: "vclock \<Rightarrow> u32" where
  "vclock_mac_time c = ucast (VCLOCK_START_MAC + vclock_usec c div 1000000)"

definition vclock_count :: "u32 \<Rightarrow> vclock \<Rightarrow> vclock" where
  "vclock_count pc c =
     (if \<not> vclock_rebased c \<or> vclock_idle_depth c \<noteq> 0 \<or> (vclock_app_lo c \<le> pc \<and> pc < vclock_app_hi c)
      then c\<lparr>vclock_app_insns := vclock_app_insns c + 1\<rparr> else c)"

definition vclock_skip_to :: "u64 \<Rightarrow> vclock \<Rightarrow> vclock" where
  "vclock_skip_to usec c =
     (let now = vclock_usec c in
      if now < usec then c\<lparr>vclock_skipped := vclock_skipped c + (usec - now)\<rparr> else c)"

definition vclock_rebase :: "vclock \<Rightarrow> vclock" where
  "vclock_rebase c =
     (if vclock_rebased c then c else vclock_skip_to VCLOCK_APP_START_USEC (c\<lparr>vclock_rebased := True\<rparr>))"

text \<open>\<open>host\<close> is the platform's address translation: the four bytes at a guest address.\<close>

definition vclock_peek :: "(u32 \<Rightarrow> (u8 \<times> u8 \<times> u8 \<times> u8) option) \<Rightarrow> u32 \<Rightarrow> u32" where
  "vclock_peek host a = (case host a of Some (p0, p1, p2, p3) \<Rightarrow> be32 p0 p1 p2 p3 | None \<Rightarrow> 0)"

definition vclock_quantum ::
    "(u32 \<Rightarrow> (u8 \<times> u8 \<times> u8 \<times> u8) option) \<Rightarrow> (vclock \<Rightarrow> vclock) option \<Rightarrow> vclock \<Rightarrow> vclock" where
  "vclock_quantum host poll_hook c =
     (let top = vclock_ram_top c;
          sys = vclock_peek host 0x2a6;
          lo = (if 0x2000 \<le> sys \<and> sys < top then vclock_peek host sys else 0);
          c1 = (if 0x2000 < lo \<and> lo < top then c\<lparr>vclock_app_lo := lo, vclock_app_hi := top\<rparr> else c)
      in (case poll_hook of None \<Rightarrow> c1 | Some hook \<Rightarrow> hook c1))"

text \<open>The time the emulator sees: virtual, the PPC core's instruction count, or the host's clock.\<close>

definition timer_current_time :: "vclock \<Rightarrow> u64 option \<Rightarrow> tm_time \<Rightarrow> tm_time" where
  "timer_current_time c ppc_insn_count realtime =
     (if vclock_enabled c then
        (let usec = vclock_usec c in
         \<lparr>tv_sec = int (unat (usec div 1000000)), tv_nsec = int (unat ((usec mod 1000000) * 1000))\<rparr>)
      else case ppc_insn_count of
        Some n \<Rightarrow> (let virtual_ns = n * 4 in
          \<lparr>tv_sec = int (unat (virtual_ns div 1000000000)), tv_nsec = int (unat (virtual_ns mod 1000000000))\<rparr>)
      | None \<Rightarrow> realtime)"

text \<open>The first call remembers the clock; later ones return the time since.\<close>

definition host_uptime :: "tm_time option \<Rightarrow> tm_time \<Rightarrow> tm_time \<times> tm_time option" where
  "host_uptime host_clock now =
     (let start = (case host_clock of Some h \<Rightarrow> h | None \<Rightarrow> now) in (timer_sub_time now start, Some start))"

definition hi_lo :: "u64 \<Rightarrow> u32 \<times> u32" where
  "hi_lo us = (ucast (drop_bit 32 us), ucast us)"

definition Microseconds ::
    "vclock \<Rightarrow> u64 option \<Rightarrow> tm_time \<Rightarrow> tm_time option \<Rightarrow> (u32 \<times> u32) \<times> tm_time option" where
  "Microseconds c ppc realtime host_clock =
     (if vclock_enabled c then (hi_lo (vclock_usec c), host_clock)
      else case host_uptime host_clock (timer_current_time c ppc realtime) of
        (t, h) \<Rightarrow> (hi_lo (word_of_int (tv_sec t) * 1000000 + word_of_int (tv_nsec t sdiv 1000)), h))"

definition TimerDateTime :: "vclock \<Rightarrow> tm \<Rightarrow> u32" where
  "TimerDateTime c local = (if vclock_enabled c then vclock_mac_time c else TimeToMacTime local)"

section \<open>The virtual clock never goes back\<close>

lemma usec_skip_to: "vclock_usec (vclock_skip_to u c) = max u (vclock_usec c)"
  by (simp add: vclock_skip_to_def vclock_usec_def Let_def max_def) (metis linorder_not_less order_less_imp_le)

lemma usec_rebase: "vclock_usec (vclock_rebase c)
    = (if vclock_rebased c then vclock_usec c else max VCLOCK_APP_START_USEC (vclock_usec c))"
  unfolding vclock_rebase_def usec_skip_to by (simp add: usec_skip_to) (simp add: vclock_usec_def)

datatype vclock_op = Count u32 | Skip u64 | Rebase

fun vclock_step :: "vclock_op \<Rightarrow> vclock \<Rightarrow> vclock" where
  "vclock_step (Count pc) = vclock_count pc"
| "vclock_step (Skip u) = vclock_skip_to u"
| "vclock_step Rebase = vclock_rebase"

fun skip_target :: "vclock_op \<Rightarrow> nat" where
  "skip_target (Count pc) = 0"
| "skip_target (Skip u) = unat u"
| "skip_target Rebase = unat VCLOCK_APP_START_USEC"

lemma usec_count:
  assumes "unat (vclock_app_insns c) + 1 < 2 ^ 64" and "unat (vclock_usec c) + 1 < 2 ^ 64"
  shows "unat (vclock_usec (vclock_count pc c)) \<in> {unat (vclock_usec c), unat (vclock_usec c) + 1}"
proof -
  let ?i = "vclock_app_insns c"
  have i: "unat (?i + 1) = unat ?i + 1" using assms(1) by (simp add: unat_add_lt)
  have "(unat ?i + 1) div 20 = unat ?i div 20 \<or> (unat ?i + 1) div 20 = unat ?i div 20 + 1" by linarith
  then consider "unat ((?i + 1) div 20) = unat (?i div 20)" | "unat ((?i + 1) div 20) = unat (?i div 20) + 1"
    by (auto simp: unat_div i)
  then have "(?i + 1) div 20 = ?i div 20 \<or> (?i + 1) div 20 = ?i div 20 + 1"
  proof cases
    case 1
    then show ?thesis by (simp add: word_unat_eq_iff)
  next
    case 2
    then have "unat ((?i + 1) div 20) = unat (?i div 20 + 1)"
      using unsigned_less [of "(?i + 1) div 20", where 'a = nat] by (simp add: unat_add_lt)
    then show ?thesis by (simp add: word_unat_eq_iff)
  qed
  then have "vclock_usec (vclock_count pc c) = vclock_usec c \<or> vclock_usec (vclock_count pc c) = vclock_usec c + 1"
    by (auto simp: vclock_count_def vclock_usec_def)
  then show ?thesis using assms(2) by (auto simp: unat_add_lt)
qed

lemma unat_max: "unat (max a b :: u64) = max (unat a) (unat b)"
  by (simp add: max_def word_le_nat_alt)

lemma step_usec:
  assumes "unat (vclock_app_insns c) + 1 < 2 ^ 64" and "unat (vclock_usec c) + 1 < 2 ^ 64"
  shows "vclock_usec c \<le> vclock_usec (vclock_step x c)
    \<and> unat (vclock_usec (vclock_step x c)) \<le> max (unat (vclock_usec c) + 1) (skip_target x)"
proof (cases x)
  case (Count pc)
  then show ?thesis using usec_count [OF assms, of pc] by (auto simp: word_le_nat_alt)
next
  case (Skip u)
  then show ?thesis by (simp add: usec_skip_to word_le_nat_alt unat_max)
next
  case Rebase
  have "unat VCLOCK_APP_START_USEC = 100000000" by simp
  with Rebase show ?thesis by (simp add: usec_rebase word_le_nat_alt unat_max)
qed

text \<open>
  C23: under any sequence of executed instructions, idle skips and the rebase at the
  application's start the virtual time never goes back, as long as 64 bits hold the counts.
\<close>

theorem vclock_monotone:
  assumes "unat (vclock_app_insns c) + length ops < 2 ^ 64"
    and "unat (vclock_usec c) + length ops < 2 ^ 64"
    and "list_all (\<lambda>x. skip_target x + length ops < 2 ^ 64) ops"
  shows "vclock_usec c \<le> vclock_usec (fold vclock_step ops c)"
  using assms
proof (induction ops arbitrary: c)
  case (Cons x ops)
  have i: "unat (vclock_app_insns (vclock_step x c)) \<le> unat (vclock_app_insns c) + 1"
    using Cons.prems(1)
    by (cases x) (auto simp: vclock_count_def vclock_skip_to_def vclock_rebase_def Let_def unat_add_lt)
  have u: "vclock_usec c \<le> vclock_usec (vclock_step x c)
      \<and> unat (vclock_usec (vclock_step x c)) \<le> max (unat (vclock_usec c) + 1) (skip_target x)"
    using Cons.prems by (intro step_usec) simp_all
  have "vclock_usec (vclock_step x c) \<le> vclock_usec (fold vclock_step ops (vclock_step x c))"
    using i u Cons.prems by (intro Cons.IH) (auto simp: list_all_iff)
  then have "vclock_usec (vclock_step x c) \<le> vclock_usec (fold vclock_step (x # ops) c)" by simp
  with u show ?case by (meson order_trans)
qed simp

theorem vclock_monotone_witness:
  "vclock_usec vclock_start \<le> vclock_usec (fold vclock_step [Count 0, Rebase, Count 7, Skip 5] vclock_start)"
  by (rule vclock_monotone) (simp_all add: vclock_start_def vclock_usec_def)

end
