(* ===== verification/Time_Manager.thy ===== *)
theory Time_Manager
  imports Host_Clock
begin

text \<open>
  The Mac's Time Manager: \<^verbatim>\<open>src/core/timer.cpp\<close> with \<open>PRECISE_TIMING_POSIX\<close>. Tasks live in
  guest memory; the emulator keeps a descriptor with the wake-up time for each and the time
  of the next interrupt.

  A descriptor carries the address it was allocated at (a number never used before), so that
  the pointer \<open>next\<close> that \<open>TimerInterrupt\<close> keeps over a callback can be seen to dangle. The
  mutex makes each operation one step; the timer thread is the step \<open>timer_func\<close>. The field
  \<open>wakeup\<close> of a new descriptor is uninitialised: \<open>junk\<close> is whatever it holds.
\<close>

section \<open>State\<close>

abbreviation tmAddr :: u32 where "tmAddr \<equiv> 6"
abbreviation tmCount :: u32 where "tmCount \<equiv> 10"
abbreviation tmWakeUp :: u32 where "tmWakeUp \<equiv> 14"

record TMDesc =
  desc_addr :: nat
  task :: u32
  wakeup :: tm_time

record timers =
  t_mem :: mac_mem
  tmDescList :: "TMDesc list"
  wakeup_time :: tm_time
  timer_intflag :: bool
  fresh_addr :: nat

definition wakeup_time_max :: tm_time where
  "wakeup_time_max = \<lparr>tv_sec = 0x7fffffff, tv_nsec = 999999999\<rparr>"

definition find_desc :: "u32 \<Rightarrow> timers \<Rightarrow> TMDesc option" where
  "find_desc tm s = find (\<lambda>d. task d = tm) (tmDescList s)"

fun unlink_desc :: "nat \<Rightarrow> TMDesc list \<Rightarrow> TMDesc list" where
  "unlink_desc a [] = []"
| "unlink_desc a (d # ds) = (if desc_addr d = a then ds else d # unlink_desc a ds)"

definition free_desc :: "TMDesc \<Rightarrow> timers \<Rightarrow> timers" where
  "free_desc d s = s\<lparr>tmDescList := unlink_desc (desc_addr d) (tmDescList s)\<rparr>"

definition TimerReset :: "timers \<Rightarrow> timers" where
  "TimerReset s = s\<lparr>tmDescList := []\<rparr>"

section \<open>Operations\<close>

definition task_flags :: "mac_mem \<Rightarrow> u32 \<Rightarrow> u32" where
  "task_flags m tm = ReadMacInt16 m (tm + qType)"

definition active :: "mac_mem \<Rightarrow> u32 \<Rightarrow> bool" where
  "active m tm \<longleftrightarrow> task_flags m tm AND 0x8000 \<noteq> 0"

definition set_flags :: "u32 \<Rightarrow> u32 \<Rightarrow> timers \<Rightarrow> timers" where
  "set_flags tm v s = s\<lparr>t_mem := WriteMacInt16 (tm + qType) v (t_mem s)\<rparr>"

definition new_wakeup :: "nat \<Rightarrow> tm_time \<Rightarrow> TMDesc \<Rightarrow> TMDesc" where
  "new_wakeup a w d = (if desc_addr d = a then d\<lparr>wakeup := w\<rparr> else d)"

definition set_wakeup :: "nat \<Rightarrow> tm_time \<Rightarrow> timers \<Rightarrow> timers" where
  "set_wakeup a w s = s\<lparr>tmDescList := map (new_wakeup a w) (tmDescList s)\<rparr>"

text \<open>The scan for the next task to be called.\<close>

definition next_wakeup :: "mac_mem \<Rightarrow> TMDesc list \<Rightarrow> tm_time" where
  "next_wakeup m ds =
     fold (\<lambda>d w. if active m (task d) \<and> timer_cmp_time (wakeup d) w < 0 then wakeup d else w) ds wakeup_time_max"

definition reschedule :: "timers \<Rightarrow> timers" where
  "reschedule s = s\<lparr>wakeup_time := next_wakeup (t_mem s) (tmDescList s)\<rparr>"

definition InsTime :: "tm_time \<Rightarrow> u32 \<Rightarrow> u16 \<Rightarrow> timers \<Rightarrow> timers" where
  "InsTime junk tm trap s =
     (let s1 = set_flags tm ((task_flags (t_mem s) tm AND 0x1fff) OR (push_bit 4 (ucast trap) AND 0x6000)) s in
      if find_desc tm s1 \<noteq> None then s1
      else s1\<lparr>tmDescList := \<lparr>desc_addr = fresh_addr s1, task = tm, wakeup = junk\<rparr> # tmDescList s1,
              fresh_addr := fresh_addr s1 + 1\<rparr>)"

definition RmvTime :: "tm_time \<Rightarrow> u32 \<Rightarrow> timers \<Rightarrow> timers" where
  "RmvTime now tm s =
     (case find_desc tm s of
        None \<Rightarrow> s
      | Some d \<Rightarrow>
          let s2 =
            (if active (t_mem s) tm then
               let s1 = reschedule (set_flags tm (task_flags (t_mem s) tm AND 0x7fff) s);
                   remaining = timer_sub_time (wakeup d) now
               in s1\<lparr>t_mem := WriteMacInt32 (tm + tmCount) (word_of_int (timer_host2mac_time remaining)) (t_mem s1)\<rparr>
             else s\<lparr>t_mem := WriteMacInt32 (tm + tmCount) 0 (t_mem s)\<rparr>)
          in free_desc d s2)"

text \<open>The new wake-up time: relative to the last scheduled one for a task that continues.\<close>

definition prime_wakeup :: "tm_time \<Rightarrow> TMDesc \<Rightarrow> int \<Rightarrow> mac_mem \<Rightarrow> tm_time" where
  "prime_wakeup now d time m =
     (if task_flags m (task d) AND 0x4000 \<noteq> 0 then
        (if ReadMacInt32 m (task d + tmWakeUp) \<noteq> 0 then
           timer_add_time (wakeup d)
             (timer_mac2host_time (if time = 0 then int32 (int (unat (ReadMacInt16 m (task d + tmCount)))) else time))
         else timer_add_time now (timer_mac2host_time time))
      else timer_add_time now (timer_mac2host_time time))"

definition PrimeTime :: "tm_time \<Rightarrow> u32 \<Rightarrow> int \<Rightarrow> timers \<Rightarrow> timers" where
  "PrimeTime now tm time s =
     (case find_desc tm s of
        None \<Rightarrow> s
      | Some d \<Rightarrow>
          let s1 = set_wakeup (desc_addr d) (prime_wakeup now d time (t_mem s)) s;
              s2 = (if task_flags (t_mem s) tm AND 0x4000 \<noteq> 0
                    then s1\<lparr>t_mem := WriteMacInt32 (tm + tmWakeUp) 0x12345678 (t_mem s1)\<rparr> else s1)
          in reschedule (set_flags tm (task_flags (t_mem s2) tm OR 0x8000) s2))"

section \<open>Interrupts\<close>

text \<open>One round of the timer thread after its wait, and the poll on the virtual clock.\<close>

definition TimerVirtualPoll :: "tm_time \<Rightarrow> timers \<Rightarrow> timers" where
  "TimerVirtualPoll now s =
     (if timer_cmp_time (wakeup_time s) now < 0
      then s\<lparr>wakeup_time := wakeup_time_max, timer_intflag := True\<rparr> else s)"

definition timer_func :: "bool \<Rightarrow> bool \<Rightarrow> tm_time \<Rightarrow> timers \<Rightarrow> timers" where
  "timer_func cancel vclock system_time s =
     (if cancel \<or> vclock then s
      else if timer_cmp_time (wakeup_time s) system_time < 0
      then s\<lparr>wakeup_time := wakeup_time_max, timer_intflag := True\<rparr> else s)"

datatype timer_error = Dangling_pointer | Loop_fuel

fun after_desc :: "nat \<Rightarrow> TMDesc list \<Rightarrow> (TMDesc \<times> nat option) option" where
  "after_desc a [] = None"
| "after_desc a (d # ds) =
     (if desc_addr d = a then Some (d, case ds of [] \<Rightarrow> None | e # _ \<Rightarrow> Some (desc_addr e)) else after_desc a ds)"

type_synonym timer_exec = "u32 \<Rightarrow> u32 \<Rightarrow> timers \<Rightarrow> timers"

definition run_task :: "timer_exec \<Rightarrow> u32 \<Rightarrow> timers \<Rightarrow> timers" where
  "run_task exec tm s =
     (let s1 = set_flags tm (task_flags (t_mem s) tm AND 0x7fff) s;
          addr = ReadMacInt32 (t_mem s1) (tm + tmAddr)
      in if addr \<noteq> 0 then exec addr tm s1 else s1)"

fun expire_loop :: "timer_exec \<Rightarrow> tm_time \<Rightarrow> nat \<Rightarrow> nat option \<Rightarrow> timers \<Rightarrow> timer_error + timers" where
  "expire_loop exec now 0 p s = Inl Loop_fuel"
| "expire_loop exec now (Suc n) None s = Inr s"
| "expire_loop exec now (Suc n) (Some a) s =
     (case after_desc a (tmDescList s) of
        None \<Rightarrow> Inl Dangling_pointer
      | Some (d, nxt) \<Rightarrow>
          expire_loop exec now n nxt
            (if active (t_mem s) (task d) \<and> timer_cmp_time (wakeup d) now \<le> 0
             then run_task exec (task d) s else s))"

definition TimerInterrupt :: "timer_exec \<Rightarrow> tm_time \<Rightarrow> nat \<Rightarrow> timers \<Rightarrow> timer_error + timers" where
  "TimerInterrupt exec now fuel s =
     (case expire_loop exec now fuel (case tmDescList s of [] \<Rightarrow> None | d # _ \<Rightarrow> Some (desc_addr d)) s of
        Inl e \<Rightarrow> Inl e
      | Inr s1 \<Rightarrow> Inr (reschedule s1))"

section \<open>Task flags\<close>

lemma and_bit: "x AND 0x8000 \<noteq> 0 \<longleftrightarrow> bit x 15" "x AND 0x4000 \<noteq> 0 \<longleftrightarrow> bit x 14" for x :: u32
  using and_exp_eq_0_iff_not_bit [of x 15] and_exp_eq_0_iff_not_bit [of x 14] by simp_all

lemma active_bit: "active m tm \<longleftrightarrow> bit (task_flags m tm) 15"
  by (simp add: active_def and_bit)

lemma flags_read [simp]: "task_flags (WriteMacInt16 (tm + qType) v m) tm = ucast (ucast v :: u16)"
  by (simp add: task_flags_def Read16_Write16)

lemma u16_bits [simp]: "n < 16 \<Longrightarrow> bit (ucast (ucast (v :: u32) :: u16) :: u32) n = bit v n"
  by (simp add: bit_simps)

text \<open>A task structure takes 22 bytes; those of two tasks do not overlap.\<close>

definition task_apart :: "u32 \<Rightarrow> u32 \<Rightarrow> bool" where
  "task_apart t u \<longleftrightarrow> clear_of t 22 u 22"

definition tasks_apart :: "u32 \<Rightarrow> TMDesc list \<Rightarrow> bool" where
  "tasks_apart tm ds \<longleftrightarrow> list_all (\<lambda>d. task d \<noteq> tm \<longrightarrow> task_apart tm (task d)) ds"



section \<open>The earliest wake-up\<close>

lemma max_sec31: "sec31 wakeup_time_max"
  by (simp add: sec31_def time_norm_def wakeup_time_max_def)

definition scan :: "mac_mem \<Rightarrow> TMDesc list \<Rightarrow> tm_time \<Rightarrow> tm_time" where
  "scan m = fold (\<lambda>d w. if active m (task d) \<and> timer_cmp_time (wakeup d) w < 0 then wakeup d else w)"

lemma scan_least:
  assumes "sec31 w" and "\<forall>d \<in> set ds. active m (task d) \<longrightarrow> sec31 (wakeup d)"
  shows "sec31 (scan m ds w) \<and> ns (scan m ds w) \<le> ns w
    \<and> (\<forall>d \<in> set ds. active m (task d) \<longrightarrow> ns (scan m ds w) \<le> ns (wakeup d))
    \<and> (scan m ds w = w \<or> (\<exists>d \<in> set ds. active m (task d) \<and> scan m ds w = wakeup d))"
  using assms
proof (induction ds arbitrary: w)
  case (Cons d ds)
  let ?w = "if active m (task d) \<and> timer_cmp_time (wakeup d) w < 0 then wakeup d else w"
  have w: "sec31 ?w" "ns ?w \<le> ns w" "active m (task d) \<longrightarrow> ns ?w \<le> ns (wakeup d)"
    using Cons.prems cmp_time(1) [of "wakeup d" w] by auto
  have "scan m (d # ds) w = scan m ds ?w" by (simp add: scan_def)
  with Cons.IH [OF w(1)] Cons.prems(2) w show ?case by (auto split: if_splits)
qed (simp add: scan_def)

text \<open>
  Whenever the wake-up time is recomputed it is the earliest one of the active tasks (or
  the end of time when none is active).
\<close>

theorem next_wakeup_least:
  assumes "list_all (\<lambda>d. active m (task d) \<longrightarrow> sec31 (wakeup d)) ds"
  shows "list_all (\<lambda>d. active m (task d) \<longrightarrow> ns (next_wakeup m ds) \<le> ns (wakeup d)) ds
    \<and> (next_wakeup m ds = wakeup_time_max
       \<or> list_ex (\<lambda>d. active m (task d) \<and> next_wakeup m ds = wakeup d) ds)"
  using scan_least [OF max_sec31, of ds m] assms
  by (simp add: next_wakeup_def scan_def list_all_iff list_ex_iff)

section \<open>No task is missed\<close>

text \<open>
  The state the operations keep: no task has two descriptors, the active tasks have legal wake-up times, and an interrupt
  is pending or scheduled no later than any of them.
\<close>

definition wf_descs :: "timers \<Rightarrow> bool" where
  "wf_descs s \<longleftrightarrow> distinct (map task (tmDescList s)) \<and> distinct (map desc_addr (tmDescList s))
     \<and> list_all (\<lambda>d. desc_addr d < fresh_addr s) (tmDescList s)"








lemma new_wakeup_keeps [simp]: "task (new_wakeup a w d) = task d" "desc_addr (new_wakeup a w d) = desc_addr d"
  "task \<circ> new_wakeup a w = task" "desc_addr \<circ> new_wakeup a w = desc_addr"
  by (auto simp: new_wakeup_def fun_eq_iff)

lemma wf_descs_simps [simp]: "wf_descs (set_flags tm v s) = wf_descs s" "wf_descs (set_wakeup a w s) = wf_descs s"
  "wf_descs (s\<lparr>t_mem := m\<rparr>) = wf_descs s" "wf_descs (reschedule s) = wf_descs s"
  "wf_descs (s\<lparr>timer_intflag := b\<rparr>) = wf_descs s" "wf_descs (s\<lparr>wakeup_time := w\<rparr>) = wf_descs s"
  by (simp_all add: wf_descs_def set_flags_def reschedule_def set_wakeup_def list_all_iff new_wakeup_keeps)

lemma bit_flag_masks: "bit ((x AND 0x1fff) OR (y AND 0x6000) :: u32) 15 = False" "bit (x AND 0x7fff :: u32) 15 = False"
  "bit (x OR 0x8000 :: u32) 15"
  by (simp_all add: bit_and_iff bit_or_iff)


lemma find_desc_task: "find_desc tm s = Some d \<Longrightarrow> task d = tm \<and> d \<in> set (tmDescList s)"
  by (auto simp: find_desc_def find_Some_iff)



text \<open>
  The steps of the program. A callback is the steps it makes, so one \<open>TimerInterrupt\<close> is a
  number of \<open>Expire\<close> steps with other steps between them and a \<open>Reschedule\<close>, which also ends
  the interrupt (\<open>timer_intflag\<close> counts as set until then). The guest may write to its
  memory as long as it leaves the active bits to the Time Manager. The times a task is
  primed to stay below 2038.
\<close>

inductive timer_step :: "timers \<Rightarrow> timers \<Rightarrow> bool" where
  Ins: "tasks_apart tm (tmDescList s) \<Longrightarrow> timer_step s (InsTime junk tm trap s)"
| Rmv: "tasks_apart tm (tmDescList s) \<Longrightarrow> timer_step s (RmvTime now tm s)"
| Prime: "tasks_apart tm (tmDescList s) \<Longrightarrow>
    \<forall>d. find_desc tm s = Some d \<longrightarrow> sec31 (prime_wakeup now d time (t_mem s)) \<Longrightarrow>
    timer_step s (PrimeTime now tm time s)"
| Poll: "timer_step s (TimerVirtualPoll now s)"
| Thread: "timer_step s (timer_func cancel vclock now s)"
| Expire: "tasks_apart tm (tmDescList s) \<Longrightarrow>
    timer_step s (set_flags tm (task_flags (t_mem s) tm AND 0x7fff) s)"
| Reschedule: "timer_step s ((reschedule s)\<lparr>timer_intflag := b\<rparr>)"
| Guest: "\<forall>d \<in> set (tmDescList s). active m (task d) = active (t_mem s) (task d) \<Longrightarrow> timer_step s (s\<lparr>t_mem := m\<rparr>)"
| Reset: "timer_step s (TimerReset s)"

inductive_cases timer_stepE: "timer_step s s'"



lemma set_flags_keeps [simp]: "tmDescList (set_flags tm v s) = tmDescList s" "wakeup_time (set_flags tm v s) = wakeup_time s"
  "timer_intflag (set_flags tm v s) = timer_intflag s" "fresh_addr (set_flags tm v s) = fresh_addr s"
  by (simp_all add: set_flags_def)



definition timers_start :: "mac_mem \<Rightarrow> timers" where
  "timers_start m = \<lparr>t_mem = m, tmDescList = [], wakeup_time = wakeup_time_max, timer_intflag = False, fresh_addr = 0\<rparr>"



section \<open>The interrupt calls what has expired\<close>








text \<open>
  A callback that removes the task next in the list (and frees its descriptor) leaves the
  interrupt with a dangling pointer.
\<close>

theorem callback_frees_next:
  "let m = WriteMacInt32 0x1006 0x5000 (WriteMacInt16 0x1004 0x8000 (\<lambda>_. 0));
       s = InsTime \<lparr>tv_sec = 0, tv_nsec = 0\<rparr> 0x1000 0 (InsTime \<lparr>tv_sec = 0, tv_nsec = 0\<rparr> 0x2000 0 (timers_start m));
       s' = PrimeTime \<lparr>tv_sec = 0, tv_nsec = 0\<rparr> 0x1000 1 s
   in TimerInterrupt (\<lambda>a t. RmvTime \<lparr>tv_sec = 5, tv_nsec = 0\<rparr> 0x2000) \<lparr>tv_sec = 5, tv_nsec = 0\<rparr> 10 s' = Inl Dangling_pointer"
  by code_simp

section \<open>The remaining time\<close>

lemma find_desc_keeps [simp]: "find_desc tm (set_flags u v s) = find_desc tm s" "find_desc tm (s\<lparr>t_mem := m\<rparr>) = find_desc tm s"
  "find_desc tm (reschedule s) = find_desc tm s"
  by (simp_all add: find_desc_def reschedule_def)

lemma find_set_wakeup:
  assumes "find_desc tm s = Some d"
  shows "find_desc tm (set_wakeup (desc_addr d) w s) = Some (d\<lparr>wakeup := w\<rparr>)"
proof -
  have "find (\<lambda>d. task d = tm) (map (new_wakeup a w) ds) = map_option (new_wakeup a w) (find (\<lambda>d. task d = tm) ds)" for a ds
    by (induction ds) auto
  then show ?thesis using assms by (simp add: find_desc_def set_wakeup_def new_wakeup_def)
qed

text \<open>
  A task primed with a delay in microseconds and removed before it runs gets the
  microseconds that remain, rounded down, as a negative number in \<open>tmCount\<close>.
\<close>

theorem remaining_time:
  assumes "find_desc tm s = Some d" and "\<not> bit (task_flags (t_mem s) tm) 14"
    and "- 2147483648 < time" and "time \<le> 0" and "time_norm start" and "time_norm now"
    and "ns start \<le> ns now" and "ns now \<le> ns start - time * 1000"
  shows "let s' = RmvTime now tm (PrimeTime start tm time s) in
    ReadMacInt32 (t_mem s') (tm + tmCount) = word_of_int (- ((- time * 1000 - (ns now - ns start)) div 1000))"
proof -
  let ?w = "timer_add_time start (timer_mac2host_time time)"
  have tm: "task d = tm" using find_desc_task [OF assms(1)] by simp
  have flag: "task_flags (t_mem s) tm AND 0x4000 = 0" using assms(2) and_bit(2) by blast
  have rt: "ns (timer_mac2host_time time) = - time * 1000" "sec31 (timer_mac2host_time time)"
    using mac_time_round_trip_parts [OF assms(3)] assms(4) by simp_all
  let ?r = "timer_sub_time ?w now"
  have r: "ns ?r = - time * 1000 - (ns now - ns start)" "time_norm ?r"
    using rt assms(5,6) time_norm_ops by (auto simp: sub_time_ns add_time_ns sec31_def)
  then have pos: "0 \<le> ns ?r" using assms(8) by simp
  have sec: "0 \<le> tv_sec ?r" "0 \<le> tv_nsec ?r" "tv_nsec ?r < 1000000000"
    using pos r(2) by (auto simp: ns_def time_norm_def)
  have u: "tv_sec ?r * 1000000 + tv_nsec ?r div 1000 = ns ?r div 1000"
  proof -
    have "(tv_nsec ?r + tv_sec ?r * 1000000 * 1000) div 1000 = tv_sec ?r * 1000000 + tv_nsec ?r div 1000"
      by (rule div_mult_self1) simp
    then show ?thesis by (simp add: ns_def add.commute)
  qed
  have bound: "ns ?r div 1000 \<le> 2147483647"
    using r(1) assms(3,7) by (intro order_trans [OF zdiv_mono1 [of "ns ?r" "2147483647 * 1000" 1000]]) simp_all
  have h: "timer_host2mac_time ?r = - (ns ?r div 1000)"
    using host2mac_usec [OF sec(1,2) u [symmetric]] bound by simp
  have act: "active (WriteMacInt16 (tm + qType) (task_flags (t_mem s) tm OR 0x8000) (t_mem s)) tm"
    by (simp add: active_bit bit_flag_masks)
  have f: "find_desc tm (PrimeTime start tm time s) = Some (d\<lparr>wakeup := ?w\<rparr>)"
    using assms(1) flag tm
    by (simp add: PrimeTime_def Let_def find_set_wakeup prime_wakeup_def)
  have m: "t_mem (PrimeTime start tm time s) = WriteMacInt16 (tm + qType) (task_flags (t_mem s) tm OR 0x8000) (t_mem s)"
    using assms(1) flag by (simp add: PrimeTime_def Let_def reschedule_def set_flags_def set_wakeup_def)
  show ?thesis
    using f act h r(1) unfolding RmvTime_def Let_def m
    by (simp add: m free_desc_def Read32_Write32)
qed


section \<open>Witnesses\<close>

text \<open>A task at \<open>0x1000\<close>, primed with 20 milliseconds at time 1.\<close>

definition demo_timers :: timers where
  "demo_timers = PrimeTime \<lparr>tv_sec = 1, tv_nsec = 0\<rparr> 0x1000 20
     (InsTime \<lparr>tv_sec = 0, tv_nsec = 0\<rparr> 0x1000 0 (timers_start (\<lambda>_. 0)))"

lemma demo_timers_list: "tmDescList demo_timers
    = [\<lparr>desc_addr = 0, task = 0x1000, wakeup = \<lparr>tv_sec = 1, tv_nsec = 20000000\<rparr>\<rparr>]"
  and demo_timers_active: "active (t_mem demo_timers) 0x1000"
  and demo_timers_fresh: "fresh_addr demo_timers = 1"
  by code_simp+

theorem next_wakeup_least_witness:
  "ns (next_wakeup (t_mem demo_timers) (tmDescList demo_timers)) \<le> 1020000000"
  using next_wakeup_least [of "t_mem demo_timers" "tmDescList demo_timers"]
  by (simp add: demo_timers_list demo_timers_active sec31_def time_norm_def ns_def)



theorem remaining_time_witness:
  "ReadMacInt32 (t_mem (RmvTime \<lparr>tv_sec = 3, tv_nsec = 5000\<rparr> 0x1000
     (PrimeTime \<lparr>tv_sec = 3, tv_nsec = 0\<rparr> 0x1000 (- 12) demo_timers))) 0x100a = - 7"
proof -
  have "\<not> bit (task_flags (t_mem demo_timers) 0x1000) 14" by code_simp
  from remaining_time [OF _ this, of "\<lparr>desc_addr = 0, task = 0x1000, wakeup = \<lparr>tv_sec = 1, tv_nsec = 20000000\<rparr>\<rparr>" "- 12"
      "\<lparr>tv_sec = 3, tv_nsec = 0\<rparr>" "\<lparr>tv_sec = 3, tv_nsec = 5000\<rparr>"]
  show ?thesis by (simp add: find_desc_def demo_timers_list time_norm_def ns_def Let_def)
qed


end
