(* ===== verification/Sys_Files.thy ===== *)
theory Sys_Files
  imports Posix_IO Mac_Util
begin

text \<open>
  The host side of the disk drivers: the functions \<open>Sys_*\<close> of
  \<^verbatim>\<open>src/drivers/platform/platform_unix.cpp\<close> in the Linux build, reached through the table of
  functions \<open>g_platform\<close> (\<^verbatim>\<open>src/drivers/platform/platform_adapter.cpp\<close>), and the contract
  \<open>block_store\<close> the drivers rely on.

  The kernel is a set of files by name, a table of descriptors and the answers it will give to
  \<open>read\<close> and \<open>write\<close>; what it says about permissions and devices is the record \<open>host_env\<close>.
  \<open>generic_disk\<close> is always null in this build: the only disk factory answers \<open>DISK_UNKNOWN\<close>.
\<close>

section \<open>The kernel\<close>

record host =
  h_files :: "string \<Rightarrow> bytes option"
  h_fds :: "int \<Rightarrow> string option"
  h_next_fd :: nat
  h_calls :: "sys_result list"

record host_env =
  access_w :: "string \<Rightarrow> bool"
  can_open :: "string \<Rightarrow> bool \<Rightarrow> bool"
  drive_mounted :: "string \<Rightarrow> bool"
  umount_ok :: "string \<Rightarrow> bool"
  dev_is_block :: "string \<Rightarrow> bool"
  dev_is_floppy :: "string \<Rightarrow> bool"
  dev_writable :: "string \<Rightarrow> bool"
  dev_blocks :: "string \<Rightarrow> int option"
  cdrom_capability :: "string \<Rightarrow> u32 option"
  media_changed :: "string \<Rightarrow> bool"
  disc_ok :: "string \<Rightarrow> bool"
  toc_ok :: "string \<Rightarrow> bool"

definition k_open :: "host_env \<Rightarrow> string \<Rightarrow> bool \<Rightarrow> host \<Rightarrow> int \<times> host" where
  "k_open env name wr h =
     (if can_open env name wr \<and> h_files h name \<noteq> None
      then (int (h_next_fd h), h\<lparr>h_fds := (h_fds h)(int (h_next_fd h) \<mapsto> name), h_next_fd := h_next_fd h + 1\<rparr>)
      else (- 1, h))"

definition k_close :: "int \<Rightarrow> host \<Rightarrow> host" where
  "k_close fd h = h\<lparr>h_fds := (h_fds h)(fd := None)\<rparr>"

definition k_content :: "int \<Rightarrow> host \<Rightarrow> bytes option" where
  "k_content fd h = (case h_fds h fd of None \<Rightarrow> None | Some name \<Rightarrow> h_files h name)"

text \<open>
  One \<open>lseek\<close> and one transfer. The result is what lands in the buffer and the number that is
  returned as a \<open>size_t\<close>: the error \<open>-1\<close> becomes the largest one.
\<close>

abbreviation size_t_minus_1 :: nat where "size_t_minus_1 \<equiv> 2 ^ 64 - 1"

definition k_pread :: "int \<Rightarrow> int \<Rightarrow> nat \<Rightarrow> host \<Rightarrow> (bytes \<times> nat) \<times> host" where
  "k_pread fd pos n h =
     (case k_content fd h of
        None \<Rightarrow> (([], 0), h)
      | Some dat \<Rightarrow>
          if pos < 0 then (([], 0), h)
          else case h_calls h of
            Transfer k # cs \<Rightarrow> (let bs = take (min k n) (drop (nat pos) dat) in ((bs, length bs), h\<lparr>h_calls := cs\<rparr>))
          | cs \<Rightarrow> (([], size_t_minus_1), h\<lparr>h_calls := List.tl cs\<rparr>))"

definition k_pwrite :: "int \<Rightarrow> int \<Rightarrow> bytes \<Rightarrow> host \<Rightarrow> nat \<times> host" where
  "k_pwrite fd pos bs h =
     (case h_fds h fd of
        None \<Rightarrow> (0, h)
      | Some name \<Rightarrow>
          (case h_files h name of
             None \<Rightarrow> (0, h)
           | Some dat \<Rightarrow>
               if pos < 0 then (0, h)
               else case h_calls h of
                 Transfer k # cs \<Rightarrow>
                   (let part = take k bs in
                    (length part,
                     h\<lparr>h_calls := cs,
                       h_files := (if part = [] then h_files h else (h_files h)(name \<mapsto> file_put dat (nat pos) part))\<rparr>))
               | cs \<Rightarrow> (size_t_minus_1, h\<lparr>h_calls := List.tl cs\<rparr>)))"

section \<open>File handles\<close>

record mac_file_handle =
  fh_name :: string
  fh_fd :: int
  fh_is_file :: bool
  fh_is_floppy :: bool
  fh_is_cdrom :: bool
  fh_read_only :: bool
  fh_start_byte :: int
  fh_file_size :: int
  fh_media_present :: bool
  fh_cdrom_cap :: u32

text \<open>Handles live at numbers; \<open>open_handles\<close> is the list \<open>open_mac_file_handles\<close>.\<close>

record sys =
  handles :: "nat \<Rightarrow> mac_file_handle option"
  next_handle :: nat
  open_handles :: "nat list"
  first_floppy :: "nat option"
  kernel :: host

definition sys_add_mac_file_handle :: "nat \<Rightarrow> sys \<Rightarrow> sys" where
  "sys_add_mac_file_handle fh s = s\<lparr>open_handles := fh # open_handles s\<rparr>"

definition sys_remove_mac_file_handle :: "nat \<Rightarrow> sys \<Rightarrow> sys" where
  "sys_remove_mac_file_handle fh s = s\<lparr>open_handles := remove1 fh (open_handles s)\<rparr>"

fun media_removed :: "string \<Rightarrow> nat list \<Rightarrow> (nat \<Rightarrow> mac_file_handle option) \<Rightarrow> nat \<Rightarrow> mac_file_handle option" where
  "media_removed path [] hs = hs"
| "media_removed path (p # ps) hs =
     (case hs p of
        None \<Rightarrow> media_removed path ps hs
      | Some fh \<Rightarrow>
          if \<not> fh_is_cdrom fh \<or> \<not> fh_media_present fh then media_removed path ps hs
          else if fh_name fh = path then hs(p \<mapsto> fh\<lparr>fh_media_present := False\<rparr>)
          else media_removed path ps hs)"

definition SysMediaRemoved :: "string \<Rightarrow> u32 \<Rightarrow> sys \<Rightarrow> sys" where
  "SysMediaRemoved path type s =
     (if type AND 3 \<noteq> 2 then s else s\<lparr>handles := media_removed path (open_handles s) (handles s)\<rparr>)"

section \<open>Opening and closing\<close>

definition starts_with :: "string \<Rightarrow> string \<Rightarrow> bool" where
  "starts_with pre name \<longleftrightarrow> take (length pre) name = pre"

text \<open>Read-write first where allowed, then read-only.\<close>

definition open_fd :: "host_env \<Rightarrow> string \<Rightarrow> bool \<Rightarrow> host \<Rightarrow> (int \<times> bool) \<times> host" where
  "open_fd env name read_only h =
     (case k_open env name (\<not> read_only) h of
        (fd, h1) \<Rightarrow>
          if fd < 0 \<and> \<not> read_only then
            (case k_open env name False h1 of (fd2, h2) \<Rightarrow> ((fd2, True), h2))
          else ((fd, read_only), h1))"

definition file_handle :: "host_env \<Rightarrow> string \<Rightarrow> bool \<Rightarrow> bool \<Rightarrow> bool \<Rightarrow> bool \<Rightarrow> int \<Rightarrow> host \<Rightarrow> mac_file_handle" where
  "file_handle env name is_file is_floppy is_cdrom read_only fd h =
     (let fh = \<lparr>fh_name = name, fh_fd = fd, fh_is_file = is_file, fh_is_floppy = is_floppy,
                fh_is_cdrom = is_cdrom, fh_read_only = read_only, fh_start_byte = 0, fh_file_size = 0,
                fh_media_present = False, fh_cdrom_cap = 0\<rparr> in
      if is_file then
        (case FileDiskLayout (case k_content fd h of Some dat \<Rightarrow> int (length dat) | None \<Rightarrow> - 1) of
           (start, sz) \<Rightarrow> fh\<lparr>fh_media_present := True, fh_start_byte := start, fh_file_size := sz\<rparr>)
      else if h_fds h fd = None then fh
      else let fh1 = fh\<lparr>fh_media_present := True\<rparr> in
        if dev_is_block env name
        then fh1\<lparr>fh_is_floppy := dev_is_floppy env name,
                 fh_cdrom_cap := (if is_cdrom then case cdrom_capability env name of Some c \<Rightarrow> c | None \<Rightarrow> 0 else 0)\<rparr>
        else fh1)"

definition add_handle :: "mac_file_handle \<Rightarrow> host \<Rightarrow> sys \<Rightarrow> nat option \<times> sys" where
  "add_handle fh h s =
     (let a = next_handle s;
          s1 = s\<lparr>handles := (handles s)(a \<mapsto> fh), next_handle := a + 1, kernel := h,
                 first_floppy := (if fh_is_floppy fh \<and> first_floppy s = None then Some a else first_floppy s)\<rparr>
      in (Some a, sys_add_mac_file_handle a s1))"

definition Sys_open :: "host_env \<Rightarrow> string \<Rightarrow> bool \<Rightarrow> bool \<Rightarrow> sys \<Rightarrow> nat option \<times> sys" where
  "Sys_open env name read_only cdrom s =
     (let is_file = (\<not> starts_with ''/dev/'' name);
          is_cdrom = (cdrom \<or> starts_with ''/dev/cd'' name);
          is_floppy = starts_with ''/dev/fd'' name;
          is_polled_media = (starts_with ''/dev/poll/'' name \<or> is_floppy);
          ro = (read_only \<or> \<not> access_w env name)
      in if \<not> is_file \<and> \<not> ro \<and> drive_mounted env name \<and> \<not> umount_ok env name then (None, s)
         else case open_fd env name ro (kernel s) of
           ((fd, ro2), h) \<Rightarrow>
             if 0 \<le> fd \<or> is_polled_media
             then add_handle (file_handle env name is_file is_floppy is_cdrom ro2 fd h) h s
             else (None, s\<lparr>kernel := h\<rparr>))"

definition Sys_close :: "nat \<Rightarrow> sys \<Rightarrow> sys" where
  "Sys_close a s =
     (case handles s a of
        None \<Rightarrow> s
      | Some fh \<Rightarrow>
          let s1 = sys_remove_mac_file_handle a s in
          s1\<lparr>kernel := (if 0 \<le> fh_fd fh then k_close (fh_fd fh) (kernel s1) else kernel s1),
             handles := (handles s1)(a := None)\<rparr>)"

section \<open>Transfers and queries\<close>

definition Sys_read :: "nat \<Rightarrow> int \<Rightarrow> nat \<Rightarrow> sys \<Rightarrow> (bytes \<times> nat) \<times> sys" where
  "Sys_read a offset n s =
     (case handles s a of
        None \<Rightarrow> (([], 0), s)
      | Some fh \<Rightarrow>
          (case k_pread (fh_fd fh) (offset + fh_start_byte fh) n (kernel s) of
             (r, h) \<Rightarrow> (r, s\<lparr>kernel := h\<rparr>)))"

definition Sys_write :: "nat \<Rightarrow> int \<Rightarrow> bytes \<Rightarrow> sys \<Rightarrow> nat \<times> sys" where
  "Sys_write a offset bs s =
     (case handles s a of
        None \<Rightarrow> (0, s)
      | Some fh \<Rightarrow>
          (case k_pwrite (fh_fd fh) (offset + fh_start_byte fh) bs (kernel s) of
             (r, h) \<Rightarrow> (r, s\<lparr>kernel := h\<rparr>)))"

definition SysGetFileSize :: "host_env \<Rightarrow> nat \<Rightarrow> sys \<Rightarrow> int" where
  "SysGetFileSize env a s =
     (case handles s a of
        None \<Rightarrow> 1
      | Some fh \<Rightarrow>
          if fh_is_file fh then fh_file_size fh
          else case dev_blocks env (fh_name fh) of None \<Rightarrow> 0 | Some blocks \<Rightarrow> blocks * 512)"

definition reopen :: "host_env \<Rightarrow> nat \<Rightarrow> mac_file_handle \<Rightarrow> bool \<Rightarrow> sys \<Rightarrow> sys" where
  "reopen env a fh wr s =
     (let h = (if 0 \<le> fh_fd fh then k_close (fh_fd fh) (kernel s) else kernel s) in
      case k_open env (fh_name fh) wr h of
        (fd, h1) \<Rightarrow> s\<lparr>kernel := h1, handles := (handles s)(a \<mapsto> fh\<lparr>fh_fd := fd\<rparr>)\<rparr>)"

definition SysEject :: "host_env \<Rightarrow> nat \<Rightarrow> sys \<Rightarrow> sys" where
  "SysEject env a s =
     (case handles s a of
        None \<Rightarrow> s
      | Some fh \<Rightarrow>
          if fh_is_floppy fh then reopen env a fh (\<not> fh_read_only fh) s
          else if fh_is_cdrom fh then reopen env a fh False s
          else s)"

definition SysFormat :: "nat \<Rightarrow> sys \<Rightarrow> bool" where
  "SysFormat a s \<longleftrightarrow> handles s a \<noteq> None"

definition SysIsReadOnly :: "host_env \<Rightarrow> nat \<Rightarrow> sys \<Rightarrow> bool" where
  "SysIsReadOnly env a s =
     (case handles s a of
        None \<Rightarrow> True
      | Some fh \<Rightarrow>
          if fh_is_floppy fh then (if 0 \<le> fh_fd fh then \<not> dev_writable env (fh_name fh) else True)
          else fh_read_only fh)"

definition SysIsFixedDisk :: "nat \<Rightarrow> sys \<Rightarrow> bool" where
  "SysIsFixedDisk a s =
     (case handles s a of
        None \<Rightarrow> True
      | Some fh \<Rightarrow>
          if fh_is_file fh then True else if fh_is_floppy fh \<or> fh_is_cdrom fh then False else True)"

definition floppy_inserted :: "host_env \<Rightarrow> nat \<Rightarrow> mac_file_handle \<Rightarrow> sys \<Rightarrow> bool \<times> sys" where
  "floppy_inserted env a fh s =
     (case k_pread (fh_fd fh) 0 512 (kernel s) of
        ((bs, actual), h) \<Rightarrow>
          if k_content (fh_fd fh) (kernel s) = None \<or> actual = size_t_minus_1 then
            (let s1 = reopen env a fh (\<not> fh_read_only fh) (s\<lparr>kernel := h\<rparr>) in
             case handles s1 a of
               None \<Rightarrow> (False, s1)
             | Some fh1 \<Rightarrow>
                 (case k_pread (fh_fd fh1) 0 512 (kernel s1) of
                    ((_, actual2), h2) \<Rightarrow> (actual2 = 512, s1\<lparr>kernel := h2\<rparr>)))
          else (actual = 512, s\<lparr>kernel := h\<rparr>))"

abbreviation CDC_MEDIA_CHANGED :: u32 where "CDC_MEDIA_CHANGED \<equiv> 0x80"
abbreviation CDC_DRIVE_STATUS :: u32 where "CDC_DRIVE_STATUS \<equiv> 0x800"

definition SysIsDiskInserted :: "host_env \<Rightarrow> nat \<Rightarrow> sys \<Rightarrow> bool \<times> sys" where
  "SysIsDiskInserted env a s =
     (case handles s a of
        None \<Rightarrow> (False, s)
      | Some fh \<Rightarrow>
          if fh_is_file fh then (True, s)
          else if fh_is_floppy fh then floppy_inserted env a fh s
          else if fh_is_cdrom fh then
            (let s1 = (if fh_cdrom_cap fh AND CDC_MEDIA_CHANGED \<noteq> 0 \<and> media_changed env (fh_name fh)
                       then reopen env a fh False s else s)
             in if fh_cdrom_cap fh AND CDC_DRIVE_STATUS \<noteq> 0 then (disc_ok env (fh_name fh), s1)
                else (toc_ok env (fh_name fh), s1))
          else (True, s))"

end
