(* ===== verification/Block_Store.thy ===== *)
theory Block_Store
  imports Sys_Files
begin

text \<open>
  What the disk drivers rely on. \<open>platform\<close> is the part of the table \<open>g_platform\<close> the disk
  drivers call (\<^verbatim>\<open>src/drivers/platform/platform_adapter.cpp\<close> only passes each call on);
  \<open>unix_platform\<close> fills it with the functions of \<^verbatim>\<open>platform_unix.cpp\<close>. The locale
  \<open>block_store\<close> states the contract: a complete read returns the disk's bytes, a complete
  write replaces exactly the bytes written, and neither touches another disk. It is
  interpreted on \<open>unix_platform\<close> for every kernel.
\<close>

section \<open>The table of functions\<close>

record 's platform =
  sys_open :: "string \<Rightarrow> bool \<Rightarrow> bool \<Rightarrow> 's \<Rightarrow> nat option \<times> 's"
  sys_close :: "nat \<Rightarrow> 's \<Rightarrow> 's"
  sys_read :: "nat \<Rightarrow> int \<Rightarrow> nat \<Rightarrow> 's \<Rightarrow> (bytes \<times> nat) \<times> 's"
  sys_write :: "nat \<Rightarrow> int \<Rightarrow> bytes \<Rightarrow> 's \<Rightarrow> nat \<times> 's"
  sys_is_readonly :: "nat \<Rightarrow> 's \<Rightarrow> bool"
  sys_is_disk_inserted :: "nat \<Rightarrow> 's \<Rightarrow> bool \<times> 's"
  sys_is_fixed_disk :: "nat \<Rightarrow> 's \<Rightarrow> bool"
  sys_get_file_size :: "nat \<Rightarrow> 's \<Rightarrow> int"
  sys_eject :: "nat \<Rightarrow> 's \<Rightarrow> 's"
  sys_format :: "nat \<Rightarrow> 's \<Rightarrow> bool"

definition unix_platform :: "host_env \<Rightarrow> sys platform" where
  "unix_platform env =
     \<lparr>sys_open = Sys_open env, sys_close = Sys_close, sys_read = Sys_read, sys_write = Sys_write,
      sys_is_readonly = SysIsReadOnly env, sys_is_disk_inserted = SysIsDiskInserted env,
      sys_is_fixed_disk = SysIsFixedDisk, sys_get_file_size = SysGetFileSize env,
      sys_eject = SysEject env, sys_format = SysFormat\<rparr>"

section \<open>The contract\<close>

locale block_store =
  fixes p :: "'s platform"
    and content :: "'s \<Rightarrow> nat \<Rightarrow> bytes"
    and valid :: "'s \<Rightarrow> nat \<Rightarrow> bool"
    and apart :: "'s \<Rightarrow> nat \<Rightarrow> nat \<Rightarrow> bool"
  assumes read_full: "valid s a \<Longrightarrow> 0 \<le> off \<Longrightarrow> n < 2 ^ 32 \<Longrightarrow> sys_read p a off n s = ((bs, n), s') \<Longrightarrow>
      length bs = n \<and> bs = slice (nat off) n (content s a)"
    and read_keeps: "sys_read p a off n s = (x, s') \<Longrightarrow>
      content s' = content s \<and> valid s' = valid s \<and> apart s' = apart s"
    and write_full: "valid s a \<Longrightarrow> 0 \<le> off \<Longrightarrow> length bs < 2 ^ 32 \<Longrightarrow> bs \<noteq> [] \<Longrightarrow>
      sys_write p a off bs s = (length bs, s') \<Longrightarrow> content s' a = file_put (content s a) (nat off) bs"
    and write_keeps: "valid s a \<Longrightarrow> sys_write p a off bs s = (r, s') \<Longrightarrow>
      (valid s b \<longrightarrow> valid s' b) \<and> apart s' = apart s \<and> (apart s a b \<longrightarrow> content s' b = content s b)"
begin

lemma read_after_write:
  assumes "valid s a" and "0 \<le> off" and "length bs < 2 ^ 32"
    and "sys_write p a off bs s = (length bs, s1)" and "content s2 = content s1" and "valid s2 = valid s1"
    and "sys_read p a off (length bs) s2 = ((bs', length bs), s3)"
  shows "bs' = bs"
proof -
  have "valid s2 a" using write_keeps [OF assms(1,4), of a] assms(1,6) by simp
  note r = read_full [OF this assms(2,3,7)]
  show ?thesis
  proof (cases "bs = []")
    case False
    have "bs' = slice (nat off) (length bs) (file_put (content s a) (nat off) bs)"
      using r assms(5) write_full [OF assms(1-3) False assms(4)] by simp
    then show ?thesis by (simp add: file_put_def overwrite_def slice_def)
  qed (use r in simp)
qed

lemma write_elsewhere:
  assumes "valid s a" and "0 \<le> off" and "length bs < 2 ^ 32" and "bs \<noteq> []"
    and "sys_write p a off bs s = (length bs, s1)"
    and "i < nat off \<or> nat off + length bs \<le> i" and "i < length (content s a)"
  shows "content s1 a ! i = content s a ! i"
  using assms(6,7) unfolding write_full [OF assms(1-5)]
  by (auto simp: file_put_def overwrite_def nth_append min_def)

end

section \<open>The Unix files keep it\<close>

definition unix_content :: "sys \<Rightarrow> nat \<Rightarrow> bytes" where
  "unix_content s a =
     (case handles s a of
        None \<Rightarrow> []
      | Some fh \<Rightarrow> (case k_content (fh_fd fh) (kernel s) of
            None \<Rightarrow> []
          | Some dat \<Rightarrow> drop (nat (fh_start_byte fh)) dat))"

definition unix_valid :: "sys \<Rightarrow> nat \<Rightarrow> bool" where
  "unix_valid s a \<longleftrightarrow>
     (case handles s a of
        None \<Rightarrow> False
      | Some fh \<Rightarrow> 0 \<le> fh_start_byte fh \<and>
          (case k_content (fh_fd fh) (kernel s) of
             None \<Rightarrow> False
           | Some dat \<Rightarrow> nat (fh_start_byte fh) \<le> length dat))"

definition file_of :: "sys \<Rightarrow> nat \<Rightarrow> string option" where
  "file_of s a = (case handles s a of None \<Rightarrow> None | Some fh \<Rightarrow> h_fds (kernel s) (fh_fd fh))"

definition unix_apart :: "sys \<Rightarrow> nat \<Rightarrow> nat \<Rightarrow> bool" where
  "unix_apart s a b \<longleftrightarrow> file_of s a \<noteq> file_of s b"

lemma drop_overwrite:
  assumes "n \<le> length dat"
  shows "drop n (overwrite dat (n + off) bs) = overwrite (drop n dat) off bs"
proof -
  have "n \<le> length (take (n + off) dat)" using assms by simp
  then have "drop n (overwrite dat (n + off) bs) = drop n (take (n + off) dat) @ bs @ drop (n + off + length bs) dat"
    by (simp add: overwrite_def)
  also have "drop n (take (n + off) dat) = take off (drop n dat)" by (simp add: drop_take)
  also have "drop (n + off + length bs) dat = drop (off + length bs) (drop n dat)" by (simp add: ac_simps)
  finally show ?thesis by (simp only: overwrite_def)
qed

lemma drop_file_put:
  "n \<le> length dat \<Longrightarrow> drop n (file_put dat (n + off) bs) = file_put (drop n dat) off bs"
  unfolding file_put_def by (subst drop_overwrite) (simp_all add: ac_simps)

lemma file_put_grows: "length dat \<le> length (file_put dat off bs)"
  by (simp add: file_put_def overwrite_def)

lemma k_pread_keeps: "k_pread fd pos n h = (x, h') \<Longrightarrow> h_files h' = h_files h \<and> h_fds h' = h_fds h"
  by (auto simp: k_pread_def Let_def split: option.splits if_splits list.splits sys_result.splits)

lemma k_pread_full:
  "k_pread fd pos n h = ((bs, n), h') \<Longrightarrow> n < 2 ^ 32 \<Longrightarrow> k_content fd h = Some dat \<Longrightarrow> 0 \<le> pos \<Longrightarrow>
     length bs = n \<and> bs = slice (nat pos) n dat"
  by (auto simp: k_pread_def Let_def slice_def split: if_splits list.splits sys_result.splits)

lemma k_pwrite_keeps:
  "k_pwrite fd pos bs h = (r, h') \<Longrightarrow> h_fds h' = h_fds h \<and>
     (\<forall>name. h_fds h fd \<noteq> Some name \<longrightarrow> h_files h' name = h_files h name) \<and>
     (\<forall>name dat. h_files h name = Some dat \<longrightarrow> (\<exists>dat'. h_files h' name = Some dat' \<and> length dat \<le> length dat'))
     \<and> (\<forall>name. h_files h name = None \<longrightarrow> h_files h' name = None)"
  by (auto simp: k_pwrite_def Let_def file_put_grows split: option.splits if_splits list.splits sys_result.splits)

lemma k_pwrite_full:
  "k_pwrite fd pos bs h = (length bs, h') \<Longrightarrow> length bs < 2 ^ 32 \<Longrightarrow> k_content fd h = Some dat \<Longrightarrow> 0 \<le> pos \<Longrightarrow>
     bs \<noteq> [] \<Longrightarrow> k_content fd h' = Some (file_put dat (nat pos) bs)"
  by (auto simp: k_pwrite_def k_content_def Let_def split: option.splits if_splits list.splits sys_result.splits)

lemma k_content_cong: "h_files h' = h_files h \<Longrightarrow> h_fds h' = h_fds h \<Longrightarrow> k_content fd h' = k_content fd h"
  by (simp add: k_content_def split: option.splits)

lemma unix_view_cong:
  assumes "handles s' = handles s" and "\<And>fd. k_content fd (kernel s') = k_content fd (kernel s)"
    and "h_fds (kernel s') = h_fds (kernel s)"
  shows "unix_content s' = unix_content s" "unix_valid s' = unix_valid s" "unix_apart s' = unix_apart s"
  using assms by (auto simp: fun_eq_iff unix_content_def unix_valid_def unix_apart_def file_of_def split: option.splits)

lemma Sys_read_keeps:
  assumes "Sys_read a off n s = (x, s')"
  shows "unix_content s' = unix_content s \<and> unix_valid s' = unix_valid s \<and> unix_apart s' = unix_apart s"
proof -
  have "handles s' = handles s" "h_files (kernel s') = h_files (kernel s)" "h_fds (kernel s') = h_fds (kernel s)"
    using assms by (auto simp: Sys_read_def split: option.splits prod.splits dest!: k_pread_keeps)
  then show ?thesis using unix_view_cong [of s' s] k_content_cong by metis
qed

lemma unix_validE:
  assumes "unix_valid s a"
  obtains fh name dat where "handles s a = Some fh" "0 \<le> fh_start_byte fh" "h_fds (kernel s) (fh_fd fh) = Some name"
    "h_files (kernel s) name = Some dat" "k_content (fh_fd fh) (kernel s) = Some dat" "nat (fh_start_byte fh) \<le> length dat"
    "unix_content s a = drop (nat (fh_start_byte fh)) dat"
  using assms by (auto simp: unix_valid_def unix_content_def k_content_def split: option.splits)

lemma Sys_read_full:
  assumes "unix_valid s a" and "0 \<le> off" and "n < 2 ^ 32" and "Sys_read a off n s = ((bs, n), s')"
  shows "length bs = n \<and> bs = slice (nat off) n (unix_content s a)"
proof -
  obtain fh dat where h: "handles s a = Some fh" "0 \<le> fh_start_byte fh" "k_content (fh_fd fh) (kernel s) = Some dat"
    "unix_content s a = drop (nat (fh_start_byte fh)) dat"
    using assms(1) by (rule unix_validE)
  obtain h' where "k_pread (fh_fd fh) (off + fh_start_byte fh) n (kernel s) = ((bs, n), h')"
    using assms(4) h(1) by (auto simp: Sys_read_def split: prod.splits)
  then have "length bs = n \<and> bs = slice (nat (off + fh_start_byte fh)) n dat"
    using k_pread_full assms(2,3) h(2,3) by simp
  moreover have "slice (nat (off + fh_start_byte fh)) n dat = slice (nat off) n (unix_content s a)"
    using assms(2) h(2,4) by (simp add: slice_def nat_add_distrib add.commute)
  ultimately show ?thesis by metis
qed

lemma Sys_write_full:
  assumes "unix_valid s a" and "0 \<le> off" and "length bs < 2 ^ 32" and "bs \<noteq> []"
    and "Sys_write a off bs s = (length bs, s')"
  shows "unix_content s' a = file_put (unix_content s a) (nat off) bs"
proof -
  obtain fh dat where h: "handles s a = Some fh" "0 \<le> fh_start_byte fh" "k_content (fh_fd fh) (kernel s) = Some dat"
    "nat (fh_start_byte fh) \<le> length dat" "unix_content s a = drop (nat (fh_start_byte fh)) dat"
    using assms(1) by (rule unix_validE)
  obtain h' where w: "k_pwrite (fh_fd fh) (off + fh_start_byte fh) bs (kernel s) = (length bs, h')"
    and s': "s' = s\<lparr>kernel := h'\<rparr>"
    using assms(5) h(1) by (auto simp: Sys_write_def split: prod.splits)
  have "k_content (fh_fd fh) h' = Some (file_put dat (nat (fh_start_byte fh) + nat off) bs)"
    using k_pwrite_full [OF w assms(3) h(3)] assms(2,4) h(2) by (simp add: nat_add_distrib add.commute)
  then show ?thesis using s' h drop_file_put by (simp add: unix_content_def)
qed

lemma Sys_write_keeps:
  assumes "unix_valid s a" and "Sys_write a off bs s = (r, s')"
  shows "(unix_valid s b \<longrightarrow> unix_valid s' b) \<and> unix_apart s' = unix_apart s
    \<and> (unix_apart s a b \<longrightarrow> unix_content s' b = unix_content s b)"
proof -
  obtain fh name where h: "handles s a = Some fh" "h_fds (kernel s) (fh_fd fh) = Some name"
    using assms(1) by (rule unix_validE)
  obtain h' where w: "k_pwrite (fh_fd fh) (off + fh_start_byte fh) bs (kernel s) = (r, h')"
    and s': "s' = s\<lparr>kernel := h'\<rparr>"
    using assms(2) h(1) by (auto simp: Sys_write_def split: prod.splits)
  note k = k_pwrite_keeps [OF w]
  have "unix_valid s' b" if v: "unix_valid s b"
  proof -
    obtain fh2 name2 dat2 where b: "handles s b = Some fh2" "0 \<le> fh_start_byte fh2"
      "h_fds (kernel s) (fh_fd fh2) = Some name2" "h_files (kernel s) name2 = Some dat2"
      "nat (fh_start_byte fh2) \<le> length dat2"
      using v by (rule unix_validE)
    moreover obtain dat' where "h_files h' name2 = Some dat'" "length dat2 \<le> length dat'"
      using k b(4) by blast
    ultimately show ?thesis using k s' by (simp add: unix_valid_def k_content_def)
  qed
  moreover have "unix_apart s' = unix_apart s"
    using k s' by (auto simp: fun_eq_iff unix_apart_def file_of_def split: option.splits)
  moreover have "unix_content s' b = unix_content s b" if "unix_apart s a b"
    using that k s' h by (auto simp: unix_apart_def file_of_def unix_content_def k_content_def split: option.splits)
  ultimately show ?thesis by simp
qed

lemma unix_platform_simps [simp]: "sys_read (unix_platform env) = Sys_read" "sys_write (unix_platform env) = Sys_write"
  by (simp_all add: unix_platform_def)

interpretation unix: block_store "unix_platform env" unix_content unix_valid unix_apart for env
proof (unfold_locales, unfold unix_platform_simps)
qed (rule Sys_read_full Sys_read_keeps Sys_write_full Sys_write_keeps; assumption)+

section \<open>Disks that are plain files\<close>

text \<open>Nothing but a write changes the state of a disk that is a file; it is always inserted.\<close>

locale file_store = block_store p content valid apart
  for p :: "'s platform" and content valid apart +
  fixes plain :: "'s \<Rightarrow> nat \<Rightarrow> bool"
  assumes plain_valid: "plain s a \<Longrightarrow> valid s a"
    and plain_read: "sys_read p a off n s = (x, s') \<Longrightarrow>
      plain s' = plain s \<and> sys_is_readonly p b s' = sys_is_readonly p b s"
    and plain_write: "valid s a \<Longrightarrow> sys_write p a off bs s = (r, s') \<Longrightarrow>
      (plain s b \<longrightarrow> plain s' b) \<and> sys_is_readonly p b s' = sys_is_readonly p b s"
    and plain_inserted: "plain s a \<Longrightarrow> sys_is_disk_inserted p a s = (True, s)"
    and plain_eject: "plain s a \<Longrightarrow> sys_eject p a s = s"

definition unix_plain :: "sys \<Rightarrow> nat \<Rightarrow> bool" where
  "unix_plain s a \<longleftrightarrow> unix_valid s a \<and>
     (case handles s a of
        Some fh \<Rightarrow> fh_is_file fh \<and> \<not> fh_is_floppy fh \<and> \<not> fh_is_cdrom fh
      | None \<Rightarrow> False)"

lemma transfers_keep_handles:
  "Sys_read a off n s = (x, s') \<Longrightarrow> handles s' = handles s"
  "Sys_write a off bs s = (r, s') \<Longrightarrow> handles s' = handles s"
  by (auto simp: Sys_read_def Sys_write_def split: option.splits prod.splits)

lemma readonly_cong: "handles s' = handles s \<Longrightarrow> SysIsReadOnly env b s' = SysIsReadOnly env b s"
  by (simp add: SysIsReadOnly_def)

lemma plain_keeps:
  "Sys_read a off n s = (x, s') \<Longrightarrow> unix_plain s' = unix_plain s"
  "unix_valid s a \<Longrightarrow> Sys_write a off bs s = (r, s') \<Longrightarrow> unix_plain s b \<Longrightarrow> unix_plain s' b"
proof -
  show "unix_plain s' = unix_plain s" if "Sys_read a off n s = (x, s')"
    using Sys_read_keeps [OF that] transfers_keep_handles(1) [OF that] by (simp add: fun_eq_iff unix_plain_def)
  show "unix_plain s' b" if "unix_valid s a" "Sys_write a off bs s = (r, s')" "unix_plain s b"
    using Sys_write_keeps [OF that(1,2), of b] transfers_keep_handles(2) [OF that(2)] that(3) by (simp add: unix_plain_def)
qed

lemma plain_device:
  assumes "unix_plain s a"
  shows "SysIsDiskInserted env a s = (True, s)" and "SysEject env a s = s"
  using assms by (auto simp: unix_plain_def SysIsDiskInserted_def SysEject_def split: option.splits)

lemma unix_platform_queries [simp]:
  "sys_is_readonly (unix_platform env) = SysIsReadOnly env"
  "sys_is_disk_inserted (unix_platform env) = SysIsDiskInserted env" "sys_eject (unix_platform env) = SysEject env"
  by (simp_all add: unix_platform_def)

interpretation unix_file: file_store "unix_platform env" unix_content unix_valid unix_apart unix_plain for env
proof (unfold_locales, unfold unix_platform_simps unix_platform_queries)
  show "unix_valid s a" if "unix_plain s a" for s a using that by (simp add: unix_plain_def)
  show "unix_plain s' = unix_plain s \<and> SysIsReadOnly env b s' = SysIsReadOnly env b s"
    if "Sys_read a off n s = (x, s')" for a off n s x s' b
    using plain_keeps(1) [OF that] readonly_cong [OF transfers_keep_handles(1) [OF that]] by blast
  show "(unix_plain s b \<longrightarrow> unix_plain s' b) \<and> SysIsReadOnly env b s' = SysIsReadOnly env b s"
    if "unix_valid s a" "Sys_write a off bs s = (r, s')" for a off bs s r s' b
    using plain_keeps(2) [OF that] readonly_cong [OF transfers_keep_handles(2) [OF that(2)]] by blast
qed (rule plain_device; assumption)+

end
