(* ===== verification/Mac_Device.thy ===== *)
theory Mac_Device
  imports Block_Store
begin

text \<open>
  What the replacement drivers share: the Device Manager's error codes and record layouts
  (\<^verbatim>\<open>src/common/include/macos_util.h\<close>), the machine a driver runs on, calls into guest code,
  and the search in a driver's table of drives.

  Guest code run by \<open>Execute68kTrap\<close> is not part of the program: it is an argument \<open>exec\<close>,
  taking the trap number, \<open>D0\<close>, \<open>A0\<close> and the memory to \<open>A0\<close> and the memory afterwards.
  The calls made are recorded in \<open>m_traps\<close>.
\<close>

section \<open>Codes and offsets\<close>

abbreviation noErr :: int where "noErr \<equiv> 0"
abbreviation controlErr :: int where "controlErr \<equiv> - 17"
abbreviation statusErr :: int where "statusErr \<equiv> - 18"
abbreviation readErr :: int where "readErr \<equiv> - 19"
abbreviation writErr :: int where "writErr \<equiv> - 20"
abbreviation wPrErr :: int where "wPrErr \<equiv> - 44"
abbreviation nsDrvErr :: int where "nsDrvErr \<equiv> - 56"
abbreviation offLinErr :: int where "offLinErr \<equiv> - 65"

abbreviation aRdCmd :: u32 where "aRdCmd \<equiv> 2"
abbreviation sony :: u32 where "sony \<equiv> 0"
abbreviation hard20 :: u32 where "hard20 \<equiv> 1"

abbreviation ioTrap :: u32 where "ioTrap \<equiv> 6"
abbreviation ioVRefNum :: u32 where "ioVRefNum \<equiv> 22"
abbreviation ioBuffer :: u32 where "ioBuffer \<equiv> 32"
abbreviation ioReqCount :: u32 where "ioReqCount \<equiv> 36"
abbreviation ioActCount :: u32 where "ioActCount \<equiv> 40"
abbreviation ioPosMode :: u32 where "ioPosMode \<equiv> 44"
abbreviation ioWPosOffset :: u32 where "ioWPosOffset \<equiv> 46"
abbreviation csCode :: u32 where "csCode \<equiv> 26"
abbreviation csParam :: u32 where "csParam \<equiv> 28"

abbreviation dsWriteProt :: u32 where "dsWriteProt \<equiv> 2"
abbreviation dsDiskInPlace :: u32 where "dsDiskInPlace \<equiv> 3"
abbreviation dsInstalled :: u32 where "dsInstalled \<equiv> 4"
abbreviation dsSides :: u32 where "dsSides \<equiv> 5"
abbreviation dsQType :: u32 where "dsQType \<equiv> 10"
abbreviation dsTwoSideFmt :: u32 where "dsTwoSideFmt \<equiv> 18"
abbreviation dsNewIntf :: u32 where "dsNewIntf \<equiv> 19"
abbreviation dsMFMDrive :: u32 where "dsMFMDrive \<equiv> 22"
abbreviation dsMFMDisk :: u32 where "dsMFMDisk \<equiv> 23"
abbreviation dsTwoMegFmt :: u32 where "dsTwoMegFmt \<equiv> 24"
abbreviation dsDriveSize :: u32 where "dsDriveSize \<equiv> 18"
abbreviation dsDriveS1 :: u32 where "dsDriveS1 \<equiv> 20"
abbreviation SIZEOF_DrvSts :: u32 where "SIZEOF_DrvSts \<equiv> 30"

abbreviation dCtlFlags :: u32 where "dCtlFlags \<equiv> 4"
abbreviation dCtlQHdr :: u32 where "dCtlQHdr \<equiv> 6"
abbreviation dCtlPosition :: u32 where "dCtlPosition \<equiv> 16"

section \<open>The machine\<close>

record 's machine =
  m_mem :: mac_mem
  m_host :: 's
  m_traps :: "(u16 \<times> u32 \<times> u32) list"

type_synonym guest = "u16 \<Rightarrow> u32 \<Rightarrow> u32 \<Rightarrow> mac_mem \<Rightarrow> u32 \<times> mac_mem"

definition Execute68kTrap :: "guest \<Rightarrow> u16 \<Rightarrow> u32 \<Rightarrow> u32 \<Rightarrow> ('s, 'x) machine_scheme \<Rightarrow> u32 \<times> ('s, 'x) machine_scheme" where
  "Execute68kTrap exec trap d0 a0 s =
     (case exec trap d0 a0 (m_mem s) of
        (r, m) \<Rightarrow> (r, s\<lparr>m_mem := m, m_traps := m_traps s @ [(trap, d0, a0)]\<rparr>))"

abbreviation PostEvent :: u16 where "PostEvent \<equiv> 0xa02f"
abbreviation NewPtrSysClear :: u16 where "NewPtrSysClear \<equiv> 0xa71e"
abbreviation AddDrive :: u16 where "AddDrive \<equiv> 0xa04e"

definition put_mem :: "(mac_mem \<Rightarrow> mac_mem) \<Rightarrow> ('s, 'x) machine_scheme \<Rightarrow> ('s, 'x) machine_scheme" where
  "put_mem f s = s\<lparr>m_mem := f (m_mem s)\<rparr>"

lemma put_mem_simps [simp]:
  "m_mem (put_mem f s) = f (m_mem s)" "m_host (put_mem f s) = m_host s" "m_traps (put_mem f s) = m_traps s"
  by (simp_all add: put_mem_def)

section \<open>Searching a table\<close>

fun find_index :: "('d \<Rightarrow> bool) \<Rightarrow> 'd list \<Rightarrow> nat option" where
  "find_index P [] = None"
| "find_index P (d # ds) = (if P d then Some 0 else map_option Suc (find_index P ds))"

lemma find_index_Some: "find_index P ds = Some i \<Longrightarrow> i < length ds \<and> P (ds ! i) \<and> (\<forall>j<i. \<not> P (ds ! j))"
proof (induction ds arbitrary: i)
  case (Cons d ds)
  show ?case
  proof (cases "P d")
    case False
    then obtain k where k: "i = Suc k" "find_index P ds = Some k" using Cons.prems by auto
    then have "\<forall>j<i. \<not> P ((d # ds) ! j)" using Cons.IH [OF k(2)] False by (auto simp: less_Suc_eq_0_disj)
    then show ?thesis using Cons.IH [OF k(2)] k(1) by simp
  qed (use Cons.prems in simp)
qed simp

lemma find_index_None: "find_index P ds = None \<longleftrightarrow> list_all (\<lambda>d. \<not> P d) ds"
  by (induction ds) auto

lemma find_index_unique:
  "i < length ds \<Longrightarrow> P (ds ! i) \<Longrightarrow> (\<And>j. j < length ds \<Longrightarrow> P (ds ! j) \<Longrightarrow> j = i) \<Longrightarrow> find_index P ds = Some i"
  by (metis find_index_Some find_index_None list_all_length not_None_eq)

end
