(* ===== verification/Disk_Driver.thy ===== *)
theory Disk_Driver
  imports Mac_Device Drive_Icons
begin

text \<open>
  The generic disk driver: \<^verbatim>\<open>src/core/disk.cpp\<close>, every routine of it. Drives are a list, an
  iterator into the vector is an index. A file handle is never null: \<open>DiskInit\<close> adds a drive
  only for a handle it got. The constructor it uses leaves three fields uninitialised;
  \<open>junk\<close> is what they hold. The trace output of \<open>DiskPrime\<close> is left out.

  An \<open>int16\<close> result is an integer. \<open>fuel\<close> bounds the walk over the guest's drive queue; the
  operations that search it return \<open>None\<close> if that queue is longer.
\<close>

section \<open>State\<close>

record disk_drive_info =
  num :: int
  fh :: nat
  start_byte :: int
  num_blocks :: u32
  to_be_mounted :: bool
  read_only :: bool
  status :: u32

record 's disk_driver = "'s machine" +
  disk_drives :: "disk_drive_info list"
  disk_acc_run_called :: bool
  DiskIconAddr :: u32

definition get_drive_info :: "int \<Rightarrow> disk_drive_info list \<Rightarrow> nat option" where
  "get_drive_info n ds = find_index (\<lambda>d. num d = n) ds"

definition set_drive :: "nat \<Rightarrow> (disk_drive_info \<Rightarrow> disk_drive_info) \<Rightarrow> ('s, 'x) disk_driver_scheme \<Rightarrow> ('s, 'x) disk_driver_scheme" where
  "set_drive i f s = s\<lparr>disk_drives := (disk_drives s)[i := f (disk_drives s ! i)]\<rparr>"

definition in_place :: "('s, 'x) disk_driver_scheme \<Rightarrow> disk_drive_info \<Rightarrow> u32" where
  "in_place s d = ReadMacInt8 (m_mem s) (status d + dsDiskInPlace)"

section \<open>The partition map\<close>

definition is_hfs_name :: "bytes \<Rightarrow> bool" where
  "is_hfs_name blk \<longleftrightarrow> take 10 (drop 48 blk) = [0x41, 0x70, 0x70, 0x6c, 0x65, 0x5f, 0x48, 0x46, 0x53, 0]"

definition partition_entry :: "bytes \<Rightarrow> int \<times> u32" where
  "partition_entry blk =
     (sint (be32 (blk ! 8) (blk ! 9) (blk ! 10) (blk ! 11)) * 512, be32 (blk ! 12) (blk ! 13) (blk ! 14) (blk ! 15))"

fun partition_loop :: "'s platform \<Rightarrow> nat \<Rightarrow> nat \<Rightarrow> nat \<Rightarrow> 's \<Rightarrow> (int \<times> u32) \<times> 's" where
  "partition_loop p a i 0 h = ((0, 0), h)"
| "partition_loop p a i (Suc k) h =
     (case sys_read p a (int i * 512) 512 h of
        ((blk, actual), h1) \<Rightarrow>
          if actual \<noteq> 512 then ((0, 0), h1)
          else if be16 (blk ! 0) (blk ! 1) \<noteq> 0x504d then partition_loop p a (i + 1) k h1
          else if is_hfs_name blk then (partition_entry blk, h1)
          else partition_loop p a (i + 1) k h1)"

definition find_hfs_partition :: "'s platform \<Rightarrow> nat \<Rightarrow> ('s, 'x) disk_driver_scheme \<Rightarrow> ('s, 'x) disk_driver_scheme" where
  "find_hfs_partition p i s =
     (case partition_loop p (fh (disk_drives s ! i)) 0 64 (m_host s) of
        ((start, blocks), h) \<Rightarrow> set_drive i (\<lambda>d. d\<lparr>start_byte := start, num_blocks := blocks\<rparr>) (s\<lparr>m_host := h\<rparr>))"

text \<open>The partition, or the whole image when there is none.\<close>

definition set_disk_size :: "'s platform \<Rightarrow> nat \<Rightarrow> ('s, 'x) disk_driver_scheme \<Rightarrow> ('s, 'x) disk_driver_scheme" where
  "set_disk_size p i s =
     (let s1 = find_hfs_partition p i s;
          d = disk_drives s1 ! i
      in if start_byte d = 0
         then set_drive i (\<lambda>d. d\<lparr>num_blocks := word_of_int (sys_get_file_size p (fh d) (m_host s1) sdiv 512)\<rparr>) s1
         else s1)"

section \<open>Starting and stopping\<close>

definition disk_drive :: "int \<times> u32 \<times> bool \<Rightarrow> nat \<Rightarrow> bool \<Rightarrow> disk_drive_info" where
  "disk_drive junk a ro =
     (case junk of (start, blocks, mount) \<Rightarrow>
        \<lparr>num = 0, fh = a, start_byte = start, num_blocks = blocks, to_be_mounted = mount, read_only = ro, status = 0\<rparr>)"

fun DiskInit :: "'s platform \<Rightarrow> int \<times> u32 \<times> bool \<Rightarrow> string list \<Rightarrow> ('s, 'x) disk_driver_scheme \<Rightarrow> ('s, 'x) disk_driver_scheme" where
  "DiskInit p junk [] s = s"
| "DiskInit p junk (path # paths) s =
     (let ro = (case path of c # _ \<Rightarrow> c = CHR ''*'' | [] \<Rightarrow> False);
          str = (if ro then List.tl path else path)
      in case sys_open p str ro False (m_host s) of
           (None, h) \<Rightarrow> DiskInit p junk paths (s\<lparr>m_host := h\<rparr>)
         | (Some a, h) \<Rightarrow>
             DiskInit p junk paths
               (s\<lparr>m_host := h, disk_drives := disk_drives s @ [disk_drive junk a (sys_is_readonly p a h)]\<rparr>))"

definition DiskExit :: "'s platform \<Rightarrow> ('s, 'x) disk_driver_scheme \<Rightarrow> ('s, 'x) disk_driver_scheme" where
  "DiskExit p s =
     s\<lparr>m_host := fold (\<lambda>d h. sys_close p (fh d) h) (disk_drives s) (m_host s), disk_drives := []\<rparr>"

section \<open>Mounting\<close>

definition write_size :: "u32 \<Rightarrow> u32 \<Rightarrow> mac_mem \<Rightarrow> mac_mem" where
  "write_size st blocks m =
     WriteMacInt16 (st + dsDriveS1) (drop_bit 16 blocks) (WriteMacInt16 (st + dsDriveSize) (blocks AND 0xffff) m)"

definition mount_inserted :: "'s platform \<Rightarrow> nat \<Rightarrow> ('s, 'x) disk_driver_scheme \<Rightarrow> ('s, 'x) disk_driver_scheme" where
  "mount_inserted p i s =
     (let ro = sys_is_readonly p (fh (disk_drives s ! i)) (m_host s);
          st = status (disk_drives s ! i);
          s1 = set_drive i (\<lambda>d. d\<lparr>read_only := ro\<rparr>) s;
          s2 = put_mem (\<lambda>m. WriteMacInt8 (st + dsWriteProt) (if ro then 0xff else 0)
                             (WriteMacInt8 (st + dsDiskInPlace) 1 m)) s1;
          s3 = set_disk_size p i s2
      in set_drive i (\<lambda>d. d\<lparr>to_be_mounted := True\<rparr>)
           (put_mem (write_size st (num_blocks (disk_drives s3 ! i))) s3))"

definition DiskMountVolume :: "'s platform \<Rightarrow> nat \<Rightarrow> ('s, 'x) disk_driver_scheme \<Rightarrow> bool \<times> ('s, 'x) disk_driver_scheme" where
  "DiskMountVolume p a s =
     (case find_index (\<lambda>d. fh d = a) (disk_drives s) of
        None \<Rightarrow> (False, s)
      | Some i \<Rightarrow>
          (case sys_is_disk_inserted p a (m_host s) of
             (inserted, h) \<Rightarrow> (True, if inserted then mount_inserted p i (s\<lparr>m_host := h\<rparr>) else s\<lparr>m_host := h\<rparr>)))"

definition check_inserted :: "'s platform \<Rightarrow> nat \<Rightarrow> ('s, 'x) disk_driver_scheme \<Rightarrow> ('s, 'x) disk_driver_scheme" where
  "check_inserted p i s =
     (let d = disk_drives s ! i in
      if in_place s d = 0 then
        (case sys_is_disk_inserted p (fh d) (m_host s) of
           (inserted, h) \<Rightarrow>
             if inserted then snd (DiskMountVolume p (fh d) (s\<lparr>m_host := h\<rparr>)) else s\<lparr>m_host := h\<rparr>)
      else s)"

definition post_mount :: "guest \<Rightarrow> nat \<Rightarrow> ('s, 'x) disk_driver_scheme \<Rightarrow> ('s, 'x) disk_driver_scheme" where
  "post_mount exec i s =
     (let d = disk_drives s ! i in
      if to_be_mounted d then
        set_drive i (\<lambda>d. d\<lparr>to_be_mounted := False\<rparr>) (snd (Execute68kTrap exec PostEvent (word_of_int (num d)) 7 s))
      else s)"

definition mount_mountable_volumes :: "'s platform \<Rightarrow> guest \<Rightarrow> ('s, 'x) disk_driver_scheme \<Rightarrow> ('s, 'x) disk_driver_scheme" where
  "mount_mountable_volumes p exec s =
     fold (\<lambda>i s. post_mount exec i (check_inserted p i s)) [0..<length (disk_drives s)] s"

definition DiskInterrupt :: "'s platform \<Rightarrow> guest \<Rightarrow> ('s, 'x) disk_driver_scheme \<Rightarrow> ('s, 'x) disk_driver_scheme" where
  "DiskInterrupt p exec s = (if \<not> disk_acc_run_called s then s else mount_mountable_volumes p exec s)"

section \<open>Open\<close>

text \<open>One drive; without a status record it is skipped. \<open>drv_ref\<close> is the profile's \<open>disk_refnum\<close>.\<close>

definition init_status :: "'s platform \<Rightarrow> nat \<Rightarrow> u32 \<Rightarrow> ('s, 'x) disk_driver_scheme \<Rightarrow> ('s, 'x) disk_driver_scheme" where
  "init_status p i st s =
     (let a = fh (disk_drives s ! i);
          s1 = put_mem (\<lambda>m. WriteMacInt8 (st + dsInstalled) 1 (WriteMacInt16 (st + dsQType) hard20 m))
                 (set_drive i (\<lambda>d. d\<lparr>status := st\<rparr>) s);
          (place, h) = (if sys_is_fixed_disk p a (m_host s1) then (Some 8, m_host s1)
                        else case sys_is_disk_inserted p a (m_host s1) of
                          (inserted, h) \<Rightarrow> (if inserted then Some 1 else None, h));
          s2 = s1\<lparr>m_host := h\<rparr>
      in case place of
           None \<Rightarrow> s2
         | Some v \<Rightarrow>
             let s3 = put_mem (\<lambda>m. WriteMacInt8 (st + dsWriteProt) (if read_only (disk_drives s2 ! i) then 0x80 else 0)
                                     (WriteMacInt8 (st + dsDiskInPlace) v m)) s2
             in set_drive i (\<lambda>d. d\<lparr>to_be_mounted := True\<rparr>) (set_disk_size p i s3))"

definition open_drive ::
    "'s platform \<Rightarrow> guest \<Rightarrow> nat \<Rightarrow> u32 \<Rightarrow> nat \<Rightarrow> ('s, 'x) disk_driver_scheme \<Rightarrow> ('s, 'x) disk_driver_scheme option" where
  "open_drive p exec fuel drv_ref i s =
     (case FindFreeDriveNumber fuel (m_mem s) 1 of
        None \<Rightarrow> None
      | Some n \<Rightarrow>
          let s1 = set_drive i (\<lambda>d. d\<lparr>num := n, to_be_mounted := False\<rparr>) s in
          case Execute68kTrap exec NewPtrSysClear SIZEOF_DrvSts 0 s1 of
            (st, s2) \<Rightarrow>
              if st = 0 then Some s2
              else let s3 = init_status p i st s2;
                       s4 = put_mem (write_size st (num_blocks (disk_drives s3 ! i))) s3
                   in Some (snd (Execute68kTrap exec AddDrive (push_bit 16 (word_of_int n) OR (drv_ref AND 0xffff)) (st + dsQLink) s4)))"

fun open_drives ::
    "'s platform \<Rightarrow> guest \<Rightarrow> nat \<Rightarrow> u32 \<Rightarrow> nat list \<Rightarrow> ('s, 'x) disk_driver_scheme \<Rightarrow> ('s, 'x) disk_driver_scheme option" where
  "open_drives p exec fuel drv_ref [] s = Some s"
| "open_drives p exec fuel drv_ref (i # is) s =
     (case open_drive p exec fuel drv_ref i s of None \<Rightarrow> None | Some s1 \<Rightarrow> open_drives p exec fuel drv_ref is s1)"

definition DiskOpen ::
    "'s platform \<Rightarrow> guest \<Rightarrow> nat \<Rightarrow> u32 \<Rightarrow> u32 \<Rightarrow> ('s, 'x) disk_driver_scheme \<Rightarrow> (int \<times> ('s, 'x) disk_driver_scheme) option" where
  "DiskOpen p exec fuel drv_ref dce s =
     (let s1 = put_mem (WriteMacInt32 (dce + dCtlPosition) 0) s\<lparr>disk_acc_run_called := False\<rparr> in
      case open_drives p exec fuel drv_ref [0..<length (disk_drives s1)] s1 of
        None \<Rightarrow> None
      | Some s2 \<Rightarrow> Some (noErr, s2))"

section \<open>Prime\<close>

definition io_position :: "u32 \<Rightarrow> u32 \<Rightarrow> mac_mem \<Rightarrow> int" where
  "io_position pb dce m =
     (if ReadMacInt16 m (pb + ioPosMode) AND 0x100 \<noteq> 0
      then sint (push_bit 32 (ucast (ReadMacInt32 m (pb + ioWPosOffset))) OR ucast (ReadMacInt32 m (pb + ioWPosOffset + 4)) :: u64)
      else int (unat (ReadMacInt32 m (dce + dCtlPosition))))"

definition prime_transfer ::
    "'s platform \<Rightarrow> disk_drive_info \<Rightarrow> bool \<Rightarrow> u32 \<Rightarrow> int \<Rightarrow> nat \<Rightarrow> ('s, 'x) disk_driver_scheme \<Rightarrow> (int \<times> nat) \<times> ('s, 'x) disk_driver_scheme" where
  "prime_transfer p d rd buffer pos len s =
     (if rd then
        (case sys_read p (fh d) (pos + start_byte d) len (m_host s) of
           ((bs, actual), h) \<Rightarrow>
             ((if actual \<noteq> len then readErr else noErr, actual), put_mem (mac_write buffer bs) (s\<lparr>m_host := h\<rparr>)))
      else if read_only d then ((wPrErr, 0), s)
      else
        (case sys_write p (fh d) (pos + start_byte d) (mac_read (m_mem s) buffer len) (m_host s) of
           (actual, h) \<Rightarrow> ((if actual \<noteq> len then writErr else noErr, actual), s\<lparr>m_host := h\<rparr>)))"

definition prime_finish :: "u32 \<Rightarrow> u32 \<Rightarrow> nat \<Rightarrow> mac_mem \<Rightarrow> mac_mem" where
  "prime_finish pb dce actual m =
     (let m1 = WriteMacInt32 (pb + ioActCount) (of_nat actual) m
      in WriteMacInt32 (dce + dCtlPosition) (ReadMacInt32 m1 (dce + dCtlPosition) + of_nat actual) m1)"

definition DiskPrime :: "'s platform \<Rightarrow> u32 \<Rightarrow> u32 \<Rightarrow> ('s, 'x) disk_driver_scheme \<Rightarrow> int \<times> ('s, 'x) disk_driver_scheme" where
  "DiskPrime p pb dce s0 =
     (let s = put_mem (WriteMacInt32 (pb + ioActCount) 0) s0; m = m_mem s in
      case get_drive_info (int (unat (ReadMacInt16 m (pb + ioVRefNum)))) (disk_drives s) of
        None \<Rightarrow> (nsDrvErr, s)
      | Some i \<Rightarrow>
          let d = disk_drives s ! i in
          if in_place s d = 0 then (offLinErr, s)
          else
            let len = unat (ReadMacInt32 m (pb + ioReqCount)); pos = io_position pb dce m in
            if len mod 512 \<noteq> 0 \<or> pos mod 512 \<noteq> 0 then (paramErr, s)
            else case prime_transfer p d (ReadMacInt16 m (pb + ioTrap) AND 0xff = aRdCmd)
                        (ReadMacInt32 m (pb + ioBuffer)) pos len s of
              ((result, actual), s1) \<Rightarrow>
                (result, if result = noErr then put_mem (prime_finish pb dce actual) s1 else s1))"

section \<open>Control and Status\<close>

definition disk_accrun :: "'s platform \<Rightarrow> guest \<Rightarrow> u32 \<Rightarrow> ('s, 'x) disk_driver_scheme \<Rightarrow> ('s, 'x) disk_driver_scheme" where
  "disk_accrun p exec dce s =
     (let s1 = mount_mountable_volumes p exec s in
      put_mem (\<lambda>m. WriteMacInt16 (dce + dCtlFlags) (ReadMacInt16 m (dce + dCtlFlags) AND NOT 0x2000) m)
        s1\<lparr>disk_acc_run_called := True\<rparr>)"

definition disk_eject :: "'s platform \<Rightarrow> guest \<Rightarrow> disk_drive_info \<Rightarrow> ('s, 'x) disk_driver_scheme \<Rightarrow> ('s, 'x) disk_driver_scheme" where
  "disk_eject p exec d s =
     (if in_place s d = 8 then snd (Execute68kTrap exec PostEvent (word_of_int (num d)) 7 s)
      else if 0 < in_place s d
      then put_mem (WriteMacInt8 (status d + dsDiskInPlace) 0) (s\<lparr>m_host := sys_eject p (fh d) (m_host s)\<rparr>)
      else s)"

definition DiskControl :: "'s platform \<Rightarrow> guest \<Rightarrow> u32 \<Rightarrow> u32 \<Rightarrow> ('s, 'x) disk_driver_scheme \<Rightarrow> int \<times> ('s, 'x) disk_driver_scheme" where
  "DiskControl p exec pb dce s =
     (let code = ReadMacInt16 (m_mem s) (pb + csCode) in
      if code = 1 then (noErr, s)
      else if code = 65 then (noErr, disk_accrun p exec dce s)
      else case get_drive_info (int (unat (ReadMacInt16 (m_mem s) (pb + ioVRefNum)))) (disk_drives s) of
        None \<Rightarrow> (nsDrvErr, s)
      | Some i \<Rightarrow>
          let d = disk_drives s ! i in
          if code = 5 then (if 0 < in_place s d then noErr else offLinErr, s)
          else if code = 6 then (if read_only d then wPrErr else if 0 < in_place s d then noErr else offLinErr, s)
          else if code = 7 then (noErr, disk_eject p exec d s)
          else if code = 21 \<or> code = 22 then (noErr, put_mem (WriteMacInt32 (pb + csParam) (DiskIconAddr s)) s)
          else if code = 23 then
            (noErr, put_mem (WriteMacInt32 (pb + csParam) (if in_place s d = 8 then 0x0601 else 0x0201)) s)
          else if code = 24 then
            (if 0 < in_place s d then (noErr, put_mem (WriteMacInt32 (pb + csParam) (num_blocks d)) s) else (offLinErr, s))
          else (controlErr, s))"

definition FOURCC :: "char \<Rightarrow> char \<Rightarrow> char \<Rightarrow> char \<Rightarrow> u32" where
  "FOURCC a b c d = be32 (of_char a) (of_char b) (of_char c) (of_char d)"

abbreviation DiskRefNum :: u32 where "DiskRefNum \<equiv> - 63"
abbreviation EMULATOR_ID_4 :: u32 where "EMULATOR_ID_4 \<equiv> 0x62617369"

text \<open>The driver gestalt selectors, each with what is stored; \<open>r\<close> is \<open>pb + csParam + 4\<close>.\<close>

definition disk_gestalt :: "('s, 'x) disk_driver_scheme \<Rightarrow> disk_drive_info option \<Rightarrow> u32 \<Rightarrow> u32 \<Rightarrow> (mac_mem \<Rightarrow> mac_mem) option" where
  "disk_gestalt s info sel r =
     (if sel = FOURCC CHR ''v'' CHR ''e'' CHR ''r'' CHR ''s'' then Some (WriteMacInt32 r 0x01008000)
      else if sel = FOURCC CHR ''d'' CHR ''e'' CHR ''v'' CHR ''t'' then
        Some (WriteMacInt32 r
          (case info of
             Some d \<Rightarrow> if in_place s d = 8 then FOURCC CHR ''d'' CHR ''i'' CHR ''s'' CHR ''k''
                       else FOURCC CHR ''r'' CHR ''d'' CHR ''s'' CHR ''k''
           | None \<Rightarrow> FOURCC CHR ''d'' CHR ''i'' CHR ''s'' CHR ''k''))
      else if sel = FOURCC CHR ''i'' CHR ''n'' CHR ''t'' CHR ''f'' then Some (WriteMacInt32 r EMULATOR_ID_4)
      else if sel = FOURCC CHR ''s'' CHR ''y'' CHR ''n'' CHR ''c'' then Some (WriteMacInt32 r 0x01000000)
      else if sel = FOURCC CHR ''b'' CHR ''o'' CHR ''o'' CHR ''t'' then
        Some (\<lambda>m. WriteMacInt16 (r + 2) (DiskRefNum AND 0xffff)
                     (WriteMacInt16 r (case info of Some d \<Rightarrow> word_of_int (num d) | None \<Rightarrow> 0) m))
      else if sel = FOURCC CHR ''w'' CHR ''i'' CHR ''d'' CHR ''e'' then Some (WriteMacInt16 r 0x0100)
      else if sel = FOURCC CHR ''p'' CHR ''u'' CHR ''r'' CHR ''g'' then Some (WriteMacInt32 r 0)
      else if sel = FOURCC CHR ''e'' CHR ''j'' CHR ''e'' CHR ''c'' then Some (WriteMacInt32 r 0x00030003)
      else if sel = FOURCC CHR ''f'' CHR ''l'' CHR ''u'' CHR ''s'' then Some (WriteMacInt16 r 0)
      else if sel = FOURCC CHR ''v'' CHR ''m'' CHR ''o'' CHR ''p'' then Some (WriteMacInt32 r 0)
      else None)"

definition DiskStatus :: "u32 \<Rightarrow> u32 \<Rightarrow> ('s, 'x) disk_driver_scheme \<Rightarrow> int \<times> ('s, 'x) disk_driver_scheme" where
  "DiskStatus pb dce s =
     (let info = map_option (\<lambda>i. disk_drives s ! i)
            (get_drive_info (int (unat (ReadMacInt16 (m_mem s) (pb + ioVRefNum)))) (disk_drives s));
          code = ReadMacInt16 (m_mem s) (pb + csCode)
      in if code = 43 then
           (case disk_gestalt s info (ReadMacInt32 (m_mem s) (pb + csParam)) (pb + csParam + 4) of
              None \<Rightarrow> (statusErr, s)
            | Some f \<Rightarrow> (noErr, put_mem f s))
         else case info of
           None \<Rightarrow> (nsDrvErr, s)
         | Some d \<Rightarrow>
             if code = 8 then (noErr, put_mem (Mac2Mac_memcpy (pb + csParam) (status d) 22) s)
             else (statusErr, s))"

end
