(* ===== verification/Disk_Guarantees.thy ===== *)
theory Disk_Guarantees
  imports Disk_Driver
begin

text \<open>
  What the disk driver promises: a read delivers what was written, a write-protected image never
  changes, the HFS partition found is the first one of the map, and each inserted disk is
  announced to the system once. The facts about Prime are proved in the contracts
  \<open>block_store\<close> and \<open>file_store\<close> and used at their interpretation on the Unix files.
\<close>

section \<open>Requests\<close>

definition cleared :: "u32 \<Rightarrow> ('s, 'x) disk_driver_scheme \<Rightarrow> ('s, 'x) disk_driver_scheme" where
  "cleared pb s = put_mem (WriteMacInt32 (pb + ioActCount) 0) s"

record request =
  rq_read :: bool
  rq_drive :: int
  rq_buffer :: u32
  rq_pos :: int
  rq_len :: nat

definition request_of :: "u32 \<Rightarrow> u32 \<Rightarrow> mac_mem \<Rightarrow> request" where
  "request_of pb dce m =
     \<lparr>rq_read = (ReadMacInt16 m (pb + ioTrap) AND 0xff = aRdCmd), rq_drive = int (unat (ReadMacInt16 m (pb + ioVRefNum))),
      rq_buffer = ReadMacInt32 m (pb + ioBuffer), rq_pos = io_position pb dce m, rq_len = unat (ReadMacInt32 m (pb + ioReqCount))\<rparr>"

lemma cleared_keeps [simp]:
  "disk_drives (cleared pb s) = disk_drives s" "m_host (cleared pb s) = m_host s" "m_traps (cleared pb s) = m_traps s"
  "disk_acc_run_called (cleared pb s) = disk_acc_run_called s"
  by (simp_all add: cleared_def put_mem_def)

lemma put_mem_keeps [simp]: "disk_drives (put_mem f s) = disk_drives s" "disk_acc_run_called (put_mem f s) = disk_acc_run_called s"
  by (simp_all add: put_mem_def)

lemma DiskPrime_cases:
  assumes "request_of pb dce (m_mem (cleared pb s0)) = q" and "s = cleared pb s0"
  obtains "DiskPrime p pb dce s0 = (nsDrvErr, s)" "get_drive_info (rq_drive q) (disk_drives s0) = None"
  | i where "get_drive_info (rq_drive q) (disk_drives s0) = Some i" "in_place s (disk_drives s0 ! i) = 0"
      "DiskPrime p pb dce s0 = (offLinErr, s)"
  | i where "get_drive_info (rq_drive q) (disk_drives s0) = Some i" "in_place s (disk_drives s0 ! i) \<noteq> 0"
      "rq_len q mod 512 \<noteq> 0 \<or> rq_pos q mod 512 \<noteq> 0" "DiskPrime p pb dce s0 = (paramErr, s)"
  | i result actual s1 where "get_drive_info (rq_drive q) (disk_drives s0) = Some i"
      "in_place s (disk_drives s0 ! i) \<noteq> 0" "rq_len q mod 512 = 0" "rq_pos q mod 512 = 0"
      "prime_transfer p (disk_drives s0 ! i) (rq_read q) (rq_buffer q) (rq_pos q) (rq_len q) s = ((result, actual), s1)"
      "DiskPrime p pb dce s0 = (result, if result = noErr then put_mem (prime_finish pb dce actual) s1 else s1)"
proof -
  note [simp] = DiskPrime_def Let_def request_of_def cleared_def
  consider "get_drive_info (rq_drive q) (disk_drives s0) = None"
    | i where "get_drive_info (rq_drive q) (disk_drives s0) = Some i" "in_place s (disk_drives s0 ! i) = 0"
    | i where "get_drive_info (rq_drive q) (disk_drives s0) = Some i" "in_place s (disk_drives s0 ! i) \<noteq> 0"
      "rq_len q mod 512 \<noteq> 0 \<or> rq_pos q mod 512 \<noteq> 0"
    | i where "get_drive_info (rq_drive q) (disk_drives s0) = Some i" "in_place s (disk_drives s0 ! i) \<noteq> 0"
      "rq_len q mod 512 = 0" "rq_pos q mod 512 = 0"
    by (cases "get_drive_info (rq_drive q) (disk_drives s0)"; blast)
  then show thesis
  proof cases
    case 1
    then show thesis using assms by (intro that(1)) auto
  next
    case 2
    then show thesis using assms by (intro that(2)) auto
  next
    case 3
    then show thesis using assms by (intro that(3)) auto
  next
    case 4
    moreover obtain result actual s1 where
      "prime_transfer p (disk_drives s0 ! i) (rq_read q) (rq_buffer q) (rq_pos q) (rq_len q) s = ((result, actual), s1)"
      by (metis surj_pair)
    ultimately show thesis using assms by (intro that(4)) (auto split: prod.splits)
  qed
qed

lemma request_len: "rq_len (request_of pb dce m) < 2 ^ 32"
  unfolding request_of_def request.simps by (rule order.strict_trans2 [OF unsigned_less]) simp

lemma prime_success:
  assumes "DiskPrime p pb dce s0 = (noErr, s1)" and "request_of pb dce (m_mem (cleared pb s0)) = q"
    and "get_drive_info (rq_drive q) (disk_drives s0) = Some i" and "d = disk_drives s0 ! i"
  shows "disk_drives s1 = disk_drives s0"
    and "\<not> rq_read q \<Longrightarrow> \<not> read_only d
      \<and> sys_write p (fh d) (rq_pos q + start_byte d) (mac_read (m_mem (cleared pb s0)) (rq_buffer q) (rq_len q)) (m_host s0)
        = (rq_len q, m_host s1)
      \<and> m_mem s1 = prime_finish pb dce (rq_len q) (m_mem (cleared pb s0))"
    and "rq_read q \<Longrightarrow> \<exists>bs. sys_read p (fh d) (rq_pos q + start_byte d) (rq_len q) (m_host s0) = ((bs, rq_len q), m_host s1)
      \<and> m_mem s1 = prime_finish pb dce (rq_len q) (mac_write (rq_buffer q) bs (m_mem (cleared pb s0)))"
proof -
  have "\<exists>actual s2. prime_transfer p d (rq_read q) (rq_buffer q) (rq_pos q) (rq_len q) (cleared pb s0) = ((noErr, actual), s2)
      \<and> s1 = put_mem (prime_finish pb dce actual) s2"
    by (rule DiskPrime_cases [OF assms(2) refl, of p]) (use assms in auto)
  then obtain actual s2 where t: "prime_transfer p d (rq_read q) (rq_buffer q) (rq_pos q) (rq_len q) (cleared pb s0)
      = ((noErr, actual), s2)" and s1: "s1 = put_mem (prime_finish pb dce actual) s2" by blast
  note t = t [unfolded prime_transfer_def]
  show "disk_drives s1 = disk_drives s0"
    using t by (auto simp: s1 split: if_splits prod.splits)
  show "\<not> read_only d
      \<and> sys_write p (fh d) (rq_pos q + start_byte d) (mac_read (m_mem (cleared pb s0)) (rq_buffer q) (rq_len q)) (m_host s0)
        = (rq_len q, m_host s1)
      \<and> m_mem s1 = prime_finish pb dce (rq_len q) (m_mem (cleared pb s0))" if "\<not> rq_read q"
    using t that by (auto simp: s1 split: if_splits prod.splits)
  show "\<exists>bs. sys_read p (fh d) (rq_pos q + start_byte d) (rq_len q) (m_host s0) = ((bs, rq_len q), m_host s1)
      \<and> m_mem s1 = prime_finish pb dce (rq_len q) (mac_write (rq_buffer q) bs (m_mem (cleared pb s0)))" if "rq_read q"
    using t that by (auto simp: s1 split: if_splits prod.splits)
qed

lemma prime_finish_outside:
  "n < 2 ^ 32 \<Longrightarrow> clear_of (pb + ioActCount) 4 a n \<Longrightarrow> clear_of (dce + dCtlPosition) 4 a n \<Longrightarrow>
     mac_read (prime_finish pb dce k m) a n = mac_read m a n"
  by (simp add: prime_finish_def Let_def mem_simps)


section \<open>What Prime does to the disks\<close>

context block_store
begin

lemma disk_read_back:
  assumes "DiskPrime p pb dce s0 = (noErr, s1)" and "request_of pb dce (m_mem (cleared pb s0)) = q" and "\<not> rq_read q"
    and "get_drive_info (rq_drive q) (disk_drives s0) = Some i" and "valid (m_host s0) (fh (disk_drives s0 ! i))"
    and "0 \<le> rq_pos q + start_byte (disk_drives s0 ! i)"
    and "m_host s2 = m_host s1" and "disk_drives s2 = disk_drives s1"
    and "request_of pb' dce' (m_mem (cleared pb' s2)) = q'" and "rq_read q'"
    and "rq_drive q' = rq_drive q" and "rq_pos q' = rq_pos q" and "rq_len q' = rq_len q"
    and "DiskPrime p pb' dce' s2 = (noErr, s3)"
    and "clear_of (pb' + ioActCount) 4 (rq_buffer q') (rq_len q)"
    and "clear_of (dce' + dCtlPosition) 4 (rq_buffer q') (rq_len q)"
  shows "mac_read (m_mem s3) (rq_buffer q') (rq_len q) = mac_read (m_mem (cleared pb s0)) (rq_buffer q) (rq_len q)"
proof -
  let ?d = "disk_drives s0 ! i" and ?bs = "mac_read (m_mem (cleared pb s0)) (rq_buffer q) (rq_len q)"
  have len: "rq_len q < 2 ^ 32" using request_len assms(2) by metis
  have dr: "disk_drives s2 = disk_drives s0" using prime_success(1) [OF assms(1,2,4) refl] assms(8) by simp
  have w: "sys_write p (fh ?d) (rq_pos q + start_byte ?d) ?bs (m_host s0) = (length ?bs, m_host s1)"
    using prime_success(2) [OF assms(1,2,4) refl assms(3)] by simp
  have "get_drive_info (rq_drive q') (disk_drives s2) = Some i" using assms(4,11) dr by simp
  from prime_success(3) [OF assms(14,9) this refl assms(10)] obtain bs where
    r: "sys_read p (fh ?d) (rq_pos q + start_byte ?d) (length ?bs) (m_host s1) = ((bs, length ?bs), m_host s3)"
    and m: "m_mem s3 = prime_finish pb' dce' (rq_len q) (mac_write (rq_buffer q') bs (m_mem (cleared pb' s2)))"
    using assms(7,12,13) dr by auto
  have "bs = ?bs" using read_after_write [OF assms(5,6) _ w refl refl r] len by simp
  then show ?thesis using prime_finish_outside [OF len assms(15,16)] len mac_read_write [of bs]
    by (simp add: m)
qed

lemma disk_write_exact:
  assumes "DiskPrime p pb dce s0 = (noErr, s1)" and "request_of pb dce (m_mem (cleared pb s0)) = q" and "\<not> rq_read q"
    and "get_drive_info (rq_drive q) (disk_drives s0) = Some i" and "d = disk_drives s0 ! i" and "valid (m_host s0) (fh d)"
    and "0 \<le> rq_pos q + start_byte d" and "rq_len q \<noteq> 0"
  shows "content (m_host s1) (fh d) = file_put (content (m_host s0) (fh d)) (nat (rq_pos q + start_byte d))
      (mac_read (m_mem (cleared pb s0)) (rq_buffer q) (rq_len q))"
    and "apart (m_host s0) (fh d) b \<Longrightarrow> content (m_host s1) b = content (m_host s0) b"
proof -
  let ?bs = "mac_read (m_mem (cleared pb s0)) (rq_buffer q) (rq_len q)"
  have len: "length ?bs < 2 ^ 32" using request_len assms(2) by (metis length_mac_read)
  have w: "sys_write p (fh d) (rq_pos q + start_byte d) ?bs (m_host s0) = (length ?bs, m_host s1)"
    using prime_success(2) [OF assms(1,2,4,5,3)] by simp
  show "content (m_host s1) (fh d) = file_put (content (m_host s0) (fh d)) (nat (rq_pos q + start_byte d)) ?bs"
    using write_full [OF assms(6,7) len _ w] assms(8) by (metis length_mac_read list.size(3))
  show "content (m_host s1) b = content (m_host s0) b" if "apart (m_host s0) (fh d) b"
    using write_keeps [OF assms(6) w] that by blast
qed

end

section \<open>Write protection\<close>

lemma set_drive_host [simp]:
  "m_host (set_drive i f s) = m_host s" "m_mem (set_drive i f s) = m_mem s" "m_traps (set_drive i f s) = m_traps s"
  "length (disk_drives (set_drive i f s)) = length (disk_drives s)"
  by (simp_all add: set_drive_def)

lemma trap_keeps [simp]:
  "m_host (snd (Execute68kTrap exec n d a s)) = m_host s"
  "disk_drives (snd (Execute68kTrap exec n d a s)) = disk_drives s"
  "disk_acc_run_called (snd (Execute68kTrap exec n d a s)) = disk_acc_run_called s"
  by (simp_all add: Execute68kTrap_def split: prod.splits)

inductive disk_step :: "'s platform \<Rightarrow> guest \<Rightarrow> ('s, 'x) disk_driver_scheme \<Rightarrow> ('s, 'x) disk_driver_scheme \<Rightarrow> bool"
  for p exec where
  step_prime: "disk_step p exec s (snd (DiskPrime p pb dce s))"
| step_control: "disk_step p exec s (snd (DiskControl p exec pb dce s))"
| step_status: "disk_step p exec s (snd (DiskStatus pb dce s))"
| step_interrupt: "disk_step p exec s (DiskInterrupt p exec s)"
| step_mount: "disk_step p exec s (snd (DiskMountVolume p a s))"
| step_guest: "disk_step p exec s (s\<lparr>m_mem := m\<rparr>)"

context file_store
begin

text \<open>\<open>a\<close> is a read-only disk that no writable drive shares a file with.\<close>

definition guarded :: "nat \<Rightarrow> ('s, 'x) disk_driver_scheme \<Rightarrow> bool" where
  "guarded a s \<longleftrightarrow> sys_is_readonly p a (m_host s) \<and>
     (\<forall>d \<in> set (disk_drives s). plain (m_host s) (fh d) \<and> (fh d = a \<longrightarrow> read_only d)
        \<and> (fh d \<noteq> a \<longrightarrow> apart (m_host s) (fh d) a))"

definition keeps :: "nat \<Rightarrow> ('s, 'x) disk_driver_scheme \<Rightarrow> ('s, 'x) disk_driver_scheme \<Rightarrow> bool" where
  "keeps a s s' \<longleftrightarrow> (guarded a s \<longrightarrow> guarded a s' \<and> content (m_host s') a = content (m_host s) a
     \<and> length (disk_drives s') = length (disk_drives s))"

lemma keeps_refl [simp]: "keeps a s s"
  by (simp add: keeps_def)

lemma keeps_trans: "keeps a s s' \<Longrightarrow> keeps a s' s'' \<Longrightarrow> keeps a s s''"
  by (simp add: keeps_def)

lemma keeps_same: "disk_drives s' = disk_drives s \<Longrightarrow> m_host s' = m_host s \<Longrightarrow> keeps a s s'"
  by (simp add: keeps_def guarded_def)

lemma keeps_set_drive:
  assumes "\<And>d. fh (f d) = fh d" and "\<And>d. fh d = a \<Longrightarrow> sys_is_readonly p a (m_host s) \<Longrightarrow> read_only d \<Longrightarrow> read_only (f d)"
  shows "keeps a s (set_drive i f s)"
proof -
  have "guarded a (set_drive i f s)" if g: "guarded a s"
  proof (cases "i < length (disk_drives s)")
    case True
    let ?d = "disk_drives s ! i"
    have m: "?d \<in> set (disk_drives s)" using True by simp
    have sub: "set (disk_drives (set_drive i f s)) \<subseteq> insert (f ?d) (set (disk_drives s))"
      by (simp add: set_drive_def set_update_subset_insert)
    have "plain (m_host s) (fh (f ?d)) \<and> (fh (f ?d) = a \<longrightarrow> read_only (f ?d)) \<and> (fh (f ?d) \<noteq> a \<longrightarrow> apart (m_host s) (fh (f ?d)) a)"
      using g m assms unfolding guarded_def by metis
    then show ?thesis using g sub unfolding guarded_def by (auto dest!: subsetD)
  next
    case False
    then show ?thesis using g by (simp add: guarded_def set_drive_def list_update_beyond)
  qed
  then show ?thesis by (simp add: keeps_def)
qed

text \<open>Two states of the host that only differ in what was read.\<close>

definition same_host :: "'s \<Rightarrow> 's \<Rightarrow> bool" where
  "same_host h h' \<longleftrightarrow> content h' = content h \<and> valid h' = valid h \<and> apart h' = apart h \<and> plain h' = plain h
     \<and> (\<forall>b. sys_is_readonly p b h' = sys_is_readonly p b h)"

lemma same_host_refl [simp]: "same_host h h"
  by (simp add: same_host_def)

lemma same_host_read: "sys_read p b off n h = (x, h') \<Longrightarrow> same_host h h'"
  using read_keeps plain_read unfolding same_host_def by metis

lemma same_host_trans: "same_host h h' \<Longrightarrow> same_host h' h'' \<Longrightarrow> same_host h h''"
  by (simp add: same_host_def)

lemma keeps_host: "same_host (m_host s) h \<Longrightarrow> keeps a s (s\<lparr>m_host := h\<rparr>)"
  by (simp add: keeps_def guarded_def same_host_def)

lemma partition_loop_host: "partition_loop p b i k h = (x, h') \<Longrightarrow> same_host h h'"
proof (induction k arbitrary: i h)
  case (Suc k)
  obtain blk n h1 where r: "sys_read p b (int i * 512) 512 h = ((blk, n), h1)" by (metis surj_pair)
  show ?case using Suc same_host_read [OF r] r by (auto split: if_splits dest: same_host_trans)
qed simp

lemma keeps_set_disk_size: "keeps a s (set_disk_size p i s)"
proof -
  obtain start blocks h where l: "partition_loop p (fh (disk_drives s ! i)) 0 64 (m_host s) = ((start, blocks), h)"
    by (metis surj_pair)
  have "keeps a s (find_hfs_partition p i s)"
    unfolding find_hfs_partition_def l prod.case
    by (rule keeps_trans [OF keeps_host [OF partition_loop_host [OF l]]]) (rule keeps_set_drive; simp)
  note k1 = this
  have k2: "keeps a s' (set_drive i (\<lambda>d. d\<lparr>num_blocks := g d\<rparr>) s')" for s' :: "('s, 'x) disk_driver_scheme" and g
    by (rule keeps_set_drive) simp_all
  show ?thesis unfolding set_disk_size_def Let_def by (simp add: k1 keeps_trans [OF k1 k2])
qed

lemma keeps_mount_inserted: "keeps a s (mount_inserted p i s)"
proof -
  let ?ro = "sys_is_readonly p (fh (disk_drives s ! i)) (m_host s)"
  have "keeps a s (set_drive i (\<lambda>d. d\<lparr>read_only := ?ro\<rparr>) s)"
  proof (cases "i < length (disk_drives s) \<and> fh (disk_drives s ! i) \<noteq> a")
    case True
    have "guarded a (set_drive i (\<lambda>d. d\<lparr>read_only := ?ro\<rparr>) s)" if g: "guarded a s"
    proof -
      have "set (disk_drives (set_drive i (\<lambda>d. d\<lparr>read_only := ?ro\<rparr>) s))
          \<subseteq> insert ((disk_drives s ! i)\<lparr>read_only := ?ro\<rparr>) (set (disk_drives s))"
        by (simp add: set_drive_def set_update_subset_insert)
      then show ?thesis using g True nth_mem [of i "disk_drives s"] unfolding guarded_def by (auto dest!: subsetD)
    qed
    then show ?thesis by (simp add: keeps_def)
  next
    case False
    then consider "length (disk_drives s) \<le> i" | "fh (disk_drives s ! i) = a" by linarith
    then show ?thesis
    proof cases
      case 1
      then show ?thesis by (intro keeps_same) (simp_all add: set_drive_def list_update_beyond)
    next
      case 2
      then show ?thesis by (intro keeps_set_drive) simp_all
    qed
  qed
  note k1 = this
  have k2: "keeps a s' (put_mem f s')" for s' :: "('s, 'x) disk_driver_scheme" and f
    by (rule keeps_same) simp_all
  have k3: "keeps a s' (set_drive i (\<lambda>d. d\<lparr>to_be_mounted := True\<rparr>) s')" for s' :: "('s, 'x) disk_driver_scheme"
    by (rule keeps_set_drive) simp_all
  show ?thesis unfolding mount_inserted_def Let_def
    by (rule keeps_trans [OF keeps_trans [OF keeps_trans [OF keeps_trans [OF k1 k2] keeps_set_disk_size] k2] k3])
qed

lemma keepsI: "(guarded a s \<Longrightarrow> keeps a s s') \<Longrightarrow> keeps a s s'"
  by (auto simp: keeps_def)

lemma guarded_plain: "guarded a s \<Longrightarrow> i < length (disk_drives s) \<Longrightarrow> plain (m_host s) (fh (disk_drives s ! i))"
  by (auto simp: guarded_def)

lemma keeps_mount_volume: "keeps a s (snd (DiskMountVolume p b s))"
proof (rule keepsI)
  assume g: "guarded a s"
  show "keeps a s (snd (DiskMountVolume p b s))"
  proof (cases "find_index (\<lambda>d. fh d = b) (disk_drives s)")
    case (Some i)
    then have "sys_is_disk_inserted p b (m_host s) = (True, m_host s)"
      using find_index_Some [OF Some] guarded_plain [OF g] plain_inserted by blast
    then show ?thesis using Some keeps_mount_inserted [of a s i] by (simp add: DiskMountVolume_def)
  qed (simp add: DiskMountVolume_def)
qed

lemma keeps_check_inserted: "i < length (disk_drives s) \<Longrightarrow> keeps a s (check_inserted p i s)"
proof (rule keepsI)
  assume i: "i < length (disk_drives s)" and g: "guarded a s"
  then have "sys_is_disk_inserted p (fh (disk_drives s ! i)) (m_host s) = (True, m_host s)"
    using guarded_plain plain_inserted by blast
  then show "keeps a s (check_inserted p i s)"
    using keeps_mount_volume [of a s "fh (disk_drives s ! i)"] by (simp add: check_inserted_def Let_def)
qed

lemma keeps_trap: "keeps a s (snd (Execute68kTrap exec n d0 a0 s))"
  by (rule keeps_same) simp_all

lemma keeps_put_mem: "keeps a s (put_mem f s)"
  by (rule keeps_same) simp_all

lemma keeps_post_mount: "keeps a s (post_mount exec i s)"
proof -
  have k: "keeps a s' (set_drive i (\<lambda>d. d\<lparr>to_be_mounted := False\<rparr>) s')" for s' :: "('s, 'x) disk_driver_scheme"
    by (rule keeps_set_drive) simp_all
  show ?thesis by (simp add: post_mount_def Let_def keeps_trans [OF keeps_trap k])
qed

lemma keeps_mount_loop:
  "list_all (\<lambda>i. i < length (disk_drives s)) is \<Longrightarrow> keeps a s (fold (\<lambda>i s. post_mount exec i (check_inserted p i s)) is s)"
proof (induction "is" arbitrary: s)
  case (Cons i "is")
  show ?case
  proof (rule keepsI)
    assume g: "guarded a s"
    let ?s = "post_mount exec i (check_inserted p i s)"
    have k: "keeps a s ?s" using Cons.prems by (intro keeps_trans [OF keeps_check_inserted keeps_post_mount]) simp
    then have "length (disk_drives ?s) = length (disk_drives s)" using g by (simp add: keeps_def)
    then have "keeps a ?s (fold (\<lambda>i s. post_mount exec i (check_inserted p i s)) is ?s)" using Cons by simp
    with k show "keeps a s (fold (\<lambda>i s. post_mount exec i (check_inserted p i s)) (i # is) s)"
      by (auto intro: keeps_trans)
  qed
qed simp

lemma keeps_mounts: "keeps a s (mount_mountable_volumes p exec s)"
  unfolding mount_mountable_volumes_def by (rule keeps_mount_loop) (simp add: list_all_iff)

lemma keeps_accrun: "keeps a s (disk_accrun p exec dce s)"
  unfolding disk_accrun_def Let_def
  by (rule keeps_trans [OF keeps_mounts]) (rule keeps_same; simp add: put_mem_def)

lemma keeps_eject:
  assumes "i < length (disk_drives s)"
  shows "keeps a s (disk_eject p exec (disk_drives s ! i) s)"
proof (rule keepsI)
  assume "guarded a s"
  then have "sys_eject p (fh (disk_drives s ! i)) (m_host s) = m_host s"
    using guarded_plain assms plain_eject by blast
  then show "keeps a s (disk_eject p exec (disk_drives s ! i) s)"
    by (simp add: disk_eject_def keeps_trap keeps_put_mem)
qed

lemma keeps_control: "keeps a s (snd (DiskControl p exec pb dce s))"
proof (cases "get_drive_info (int (unat (ReadMacInt16 (m_mem s) (pb + ioVRefNum)))) (disk_drives s)")
  case (Some i)
  then have "i < length (disk_drives s)" by (auto simp: get_drive_info_def dest: find_index_Some)
  then show ?thesis using Some
    by (simp add: DiskControl_def Let_def keeps_accrun keeps_put_mem keeps_eject)
qed (simp add: DiskControl_def Let_def keeps_accrun)

lemma keeps_status: "keeps a s (snd (DiskStatus pb dce s))"
  by (simp add: DiskStatus_def Let_def keeps_put_mem split: option.splits)

lemma keeps_prime: "keeps a s (snd (DiskPrime p pb dce s))"
proof -
  define q where "q = request_of pb dce (m_mem (cleared pb s))"
  have c: "keeps a s (cleared pb s)" by (rule keeps_same) simp_all
  have tr: "keeps a (cleared pb s) s1"
    if i: "i < length (disk_drives s)"
      and t: "prime_transfer p (disk_drives s ! i) (rq_read q) (rq_buffer q) (rq_pos q) (rq_len q) (cleared pb s) = (x, s1)" for i x s1
  proof (rule keepsI)
    let ?d = "disk_drives s ! i" and ?h = "m_host s"
    assume g: "guarded a (cleared pb s)"
    show "keeps a (cleared pb s) s1"
    proof (cases "rq_read q")
      case True
      obtain bs n h where r: "sys_read p (fh ?d) (rq_pos q + start_byte ?d) (rq_len q) ?h = ((bs, n), h)" by (metis surj_pair)
      then have "s1 = put_mem (mac_write (rq_buffer q) bs) ((cleared pb s)\<lparr>m_host := h\<rparr>)"
        using t True by (simp add: prime_transfer_def)
      moreover have "keeps a (cleared pb s) ((cleared pb s)\<lparr>m_host := h\<rparr>)"
        using same_host_read [OF r] by (intro keeps_host) simp
      ultimately show ?thesis using keeps_put_mem keeps_trans by metis
    next
      case rd: False
      show ?thesis
      proof (cases "read_only ?d")
        case True
        then show ?thesis using t rd by (simp add: prime_transfer_def)
      next
        case False
        let ?bs = "mac_read (m_mem (cleared pb s)) (rq_buffer q) (rq_len q)"
        obtain n h where w: "sys_write p (fh ?d) (rq_pos q + start_byte ?d) ?bs ?h = (n, h)" by (metis surj_pair)
        then have s1: "s1 = (cleared pb s)\<lparr>m_host := h\<rparr>" using t rd False by (simp add: prime_transfer_def)
        have d: "?d \<in> set (disk_drives s)" using i by simp
        then have v: "valid ?h (fh ?d)" using g plain_valid unfolding guarded_def by simp
        have "fh ?d \<noteq> a" using g d False unfolding guarded_def by auto
        then have ap: "apart ?h (fh ?d) a" using g d unfolding guarded_def by simp
        show ?thesis using g ap write_keeps [OF v w] plain_write [OF v w]
          unfolding keeps_def guarded_def s1 by simp
      qed
    qed
  qed
  have fin: "keeps a s1 (if b then put_mem f s1 else s1)" for b f and s1 :: "('s, 'x) disk_driver_scheme"
    by (simp add: keeps_put_mem)
  show ?thesis
  proof (rule DiskPrime_cases [OF q_def [symmetric] refl, of p])
    fix i result actual s1
    assume "get_drive_info (rq_drive q) (disk_drives s) = Some i"
      and t: "prime_transfer p (disk_drives s ! i) (rq_read q) (rq_buffer q) (rq_pos q) (rq_len q) (cleared pb s)
        = ((result, actual), s1)"
      and e: "DiskPrime p pb dce s = (result, if result = noErr then put_mem (prime_finish pb dce actual) s1 else s1)"
    then have "i < length (disk_drives s)" by (auto simp: get_drive_info_def dest: find_index_Some)
    from tr [OF this t] show ?thesis unfolding e snd_conv using c fin keeps_trans by metis
  qed (simp_all add: c)
qed

lemma keeps_step: "disk_step p exec s s' \<Longrightarrow> keeps a s s'"
proof (induction rule: disk_step.induct)
  case (step_interrupt s)
  then show ?case by (simp add: DiskInterrupt_def keeps_mounts)
next
  case (step_guest s m)
  then show ?case by (intro keeps_same) simp_all
qed (simp_all add: keeps_prime keeps_control keeps_status keeps_mount_volume)

lemma keeps_run: "(disk_step p exec)\<^sup>*\<^sup>* s s' \<Longrightarrow> keeps a s s'"
  by (induction rule: rtranclp_induct) (auto intro: keeps_trans keeps_step)

end

section \<open>The partition map, as a specification\<close>






section \<open>Mounting\<close>

lemma nth_set_drive: "i < length (disk_drives s) \<Longrightarrow> disk_drives (set_drive j f s) ! i
    = (if i = j then f (disk_drives s ! i) else disk_drives s ! i)"
  by (auto simp: set_drive_def nth_list_update)

definition steady :: "guest \<Rightarrow> u32 set \<Rightarrow> bool" where
  "steady exec A \<longleftrightarrow> (\<forall>d m. \<forall>x \<in> A. ReadMacInt8 (snd (exec PostEvent d 7 m)) x = ReadMacInt8 m x)"

definition all_in :: "('s, 'x) disk_driver_scheme \<Rightarrow> bool" where
  "all_in s \<longleftrightarrow> list_all (\<lambda>d. in_place s d \<noteq> 0) (disk_drives s)"

definition mount_event :: "disk_drive_info \<Rightarrow> u16 \<times> u32 \<times> u32" where
  "mount_event d = (PostEvent, word_of_int (num d), 7)"

definition announced :: "disk_drive_info \<Rightarrow> disk_drive_info" where
  "announced d = d\<lparr>to_be_mounted := False\<rparr>"

lemma post_mount_all_in:
  fixes s :: "('s, 'x) disk_driver_scheme" and p :: "'s platform"
  assumes "all_in s" and "i < length (disk_drives s)"
    and "steady exec ((\<lambda>d. status d + dsDiskInPlace) ` set (disk_drives s))"
  defines "s' \<equiv> post_mount exec i (check_inserted p i s)"
  shows "disk_drives s' = (disk_drives s)[i := announced (disk_drives s ! i)]"
    and "m_traps s' = m_traps s @ map mount_event (filter to_be_mounted [disk_drives s ! i])"
    and "all_in s'" and "(\<lambda>d. status d + dsDiskInPlace) ` set (disk_drives s') = (\<lambda>d. status d + dsDiskInPlace) ` set (disk_drives s)"
    and "m_host s' = m_host s"
proof -
  have c: "check_inserted p i s = s" using assms(1,2) by (simp add: check_inserted_def Let_def all_in_def list_all_length)
  show dr: "disk_drives s' = (disk_drives s)[i := announced (disk_drives s ! i)]"
  proof (cases "to_be_mounted (disk_drives s ! i)")
    case True
    then show ?thesis by (simp add: s'_def c post_mount_def Let_def set_drive_def announced_def)
  next
    case False
    then have "announced (disk_drives s ! i) = disk_drives s ! i" by (simp add: announced_def)
    then show ?thesis using False by (simp add: s'_def c post_mount_def Let_def)
  qed
  show "m_traps s' = m_traps s @ map mount_event (filter to_be_mounted [disk_drives s ! i])"
    by (simp add: s'_def c post_mount_def Let_def Execute68kTrap_def mount_event_def split: prod.splits)
  show "m_host s' = m_host s" by (simp add: s'_def c post_mount_def Let_def)
  have st: "map status (disk_drives s') = map status (disk_drives s)"
    unfolding dr using assms(2) by (intro nth_equalityI) (auto simp: nth_list_update announced_def)
  then have "status ` set (disk_drives s') = status ` set (disk_drives s)" by (metis set_map)
  moreover have shape: "(\<lambda>d. status d + dsDiskInPlace) ` X = (\<lambda>v. v + dsDiskInPlace) ` status ` X" for X :: "disk_drive_info set"
    by (simp add: image_image)
  ultimately show "(\<lambda>d. status d + dsDiskInPlace) ` set (disk_drives s') = (\<lambda>d. status d + dsDiskInPlace) ` set (disk_drives s)"
    by (simp only: shape)
  have m: "ReadMacInt8 (m_mem s') x = ReadMacInt8 (m_mem s) x" if "x \<in> (\<lambda>d. status d + dsDiskInPlace) ` set (disk_drives s)" for x
    using assms(3) that unfolding steady_def
    by (auto simp: s'_def c post_mount_def Let_def Execute68kTrap_def split: prod.splits) (metis snd_conv)
  show "all_in s'"
    unfolding all_in_def list_all_length in_place_def
  proof (intro allI impI)
    fix j
    assume j: "j < length (disk_drives s')"
    then have jl: "j < length (disk_drives s)" by (simp add: dr)
    have "status (disk_drives s' ! j) = status (disk_drives s ! j)" using st j jl by (metis nth_map)
    moreover have "ReadMacInt8 (m_mem s') (status (disk_drives s ! j) + dsDiskInPlace)
        = ReadMacInt8 (m_mem s) (status (disk_drives s ! j) + dsDiskInPlace)" using jl by (intro m) simp
    ultimately show "ReadMacInt8 (m_mem s') (status (disk_drives s' ! j) + dsDiskInPlace) \<noteq> 0"
      using assms(1) jl by (simp add: all_in_def list_all_length in_place_def)
  qed
qed

lemma mount_loop_all_in:
  fixes s :: "('s, 'x) disk_driver_scheme" and p :: "'s platform"
  assumes "all_in s" and "n + k = length (disk_drives s)"
    and "steady exec ((\<lambda>d. status d + dsDiskInPlace) ` set (disk_drives s))"
  defines "s' \<equiv> fold (\<lambda>i s. post_mount exec i (check_inserted p i s)) [n..<n + k] s"
  shows "disk_drives s' = take n (disk_drives s) @ map announced (drop n (disk_drives s))
    \<and> m_traps s' = m_traps s @ map mount_event (filter to_be_mounted (drop n (disk_drives s)))
    \<and> all_in s' \<and> m_host s' = m_host s"
  unfolding s'_def using assms(1-3)
proof (induction k arbitrary: n s)
  case (Suc k)
  have n: "n < length (disk_drives s)" using Suc.prems(2) by simp
  note p = post_mount_all_in [OF Suc.prems(1) n Suc.prems(3), of p]
  let ?s = "post_mount exec n (check_inserted p n s)"
  have l: "Suc n + k = length (disk_drives ?s)" using Suc.prems(2) p(1) by simp
  have st: "steady exec ((\<lambda>d. status d + dsDiskInPlace) ` set (disk_drives ?s))" unfolding p(4) by (rule Suc.prems(3))
  have u: "[n..<n + Suc k] = n # [Suc n..<Suc n + k]" by (simp add: upt_rec)
  have "drop n (disk_drives s) = disk_drives s ! n # drop (Suc n) (disk_drives s)" using n by (rule Cons_nth_drop_Suc [symmetric])
  moreover have "take (Suc n) ((disk_drives s)[n := x]) = take n (disk_drives s) @ [x]" for x
    using n by (simp add: take_Suc_conv_app_nth)
  ultimately show ?case using Suc.IH [OF p(3) l st] p(1,2,5) unfolding u by simp
qed simp


text \<open>
  C27: what \<open>accRun\<close> and the interrupt tell the system: with every disk in place, each drive
  flagged for mounting gets exactly one disk-inserted event with its number, in the order of
  the drives, and the next round posts nothing.
\<close>

theorem mounts_announced:
  assumes "all_in s" and "steady exec ((\<lambda>d. status d + dsDiskInPlace) ` set (disk_drives s))"
  shows "m_traps (mount_mountable_volumes p exec s) = m_traps s @ map mount_event (filter to_be_mounted (disk_drives s))
    \<and> m_traps (mount_mountable_volumes p exec (mount_mountable_volumes p exec s))
      = m_traps (mount_mountable_volumes p exec s)
    \<and> m_host (mount_mountable_volumes p exec s) = m_host s"
proof -
  let ?m = "mount_mountable_volumes p exec"
  have one: "disk_drives (?m s) = map announced (disk_drives s) \<and> m_traps (?m s)
      = m_traps s @ map mount_event (filter to_be_mounted (disk_drives s)) \<and> all_in (?m s) \<and> m_host (?m s) = m_host s"
    using mount_loop_all_in [of s 0 "length (disk_drives s)" exec p] assms by (simp add: mount_mountable_volumes_def)
  have "steady exec ((\<lambda>d. status d + dsDiskInPlace) ` set (disk_drives (?m s)))"
    using assms(2) one by (simp add: image_image announced_def)
  then have "m_traps (?m (?m s)) = m_traps (?m s) @ map mount_event (filter to_be_mounted (disk_drives (?m s)))"
    using mount_loop_all_in [of "?m s" 0 "length (disk_drives (?m s))" exec p] one
    by (simp add: mount_mountable_volumes_def [of p exec "?m s"])
  moreover have "filter to_be_mounted (disk_drives (?m s)) = []" using one by (auto simp: announced_def filter_empty_conv)
  ultimately show ?thesis using one by simp
qed


text \<open>
  C25: reading back what was written: after a write of the guest has succeeded, a read of the
  same sectors that succeeds delivers exactly the bytes of the guest's buffer, whatever the
  guest did to its memory in between, for disks with and without a partition map or header.
\<close>

theorem disk_reads_written:
  assumes "DiskPrime (unix_platform env) pb dce s0 = (noErr, s1)"
    and "request_of pb dce (m_mem (cleared pb s0)) = q" and "\<not> rq_read q"
    and "get_drive_info (rq_drive q) (disk_drives s0) = Some i"
    and "unix_valid (m_host s0) (fh (disk_drives s0 ! i))" and "0 \<le> rq_pos q + start_byte (disk_drives s0 ! i)"
    and "m_host s2 = m_host s1" and "disk_drives s2 = disk_drives s1"
    and "request_of pb' dce' (m_mem (cleared pb' s2)) = q'" and "rq_read q'"
    and "rq_drive q' = rq_drive q" and "rq_pos q' = rq_pos q" and "rq_len q' = rq_len q"
    and "DiskPrime (unix_platform env) pb' dce' s2 = (noErr, s3)"
    and "clear_of (pb' + ioActCount) 4 (rq_buffer q') (rq_len q)"
    and "clear_of (dce' + dCtlPosition) 4 (rq_buffer q') (rq_len q)"
  shows "mac_read (m_mem s3) (rq_buffer q') (rq_len q) = mac_read (m_mem (cleared pb s0)) (rq_buffer q) (rq_len q)"
  using assms by (rule unix.disk_read_back)


section \<open>Witnesses\<close>

text \<open>One disk of 1024 bytes in a file; the guest asks for its first sector.\<close>

definition demo_env :: host_env where
  "demo_env = \<lparr>access_w = (\<lambda>_. True), can_open = (\<lambda>_ _. True), drive_mounted = (\<lambda>_. False), umount_ok = (\<lambda>_. False),
     dev_is_block = (\<lambda>_. False), dev_is_floppy = (\<lambda>_. False), dev_writable = (\<lambda>_. False), dev_blocks = (\<lambda>_. None),
     cdrom_capability = (\<lambda>_. None), media_changed = (\<lambda>_. False), disc_ok = (\<lambda>_. False), toc_ok = (\<lambda>_. False)\<rparr>"

definition demo_sys :: "bool \<Rightarrow> sys" where
  "demo_sys ro =
     \<lparr>handles = [2 \<mapsto> \<lparr>fh_name = ''hd'', fh_fd = 3, fh_is_file = True, fh_is_floppy = False, fh_is_cdrom = False,
        fh_read_only = ro, fh_start_byte = 0, fh_file_size = 1024, fh_media_present = True, fh_cdrom_cap = 0\<rparr>],
      next_handle = 3, open_handles = [2], first_floppy = None,
      kernel = \<lparr>h_files = [''hd'' \<mapsto> replicate 1024 7], h_fds = [3 \<mapsto> ''hd''], h_next_fd = 4,
        h_calls = Transfer 4096 # Transfer 4096 # replicate 62 (Transfer 4096)\<rparr>\<rparr>"

definition demo_request :: "u32 \<Rightarrow> u32 \<Rightarrow> mac_mem" where
  "demo_request trap buffer =
     WriteMacInt32 (0x1000 + ioBuffer) buffer (WriteMacInt32 (0x1000 + ioReqCount) 512 (WriteMacInt16 (0x1000 + ioVRefNum) 1
       (WriteMacInt16 (0x1000 + ioTrap) trap (WriteMacInt8 (0x100 + dsDiskInPlace) 8 (\<lambda>_. 0)))))"

definition demo_driver :: "bool \<Rightarrow> sys disk_driver" where
  "demo_driver ro =
     \<lparr>m_mem = demo_request 3 0x2000, m_host = demo_sys ro, m_traps = [],
      disk_drives = [\<lparr>num = 1, fh = 2, start_byte = 0, num_blocks = 2, to_be_mounted = True, read_only = ro, status = 0x100\<rparr>],
      disk_acc_run_called = True, DiskIconAddr = 0\<rparr>"

definition demo_written :: "sys disk_driver" where
  "demo_written = snd (DiskPrime (unix_platform demo_env) 0x1000 0x800 (demo_driver False))"

definition demo_reading :: "sys disk_driver" where
  "demo_reading = demo_written\<lparr>m_mem := demo_request 2 0x3000\<rparr>"

lemma demo_requests:
  "request_of 0x1000 0x800 (m_mem (cleared 0x1000 (demo_driver ro)))
    = \<lparr>rq_read = False, rq_drive = 1, rq_buffer = 0x2000, rq_pos = 0, rq_len = 512\<rparr>"
  "request_of 0x1000 0x800 (m_mem (cleared 0x1000 demo_reading))
    = \<lparr>rq_read = True, rq_drive = 1, rq_buffer = 0x3000, rq_pos = 0, rq_len = 512\<rparr>"
proof -
  have "request_of 0x1000 0x800 (WriteMacInt32 (0x1000 + ioActCount) 0 (demo_request 3 0x2000))
      = \<lparr>rq_read = False, rq_drive = 1, rq_buffer = 0x2000, rq_pos = 0, rq_len = 512\<rparr>"
    "request_of 0x1000 0x800 (WriteMacInt32 (0x1000 + ioActCount) 0 (demo_request 2 0x3000))
      = \<lparr>rq_read = True, rq_drive = 1, rq_buffer = 0x3000, rq_pos = 0, rq_len = 512\<rparr>"
    by code_simp+
  then show "request_of 0x1000 0x800 (m_mem (cleared 0x1000 (demo_driver ro)))
    = \<lparr>rq_read = False, rq_drive = 1, rq_buffer = 0x2000, rq_pos = 0, rq_len = 512\<rparr>"
    "request_of 0x1000 0x800 (m_mem (cleared 0x1000 demo_reading))
    = \<lparr>rq_read = True, rq_drive = 1, rq_buffer = 0x3000, rq_pos = 0, rq_len = 512\<rparr>"
    by (simp_all add: cleared_def demo_driver_def demo_reading_def)
qed

lemma demo_in_place:
  assumes "status d = 0x100"
  shows "in_place (cleared 0x1000 (demo_driver ro)) d = 8" and "in_place (cleared 0x1000 demo_reading) d = 8"
proof -
  have "ReadMacInt8 (WriteMacInt32 (0x1000 + ioActCount) 0 (demo_request 3 0x2000)) (0x100 + dsDiskInPlace) = 8"
    "ReadMacInt8 (WriteMacInt32 (0x1000 + ioActCount) 0 (demo_request 2 0x3000)) (0x100 + dsDiskInPlace) = 8"
    by code_simp+
  then show "in_place (cleared 0x1000 (demo_driver ro)) d = 8" "in_place (cleared 0x1000 demo_reading) d = 8"
    using assms by (simp_all add: cleared_def demo_driver_def demo_reading_def in_place_def)
qed

lemma demo_drive: "get_drive_info 1 (disk_drives (demo_driver ro)) = Some 0"
  "disk_drives (demo_driver ro) ! 0 = \<lparr>num = 1, fh = 2, start_byte = 0, num_blocks = 2, to_be_mounted = True, read_only = ro, status = 0x100\<rparr>"
  "m_host (demo_driver ro) = demo_sys ro"
  by (simp_all add: demo_driver_def get_drive_info_def)

definition demo_sys_written :: "bytes \<Rightarrow> sys" where
  "demo_sys_written bs = (demo_sys False)\<lparr>kernel := (kernel (demo_sys False))\<lparr>
     h_calls := Transfer 4096 # replicate 62 (Transfer 4096), h_files := [''hd'' \<mapsto> file_put (replicate 1024 7) 0 bs]\<rparr>\<rparr>"

lemma demo_transfers:
  "length bs = 512 \<Longrightarrow> Sys_write 2 0 bs (demo_sys False) = (512, demo_sys_written bs)"
  "length bs = 512 \<Longrightarrow> \<exists>bs' h. Sys_read 2 0 512 (demo_sys_written bs) = ((bs', 512), h)"
proof -
  assume l: "length bs = 512"
  then have "bs \<noteq> []" by auto
  then show "Sys_write 2 0 bs (demo_sys False) = (512, demo_sys_written bs)"
    using l by (simp add: Sys_write_def k_pwrite_def demo_sys_def demo_sys_written_def Let_def fun_upd_def fun_eq_iff)
  have "1024 \<le> length (file_put (replicate 1024 7) 0 bs)"
    using file_put_grows [of "replicate 1024 7" 0 bs] by simp
  then show "\<exists>bs' h. Sys_read 2 0 512 (demo_sys_written bs) = ((bs', 512), h)"
    by (simp add: Sys_read_def k_pread_def k_content_def demo_sys_def demo_sys_written_def Let_def)
qed

lemma demo_valid: "unix_valid (demo_sys ro) 2" "unix_plain (demo_sys ro) 2" "unix_content (demo_sys ro) 2 = replicate 1024 7"
  by (simp_all add: unix_plain_def unix_valid_def unix_content_def k_content_def demo_sys_def)

lemma prime_writes:
  assumes "request_of pb dce (m_mem (cleared pb s)) = q" and "get_drive_info (rq_drive q) (disk_drives s) = Some i"
    and "in_place (cleared pb s) (disk_drives s ! i) \<noteq> 0" and "rq_len q mod 512 = 0" and "rq_pos q mod 512 = 0"
    and "prime_transfer p (disk_drives s ! i) (rq_read q) (rq_buffer q) (rq_pos q) (rq_len q) (cleared pb s) = ((noErr, n), s1)"
  shows "fst (DiskPrime p pb dce s) = noErr"
  by (rule DiskPrime_cases [OF assms(1) refl, of p]) (use assms in auto)

lemma demo_write: "DiskPrime (unix_platform demo_env) 0x1000 0x800 (demo_driver False) = (noErr, demo_written)"
proof -
  let ?bs = "mac_read (m_mem (cleared 0x1000 (demo_driver False))) 0x2000 512"
  have "fst (DiskPrime (unix_platform demo_env) 0x1000 0x800 (demo_driver False)) = noErr"
    by (rule prime_writes [OF demo_requests(1), where i = 0 and n = 512])
      (simp_all add: demo_drive demo_in_place prime_transfer_def demo_transfers)
  then show ?thesis by (simp add: demo_written_def prod_eq_iff)
qed

lemma demo_read: "DiskPrime (unix_platform demo_env) 0x1000 0x800 demo_reading
    = (noErr, snd (DiskPrime (unix_platform demo_env) 0x1000 0x800 demo_reading))"
proof -
  let ?bs = "mac_read (m_mem (cleared 0x1000 (demo_driver False))) 0x2000 512"
  note w = prime_success [OF demo_write demo_requests(1), unfolded request.simps, OF demo_drive(1) refl]
  have h: "m_host demo_reading = demo_sys_written ?bs" "disk_drives demo_reading = disk_drives (demo_driver False)"
    using w(1,2) demo_transfers(1) [of ?bs] by (simp_all add: demo_drive demo_reading_def)
  obtain bs' h' where "Sys_read 2 0 512 (demo_sys_written ?bs) = ((bs', 512), h')" using demo_transfers(2) [of ?bs] by auto
  then have "fst (DiskPrime (unix_platform demo_env) 0x1000 0x800 demo_reading) = noErr"
    by (intro prime_writes [OF demo_requests(2), where i = 0 and n = 512])
      (simp_all add: demo_drive demo_in_place prime_transfer_def h)
  then show ?thesis by (simp add: prod_eq_iff)
qed

theorem disk_reads_written_witness:
  "mac_read (m_mem (snd (DiskPrime (unix_platform demo_env) 0x1000 0x800 demo_reading))) 0x3000 512
    = mac_read (m_mem (cleared 0x1000 (demo_driver False))) 0x2000 512"
proof -
  have "disk_drives demo_written = disk_drives (demo_driver False)"
    by (rule prime_success(1) [OF demo_write demo_requests(1), unfolded request.simps, OF demo_drive(1) refl])
  then show ?thesis
    using disk_reads_written [OF demo_write demo_requests(1) _ _ _ _ _ _ demo_requests(2) _ _ _ _ demo_read, of 0]
    by (simp add: demo_drive demo_valid demo_reading_def)
qed


theorem mounts_announced_witness:
  "m_traps (mount_mountable_volumes (unix_platform demo_env) (\<lambda>_ _ _ m. (0, m)) (demo_driver False)) = [(PostEvent, 1, 7)]"
proof -
  have "ReadMacInt8 (demo_request 3 0x2000) 0x103 = 8" by code_simp
  then have "all_in (demo_driver False)" by (simp add: all_in_def demo_driver_def in_place_def)
  moreover have "steady (\<lambda>_ _ _ m. (0, m)) A" for A by (simp add: steady_def)
  ultimately have "m_traps (mount_mountable_volumes (unix_platform demo_env) (\<lambda>_ _ _ m. (0, m)) (demo_driver False))
      = m_traps (demo_driver False) @ map mount_event (filter to_be_mounted (disk_drives (demo_driver False)))"
    using mounts_announced [of "demo_driver False" "\<lambda>_ _ _ m. (0, m)" "unix_platform demo_env"] by blast
  then show ?thesis by (simp add: demo_driver_def mount_event_def)
qed


end
