(* ===== verification/Sony_Driver.thy ===== *)
theory Sony_Driver
  imports Disk_Guarantees
begin

text \<open>
  The floppy driver: \<^verbatim>\<open>src/core/sony.cpp\<close>, every routine of it (\<open>SonyInit\<close> is empty), in the
  build without \<open>DISK_INSERT_CHECK\<close>. Its state extends the one of the disk driver, so that both
  run on the same machine; \<open>MountVolume\<close> (\<^verbatim>\<open>src/core/macos_util.cpp\<close>) asks them in turn.
  \<open>PatchAfterStartup\<close> of the ROM patches and the CD-ROM driver are arguments.
\<close>

section \<open>State\<close>

record sony_drive_info =
  s_num :: int
  s_fh :: nat
  s_to_be_mounted :: bool
  s_read_only :: bool
  s_status :: u32

record 's drivers = "'s disk_driver" +
  sony_drives :: "sony_drive_info list"
  sony_acc_run_called :: bool
  SonyDiskIconAddr :: u32
  SonyDriveIconAddr :: u32

definition sony_get_drive_info :: "int \<Rightarrow> sony_drive_info list \<Rightarrow> nat option" where
  "sony_get_drive_info n ds = find_index (\<lambda>d. s_num d = n) ds"

definition set_sony :: "nat \<Rightarrow> (sony_drive_info \<Rightarrow> sony_drive_info) \<Rightarrow> 's drivers \<Rightarrow> 's drivers" where
  "set_sony i f s = s\<lparr>sony_drives := (sony_drives s)[i := f (sony_drives s ! i)]\<rparr>"

definition floppy_in :: "'s drivers \<Rightarrow> sony_drive_info \<Rightarrow> u32" where
  "floppy_in s d = ReadMacInt8 (m_mem s) (s_status d + dsDiskInPlace)"

definition SonyExit :: "'s platform \<Rightarrow> 's drivers \<Rightarrow> 's drivers" where
  "SonyExit p s =
     s\<lparr>m_host := fold (\<lambda>d h. sys_close p (s_fh d) h) (sony_drives s) (m_host s), sony_drives := []\<rparr>"

section \<open>Mounting\<close>

definition SonyMountVolume :: "'s platform \<Rightarrow> nat \<Rightarrow> 's drivers \<Rightarrow> bool \<times> 's drivers" where
  "SonyMountVolume p a s =
     (case find_index (\<lambda>d. s_fh d = a) (sony_drives s) of
        None \<Rightarrow> (False, s)
      | Some i \<Rightarrow>
          (case sys_is_disk_inserted p a (m_host s) of
             (inserted, h) \<Rightarrow>
               let s1 = s\<lparr>m_host := h\<rparr> in
               (True,
                if inserted then
                  let ro = sys_is_readonly p a h; st = s_status (sony_drives s ! i) in
                  set_sony i (\<lambda>d. d\<lparr>s_read_only := ro, s_to_be_mounted := True\<rparr>)
                    (put_mem (\<lambda>m. WriteMacInt8 (st + dsWriteProt) (if ro then 0xff else 0)
                                    (WriteMacInt8 (st + dsDiskInPlace) 1 m)) s1)
                else s1)))"

definition sony_post_mount :: "guest \<Rightarrow> nat \<Rightarrow> 's drivers \<Rightarrow> 's drivers" where
  "sony_post_mount exec i s =
     (let d = sony_drives s ! i in
      if s_to_be_mounted d then
        set_sony i (\<lambda>d. d\<lparr>s_to_be_mounted := False\<rparr>) (snd (Execute68kTrap exec PostEvent (word_of_int (s_num d)) 7 s))
      else s)"

definition sony_mount_mountable_volumes :: "guest \<Rightarrow> 's drivers \<Rightarrow> 's drivers" where
  "sony_mount_mountable_volumes exec s = fold (sony_post_mount exec) [0..<length (sony_drives s)] s"

definition SonyInterrupt :: "guest \<Rightarrow> 's drivers \<Rightarrow> 's drivers" where
  "SonyInterrupt exec s = (if \<not> sony_acc_run_called s then s else sony_mount_mountable_volumes exec s)"

definition MountVolume :: "'s platform \<Rightarrow> (nat \<Rightarrow> 's drivers \<Rightarrow> bool \<times> 's drivers) \<Rightarrow> nat \<Rightarrow> 's drivers \<Rightarrow> 's drivers" where
  "MountVolume p CDROMMountVolume a s =
     (case SonyMountVolume p a s of
        (True, s1) \<Rightarrow> s1
      | (False, s1) \<Rightarrow>
          (case DiskMountVolume p a s1 of
             (True, s2) \<Rightarrow> s2
           | (False, s2) \<Rightarrow> snd (CDROMMountVolume a s2)))"

section \<open>Open\<close>

abbreviation DskErr :: u32 where "DskErr \<equiv> 0x142"

definition set_dsk_err :: "int \<Rightarrow> 's drivers \<Rightarrow> int \<times> 's drivers" where
  "set_dsk_err err s = (err, put_mem (WriteMacInt16 DskErr (word_of_int err)) s)"

definition sony_init_status :: "'s platform \<Rightarrow> nat \<Rightarrow> u32 \<Rightarrow> 's drivers \<Rightarrow> 's drivers" where
  "sony_init_status p i st s =
     (let s1 = put_mem (\<lambda>m. WriteMacInt8 (st + dsTwoMegFmt) 0xff (WriteMacInt8 (st + dsMFMDisk) 0xff
                 (WriteMacInt8 (st + dsMFMDrive) 0xff (WriteMacInt8 (st + dsNewIntf) 0xff
                 (WriteMacInt8 (st + dsTwoSideFmt) 0xff (WriteMacInt8 (st + dsSides) 0xff
                 (WriteMacInt8 (st + dsInstalled) 1 (WriteMacInt16 (st + dsQType) sony m))))))))
                 (set_sony i (\<lambda>d. d\<lparr>s_status := st\<rparr>) s)
      in case sys_is_disk_inserted p (s_fh (sony_drives s1 ! i)) (m_host s1) of
           (inserted, h) \<Rightarrow>
             let s2 = s1\<lparr>m_host := h\<rparr> in
             if inserted then
               set_sony i (\<lambda>d. d\<lparr>s_to_be_mounted := True\<rparr>)
                 (put_mem (\<lambda>m. WriteMacInt8 (st + dsWriteProt) (if s_read_only (sony_drives s2 ! i) then 0xff else 0)
                                 (WriteMacInt8 (st + dsDiskInPlace) 1 m)) s2)
             else s2)"

abbreviation SonyRefNum :: u32 where "SonyRefNum \<equiv> - 5"

definition sony_open_drive :: "'s platform \<Rightarrow> guest \<Rightarrow> nat \<Rightarrow> nat \<Rightarrow> 's drivers \<Rightarrow> 's drivers option" where
  "sony_open_drive p exec fuel i s =
     (case FindFreeDriveNumber fuel (m_mem s) 1 of
        None \<Rightarrow> None
      | Some n \<Rightarrow>
          let s1 = set_sony i (\<lambda>d. d\<lparr>s_num := n, s_to_be_mounted := False\<rparr>) s in
          case Execute68kTrap exec NewPtrSysClear SIZEOF_DrvSts 0 s1 of
            (st, s2) \<Rightarrow>
              if st = 0 then Some s2
              else Some (snd (Execute68kTrap exec AddDrive (push_bit 16 (word_of_int n) OR (SonyRefNum AND 0xffff))
                          (st + dsQLink) (sony_init_status p i st s2))))"

fun sony_open_drives :: "'s platform \<Rightarrow> guest \<Rightarrow> nat \<Rightarrow> nat list \<Rightarrow> 's drivers \<Rightarrow> 's drivers option" where
  "sony_open_drives p exec fuel [] s = Some s"
| "sony_open_drives p exec fuel (i # is) s =
     (case sony_open_drive p exec fuel i s of None \<Rightarrow> None | Some s1 \<Rightarrow> sony_open_drives p exec fuel is s1)"

definition SonyOpen :: "'s platform \<Rightarrow> guest \<Rightarrow> nat \<Rightarrow> u32 \<Rightarrow> 's drivers \<Rightarrow> (int \<times> 's drivers) option" where
  "SonyOpen p exec fuel dce s =
     (let s1 = put_mem (\<lambda>m. WriteMacInt16 (dce + dCtlQHdr + qFlags)
                 ((ReadMacInt16 m (dce + dCtlQHdr + qFlags) AND 0xff00) OR 3) m)
                 (put_mem (WriteMacInt32 (dce + dCtlPosition) 0) s);
          s2 = put_mem (\<lambda>m. let utab = ReadMacInt32 m 0x11c in WriteMacInt32 (utab + 4) (ReadMacInt32 m (utab + 16)) m)
                 (s1\<lparr>sony_acc_run_called := False\<rparr>);
          s3 = snd (set_dsk_err 0 (put_mem (WriteMacInt32 0x134 0xdeadbeef) s2))
      in case sony_open_drives p exec fuel [0..<length (sony_drives s3)] s3 of
           None \<Rightarrow> None
         | Some s4 \<Rightarrow> Some (noErr, s4))"

section \<open>Prime\<close>

definition sony_transfer :: "'s platform \<Rightarrow> sony_drive_info \<Rightarrow> bool \<Rightarrow> u32 \<Rightarrow> int \<Rightarrow> nat \<Rightarrow> 's drivers \<Rightarrow> (int \<times> nat) \<times> 's drivers" where
  "sony_transfer p d rd buffer pos len s =
     (if rd then
        (case sys_read p (s_fh d) pos len (m_host s) of
           ((bs, actual), h) \<Rightarrow>
             let s1 = put_mem (mac_write buffer bs) (s\<lparr>m_host := h\<rparr>) in
             if actual \<noteq> len then ((readErr, actual), s1)
             else ((noErr, actual),
                   put_mem (\<lambda>m. WriteMacInt32 0x304 0 (WriteMacInt32 0x300 0 (WriteMacInt32 0x2fc 0 m))) s1))
      else if s_read_only d then ((wPrErr, 0), s)
      else
        (case sys_write p (s_fh d) pos (mac_read (m_mem s) buffer len) (m_host s) of
           (actual, h) \<Rightarrow> ((if actual \<noteq> len then writErr else noErr, actual), s\<lparr>m_host := h\<rparr>)))"

definition SonyPrime :: "'s platform \<Rightarrow> u32 \<Rightarrow> u32 \<Rightarrow> 's drivers \<Rightarrow> int \<times> 's drivers" where
  "SonyPrime p pb dce s0 =
     (let s = put_mem (WriteMacInt32 (pb + ioActCount) 0) s0 in
      case sony_get_drive_info (int (unat (ReadMacInt16 (m_mem s) (pb + ioVRefNum)))) (sony_drives s) of
        None \<Rightarrow> set_dsk_err nsDrvErr s
      | Some i \<Rightarrow>
          let d = sony_drives s ! i in
          if floppy_in s d = 0 then set_dsk_err offLinErr s
          else
            let s1 = put_mem (WriteMacInt8 (s_status d + dsDiskInPlace) 2) s;
                m = m_mem s1;
                len = unat (ReadMacInt32 m (pb + ioReqCount));
                pos = int (unat (ReadMacInt32 m (dce + dCtlPosition)))
            in if len mod 512 \<noteq> 0 \<or> pos mod 512 \<noteq> 0 then set_dsk_err paramErr s1
               else case sony_transfer p d (ReadMacInt16 m (pb + ioTrap) AND 0xff = aRdCmd)
                           (ReadMacInt32 m (pb + ioBuffer)) pos len s1 of
                 ((result, actual), s2) \<Rightarrow>
                   if result \<noteq> noErr then set_dsk_err result s2
                   else set_dsk_err noErr (put_mem (prime_finish pb dce actual) s2))"

section \<open>Control and Status\<close>

definition sony_accrun :: "guest \<Rightarrow> (mac_mem \<Rightarrow> mac_mem) \<Rightarrow> u32 \<Rightarrow> 's drivers \<Rightarrow> 's drivers" where
  "sony_accrun exec PatchAfterStartup dce s =
     (put_mem (\<lambda>m. WriteMacInt16 (dce + dCtlFlags) (ReadMacInt16 m (dce + dCtlFlags) AND NOT 0x2000) m)
        (put_mem PatchAfterStartup (sony_mount_mountable_volumes exec s)))\<lparr>sony_acc_run_called := True\<rparr>"

text \<open>The codes for one drive: the error and the state.\<close>

definition sony_drive_control :: "'s platform \<Rightarrow> u32 \<Rightarrow> u32 \<Rightarrow> sony_drive_info \<Rightarrow> 's drivers \<Rightarrow> int \<times> 's drivers" where
  "sony_drive_control p code pb d s =
     (if code = 5 then (if floppy_in s d = 0 then offLinErr else noErr, s)
      else if code = 6 then
        (if s_read_only d then wPrErr
         else if 0 < floppy_in s d then (if sys_format p (s_fh d) (m_host s) then noErr else writErr)
         else offLinErr, s)
      else if code = 7 then
        (noErr, if 0 < floppy_in s d
                then put_mem (WriteMacInt8 (s_status d + dsDiskInPlace) 0) (s\<lparr>m_host := sys_eject p (s_fh d) (m_host s)\<rparr>)
                else s)
      else if code = 8 then (noErr, s)
      else if code = 21 then (noErr, put_mem (WriteMacInt32 (pb + csParam) (SonyDriveIconAddr s)) s)
      else if code = 22 then (noErr, put_mem (WriteMacInt32 (pb + csParam) (SonyDiskIconAddr s)) s)
      else if code = 23 then (noErr, put_mem (WriteMacInt32 (pb + csParam) (if s_num d = 1 then 0x0004 else 0x0104)) s)
      else if code = 0x5343 then
        (if floppy_in s d = 0 then (offLinErr, s)
         else if s_read_only d then (wPrErr, s)
         else case sys_write p (s_fh d) 0 (mac_read (m_mem s) (ReadMacInt32 (m_mem s) (pb + csParam + 2)) (2880 * 512)) (m_host s) of
           (actual, h) \<Rightarrow> (if actual \<noteq> 2880 * 512 then writErr else noErr, s\<lparr>m_host := h\<rparr>))
      else (controlErr, s))"

definition SonyControl :: "'s platform \<Rightarrow> guest \<Rightarrow> (mac_mem \<Rightarrow> mac_mem) \<Rightarrow> u32 \<Rightarrow> u32 \<Rightarrow> 's drivers \<Rightarrow> int \<times> 's drivers" where
  "SonyControl p exec PatchAfterStartup pb dce s =
     (let code = ReadMacInt16 (m_mem s) (pb + csCode) in
      if code = 1 then set_dsk_err (- 1) s
      else if code = 9 then set_dsk_err noErr s
      else if code = 65 then (noErr, sony_accrun exec PatchAfterStartup dce s)
      else case sony_get_drive_info (int (unat (ReadMacInt16 (m_mem s) (pb + ioVRefNum)))) (sony_drives s) of
        None \<Rightarrow> set_dsk_err nsDrvErr s
      | Some i \<Rightarrow> (case sony_drive_control p code pb (sony_drives s ! i) s of (err, s1) \<Rightarrow> set_dsk_err err s1))"

definition sony_drive_status :: "u32 \<Rightarrow> u32 \<Rightarrow> sony_drive_info \<Rightarrow> 's drivers \<Rightarrow> int \<times> 's drivers" where
  "sony_drive_status code pb d s =
     (if code = 6 then
        (if 0 < ReadMacInt16 (m_mem s) (pb + csParam) then
           (noErr, put_mem (\<lambda>m. let adr = ReadMacInt32 m (pb + csParam + 2) in
                      WriteMacInt32 (adr + 4) 0xd2120050 (WriteMacInt32 adr 2880 (WriteMacInt16 (pb + csParam) 1 m))) s)
         else (paramErr, s))
      else if code = 8 then (noErr, put_mem (Mac2Mac_memcpy (pb + csParam) (s_status d) 22) s)
      else if code = 10 then
        (noErr, put_mem (\<lambda>m. WriteMacInt32 (pb + csParam) ((ReadMacInt32 m (s_status d + dsMFMDrive) AND 0xffffff00) OR 0xfe) m) s)
      else if code = 0x4456 then (noErr, put_mem (WriteMacInt16 (pb + csParam) 0x0410) s)
      else if code = 0x5343 then (noErr, put_mem (WriteMacInt8 (pb + csParam) 0x02) s)
      else (statusErr, s))"

definition SonyStatus :: "u32 \<Rightarrow> u32 \<Rightarrow> 's drivers \<Rightarrow> int \<times> 's drivers" where
  "SonyStatus pb dce s =
     (let code = ReadMacInt16 (m_mem s) (pb + csCode) in
      if code = 0x4456 then set_dsk_err noErr (put_mem (WriteMacInt16 (pb + csParam) 0x0410) s)
      else case sony_get_drive_info (int (unat (ReadMacInt16 (m_mem s) (pb + ioVRefNum)))) (sony_drives s) of
        None \<Rightarrow> set_dsk_err nsDrvErr s
      | Some i \<Rightarrow> (case sony_drive_status code pb (sony_drives s ! i) s of (err, s1) \<Rightarrow> set_dsk_err err s1))"

section \<open>DskErr\<close>

text \<open>The error code a routine returned is in the low-memory global \<open>DskErr\<close>.\<close>

definition reported :: "int \<times> 's drivers \<Rightarrow> bool" where
  "reported r \<longleftrightarrow> ReadMacInt16 (m_mem (snd r)) DskErr = ucast (word_of_int (fst r) :: u16)"

lemma reported_set [simp]: "reported (set_dsk_err err s)"
proof -
  have "(ucast (word_of_int err :: u32) :: u16) = word_of_int err" by (rule bit_word_eqI) (simp add: bit_ucast_iff bit_word_of_int_iff)
  then show ?thesis by (simp add: reported_def set_dsk_err_def mem_simps)
qed

lemma sony_results:
  "reported (SonyPrime p pb dce s)"
  "reported (SonyStatus pb dce s)"
  "ReadMacInt16 (m_mem s) (pb + csCode) \<noteq> 65 \<Longrightarrow> reported (SonyControl p exec patch pb dce s)"
  by (auto simp: SonyPrime_def SonyStatus_def SonyControl_def Let_def split: option.splits prod.splits)

text \<open>
  Every result of the floppy driver is also in \<open>DskErr\<close>: after Prime, Status and every
  Control call but \<open>accRun\<close> the low-memory global holds the 16 bits of the code returned.
\<close>

theorem dsk_err_holds_result:
  assumes "ReadMacInt16 (m_mem s) (pb + csCode) \<noteq> 65"
  shows "reported (SonyPrime p pb dce s) \<and> reported (SonyStatus pb dce s)
    \<and> reported (SonyControl p exec patch pb dce s)"
  using sony_results assms by blast

section \<open>Mounting through both drivers\<close>

lemma set_drive_acc [simp]: "disk_acc_run_called (set_drive i f s) = disk_acc_run_called s"
  by (simp add: set_drive_def)

lemma set_disk_size_keeps:
  shows "length (disk_drives (set_disk_size p i s)) = length (disk_drives s)"
    and "j < length (disk_drives s) \<Longrightarrow> num (disk_drives (set_disk_size p i s) ! j) = num (disk_drives s ! j)"
    and "j < length (disk_drives s) \<Longrightarrow> status (disk_drives (set_disk_size p i s) ! j) = status (disk_drives s ! j)"
    and "m_mem (set_disk_size p i s) = m_mem s"
    and "m_traps (set_disk_size p i s) = m_traps s" "disk_acc_run_called (set_disk_size p i s) = disk_acc_run_called s"
  by (auto simp: set_disk_size_def find_hfs_partition_def Let_def nth_set_drive set_drive_acc split: prod.splits)

lemma mount_inserted_effect:
  assumes "i < length (disk_drives s)"
  shows "to_be_mounted (disk_drives (mount_inserted p i s) ! i)"
    and "num (disk_drives (mount_inserted p i s) ! i) = num (disk_drives s ! i)"
    and "length (disk_drives (mount_inserted p i s)) = length (disk_drives s)"
    and "m_traps (mount_inserted p i s) = m_traps s"
    and "disk_acc_run_called (mount_inserted p i s) = disk_acc_run_called s"
    and "in_place (mount_inserted p i s) (disk_drives (mount_inserted p i s) ! i) = 1"
proof -
  show "to_be_mounted (disk_drives (mount_inserted p i s) ! i)"
    "num (disk_drives (mount_inserted p i s) ! i) = num (disk_drives s ! i)"
    "length (disk_drives (mount_inserted p i s)) = length (disk_drives s)"
    "m_traps (mount_inserted p i s) = m_traps s"
    "disk_acc_run_called (mount_inserted p i s) = disk_acc_run_called s"
    using assms by (auto simp: mount_inserted_def Let_def nth_set_drive set_disk_size_keeps)
  have "ReadMacInt8 (WriteMacInt8 (st + dsWriteProt) v m) (st + dsDiskInPlace) = ReadMacInt8 m (st + dsDiskInPlace)" for st v m
    by (rule read_write_clear(1)) (simp add: clear_of_def Suc_le_eq unat_gt_0 del: clear_of_numerals)
  then show "in_place (mount_inserted p i s) (disk_drives (mount_inserted p i s) ! i) = 1"
    using assms by (simp add: in_place_def mount_inserted_def Let_def nth_set_drive set_disk_size_keeps write_size_def mem_simps)
qed

lemma sony_drives_kept:
  fixes s :: "'s drivers"
  shows "sony_drives (set_drive i f s) = sony_drives s" "sony_drives (put_mem g s) = sony_drives s"
    "sony_drives (set_disk_size p i s) = sony_drives s"
  by (simp_all add: set_drive_def put_mem_def set_disk_size_def find_hfs_partition_def Let_def split: prod.splits)

lemma mount_inserted_sony:
  fixes s :: "'s drivers"
  shows "sony_drives (mount_inserted p i s) = sony_drives s"
  by (simp add: mount_inserted_def Let_def sony_drives_kept)

text \<open>
  C28: the host's \<open>MountVolume\<close> of a disk image reaches the driver that owns it: the floppy driver
  is left alone, the disk driver's drive is flagged, and the driver's next interrupt tells the
  system about it with that drive's number.
\<close>

theorem mount_reaches_disk:
  assumes "unix_plain (m_host s) a" and "find_index (\<lambda>d. fh d = a) (disk_drives s) = Some i"
    and "list_all (\<lambda>d. s_fh d \<noteq> a) (sony_drives s)" and "disk_acc_run_called s"
    and "s1 = MountVolume (unix_platform env) cdrom a s"
    and "all_in s1" and "steady exec ((\<lambda>d. status d + dsDiskInPlace) ` set (disk_drives s1))"
  shows "sony_drives s1 = sony_drives s
    \<and> (PostEvent, word_of_int (num (disk_drives s ! i)), 7) \<in> set (m_traps (DiskInterrupt (unix_platform env) exec s1))"
proof -
  let ?p = "unix_platform env"
  have i: "i < length (disk_drives s)" using find_index_Some [OF assms(2)] by simp
  have "SonyMountVolume ?p a s = (False, s)"
    using assms(3) by (simp add: SonyMountVolume_def find_index_None [THEN iffD2])
  moreover have "DiskMountVolume ?p a s = (True, mount_inserted ?p i s)"
    using assms(2) plain_device(1) [OF assms(1)] by (simp add: DiskMountVolume_def)
  ultimately have s1: "s1 = mount_inserted ?p i s" unfolding assms(5) by (simp add: MountVolume_def)
  note e = mount_inserted_effect [OF i, of ?p, folded s1]
  have "disk_drives s1 ! i \<in> set (filter to_be_mounted (disk_drives s1))" using e(1,3) i by simp
  then have "mount_event (disk_drives s1 ! i) \<in> set (m_traps (mount_mountable_volumes ?p exec s1))"
    using mount_loop_all_in [of s1 0 "length (disk_drives s1)" exec ?p] assms(6,7)
    by (simp add: mount_mountable_volumes_def)
  then show ?thesis using e(2,5) assms(4) mount_inserted_sony [of ?p i s]
    by (simp add: s1 [symmetric] DiskInterrupt_def mount_event_def)
qed

definition demo_both :: "sys drivers" where
  "demo_both =
     \<lparr>m_mem = demo_request 3 0x2000, m_host = demo_sys False, m_traps = [],
      disk_drives = [\<lparr>num = 1, fh = 2, start_byte = 0, num_blocks = 2, to_be_mounted = False, read_only = False, status = 0x100\<rparr>],
      disk_acc_run_called = True, DiskIconAddr = 0,
      sony_drives = [], sony_acc_run_called = False, SonyDiskIconAddr = 0, SonyDriveIconAddr = 0\<rparr>"

lemma demo_both_fields:
  "m_host demo_both = demo_sys False" "sony_drives demo_both = []" "disk_acc_run_called demo_both"
  "disk_drives demo_both = [\<lparr>num = 1, fh = 2, start_byte = 0, num_blocks = 2, to_be_mounted = False, read_only = False, status = 0x100\<rparr>]"
  "demo_both\<lparr>m_host := demo_sys False\<rparr> = demo_both"
  by (simp_all add: demo_both_def)

theorem dsk_err_holds_result_witness:
  "reported (SonyControl (unix_platform demo_env) (\<lambda>_ _ _ m. (0, m)) (\<lambda>m. m) 0x1000 0x800 demo_both)"
proof -
  have "ReadMacInt16 (demo_request 3 0x2000) (0x1000 + csCode) = 0" by code_simp
  then have "ReadMacInt16 (m_mem demo_both) (0x1000 + csCode) \<noteq> 65" by (simp add: demo_both_def)
  from dsk_err_holds_result [OF this] show ?thesis by blast
qed

theorem mount_reaches_disk_witness:
  "(PostEvent, 1, 7) \<in> set (m_traps (DiskInterrupt (unix_platform demo_env) (\<lambda>_ _ _ m. (0, m))
     (MountVolume (unix_platform demo_env) (\<lambda>_ s. (False, s)) 2 demo_both)))"
proof -
  let ?p = "unix_platform demo_env" and ?q = "\<lambda>_ _ _ m. (0, m)"
  have m: "MountVolume ?p (\<lambda>_ s. (False, s)) 2 demo_both = mount_inserted ?p 0 demo_both"
    using demo_valid(2) plain_device(1) [of "demo_sys False" 2 demo_env]
    by (simp add: MountVolume_def SonyMountVolume_def DiskMountVolume_def demo_both_fields)
  note e = mount_inserted_effect [of 0 demo_both ?p, simplified demo_both_fields, simplified]
  have "all_in (mount_inserted ?p 0 demo_both)"
    using e(3,6) by (simp add: all_in_def list_all_length)
  moreover have "steady ?q A" for A by (simp add: steady_def)
  ultimately show ?thesis
    using mount_reaches_disk [of demo_both 2 0 "mount_inserted ?p 0 demo_both" demo_env "\<lambda>_ s. (False, s)" ?q] m demo_valid(2)
    by (simp add: demo_both_fields)
qed

end
