(* ===== verification/Mac_Roman.thy ===== *)
theory Mac_Roman
  imports Phoenix_Prelude
begin

text \<open>
  MacRoman text and UTF-8: \<^verbatim>\<open>src/core/mac_roman.cpp\<close>. Strings are byte lists; the index
  into the input is the list of bytes still to be read. \<open>std::sort\<close> is \<open>sort_key\<close> (the keys
  are distinct, so the order of equal keys does not matter), \<open>std::lower_bound\<close> the first
  entry of the sorted array that is not below the value.
\<close>

section \<open>The table\<close>

definition kHighToCp :: "u32 list" where
  "kHighToCp =
     [0xC4, 0xC5, 0xC7, 0xC9, 0xD1, 0xD6, 0xDC, 0xE1,
      0xE0, 0xE2, 0xE4, 0xE3, 0xE5, 0xE7, 0xE9, 0xE8,
      0xEA, 0xEB, 0xED, 0xEC, 0xEE, 0xEF, 0xF1, 0xF3,
      0xF2, 0xF4, 0xF6, 0xF5, 0xFA, 0xF9, 0xFB, 0xFC,
      0x2020, 0xB0, 0xA2, 0xA3, 0xA7, 0x2022, 0xB6, 0xDF,
      0xAE, 0xA9, 0x2122, 0xB4, 0xA8, 0x2260, 0xC6, 0xD8,
      0x221E, 0xB1, 0x2264, 0x2265, 0xA5, 0xB5, 0x2202, 0x2211,
      0x220F, 0x3C0, 0x222B, 0xAA, 0xBA, 0x3A9, 0xE6, 0xF8,
      0xBF, 0xA1, 0xAC, 0x221A, 0x192, 0x2248, 0x2206, 0xAB,
      0xBB, 0x2026, 0xA0, 0xC0, 0xC3, 0xD5, 0x152, 0x153,
      0x2013, 0x2014, 0x201C, 0x201D, 0x2018, 0x2019, 0xF7, 0x25CA,
      0xFF, 0x178, 0x2044, 0x20AC, 0x2039, 0x203A, 0xFB01, 0xFB02,
      0x2021, 0xB7, 0x201A, 0x201E, 0x2030, 0xC2, 0xCA, 0xC1,
      0xCB, 0xC8, 0xCD, 0xCE, 0xCF, 0xCC, 0xD3, 0xD4,
      0xF8FF, 0xD2, 0xDA, 0xDB, 0xD9, 0x131, 0x2C6, 0x2DC,
      0xAF, 0x2D8, 0x2D9, 0x2DA, 0xB8, 0x2DD, 0x2DB, 0x2C7]"

definition reverse_map :: "(u32 \<times> u8) list" where
  "reverse_map = sort_key fst (map (\<lambda>i. (kHighToCp ! i, of_nat (0x80 + i))) [0..<128])"

section \<open>UTF-8\<close>

definition tail6 :: "u32 \<Rightarrow> u8" where
  "tail6 cp = ucast (0x80 OR (cp AND 0x3F))"

definition encode_utf8 :: "u32 \<Rightarrow> bytes" where
  "encode_utf8 cp =
     (if cp < 0x80 then [ucast cp]
      else if cp < 0x800 then [ucast (0xC0 OR drop_bit 6 cp), tail6 cp]
      else if cp < 0x10000 then [ucast (0xE0 OR drop_bit 12 cp), tail6 (drop_bit 6 cp), tail6 cp]
      else [ucast (0xF0 OR drop_bit 18 cp), tail6 (drop_bit 12 cp), tail6 (drop_bit 6 cp), tail6 cp])"

text \<open>The lambda \<open>cont\<close>: the bits of a continuation byte, or nothing consumed.\<close>

fun cont :: "bytes \<Rightarrow> u32 option \<times> bytes" where
  "cont [] = (None, [])"
| "cont (c # bs) = (if c AND 0xC0 \<noteq> 0x80 then (None, c # bs) else (Some (ucast (c AND 0x3F)), bs))"

fun decode_utf8 :: "u8 \<Rightarrow> bytes \<Rightarrow> u32 \<times> bytes" where
  "decode_utf8 b0 bs =
     (if b0 < 0x80 then (ucast b0, bs)
      else if b0 AND 0xE0 = 0xC0 then
        (case cont bs of (c1, bs1) \<Rightarrow>
          (case c1 of Some x1 \<Rightarrow> push_bit 6 (ucast (b0 AND 0x1F)) OR x1 | None \<Rightarrow> 0xFFFD, bs1))
      else if b0 AND 0xF0 = 0xE0 then
        (case cont bs of (c1, bs1) \<Rightarrow> case cont bs1 of (c2, bs2) \<Rightarrow>
          (case (c1, c2) of
             (Some x1, Some x2) \<Rightarrow> push_bit 12 (ucast (b0 AND 0x0F)) OR push_bit 6 x1 OR x2
           | _ \<Rightarrow> 0xFFFD, bs2))
      else if b0 AND 0xF8 = 0xF0 then
        (case cont bs of (c1, bs1) \<Rightarrow> case cont bs1 of (c2, bs2) \<Rightarrow> case cont bs2 of (c3, bs3) \<Rightarrow>
          (case (c1, c2, c3) of
             (Some x1, Some x2, Some x3) \<Rightarrow>
               push_bit 18 (ucast (b0 AND 0x07)) OR push_bit 12 x1 OR push_bit 6 x2 OR x3
           | _ \<Rightarrow> 0xFFFD, bs3))
      else (0xFFFD, bs))"

lemma cont_shorter: "cont bs = (c, bs') \<Longrightarrow> length bs' \<le> length bs"
  by (cases bs) (auto split: if_splits)

lemma decode_shorter: "decode_utf8 b bs = (cp, bs') \<Longrightarrow> length bs' \<le> length bs"
  by (auto split: if_splits prod.splits dest!: cont_shorter)

declare decode_utf8.simps [simp del]

section \<open>The conversions\<close>

fun roman_char :: "u8 \<Rightarrow> bytes" where
  "roman_char b =
     (if b = 0x0D then [0x0A] else if b < 0x80 then [b] else encode_utf8 (kHighToCp ! (unat b - 0x80)))"

definition mac_roman_to_utf8 :: "bytes \<Rightarrow> bytes" where
  "mac_roman_to_utf8 bs = concat (map roman_char bs)"

definition lower_bound :: "u32 \<Rightarrow> (u32 \<times> u8) list \<Rightarrow> (u32 \<times> u8) option" where
  "lower_bound v m = find (\<lambda>e. \<not> fst e < v) m"

definition mac_char :: "u32 \<Rightarrow> u8" where
  "mac_char cp =
     (if cp = 0x0A then 0x0D
      else if cp < 0x80 then ucast cp
      else case lower_bound cp reverse_map of
        Some (c, b) \<Rightarrow> if c = cp then b else 0x3F
      | None \<Rightarrow> 0x3F)"

function utf8_to_mac_roman :: "bytes \<Rightarrow> bytes" where
  "utf8_to_mac_roman [] = []"
| "utf8_to_mac_roman (b # bs) = (case decode_utf8 b bs of (cp, bs') \<Rightarrow> mac_char cp # utf8_to_mac_roman bs')"
  by pat_completeness auto
termination by (relation "measure length") (auto dest!: sym [of "(_, _)"] decode_shorter)

section \<open>One character\<close>

lemma bits8: "bit (0x3F :: u8) n \<longleftrightarrow> n < 6" "bit (0x1F :: u8) n \<longleftrightarrow> n < 5" "bit (0x0F :: u8) n \<longleftrightarrow> n < 4"
  "bit (0x07 :: u8) n \<longleftrightarrow> n < 3" "bit (0xC0 :: u8) n \<longleftrightarrow> n = 6 \<or> n = 7"
  "bit (0xE0 :: u8) n \<longleftrightarrow> 5 \<le> n \<and> n < 8" "bit (0xF0 :: u8) n \<longleftrightarrow> 4 \<le> n \<and> n < 8"
  "bit (0xF8 :: u8) n \<longleftrightarrow> 3 \<le> n \<and> n < 8" "bit (0x80 :: u8) n \<longleftrightarrow> n = 7"
proof -
  have c: "(0x3F :: u8) = mask 6" "(0x1F :: u8) = mask 5" "(0x0F :: u8) = mask 4" "(0x07 :: u8) = mask 3"
    "(0xC0 :: u8) = push_bit 6 (mask 2)" "(0xE0 :: u8) = push_bit 5 (mask 3)" "(0xF0 :: u8) = push_bit 4 (mask 4)"
    "(0xF8 :: u8) = push_bit 3 (mask 5)" "(0x80 :: u8) = push_bit 7 (mask 1)"
    by (simp_all add: mask_eq_exp_minus_1 push_bit_eq_mult)
  show "bit (0x3F :: u8) n \<longleftrightarrow> n < 6" "bit (0x1F :: u8) n \<longleftrightarrow> n < 5" "bit (0x0F :: u8) n \<longleftrightarrow> n < 4"
    "bit (0x07 :: u8) n \<longleftrightarrow> n < 3" "bit (0xC0 :: u8) n \<longleftrightarrow> n = 6 \<or> n = 7"
    "bit (0xE0 :: u8) n \<longleftrightarrow> 5 \<le> n \<and> n < 8" "bit (0xF0 :: u8) n \<longleftrightarrow> 4 \<le> n \<and> n < 8"
    "bit (0xF8 :: u8) n \<longleftrightarrow> 3 \<le> n \<and> n < 8" "bit (0x80 :: u8) n \<longleftrightarrow> n = 7"
    unfolding c bit_push_bit_iff bit_mask_iff by auto
qed

lemma bits32: "bit (0x3F :: u32) n \<longleftrightarrow> n < 6" "bit (0xC0 :: u32) n \<longleftrightarrow> n = 6 \<or> n = 7"
  "bit (0xE0 :: u32) n \<longleftrightarrow> 5 \<le> n \<and> n < 8" "bit (0xF0 :: u32) n \<longleftrightarrow> 4 \<le> n \<and> n < 8"
  "bit (0x80 :: u32) n \<longleftrightarrow> n = 7"
proof -
  have c: "(0x3F :: u32) = mask 6" "(0xC0 :: u32) = push_bit 6 (mask 2)" "(0xE0 :: u32) = push_bit 5 (mask 3)"
    "(0xF0 :: u32) = push_bit 4 (mask 4)" "(0x80 :: u32) = push_bit 7 (mask 1)"
    by (simp_all add: mask_eq_exp_minus_1 push_bit_eq_mult)
  show "bit (0x3F :: u32) n \<longleftrightarrow> n < 6" "bit (0xC0 :: u32) n \<longleftrightarrow> n = 6 \<or> n = 7"
    "bit (0xE0 :: u32) n \<longleftrightarrow> 5 \<le> n \<and> n < 8" "bit (0xF0 :: u32) n \<longleftrightarrow> 4 \<le> n \<and> n < 8"
    "bit (0x80 :: u32) n \<longleftrightarrow> n = 7"
    unfolding c bit_push_bit_iff bit_mask_iff by auto
qed

lemmas utf8_bits = bits8 bits32 bit_and_iff bit_or_iff bit_ucast_iff bit_take_bit_iff bit_drop_bit_eq bit_push_bit_iff

lemma tail6_bits: "tail6 x AND 0xC0 = 0x80" "(ucast (tail6 x AND 0x3F) :: u32) = take_bit 6 x"
  unfolding tail6_def by (rule bit_word_eqI; auto simp: utf8_bits simp del: bit_numeral_word_iff)+

lemma cont_tail [simp]: "cont (tail6 x # bs) = (Some (take_bit 6 x), bs)"
  by (simp add: tail6_bits)

lemma lead_masks:
  fixes cp :: u32
  shows "ucast (0xC0 OR drop_bit 6 (take_bit 11 cp)) AND 0xE0 = (0xC0 :: u8)"
    and "ucast (0xE0 OR drop_bit 12 (take_bit 16 cp)) AND 0xE0 = (0xE0 :: u8)"
    and "ucast (0xE0 OR drop_bit 12 (take_bit 16 cp)) AND 0xF0 = (0xE0 :: u8)"
    and "ucast (0xF0 OR drop_bit 18 (take_bit 21 cp)) AND 0xE0 = (0xE0 :: u8)"
    and "ucast (0xF0 OR drop_bit 18 (take_bit 21 cp)) AND 0xF0 = (0xF0 :: u8)"
    and "ucast (0xF0 OR drop_bit 18 (take_bit 21 cp)) AND 0xF8 = (0xF0 :: u8)"
    and "ucast (ucast (0xC0 OR drop_bit 6 (take_bit 11 cp)) AND 0x1F :: u8) = drop_bit 6 (take_bit 11 cp)"
    and "ucast (ucast (0xE0 OR drop_bit 12 (take_bit 16 cp)) AND 0x0F :: u8) = drop_bit 12 (take_bit 16 cp)"
    and "ucast (ucast (0xF0 OR drop_bit 18 (take_bit 21 cp)) AND 0x07 :: u8) = drop_bit 18 (take_bit 21 cp)"
  by (rule bit_word_eqI; auto simp: utf8_bits simp del: bit_numeral_word_iff)+

lemma below_take_bit:
  fixes x :: "'a::len word"
  assumes "x < 2 ^ n" and "n < LENGTH('a)"
  shows "x = take_bit n x"
proof -
  have "uint (2 ^ n :: 'a word) = uint (word_of_int (2 ^ n) :: 'a word)" by simp
  also have "\<dots> = 2 ^ n mod 2 ^ LENGTH('a)" by (rule uint_word_of_int)
  also have "\<dots> \<le> 2 ^ n" by (simp add: zmod_le_nonneg_dividend)
  finally have "uint x < 2 ^ n" using assms(1) by (simp add: word_less_def)
  then have "take_bit n (uint x) = uint x" by (intro take_bit_int_eq_self) simp_all
  then show ?thesis by (intro word_uint_eqI) (simp add: unsigned_take_bit_eq)
qed

lemma above_80: "bit b 7 \<Longrightarrow> \<not> b < 0x80" for b :: u8
proof -
  assume b: "bit b 7"
  show ?thesis
  proof
    assume "b < 0x80"
    then have "b = take_bit 7 b" by (intro below_take_bit) simp_all
    then have "bit b 7 = bit (take_bit 7 b) 7" by metis
    then show False using b by (simp add: bit_take_bit_iff)
  qed
qed

lemma low_six: "push_bit 6 (drop_bit 6 x) OR take_bit 6 x = x"
  "push_bit 12 (drop_bit 12 x) OR push_bit 6 (take_bit 6 (drop_bit 6 x)) = push_bit 6 (drop_bit 6 x)"
  "push_bit 18 (drop_bit 18 x) OR push_bit 12 (take_bit 6 (drop_bit 12 x)) = push_bit 12 (drop_bit 12 x)" for x :: u32
proof -
  have split: "(c \<le> n \<and> P (c + (n - c)) \<longleftrightarrow> c \<le> n \<and> P n)" for c n :: nat and P by (metis le_add_diff_inverse)
  show "push_bit 6 (drop_bit 6 x) OR take_bit 6 x = x"
    "push_bit 12 (drop_bit 12 x) OR push_bit 6 (take_bit 6 (drop_bit 6 x)) = push_bit 6 (drop_bit 6 x)"
    "push_bit 18 (drop_bit 18 x) OR push_bit 12 (take_bit 6 (drop_bit 12 x)) = push_bit 12 (drop_bit 12 x)"
    by (rule bit_word_eqI; fastforce simp: bit_or_iff bit_take_bit_iff bit_drop_bit_eq bit_push_bit_iff not_less split)+
qed

lemma decode_encode:
  assumes "cp < 0x200000"
  obtains b bs where "encode_utf8 cp = b # bs" and "\<And>rest. decode_utf8 b (bs @ rest) = (cp, rest)"
proof -
  have t: "x < 2 ^ n \<Longrightarrow> n < 32 \<Longrightarrow> x = take_bit n x" for x :: u32 and n
    using that by (intro below_take_bit) simp_all
  consider "cp < 0x80" | "\<not> cp < 0x80" "cp < 0x800" | "\<not> cp < 0x80" "\<not> cp < 0x800" "cp < 0x10000"
    | "\<not> cp < 0x80" "\<not> cp < 0x800" "\<not> cp < 0x10000" by blast
  then show thesis
  proof cases
    case 1
    then have c: "cp = take_bit 7 cp" by (intro t) simp_all
    have "ucast (ucast (take_bit 7 cp) :: u8) = take_bit 7 cp" by (rule bit_word_eqI) (auto simp: utf8_bits)
    then have "ucast (ucast cp :: u8) = cp" using c by simp
    moreover have "ucast cp < (0x80 :: u8)"
      using 1 by (simp add: word_less_nat_alt unsigned_ucast_eq take_bit_nat_eq_self)
    ultimately show thesis using 1
      by (intro that [of "ucast cp" "[]"]) (simp_all add: encode_utf8_def decode_utf8.simps)
  next
    case 2
    then have c: "cp = take_bit 11 cp" by (intro t) simp_all
    have "\<not> (ucast (0xC0 OR drop_bit 6 cp) :: u8) < 0x80" by (rule above_80) (simp add: utf8_bits)
    moreover have "push_bit 6 (drop_bit 6 cp) OR take_bit 6 cp = cp"
      unfolding or.assoc [symmetric] low_six ..
    ultimately show thesis using 2 lead_masks(1,7) [of cp] c [symmetric]
      by (intro that [of "ucast (0xC0 OR drop_bit 6 cp)" "[tail6 cp]"])
        (simp_all add: encode_utf8_def decode_utf8.simps del: cont.simps)
  next
    case 3
    then have c: "cp = take_bit 16 cp" by (intro t) simp_all
    have "\<not> (ucast (0xE0 OR drop_bit 12 cp) :: u8) < 0x80" by (rule above_80) (simp add: utf8_bits)
    moreover have "push_bit 12 (drop_bit 12 cp) OR push_bit 6 (take_bit 6 (drop_bit 6 cp)) OR take_bit 6 cp = cp"
      unfolding or.assoc [symmetric] low_six ..
    ultimately show thesis using 3 lead_masks(2,3,8) [of cp] c [symmetric]
      by (intro that [of "ucast (0xE0 OR drop_bit 12 cp)" "[tail6 (drop_bit 6 cp), tail6 cp]"])
        (simp_all add: encode_utf8_def decode_utf8.simps del: cont.simps)
  next
    case 4
    then have c: "cp = take_bit 21 cp" using assms by (intro t) simp_all
    have "\<not> (ucast (0xF0 OR drop_bit 18 cp) :: u8) < 0x80" by (rule above_80) (simp add: utf8_bits)
    moreover have "push_bit 18 (drop_bit 18 cp) OR push_bit 12 (take_bit 6 (drop_bit 12 cp)) OR push_bit 6 (take_bit 6 (drop_bit 6 cp)) OR take_bit 6 cp = cp"
      unfolding or.assoc [symmetric] low_six ..
    ultimately show thesis using 4 lead_masks(4-6,9) [of cp] c [symmetric]
      by (intro that [of "ucast (0xF0 OR drop_bit 18 cp)" "[tail6 (drop_bit 12 cp), tail6 (drop_bit 6 cp), tail6 cp]"])
        (simp_all add: encode_utf8_def decode_utf8.simps del: cont.simps)
  qed
qed

section \<open>There and narrow\<close>

lemma find_not_below:
  fixes v :: "'a::linorder"
  shows "sorted (map fst xs) \<Longrightarrow> distinct (map fst xs) \<Longrightarrow> (v, b) \<in> set xs \<Longrightarrow> find (\<lambda>e. \<not> fst e < v) xs = Some (v, b)"
proof (induction xs)
  case (Cons e xs)
  show ?case
  proof (cases "e = (v, b)")
    case False
    then have i: "(v, b) \<in> set xs" using Cons.prems(3) by simp
    then have "v \<in> fst ` set xs" by force
    then have "fst e < v" using Cons.prems(1,2) by (auto simp: less_le)
    then show ?thesis using Cons i by simp
  qed simp
qed simp

lemma table_facts: "length kHighToCp = 128" "distinct kHighToCp" "list_all (\<lambda>c. 0x80 \<le> c \<and> c < 0x200000) kHighToCp"
proof -
  have "distinct (map unat kHighToCp)" by (simp add: kHighToCp_def)
  then show "distinct kHighToCp" by (simp only: distinct_map)
qed (simp_all add: kHighToCp_def)

lemma mac_char_table:
  assumes "i < 128"
  shows "mac_char (kHighToCp ! i) = of_nat (0x80 + i)"
proof -
  have keys: "map fst (map (\<lambda>i. (kHighToCp ! i, of_nat (0x80 + i) :: u8)) [0..<128]) = kHighToCp"
    by (rule nth_equalityI) (simp_all add: table_facts(1))
  from table_facts(2) have "distinct (map fst (map (\<lambda>i. (kHighToCp ! i, of_nat (0x80 + i) :: u8)) [0..<128]))"
    unfolding keys .
  then have "distinct (map fst reverse_map)"
    unfolding reverse_map_def distinct_map [where f = fst] by (simp only: distinct_sort set_sort)
  moreover have "(kHighToCp ! i, of_nat (0x80 + i)) \<in> set reverse_map"
    unfolding reverse_map_def using assms by force
  ultimately have "lower_bound (kHighToCp ! i) reverse_map = Some (kHighToCp ! i, of_nat (0x80 + i))"
    unfolding lower_bound_def by (intro find_not_below) (simp_all add: reverse_map_def)
  moreover have "0x80 \<le> kHighToCp ! i" using table_facts assms by (simp add: list_all_length)
  then have "\<not> kHighToCp ! i < 0x80" "kHighToCp ! i \<noteq> 0x0A" by auto
  ultimately show ?thesis by (simp add: mac_char_def)
qed

lemma roman_char_back:
  "utf8_to_mac_roman (roman_char b @ rest) = (if b = 0x0A then 0x0D else b) # utf8_to_mac_roman rest"
proof -
  consider "b = 0x0D" | "b \<noteq> 0x0D" "b < 0x80" | "b \<noteq> 0x0D" "\<not> b < 0x80" by blast
  then show ?thesis
  proof cases
    case 1
    then show ?thesis by (simp add: decode_utf8.simps mac_char_def)
  next
    case 2
    then have small: "ucast b < (0x80 :: u32)" by (simp add: word_less_nat_alt unsigned_ucast_eq take_bit_nat_eq_self)
    have narrow: "(ucast (ucast b :: u32) :: u8) = b" by (rule bit_word_eqI) (auto simp: bit_simps)
    then have "(ucast b :: u32) = 0x0A \<longleftrightarrow> b = 0x0A" by auto
    then show ?thesis using 2 small narrow by (simp add: decode_utf8.simps mac_char_def)
  next
    case 3
    define i where "i = unat b - 0x80"
    have "unat b < 256" by (rule order.strict_trans2 [OF unsigned_less]) simp
    moreover have "128 \<le> unat b" using 3 by (simp add: word_less_nat_alt)
    ultimately have i: "i < 128" "0x80 + i = unat b" unfolding i_def by linarith+
    have "kHighToCp ! i < 0x200000" using table_facts i(1) by (simp add: list_all_length)
    then obtain c cs where e: "encode_utf8 (kHighToCp ! i) = c # cs"
      and d: "decode_utf8 c (cs @ rest) = (kHighToCp ! i, rest)" using decode_encode by metis
    have "roman_char b @ rest = c # cs @ rest" using 3 e by (simp add: i_def)
    moreover have "mac_char (kHighToCp ! i) = b" using mac_char_table [OF i(1)] i(2) by simp
    moreover have "b \<noteq> 0x0A" using 3 by auto
    ultimately show ?thesis using d by simp
  qed
qed

text \<open>
  C29: Mac text converted to UTF-8 and back is unchanged, every byte of it, except that a
  line feed comes back as a carriage return, the Mac's end of line.
\<close>

theorem roman_round_trip:
  "utf8_to_mac_roman (mac_roman_to_utf8 bs) = map (\<lambda>b. if b = 0x0A then 0x0D else b) bs"
proof (induction bs)
  case (Cons b bs)
  have "mac_roman_to_utf8 (b # bs) = roman_char b @ mac_roman_to_utf8 bs" by (simp add: mac_roman_to_utf8_def)
  then show ?case using Cons roman_char_back by (simp del: roman_char.simps)
qed (simp add: mac_roman_to_utf8_def)
end
