(* ===== verification/XPRAM_Store.thy ===== *)
theory XPRAM_Store
  imports Phoenix_Prelude
begin

text \<open>
  The extended parameter RAM: \<^verbatim>\<open>src/core/xpram.cpp\<close>. Loading and saving belong to the platform
  and are arguments.
\<close>

abbreviation XPRAM_SIZE :: nat where "XPRAM_SIZE \<equiv> 8192"

definition XPRAMInit :: "(bytes \<Rightarrow> bytes) \<Rightarrow> bytes \<Rightarrow> bytes" where
  "XPRAMInit LoadXPRAM xpram = LoadXPRAM (replicate XPRAM_SIZE 0)"

definition XPRAMExit :: "(bytes \<Rightarrow> 'h \<Rightarrow> 'h) \<Rightarrow> bytes \<Rightarrow> 'h \<Rightarrow> 'h" where
  "XPRAMExit SaveXPRAM xpram h = SaveXPRAM xpram h"

definition has_signature :: "bytes \<Rightarrow> bool" where
  "has_signature x \<longleftrightarrow> x ! 0x0c = 0x4e \<and> x ! 0x0d = 0x75 \<and> x ! 0x0e = 0x4d \<and> x ! 0x0f = 0x63"

definition default_stores :: "(nat \<times> u8) list" where
  "default_stores =
     [(0x0c, 0x4e), (0x0d, 0x75), (0x0e, 0x4d), (0x0f, 0x63), (0x01, 0x80), (0x10, 0xa8), (0x11, 0x00),
      (0x12, 0x00), (0x13, 0x22), (0x14, 0xcc), (0x15, 0x0a), (0x16, 0xcc), (0x17, 0x0a), (0x1c, 0x00),
      (0x1d, 0x02), (0x1e, 0x63), (0x1f, 0x00), (0x08, 0x13), (0x09, 0x88), (0x0a, 0x00), (0x0b, 0xcc),
      (0x76, 0x00), (0x77, 0x01)]"

definition XPRAMSetDefaults :: "bytes \<Rightarrow> bytes" where
  "XPRAMSetDefaults x =
     (if has_signature x then x
      else fold (\<lambda>(i, v) y. y[i := v]) default_stores (overwrite x 0 (replicate 0x100 0)))"

section \<open>The defaults\<close>

lemma length_stores [simp]: "length (fold (\<lambda>(i, v) y. y[i := v]) ps x) = length x"
  by (induction ps arbitrary: x) auto

lemma nth_stores:
  "distinct (map fst ps) \<Longrightarrow> list_all (\<lambda>p. fst p < length x) ps \<Longrightarrow>
     fold (\<lambda>(i, v) y. y[i := v]) ps x ! n = (case map_of ps n of Some v \<Rightarrow> v | None \<Rightarrow> x ! n)"
proof (induction ps arbitrary: x)
  case (Cons p ps)
  obtain i v where p: "p = (i, v)" by (cases p)
  have "n = i \<Longrightarrow> map_of ps n = None" using Cons.prems(1) p by (simp add: map_of_eq_None_iff)
  then show ?case using Cons p by (auto simp: nth_list_update split: option.splits)
qed simp

lemma set_defaults_nth:
  assumes "length x = XPRAM_SIZE" and "\<not> has_signature x" and "n < XPRAM_SIZE"
  shows "XPRAMSetDefaults x ! n
    = (case map_of default_stores n of Some v \<Rightarrow> v | None \<Rightarrow> if n < 0x100 then 0 else x ! n)"
proof -
  have "distinct (map fst default_stores)" "list_all (\<lambda>p. fst p < XPRAM_SIZE) default_stores"
    by (simp_all add: default_stores_def)
  then show ?thesis using assms
    by (simp add: XPRAMSetDefaults_def nth_stores nth_overwrite split: option.splits)
qed

text \<open>The signature is there afterwards, so a second call, and every later start, keeps the settings.\<close>

lemma set_defaults_settles:
  assumes "length x = XPRAM_SIZE"
  shows "has_signature (XPRAMSetDefaults x)" and "XPRAMSetDefaults (XPRAMSetDefaults x) = XPRAMSetDefaults x"
proof -
  show sig: "has_signature (XPRAMSetDefaults x)"
  proof (cases "has_signature x")
    case False
    then show ?thesis
      unfolding has_signature_def [of "XPRAMSetDefaults x"]
      using set_defaults_nth [OF assms False] by (simp add: default_stores_def)
  qed (simp add: XPRAMSetDefaults_def)
  then show "XPRAMSetDefaults (XPRAMSetDefaults x) = XPRAMSetDefaults x"
    by (simp add: XPRAMSetDefaults_def [of "XPRAMSetDefaults x"])
qed

end
