(* ===== verification/SCSI_Manager.thy ===== *)
theory SCSI_Manager
  imports Mac_Util
begin

text \<open>
  The SCSI Manager: \<^verbatim>\<open>src/core/scsi.cpp\<close>, all of it, and the selector of \<open>SCSIDispatch\<close> in
  \<^verbatim>\<open>src/core/emul_op.cpp\<close>. The scatter/gather arrays up to \<open>sg_index\<close> are the list \<open>sg\<close>. The
  targets behind \<^verbatim>\<open>scsi_adapter.cpp\<close> are the record \<open>scsi_bus\<close>; \<open>host\<close> is \<open>Mac2HostAddr\<close>.

  A guest's transfer program may loop for ever: \<open>exec_tib\<close> takes fuel and is \<open>None\<close> when that
  is used up.
\<close>

section \<open>State\<close>

datatype scsi_phase = PH_FREE | PH_ARBITRATED | PH_SELECTED | PH_TRANSFER

abbreviation scCommErr :: int where "scCommErr \<equiv> 2"
abbreviation scBadParmsErr :: int where "scBadParmsErr \<equiv> 4"
abbreviation scPhaseErr :: int where "scPhaseErr \<equiv> 5"
abbreviation scCompareErr :: int where "scCompareErr \<equiv> 6"
abbreviation scMgrBusyErr :: int where "scMgrBusyErr \<equiv> 7"
abbreviation scSequenceErr :: int where "scSequenceErr \<equiv> 8"

abbreviation scInc :: u32 where "scInc \<equiv> 1"
abbreviation scNoInc :: u32 where "scNoInc \<equiv> 2"
abbreviation scAdd :: u32 where "scAdd \<equiv> 3"
abbreviation scMove :: u32 where "scMove \<equiv> 4"
abbreviation scLoop :: u32 where "scLoop \<equiv> 5"
abbreviation scNop :: u32 where "scNop \<equiv> 6"
abbreviation scStop :: u32 where "scStop \<equiv> 7"
abbreviation scComp :: u32 where "scComp \<equiv> 8"

abbreviation SG_TABLE_SIZE :: nat where "SG_TABLE_SIZE \<equiv> 1024"

type_synonym sg_entry = "u64 \<times> u32"

record 't scsi_bus =
  is_target_present :: "int \<Rightarrow> 't \<Rightarrow> bool"
  set_cmd :: "bytes \<Rightarrow> 't \<Rightarrow> 't"
  set_target :: "int \<Rightarrow> u8 \<Rightarrow> 't \<Rightarrow> bool \<times> 't"
  send_cmd :: "u32 \<Rightarrow> bool \<Rightarrow> sg_entry list \<Rightarrow> u32 \<Rightarrow> 't \<Rightarrow> mac_mem \<Rightarrow> (bool \<times> u16) \<times> 't \<times> mac_mem"

record 't scsi =
  sc_mem :: mac_mem
  sc_targets :: 't
  target_id :: int
  phase :: scsi_phase
  fake_status :: u16
  reading :: bool
  sg :: "sg_entry list"
  sg_total_length :: u32

section \<open>Transfer programs\<close>

text \<open>The areas of the scatter/gather table, new ones merged with the last where they follow it.\<close>

definition add_area :: "(u32 \<Rightarrow> u64) \<Rightarrow> u32 \<Rightarrow> u32 \<Rightarrow> 't scsi \<Rightarrow> 't scsi option" where
  "add_area host ptr len s =
     (if sg s \<noteq> [] \<and> host ptr = fst (last (sg s)) + ucast (snd (last (sg s)))
      then Some (s\<lparr>sg := butlast (sg s) @ [(fst (last (sg s)), snd (last (sg s)) + len)],
                   sg_total_length := sg_total_length s + len\<rparr>)
      else if length (sg s) = SG_TABLE_SIZE then None
      else Some (s\<lparr>sg := sg s @ [(host ptr, len)], sg_total_length := sg_total_length s + len\<rparr>))"

definition put_sc :: "(mac_mem \<Rightarrow> mac_mem) \<Rightarrow> 't scsi \<Rightarrow> 't scsi" where
  "put_sc f s = s\<lparr>sc_mem := f (sc_mem s)\<rparr>"

fun exec_tib :: "(u32 \<Rightarrow> u64) \<Rightarrow> nat \<Rightarrow> u32 \<Rightarrow> 't scsi \<Rightarrow> (int \<times> 't scsi) option" where
  "exec_tib host 0 tib s = None"
| "exec_tib host (Suc n) tib s =
     (let m = sc_mem s;
          cmd = ReadMacInt16 m tib; ptr = ReadMacInt32 m (tib + 2); len = ReadMacInt32 m (tib + 6)
      in if cmd = scInc \<or> cmd = scNoInc then
           (let s1 = (if cmd = scInc then put_sc (WriteMacInt32 (tib + 2) (ptr + len)) s else s) in
            case add_area host ptr len s1 of
              None \<Rightarrow> Some (- 108, s1)
            | Some s2 \<Rightarrow> exec_tib host n (tib + 10) s2)
         else if cmd = scAdd then exec_tib host n (tib + 10) (put_sc (WriteMacInt32 ptr (ReadMacInt32 m ptr + len)) s)
         else if cmd = scMove then exec_tib host n (tib + 10) (put_sc (WriteMacInt32 len (ReadMacInt32 m ptr)) s)
         else if cmd = scLoop then
           exec_tib host n (if 0 < len - 1 then tib + 10 + (ptr - 10) else tib + 10)
             (put_sc (WriteMacInt32 (tib + 6) (len - 1)) s)
         else if cmd = scNop then exec_tib host n (tib + 10) s
         else if cmd = scStop then Some (0, s)
         else if cmd = scComp then Some (scCompareErr, s)
         else Some (scBadParmsErr, s))"

section \<open>The routines\<close>

definition SCSIReset :: "'t scsi \<Rightarrow> int \<times> 't scsi" where
  "SCSIReset s = (0, s\<lparr>phase := PH_FREE, fake_status := 0, sg := [], target_id := 8\<rparr>)"

definition SCSIGet :: "'t scsi \<Rightarrow> int \<times> 't scsi" where
  "SCSIGet s =
     (if phase s \<noteq> PH_FREE then (scMgrBusyErr, s)
      else (0, s\<lparr>phase := PH_ARBITRATED, fake_status := 0x40, reading := False, sg := [], sg_total_length := 0\<rparr>))"

definition SCSISelect :: "'t scsi_bus \<Rightarrow> int \<Rightarrow> 't scsi \<Rightarrow> int \<times> 't scsi" where
  "SCSISelect bus tid s =
     (if phase s \<noteq> PH_ARBITRATED then (scSequenceErr, s)
      else if tid < 0 \<or> 7 < tid then (scBadParmsErr, s)
      else if \<not> is_target_present bus tid (sc_targets s)
      then (scCommErr, s\<lparr>target_id := tid, phase := PH_FREE, fake_status := 0\<rparr>)
      else (0, s\<lparr>target_id := tid, phase := PH_SELECTED, fake_status := 0x6a\<rparr>))"

definition SCSICmd :: "'t scsi_bus \<Rightarrow> int \<Rightarrow> u32 \<Rightarrow> 't scsi \<Rightarrow> int \<times> 't scsi" where
  "SCSICmd bus cmd_length cmd s =
     (if phase s \<noteq> PH_SELECTED then (scPhaseErr, s)
      else if cmd_length \<noteq> 6 \<and> cmd_length \<noteq> 10 \<and> cmd_length \<noteq> 12 then (scBadParmsErr, s)
      else
        let bs = mac_read (sc_mem s) cmd (nat cmd_length); t1 = set_cmd bus bs (sc_targets s) in
        case set_target bus (target_id s) (drop_bit 5 (bs ! 1) AND 7) t1 of
          (ok, t2) \<Rightarrow>
            if \<not> ok then (scCommErr, s\<lparr>sc_targets := t2, phase := PH_FREE, fake_status := 0\<rparr>)
            else (0, s\<lparr>sc_targets := t2, phase := PH_TRANSFER, fake_status := 0x6e\<rparr>))"

definition SCSIRead :: "(u32 \<Rightarrow> u64) \<Rightarrow> nat \<Rightarrow> u32 \<Rightarrow> 't scsi \<Rightarrow> (int \<times> 't scsi) option" where
  "SCSIRead host fuel tib s =
     (if phase s \<noteq> PH_TRANSFER then Some (scPhaseErr, s) else exec_tib host fuel tib (s\<lparr>reading := True\<rparr>))"

definition SCSIWrite :: "(u32 \<Rightarrow> u64) \<Rightarrow> nat \<Rightarrow> u32 \<Rightarrow> 't scsi \<Rightarrow> (int \<times> 't scsi) option" where
  "SCSIWrite host fuel tib s =
     (if phase s \<noteq> PH_TRANSFER then Some (scPhaseErr, s) else exec_tib host fuel tib s)"

definition SCSIComplete :: "'t scsi_bus \<Rightarrow> u32 \<Rightarrow> u32 \<Rightarrow> u32 \<Rightarrow> 't scsi \<Rightarrow> int \<times> 't scsi" where
  "SCSIComplete bus timeout message stat s0 =
     (let s = put_sc (WriteMacInt16 message 0) s0 in
      if phase s \<noteq> PH_TRANSFER then (scPhaseErr, s)
      else case send_cmd bus (sg_total_length s) (reading s) (sg s) timeout (sc_targets s) (sc_mem s) of
        ((success, scsi_stat), t, m) \<Rightarrow>
          (if success then 0 else scCommErr,
           put_sc (WriteMacInt16 stat (ucast scsi_stat)) (s\<lparr>sc_targets := t, sc_mem := m, phase := PH_FREE, fake_status := 0\<rparr>)))"

definition SCSIStat :: "'t scsi \<Rightarrow> u16" where
  "SCSIStat s = fake_status s"

definition SCSIMgrBusy :: "'t scsi \<Rightarrow> int" where
  "SCSIMgrBusy s = (if phase s \<noteq> PH_FREE then 1 else 0)"

section \<open>The trap\<close>

text \<open>\<open>a7\<close> is the stack pointer at the trap; the results are \<open>A0\<close> and \<open>A1\<close>.\<close>

definition put_result :: "u32 \<Rightarrow> int \<times> 't scsi \<Rightarrow> 't scsi" where
  "put_result a r = (case r of (v, s) \<Rightarrow> put_sc (WriteMacInt16 a (word_of_int v)) s)"

definition SCSIDispatch ::
    "(u32 \<Rightarrow> u64) \<Rightarrow> 't scsi_bus \<Rightarrow> nat \<Rightarrow> u32 \<Rightarrow> 't scsi \<Rightarrow> ((u32 \<times> u32) \<times> 't scsi) option" where
  "SCSIDispatch host bus fuel a7_0 s =
     (let m = sc_mem s; ret = ReadMacInt32 m a7_0; sel = ReadMacInt16 m (a7_0 + 4); a7 = a7_0 + 6;
          done' = (\<lambda>stack r. Some ((ret, a7 + stack), put_result (a7 + stack) r));
          tib_done = (\<lambda>r. case r of None \<Rightarrow> None | Some x \<Rightarrow> done' 4 x)
      in if sel = 0 then done' 0 (SCSIReset s)
         else if sel = 1 then done' 0 (SCSIGet s)
         else if sel = 2 \<or> sel = 11 then done' 2 (SCSISelect bus (int (unat (ReadMacInt16 m a7 AND 0xff))) s)
         else if sel = 3 then done' 6 (SCSICmd bus (int (unat (ReadMacInt16 m a7))) (ReadMacInt32 m (a7 + 2)) s)
         else if sel = 4 then
           done' 12 (SCSIComplete bus (ReadMacInt32 m a7) (ReadMacInt32 m (a7 + 4)) (ReadMacInt32 m (a7 + 8)) s)
         else if sel = 5 \<or> sel = 8 then tib_done (SCSIRead host fuel (ReadMacInt32 m a7) s)
         else if sel = 6 \<or> sel = 9 then tib_done (SCSIWrite host fuel (ReadMacInt32 m a7) s)
         else if sel = 10 then done' 0 (int (unat (SCSIStat s)), s)
         else if sel = 12 then done' 4 (0, s)
         else if sel = 13 then done' 2 (0, s)
         else if sel = 14 then done' 0 (SCSIMgrBusy s, s)
         else None)"

section \<open>The state stays consistent\<close>

definition status_of :: "scsi_phase \<Rightarrow> u16" where
  "status_of ph = (case ph of PH_FREE \<Rightarrow> 0 | PH_ARBITRATED \<Rightarrow> 0x40 | PH_SELECTED \<Rightarrow> 0x6a | PH_TRANSFER \<Rightarrow> 0x6e)"

definition scsi_ok :: "'t scsi \<Rightarrow> bool" where
  "scsi_ok s \<longleftrightarrow> fake_status s = status_of (phase s) \<and> length (sg s) \<le> SG_TABLE_SIZE
     \<and> (phase s \<noteq> PH_FREE \<longrightarrow> sg_total_length s = sum_list (map snd (sg s)))
     \<and> (phase s = PH_SELECTED \<or> phase s = PH_TRANSFER \<longrightarrow> 0 \<le> target_id s \<and> target_id s \<le> 7)"

lemma put_sc_keeps [simp]: "scsi_ok (put_sc f s) = scsi_ok s" "sg (put_sc f s) = sg s" "phase (put_sc f s) = phase s"
  "sg_total_length (put_sc f s) = sg_total_length s" "sc_mem (put_sc f s) = f (sc_mem s)"
  by (simp_all add: scsi_ok_def put_sc_def)

lemma add_area_ok:
  assumes "add_area host ptr len s = Some s'" and "scsi_ok s"
  shows "scsi_ok s'"
proof (cases "sg s \<noteq> [] \<and> host ptr = fst (last (sg s)) + ucast (snd (last (sg s)))")
  case True
  then obtain es e where sg: "sg s = es @ [e]" by (metis append_butlast_last_id)
  then show ?thesis using True assms by (auto simp: add_area_def scsi_ok_def ac_simps)
next
  case False
  then show ?thesis using assms by (auto simp: add_area_def scsi_ok_def split: if_splits)
qed

lemma exec_tib_ok: "exec_tib host n tib s = Some (r, s') \<Longrightarrow> scsi_ok s \<Longrightarrow> scsi_ok s'"
proof (induction host n tib s rule: exec_tib.induct)
  case (2 host n tib s)
  show ?case
    using 2 by (auto simp: Let_def split: if_splits option.splits dest: add_area_ok)
qed simp

inductive scsi_step :: "(u32 \<Rightarrow> u64) \<Rightarrow> 't scsi_bus \<Rightarrow> 't scsi \<Rightarrow> 't scsi \<Rightarrow> bool" for host bus where
  "scsi_step host bus s (snd (SCSIReset s))"
| "scsi_step host bus s (snd (SCSIGet s))"
| "scsi_step host bus s (snd (SCSISelect bus tid s))"
| "scsi_step host bus s (snd (SCSICmd bus n cmd s))"
| "SCSIRead host fuel tib s = Some (r, s') \<Longrightarrow> scsi_step host bus s s'"
| "SCSIWrite host fuel tib s = Some (r, s') \<Longrightarrow> scsi_step host bus s s'"
| "scsi_step host bus s (snd (SCSIComplete bus timeout message stat s))"
| "scsi_step host bus s (s\<lparr>sc_mem := m\<rparr>)"

lemma scsi_step_ok: "scsi_step host bus s s' \<Longrightarrow> scsi_ok s \<Longrightarrow> scsi_ok s'"
proof (induction rule: scsi_step.induct)
  case (5 fuel tib s r s')
  have "scsi_ok (s\<lparr>reading := True\<rparr>)" using 5(2) by (simp add: scsi_ok_def)
  then show ?case using 5 exec_tib_ok by (auto simp: SCSIRead_def split: if_splits)
next
  case (6 fuel tib s r s')
  then show ?case using exec_tib_ok by (auto simp: SCSIWrite_def split: if_splits)
next
  case (7 s timeout message stat)
  then show ?case by (auto simp: SCSIComplete_def Let_def split: prod.splits) (auto simp: scsi_ok_def put_sc_def status_of_def)
qed (auto simp: SCSIReset_def SCSIGet_def SCSISelect_def SCSICmd_def Let_def scsi_ok_def status_of_def split: prod.splits)

definition scsi_start :: "mac_mem \<Rightarrow> 't \<Rightarrow> 't scsi" where
  "scsi_start m t = \<lparr>sc_mem = m, sc_targets = t, target_id = 0, phase = PH_FREE, fake_status = 0, reading = False,
     sg = [], sg_total_length = 0\<rparr>"

text \<open>
  C30: in every state the SCSI Manager can reach, the faked status word fits the phase, the
  scatter/gather table is never overrun, and while the bus is in use the length announced to
  the target is the sum of the table's areas and the selected target a valid one.
\<close>

theorem scsi_state_consistent:
  assumes "(scsi_step host bus)\<^sup>*\<^sup>* (scsi_start m t) s"
  shows "fake_status s = status_of (phase s) \<and> length (sg s) \<le> SG_TABLE_SIZE
    \<and> (phase s = PH_FREE \<or> sg_total_length s = sum_list (map snd (sg s)))
    \<and> (phase s \<in> {PH_FREE, PH_ARBITRATED} \<or> target_id s \<in> {0..7})"
proof -
  have "scsi_ok (scsi_start m t)" by (simp add: scsi_ok_def scsi_start_def status_of_def)
  with assms have "scsi_ok s" by (induction rule: rtranclp_induct) (auto intro: scsi_step_ok)
  then show ?thesis unfolding scsi_ok_def by (cases "phase s") simp_all
qed

section \<open>A block transfer\<close>

lemma add_area_mem: "add_area host p len s = Some s' \<Longrightarrow> sc_mem s' = sc_mem s"
  by (auto simp: add_area_def split: if_splits)

definition block_program :: "u32 \<Rightarrow> u32 \<Rightarrow> u32 \<Rightarrow> u32 \<Rightarrow> mac_mem \<Rightarrow> bool" where
  "block_program tib p len cnt m \<longleftrightarrow>
     ReadMacInt16 m tib = scInc \<and> ReadMacInt32 m (tib + 2) = p \<and> ReadMacInt32 m (tib + 6) = len
     \<and> ReadMacInt16 m (tib + 10) = scLoop \<and> ReadMacInt32 m (tib + 12) = - 10 \<and> ReadMacInt32 m (tib + 16) = cnt
     \<and> ReadMacInt16 m (tib + 20) = scStop"

lemma block_program_step:
  assumes "block_program tib p len cnt m"
  shows "block_program tib (p + len) len (cnt - 1) (WriteMacInt32 (tib + 16) (cnt - 1) (WriteMacInt32 (tib + 2) (p + len) m))"
  using assms by (simp add: block_program_def mem_simps)

lemma inc_loop:
  assumes "block_program tib p len cnt (sc_mem s)"
    and "add_area host p len (put_sc (WriteMacInt32 (tib + 2) (p + len)) s) = Some s1"
  shows "exec_tib host (Suc (Suc n)) tib s
      = exec_tib host n (if 0 < cnt - 1 then tib else tib + 20) (put_sc (WriteMacInt32 (tib + 16) (cnt - 1)) s1)"
proof -
  have m: "sc_mem s1 = WriteMacInt32 (tib + 2) (p + len) (sc_mem s)" using add_area_mem [OF assms(2)] by simp
  have "exec_tib host (Suc (Suc n)) tib s = exec_tib host (Suc n) (tib + 10) s1"
    using assms by (simp add: block_program_def)
  also have "\<dots> = exec_tib host n (if 0 < cnt - 1 then tib else tib + 20) (put_sc (WriteMacInt32 (tib + 16) (cnt - 1)) s1)"
    using assms(1) by (simp add: block_program_def m mem_simps add.assoc)
  finally show ?thesis .
qed

lemma block_stop: "block_program tib p len cnt (sc_mem s) \<Longrightarrow> exec_tib host (Suc n) (tib + 20) s = Some (0, s)"
  by (simp add: block_program_def)

lemma add_area_run:
  assumes "sg s = (if j = 0 then [] else [(host p, of_nat j * len)])" and "sg_total_length s = of_nat j * len"
    and "host (p + of_nat j * len) = host p + ucast (of_nat j * len)"
  shows "\<exists>s'. add_area host (p + of_nat j * len) len s = Some s' \<and> sg s' = [(host p, of_nat (Suc j) * len)]
    \<and> sg_total_length s' = of_nat (Suc j) * len"
  using assms by (auto simp: add_area_def algebra_simps)

lemma block_loop:
  fixes len :: u32
  assumes "block_program tib (p + of_nat j * len) len (of_nat (Suc k)) (sc_mem s)" and "Suc k < 2 ^ 32"
    and "sg s = (if j = 0 then [] else [(host p, of_nat j * len)])" and "sg_total_length s = of_nat j * len"
    and "\<And>i. i < j + Suc k \<Longrightarrow> host (p + of_nat i * len) = host p + ucast (of_nat i * len)"
  shows "\<exists>s'. exec_tib host (Suc (2 * Suc k + e)) tib s = Some (0, s')
    \<and> sg s' = [(host p, of_nat (j + Suc k) * len)] \<and> sg_total_length s' = of_nat (j + Suc k) * len"
  using assms
proof (induction k arbitrary: j s)
  case (0 j s)
  let ?q = "p + of_nat j * len" and ?c = "of_nat (Suc 0) :: u32"
  let ?s = "put_sc (WriteMacInt32 (tib + 2) (?q + len)) s"
  obtain s1 where s1: "add_area host ?q len ?s = Some s1" "sg s1 = [(host p, of_nat (Suc j) * len)]"
    "sg_total_length s1 = of_nat (Suc j) * len"
    using add_area_run [of ?s j host p len] 0 by auto
  let ?s2 = "put_sc (WriteMacInt32 (tib + 16) (?c - 1)) s1"
  have "block_program tib (?q + len) len (?c - 1) (sc_mem ?s2)"
    using block_program_step [OF 0(1)] add_area_mem [OF s1(1)] by simp
  then have "exec_tib host (Suc e) (tib + 20) ?s2 = Some (0, ?s2)" by (rule block_stop)
  moreover have "exec_tib host (Suc (2 * Suc 0 + e)) tib s = exec_tib host (Suc e) (tib + 20) ?s2"
    using inc_loop [OF 0(1) s1(1), of "Suc e"] by simp
  ultimately show ?case using s1 by simp
next
  case (Suc k j s)
  let ?q = "p + of_nat j * len" and ?c = "of_nat (Suc (Suc k)) :: u32"
  let ?s = "put_sc (WriteMacInt32 (tib + 2) (?q + len)) s"
  obtain s1 where s1: "add_area host ?q len ?s = Some s1" "sg s1 = [(host p, of_nat (Suc j) * len)]"
    "sg_total_length s1 = of_nat (Suc j) * len"
    using add_area_run [of ?s j host p len] Suc.prems by auto
  let ?s2 = "put_sc (WriteMacInt32 (tib + 16) (?c - 1)) s1"
  have q: "?q + len = p + of_nat (Suc j) * len" by (simp add: algebra_simps)
  have c: "?c - 1 = of_nat (Suc k)" by simp
  have gt: "0 < (of_nat (Suc k) :: u32)"
    using Suc.prems(2) by (simp add: word_less_nat_alt unat_of_nat del: of_nat_Suc)
  have p2: "block_program tib (p + of_nat (Suc j) * len) len (of_nat (Suc k)) (sc_mem ?s2)"
    using block_program_step [OF Suc.prems(1)] add_area_mem [OF s1(1)] unfolding q c by simp
  have "\<exists>s'. exec_tib host (Suc (2 * Suc k + e)) tib ?s2 = Some (0, s')
      \<and> sg s' = [(host p, of_nat (Suc j + Suc k) * len)] \<and> sg_total_length s' = of_nat (Suc j + Suc k) * len"
    by (rule Suc.IH [OF p2]) (use Suc.prems s1 in \<open>simp_all del: of_nat_Suc\<close>)
  moreover have "exec_tib host (Suc (2 * Suc (Suc k) + e)) tib s = exec_tib host (Suc (2 * Suc k + e)) tib ?s2"
    using inc_loop [OF Suc.prems(1) s1(1), of "Suc (2 * Suc k + e)"] gt unfolding c by (simp del: of_nat_Suc exec_tib.simps)
  ultimately show ?case by simp
qed

text \<open>
  C31: the transfer program the Mac's disk drivers use, \<open>scInc\<close> by a block, \<open>scLoop\<close> back and
  \<open>scStop\<close>, ends after its \<open>n\<close> rounds without error, and where the blocks lie one after the
  other in host memory the scatter/gather table it leaves is the single area of all \<open>n\<close> blocks.
\<close>

theorem block_transfer:
  fixes len :: u32
  assumes "block_program tib p len (of_nat n) (sc_mem s)" and "0 < n" and "n < 2 ^ 32" and "phase s = PH_TRANSFER"
    and "sg s = []" and "sg_total_length s = 0"
    and "\<forall>i<n. host (p + of_nat i * len) = host p + ucast (of_nat i * len)" and "2 * n < fuel"
  shows "\<exists>s'. SCSIRead host fuel tib s = Some (0, s') \<and> sg s' = [(host p, of_nat n * len)]
    \<and> sg_total_length s' = of_nat n * len"
proof -
  obtain k where n: "n = Suc k" using assms(2) by (cases n) auto
  obtain e where f: "fuel = Suc (2 * Suc k + e)" using assms(8) n by (auto dest!: less_imp_Suc_add)
  show ?thesis
    using block_loop [of tib p 0 len k "s\<lparr>reading := True\<rparr>" host e] assms n f
    by (simp add: SCSIRead_def del: of_nat_Suc exec_tib.simps)
qed

definition sample_tib :: mac_mem where
  "sample_tib = WriteMacInt16 0 1 (WriteMacInt32 2 64 (WriteMacInt32 6 4 (WriteMacInt16 10 5 (WriteMacInt32 12 (- 10)
     (WriteMacInt32 16 2 (WriteMacInt16 20 7 (\<lambda>_. 0)))))))"


lemma sample_program: "block_program 0 64 4 (of_nat 2) sample_tib"
  by (simp add: block_program_def sample_tib_def mem_simps)

definition sample_transfer :: "unit scsi" where
  "sample_transfer = (scsi_start sample_tib ())\<lparr>phase := PH_TRANSFER\<rparr>"

lemma sample_facts: "block_program 0 64 4 (of_nat 2) (sc_mem sample_transfer)" "phase sample_transfer = PH_TRANSFER"
  "sg sample_transfer = []" "sg_total_length sample_transfer = 0"
  using sample_program by (simp_all only: sample_transfer_def scsi_start_def scsi.simps scsi.update_convs)

lemma sample_host: "\<forall>i<2. ucast (64 + of_nat i * 4 :: u32) = (ucast (64 :: u32) + ucast (of_nat i * 4 :: u32) :: u64)"
  by (simp add: less_2_cases_iff all_conj_distrib)

lemma block_transfer_witness:
  "\<exists>s'. SCSIRead ucast 5 0 sample_transfer = Some (0, s') \<and> sg s' = [(ucast (64 :: u32), of_nat 2 * 4)]
    \<and> sg_total_length s' = of_nat 2 * 4"
  by (rule block_transfer [OF sample_facts(1) _ _ sample_facts(2-4) sample_host]) simp_all

definition no_bus :: "unit scsi_bus" where
  "no_bus = \<lparr>is_target_present = \<lambda>_ _. False, set_cmd = \<lambda>_ t. t, set_target = \<lambda>_ _ t. (False, t),
     send_cmd = \<lambda>_ _ _ _ t m. ((False, 0), t, m)\<rparr>"

lemma scsi_state_consistent_witness:
  "fake_status (snd (SCSIGet (scsi_start (\<lambda>_. 0) ()))) = status_of (phase (snd (SCSIGet (scsi_start (\<lambda>_. 0) ()))))"
  using scsi_state_consistent [of ucast no_bus "\<lambda>_. 0" "()", OF r_into_rtranclp, OF scsi_step.intros(2)] by blast

end
