(* ===== verification/HFSP_Image.thy ===== *)
theory HFSP_Image
  imports Posix_IO
begin

text \<open>
  Disk images as HFS+ volumes use them, \<^verbatim>\<open>executor/core/romlib/hfs/plus/image.cpp\<close> and
  \<^verbatim>\<open>image.h\<close>: the class \<open>FdImageReader\<close>, and the big-endian accessors. An image is the bytes of
  its file with the answers of the kernel: the calls of transfer number \<open>k\<close> are answered by the
  list \<open>img_answers k\<close>. Byte offsets of 64 bits are natural numbers.

  Volumes report failure by the enumeration \<open>Error\<close>; here a routine that returns one returns
  \<open>Inl\<close> of it or \<open>Inr\<close> of what it delivers, together with the state it leaves.
\<close>

section \<open>Results\<close>

text \<open>
  \<open>E_undefined\<close> is no value of the enumeration: it stands where the source dereferences a null
  pointer, and where the nesting allowed to a recursion between the two B-trees is used up.
\<close>

datatype error = E_readOnly | E_diskFull | E_exists | E_notFound | E_notEmpty | E_badMove | E_io | E_undefined

type_synonym ('s, 'a) op = "'s \<Rightarrow> (error + 'a) \<times> 's"

definition ret :: "'a \<Rightarrow> ('s, 'a) op" where
  "ret a s = (Inr a, s)"

definition fail :: "error \<Rightarrow> ('s, 'a) op" where
  "fail e s = (Inl e, s)"

definition st_bind :: "('s \<Rightarrow> 'a \<times> 's) \<Rightarrow> ('a \<Rightarrow> 's \<Rightarrow> 'b \<times> 's) \<Rightarrow> 's \<Rightarrow> 'b \<times> 's" where
  "st_bind m f s = (case m s of (a, s') \<Rightarrow> f a s')"

definition ok_bind :: "('s, 'a) op \<Rightarrow> ('a \<Rightarrow> ('s, 'b) op) \<Rightarrow> ('s, 'b) op" where
  "ok_bind m f s = (case m s of (Inl e, s') \<Rightarrow> (Inl e, s') | (Inr a, s') \<Rightarrow> f a s')"

text \<open>A pointer that may be null, and what happens then.\<close>

definition some_or :: "('s, 'b) op \<Rightarrow> ('s \<Rightarrow> 'a option \<times> 's) \<Rightarrow> ('a \<Rightarrow> ('s, 'b) op) \<Rightarrow> ('s, 'b) op" where
  "some_or otherwise m f s = (case m s of (None, s') \<Rightarrow> otherwise s' | (Some a, s') \<Rightarrow> f a s')"

definition must :: "error \<Rightarrow> ('s \<Rightarrow> bool \<times> 's) \<Rightarrow> ('s, unit) op" where
  "must e m s = (case m s of (b, s') \<Rightarrow> (if b then Inr () else Inl e, s'))"

definition look :: "('s \<Rightarrow> 'a) \<Rightarrow> 's \<Rightarrow> 'a \<times> 's" where
  "look f s = (f s, s)"

definition modify :: "('s \<Rightarrow> 's) \<Rightarrow> ('s, unit) op" where
  "modify f s = (Inr (), f s)"

text \<open>The operation on every element, until one fails.\<close>

fun ok_list :: "('a \<Rightarrow> ('s, unit) op) \<Rightarrow> 'a list \<Rightarrow> ('s, unit) op" where
  "ok_list f [] s = (Inr (), s)"
| "ok_list f (x # xs) s = (case f x s of (Inl e, s') \<Rightarrow> (Inl e, s') | (Inr _, s') \<Rightarrow> ok_list f xs s')"

named_theorems op_simps \<open>running an operation whose first step is known\<close>

lemma run_simps [op_simps]:
  "ret a s = (Inr a, s)" "fail e s = (Inl e, s)" "look f s = (f s, s)" "modify g s = (Inr (), g s)"
  by (simp_all add: ret_def fail_def look_def modify_def)

lemma ok_bind_simps [op_simps]:
  "m s = (Inr a, s') \<Longrightarrow> ok_bind m f s = f a s'"
  "m s = (Inl e, s') \<Longrightarrow> ok_bind m f s = (Inl e, s')"
  by (simp_all add: ok_bind_def)

lemma st_bind_simp [op_simps]: "m s = (a, s') \<Longrightarrow> st_bind m f s = f a s'"
  by (simp add: st_bind_def)

lemma some_or_simps [op_simps]:
  "m s = (Some a, s') \<Longrightarrow> some_or g m f s = f a s'"
  "m s = (None, s') \<Longrightarrow> some_or g m f s = g s'"
  by (simp_all add: some_or_def)

lemma must_simps [op_simps]:
  "m s = (True, s') \<Longrightarrow> must e m s = (Inr (), s')"
  "m s = (False, s') \<Longrightarrow> must e m s = (Inl e, s')"
  by (simp_all add: must_def)

lemma ok_bind_cases:
  assumes "ok_bind m f s = (r, s')"
  obtains e where "m s = (Inl e, s')" "r = Inl e" | a s1 where "m s = (Inr a, s1)" "f a s1 = (r, s')"
  using assms by (auto simp: ok_bind_def split: prod.splits sum.splits)

section \<open>Numbers in buffers\<close>

definition be16_at :: "bytes \<Rightarrow> nat \<Rightarrow> u16" where
  "be16_at p off = be16 (p ! off) (p ! (off + 1))"

definition be32_at :: "bytes \<Rightarrow> nat \<Rightarrow> u32" where
  "be32_at p off = be32 (p ! off) (p ! (off + 1)) (p ! (off + 2)) (p ! (off + 3))"

definition be64_at :: "bytes \<Rightarrow> nat \<Rightarrow> u64" where
  "be64_at p off = push_bit 32 (ucast (be32_at p off)) OR ucast (be32_at p (off + 4))"

definition bytes16 :: "u16 \<Rightarrow> bytes" where
  "bytes16 v = [hi16 v, lo16 v]"

definition bytes32 :: "u32 \<Rightarrow> bytes" where
  "bytes32 v = [byte32 v 3, byte32 v 2, byte32 v 1, byte32 v 0]"

definition bytes64 :: "u64 \<Rightarrow> bytes" where
  "bytes64 v = bytes32 (ucast (drop_bit 32 v)) @ bytes32 (ucast v)"

definition put16_at :: "nat \<Rightarrow> u16 \<Rightarrow> bytes \<Rightarrow> bytes" where
  "put16_at off v p = overwrite p off (bytes16 v)"

definition put32_at :: "nat \<Rightarrow> u32 \<Rightarrow> bytes \<Rightarrow> bytes" where
  "put32_at off v p = overwrite p off (bytes32 v)"

definition put64_at :: "nat \<Rightarrow> u64 \<Rightarrow> bytes \<Rightarrow> bytes" where
  "put64_at off v p = overwrite p off (bytes64 v)"

section \<open>The image\<close>

record image =
  img_data :: bytes
  img_answers :: "nat \<Rightarrow> sys_result list"
  img_next :: nat
  img_writable :: bool
  img_size :: nat
  img_punch :: bool  \<comment> \<open>whether \<open>fallocate\<close> punches holes here\<close>

definition image_read :: "nat \<Rightarrow> nat \<Rightarrow> image \<Rightarrow> bytes option \<times> image" where
  "image_read offset n img =
     (if n = 0 then (Some [], img)
      else case read_all (img_answers img (img_next img)) (img_data img) n offset of
             (r, _) \<Rightarrow> (r, img\<lparr>img_next := Suc (img_next img)\<rparr>))"

definition image_write :: "nat \<Rightarrow> bytes \<Rightarrow> image \<Rightarrow> bool \<times> image" where
  "image_write offset bs img =
     (if \<not> img_writable img then (False, img)
      else if bs = [] then (True, img)
      else case write_all (img_answers img (img_next img)) (img_data img) offset bs of
             (r, _, dat) \<Rightarrow> (r, img\<lparr>img_next := Suc (img_next img), img_data := dat\<rparr>))"

text \<open>\<open>ImageReader::zero\<close>: zeros written 64 KB at a time.\<close>

function write_zeros :: "nat \<Rightarrow> nat \<Rightarrow> image \<Rightarrow> bool \<times> image" where
  "write_zeros offset end' img =
     (if offset < end' then
        (case image_write offset (replicate (min 65536 (end' - offset)) 0) img of
           (False, img') \<Rightarrow> (False, img')
         | (True, img') \<Rightarrow> write_zeros (offset + 65536) end' img')
      else (True, img))"
  by pat_completeness auto
termination by (relation "measure (\<lambda>(offset, end', img). end' - offset)") auto

declare write_zeros.simps [simp del]

definition image_zero :: "nat \<Rightarrow> nat \<Rightarrow> image \<Rightarrow> bool \<times> image" where
  "image_zero offset n img =
     (if \<not> img_writable img then (False, img)
      else if offset + n \<le> img_size img \<and> img_punch img
      then (True, img\<lparr>img_data := overwrite (img_data img) offset (replicate n 0)\<rparr>)
      else write_zeros offset (offset + n) img)"

end
