(* ===== verification/HFSP_BTree.thy ===== *)
theory HFSP_BTree
  imports HFSP_Image
begin

text \<open>
  The B-trees of an HFS+ volume: \<^verbatim>\<open>executor/core/romlib/hfs/plus/btree.cpp\<close>, all of it. The
  operations work on any state that holds a tree, its file and the volume that grows it: the
  record \<open>tree_env\<close> names where the tree lies in the state, the reads and writes of its fork,
  the order of its keys and \<open>Reader::growTree\<close>. A pointer into a node is the node's bytes from
  there on. The cache of nodes is the list \<open>bt_cache\<close>, the node used last in front.
\<close>

section \<open>State\<close>

abbreviation kLeafNode :: u8 where "kLeafNode \<equiv> 0xFF"
abbreviation kIndexNode :: u8 where "kIndexNode \<equiv> 0"
abbreviation kHeaderNode :: u8 where "kHeaderNode \<equiv> 1"
abbreviation kMapNode :: u8 where "kMapNode \<equiv> 2"
abbreviation kDescriptor :: nat where "kDescriptor \<equiv> 14"

record btree =
  bt_depth :: u16
  bt_nodeSize :: u16
  bt_maxKeyLength :: u16
  bt_root :: u32
  bt_leafRecords :: u32
  bt_firstLeaf :: u32
  bt_lastLeaf :: u32
  bt_totalNodes :: u32
  bt_freeNodes :: u32
  bt_clumpSize :: u32
  bt_attributes :: u32
  bt_keyCompareType :: u8
  bt_cache :: "(u32 \<times> bytes) list"

record 's tree_env =
  te_get :: "'s \<Rightarrow> btree"
  te_upd :: "(btree \<Rightarrow> btree) \<Rightarrow> 's \<Rightarrow> 's"
  te_read :: "nat \<Rightarrow> nat \<Rightarrow> 's \<Rightarrow> bytes \<times> 's"
  te_write :: "nat \<Rightarrow> bytes \<Rightarrow> 's \<Rightarrow> bool \<times> 's"
  te_order :: "'s \<Rightarrow> bytes \<Rightarrow> bytes \<Rightarrow> int"
  te_grow :: "u32 \<Rightarrow> ('s, unit) op"

record step =
  st_node :: u32
  st_kind :: u8
  st_height :: u8

record map_record =
  mr_node :: u32
  mr_offset :: u16
  mr_bytes :: u16
  mr_first :: u32

definition node_size :: "'s tree_env \<Rightarrow> 's \<Rightarrow> nat" where
  "node_size E s = unat (bt_nodeSize (te_get E s))"

definition variable_keys :: "btree \<Rightarrow> bool" where
  "variable_keys t \<longleftrightarrow> bt_attributes t AND 4 \<noteq> 0"

section \<open>Reading\<close>

definition bt_open :: "'s tree_env \<Rightarrow> 's \<Rightarrow> bool \<times> 's" where
  "bt_open E s =
     (case te_read E 0 512 s of (h, s1) \<Rightarrow>
        if length h \<noteq> 512 \<or> h ! 8 \<noteq> kHeaderNode then (False, s1)
        else
          let ns = be16_at h 32 in
          (512 \<le> ns \<and> ns AND (ns - 1) = 0,
           te_upd E (\<lambda>t. t\<lparr>bt_depth := be16_at h 14, bt_root := be32_at h 16, bt_leafRecords := be32_at h 20,
             bt_firstLeaf := be32_at h 24, bt_lastLeaf := be32_at h 28, bt_nodeSize := ns,
             bt_maxKeyLength := be16_at h 34, bt_totalNodes := be32_at h 36, bt_freeNodes := be32_at h 40,
             bt_clumpSize := be32_at h 46, bt_keyCompareType := h ! 51, bt_attributes := be32_at h 52\<rparr>) s1))"

definition cache_get :: "u32 \<Rightarrow> (u32 \<times> bytes) list \<Rightarrow> bytes option" where
  "cache_get n c = map_of c n"

definition cache_erase :: "u32 \<Rightarrow> (u32 \<times> bytes) list \<Rightarrow> (u32 \<times> bytes) list" where
  "cache_erase n c = filter (\<lambda>e. fst e \<noteq> n) c"

definition cache_set :: "u32 \<Rightarrow> bytes \<Rightarrow> (u32 \<times> bytes) list \<Rightarrow> (u32 \<times> bytes) list" where
  "cache_set n buf c = map (\<lambda>e. if fst e = n then (n, buf) else e) c"

definition cache_add :: "u32 \<Rightarrow> bytes \<Rightarrow> (u32 \<times> bytes) list \<Rightarrow> (u32 \<times> bytes) list" where
  "cache_add n buf c = (let c' = (n, buf) # c in if 64 < length c' then butlast c' else c')"

definition upd_cache :: "'s tree_env \<Rightarrow> ((u32 \<times> bytes) list \<Rightarrow> (u32 \<times> bytes) list) \<Rightarrow> 's \<Rightarrow> 's" where
  "upd_cache E f = te_upd E (\<lambda>t. t\<lparr>bt_cache := f (bt_cache t)\<rparr>)"

definition node :: "'s tree_env \<Rightarrow> u32 \<Rightarrow> 's \<Rightarrow> bytes option \<times> 's" where
  "node E n s =
     (case cache_get n (bt_cache (te_get E s)) of
        Some buf \<Rightarrow> (Some buf, upd_cache E (\<lambda>c. (n, buf) # cache_erase n c) s)
      | None \<Rightarrow>
          (case te_read E (unat n * node_size E s) (node_size E s) s of (buf, s1) \<Rightarrow>
             if length buf \<noteq> node_size E s then (None, s1)
             else (Some buf, upd_cache E (cache_add n buf) s1)))"

definition kind :: "bytes \<Rightarrow> u8" where
  "kind nd = nd ! 8"

definition count :: "bytes \<Rightarrow> nat" where
  "count nd = unat (be16_at nd 10)"

definition next_link :: "bytes \<Rightarrow> u32" where
  "next_link nd = be32_at nd 0"

definition keyBytes :: "btree \<Rightarrow> bytes \<Rightarrow> bool \<Rightarrow> nat" where
  "keyBytes t key index =
     (let n = (if index \<and> \<not> variable_keys t then 2 + unat (bt_maxKeyLength t) else 2 + unat (be16_at key 0))
      in 2 * ((n + 1) div 2))"

definition offset_at :: "btree \<Rightarrow> bytes \<Rightarrow> nat \<Rightarrow> nat" where
  "offset_at t nd i = unat (be16_at nd (unat (bt_nodeSize t) - 2 * (i + 1)))"

text \<open>A record: where its key and its data are in the node, and the bytes from there to the end.\<close>

definition record_at :: "btree \<Rightarrow> bytes \<Rightarrow> nat \<Rightarrow> (nat \<times> nat \<times> nat) option" where
  "record_at t nd i =
     (if count nd \<le> i then None
      else
        let N = unat (bt_nodeSize t); off = offset_at t nd i in
        if off < kDescriptor \<or> N < off + 2 then None
        else
          let kb = keyBytes t (drop off nd) (kind nd = kIndexNode) in
          if N < off + kb then None else Some (off, off + kb, N - (off + kb)))"

definition leaf_index :: "btree \<Rightarrow> (bytes \<Rightarrow> int) \<Rightarrow> bytes \<Rightarrow> nat" where
  "leaf_index t cmp nd =
     (case find (\<lambda>i. case record_at t nd i of Some (k, _, _) \<Rightarrow> cmp (drop k nd) \<le> 0 | None \<Rightarrow> False) [0..<count nd] of
        Some i \<Rightarrow> i
      | None \<Rightarrow> count nd)"

text \<open>The child of the last record whose key is not above the one sought, or of the first record.\<close>

fun child_loop :: "btree \<Rightarrow> (bytes \<Rightarrow> int) \<Rightarrow> bytes \<Rightarrow> u32 \<Rightarrow> nat list \<Rightarrow> u32 option" where
  "child_loop t cmp nd child [] = Some child"
| "child_loop t cmp nd child (i # is) =
     (case record_at t nd i of
        None \<Rightarrow> None
      | Some (k, d, room) \<Rightarrow>
          if room < 4 then None
          else if 0 < i \<and> cmp (drop k nd) < 0 then Some child
          else child_loop t cmp nd (be32_at nd d) is)"

fun seek_loop :: "'s tree_env \<Rightarrow> (bytes \<Rightarrow> int) \<Rightarrow> nat \<Rightarrow> u32 \<Rightarrow> 's \<Rightarrow> (u32 \<times> nat) option \<times> 's" where
  "seek_loop E cmp 0 n s = (None, s)"
| "seek_loop E cmp (Suc guard) n s =
     (if n = 0 then (None, s)
      else case node E n s of
        (None, s1) \<Rightarrow> (None, s1)
      | (Some nd, s1) \<Rightarrow>
          let t = te_get E s1 in
          if kind nd = kLeafNode then (Some (n, leaf_index t cmp nd), s1)
          else if kind nd \<noteq> kIndexNode then (None, s1)
          else case child_loop t cmp nd 0 [0..<count nd] of
            None \<Rightarrow> (None, s1)
          | Some child \<Rightarrow> seek_loop E cmp guard child s1)"

definition seek :: "'s tree_env \<Rightarrow> (bytes \<Rightarrow> int) \<Rightarrow> 's \<Rightarrow> (u32 \<times> nat) option \<times> 's" where
  "seek E cmp s = seek_loop E cmp 32 (bt_root (te_get E s)) s"

text \<open>
  The record at a position, moved on to the next leaf at a leaf's end: the position reached, the
  node's bytes from the key on, from the data on, and how many of those there are.
\<close>

fun at_loop :: "'s tree_env \<Rightarrow> nat \<Rightarrow> u32 \<times> nat \<Rightarrow> 's \<Rightarrow> ((u32 \<times> nat) \<times> bytes \<times> bytes \<times> nat) option \<times> 's" where
  "at_loop E 0 pos s = (None, s)"
| "at_loop E (Suc guard) (n, i) s =
     (if n = 0 then (None, s)
      else case node E n s of
        (None, s1) \<Rightarrow> (None, s1)
      | (Some nd, s1) \<Rightarrow>
          if kind nd \<noteq> kLeafNode then (None, s1)
          else if i < count nd then
            (map_option (\<lambda>(k, d, room). ((n, i), drop k nd, drop d nd, room)) (record_at (te_get E s1) nd i), s1)
          else at_loop E guard (next_link nd, 0) s1)"

definition at_pos :: "'s tree_env \<Rightarrow> u32 \<times> nat \<Rightarrow> 's \<Rightarrow> ((u32 \<times> nat) \<times> bytes \<times> bytes \<times> nat) option \<times> 's" where
  "at_pos E pos s = at_loop E (2 ^ 20) pos s"

section \<open>Nodes\<close>

fun records_from :: "btree \<Rightarrow> bytes \<Rightarrow> nat list \<Rightarrow> bytes list" where
  "records_from t nd [] = []"
| "records_from t nd (i # is) =
     (let a = offset_at t nd i; b = offset_at t nd (i + 1)
      in if a < kDescriptor \<or> b < a \<or> unat (bt_nodeSize t) < b then []
         else slice a (b - a) nd # records_from t nd is)"

definition records :: "btree \<Rightarrow> bytes \<Rightarrow> bytes list" where
  "records t nd = records_from t nd [0..<count nd]"

definition indexKey :: "btree \<Rightarrow> bytes \<Rightarrow> bytes" where
  "indexKey t key =
     (if variable_keys t then
        (let k = take (2 + unat (be16_at key 0)) key in if odd (length k) then k @ [0] else k)
      else
        let n = 2 + unat (bt_maxKeyLength t)
        in put16_at 0 (bt_maxKeyLength t) (overwrite (replicate n 0) 0 (take (min n (2 + unat (be16_at key 0))) key)))"

definition indexRecord :: "btree \<Rightarrow> bytes \<Rightarrow> u32 \<Rightarrow> bytes" where
  "indexRecord t first child = indexKey t first @ bytes32 child"

definition childOf :: "bytes \<Rightarrow> u32" where
  "childOf r = be32_at r (length r - 4)"

definition fits :: "btree \<Rightarrow> bytes list \<Rightarrow> bool" where
  "fits t recs \<longleftrightarrow> kDescriptor + 2 * (length recs + 1) + sum_list (map length recs) \<le> unat (bt_nodeSize t)"

fun place :: "nat \<Rightarrow> nat \<Rightarrow> nat \<Rightarrow> bytes list \<Rightarrow> bytes \<Rightarrow> bytes" where
  "place N i off [] buf = put16_at (N - 2 * (i + 1)) (of_nat off) buf"
| "place N i off (r # rs) buf =
     place N (i + 1) (off + length r) rs (overwrite (put16_at (N - 2 * (i + 1)) (of_nat off) buf) off r)"

definition node_bytes :: "nat \<Rightarrow> u8 \<Rightarrow> u8 \<Rightarrow> u32 \<Rightarrow> u32 \<Rightarrow> bytes list \<Rightarrow> bytes" where
  "node_bytes N k height fLink bLink recs =
     place N 0 kDescriptor recs
       (put16_at 10 (of_nat (length recs)) ((put32_at 4 bLink (put32_at 0 fLink (replicate N 0)))[8 := k, 9 := height]))"

definition write_cached :: "'s tree_env \<Rightarrow> u32 \<Rightarrow> bytes \<Rightarrow> ('s, unit) op" where
  "write_cached E n buf s =
     (case te_write E (unat n * node_size E s) buf s of
        (False, s1) \<Rightarrow> (Inl E_io, s1)
      | (True, s1) \<Rightarrow> (Inr (), upd_cache E (cache_set n buf) s1))"

definition writeNode :: "'s tree_env \<Rightarrow> u32 \<Rightarrow> u8 \<Rightarrow> u8 \<Rightarrow> u32 \<Rightarrow> u32 \<Rightarrow> bytes list \<Rightarrow> ('s, unit) op" where
  "writeNode E n k height fLink bLink recs s =
     write_cached E n (node_bytes (node_size E s) k height fLink bLink recs) s"

definition setLinks :: "'s tree_env \<Rightarrow> u32 \<Rightarrow> u32 option \<Rightarrow> u32 option \<Rightarrow> ('s, unit) op" where
  "setLinks E n fLink bLink =
     some_or (fail E_io) (node E n) (\<lambda>nd.
       let buf1 = (case fLink of Some l \<Rightarrow> put32_at 0 l nd | None \<Rightarrow> nd);
           buf = (case bLink of Some l \<Rightarrow> put32_at 4 l buf1 | None \<Rightarrow> buf1)
       in write_cached E n buf)"

section \<open>The node map and the header\<close>

fun map_loop :: "'s tree_env \<Rightarrow> nat \<Rightarrow> u32 \<Rightarrow> u32 \<Rightarrow> 's \<Rightarrow> map_record list option \<times> 's" where
  "map_loop E 0 nodeNum covered s = (None, s)"
| "map_loop E (Suc guard) nodeNum covered s =
     (case node E nodeNum s of
        (None, s1) \<Rightarrow> (None, s1)
      | (Some nd, s1) \<Rightarrow>
          let t = te_get E s1; r = (if kind nd = kHeaderNode then 2 else 0) in
          if nodeNum \<noteq> 0 \<and> kind nd \<noteq> kMapNode then (None, s1)
          else if count nd \<le> r then (None, s1)
          else
            let a = offset_at t nd r; b = offset_at t nd (r + 1) in
            if b < a \<or> unat (bt_nodeSize t) < b then (None, s1)
            else
              let m = \<lparr>mr_node = nodeNum, mr_offset = of_nat a, mr_bytes = of_nat (b - a), mr_first = covered\<rparr> in
              if next_link nd = 0 then (Some [m], s1)
              else case map_loop E guard (next_link nd) (covered + of_nat (b - a) * 8) s1 of
                (None, s2) \<Rightarrow> (None, s2)
              | (Some ms, s2) \<Rightarrow> (Some (m # ms), s2))"

definition mapRecords :: "'s tree_env \<Rightarrow> 's \<Rightarrow> map_record list option \<times> 's" where
  "mapRecords E = map_loop E 4096 0 0"

definition mapBit :: "'s tree_env \<Rightarrow> u32 \<Rightarrow> 's \<Rightarrow> (nat \<times> u8) option \<times> 's" where
  "mapBit E n s =
     (case mapRecords E s of
        (None, s1) \<Rightarrow> (None, s1)
      | (Some ms, s1) \<Rightarrow>
          (case find (\<lambda>m. n < mr_first m + ucast (mr_bytes m) * 8) ms of
             None \<Rightarrow> (None, s1)
           | Some m \<Rightarrow>
               let bit = n - mr_first m in
               (Some (unat (mr_node m) * node_size E s1 + unat (mr_offset m) + unat bit div 8,
                      drop_bit (unat bit mod 8) 0x80), s1)))"

definition setMapBit :: "'s tree_env \<Rightarrow> u32 \<Rightarrow> bool \<Rightarrow> ('s, unit) op" where
  "setMapBit E n used =
     some_or (fail E_io) (mapBit E n) (\<lambda>(at, mask).
       st_bind (look (node_size E)) (\<lambda>N.
         some_or (fail E_io) (node E (of_nat (at div N))) (\<lambda>nd.
           let byte = (if used then nd ! (at mod N) OR mask else nd ! (at mod N) AND NOT mask) in
           ok_bind (must E_io (te_write E at [byte])) (\<lambda>_.
             modify (upd_cache E (cache_set (of_nat (at div N)) (nd[at mod N := byte])))))))"

definition writeHeader :: "'s tree_env \<Rightarrow> ('s, unit) op" where
  "writeHeader E =
     some_or (fail E_io) (node E 0) (\<lambda>h.
       st_bind (look (te_get E)) (\<lambda>t.
         write_cached E 0
           (put32_at 40 (bt_freeNodes t) (put32_at 36 (bt_totalNodes t) (put32_at 28 (bt_lastLeaf t)
             (put32_at 24 (bt_firstLeaf t) (put32_at 20 (bt_leafRecords t) (put32_at 16 (bt_root t) (put16_at 14 (bt_depth t) h)))))))))"

text \<open>The first free node of a map record's bytes; the scan ends at the number of nodes.\<close>

definition first_zero :: "u8 \<Rightarrow> nat" where
  "first_zero b = (case find (\<lambda>k. b AND drop_bit k 0x80 = 0) [0..<8] of Some k \<Rightarrow> k | None \<Rightarrow> 8)"

fun scan_bytes :: "u32 \<Rightarrow> map_record \<Rightarrow> bytes \<Rightarrow> nat list \<Rightarrow> u32 option" where
  "scan_bytes nodes m nd [] = None"
| "scan_bytes nodes m nd (i # is) =
     (if \<not> mr_first m + of_nat i * 8 < nodes then None
      else
        let byte = nd ! (unat (mr_offset m) + i) in
        if byte = 0xFF then scan_bytes nodes m nd is
        else
          let n = mr_first m + of_nat i * 8 + of_nat (first_zero byte)
          in if nodes \<le> n then None else Some n)"

fun scan_map :: "'s tree_env \<Rightarrow> map_record list \<Rightarrow> ('s, u32 option) op" where
  "scan_map E [] = ret None"
| "scan_map E (m # ms) =
     some_or (fail E_io) (node E (mr_node m)) (\<lambda>nd.
       st_bind (look (te_get E)) (\<lambda>t.
         case scan_bytes (bt_totalNodes t) m nd [0..<unat (mr_bytes m)] of
           Some n \<Rightarrow> ret (Some n)
         | None \<Rightarrow> scan_map E ms))"

definition take_node :: "'s tree_env \<Rightarrow> u32 \<Rightarrow> ('s, u32) op" where
  "take_node E n =
     ok_bind (setMapBit E n True) (\<lambda>_.
       ok_bind (modify (te_upd E (\<lambda>t. t\<lparr>bt_freeNodes := bt_freeNodes t - 1\<rparr>))) (\<lambda>_.
         ok_bind (writeHeader E) (\<lambda>_. ret n)))"

fun alloc_attempt :: "'s tree_env \<Rightarrow> nat \<Rightarrow> ('s, u32) op" where
  "alloc_attempt E 0 = fail E_diskFull"
| "alloc_attempt E (Suc k) =
     some_or (fail E_io) (mapRecords E) (\<lambda>ms.
       st_bind (look (te_get E)) (\<lambda>t.
         ok_bind (if bt_freeNodes t \<noteq> 0 then scan_map E ms else ret None) (\<lambda>found.
           case found of
             Some n \<Rightarrow> take_node E n
           | None \<Rightarrow>
               ok_bind (te_grow E (max 4 (bt_clumpSize t div ucast (bt_nodeSize t)))) (\<lambda>_. alloc_attempt E k))))"

definition allocNode :: "'s tree_env \<Rightarrow> ('s, u32) op" where
  "allocNode E = alloc_attempt E 2"

definition freeNode :: "'s tree_env \<Rightarrow> u32 \<Rightarrow> ('s, unit) op" where
  "freeNode E n =
     ok_bind (setMapBit E n False) (\<lambda>_.
       st_bind (look (node_size E)) (\<lambda>N.
         ok_bind (must E_io (te_write E (unat n * N) (replicate N 0))) (\<lambda>_.
           modify (te_upd E (\<lambda>t. t\<lparr>bt_cache := cache_erase n (bt_cache t), bt_freeNodes := bt_freeNodes t + 1\<rparr>)))))"

fun added_loop :: "'s tree_env \<Rightarrow> nat \<Rightarrow> u32 \<Rightarrow> ('s, unit) op" where
  "added_loop E spares spare =
     some_or (fail E_io) (mapRecords E) (\<lambda>ms.
       st_bind (look (te_get E)) (\<lambda>t.
         if bt_totalNodes t \<le> mr_first (last ms) + ucast (mr_bytes (last ms)) * 8 then writeHeader E
         else case spares of
           0 \<Rightarrow> fail E_diskFull
         | Suc k \<Rightarrow>
             ok_bind (writeNode E spare kMapNode 0 0 0 [replicate (unat (bt_nodeSize t) - kDescriptor - 6) 0]) (\<lambda>_.
               ok_bind (setLinks E (mr_node (last ms)) (Some spare) None) (\<lambda>_.
                 ok_bind (setMapBit E spare True) (\<lambda>_.
                   ok_bind (modify (te_upd E (\<lambda>t. t\<lparr>bt_freeNodes := bt_freeNodes t - 1\<rparr>))) (\<lambda>_.
                     added_loop E k (spare + 1)))))))"

declare added_loop.simps [simp del]

definition added :: "'s tree_env \<Rightarrow> u32 \<Rightarrow> ('s, unit) op" where
  "added E nodes =
     st_bind (look (\<lambda>s. bt_totalNodes (te_get E s))) (\<lambda>spare.
       ok_bind (modify (te_upd E (\<lambda>t. t\<lparr>bt_totalNodes := bt_totalNodes t + nodes, bt_freeNodes := bt_freeNodes t + nodes\<rparr>))) (\<lambda>_.
         added_loop E (unat (spare + nodes) - unat spare) spare))"

section \<open>Changing the tree\<close>

fun path_loop :: "'s tree_env \<Rightarrow> bytes \<Rightarrow> nat \<Rightarrow> u32 \<Rightarrow> 's \<Rightarrow> step list option \<times> 's" where
  "path_loop E key 0 n s = (None, s)"
| "path_loop E key (Suc guard) n s =
     (if n = 0 then (None, s)
      else case node E n s of
        (None, s1) \<Rightarrow> (None, s1)
      | (Some nd, s1) \<Rightarrow>
          let st = \<lparr>st_node = n, st_kind = kind nd, st_height = nd ! 9\<rparr> in
          if kind nd = kLeafNode then (Some [st], s1)
          else if kind nd \<noteq> kIndexNode then (None, s1)
          else case child_loop (te_get E s1) (te_order E s1 key) nd 0 [0..<count nd] of
            None \<Rightarrow> (None, s1)
          | Some child \<Rightarrow>
              (case path_loop E key guard child s1 of
                 (None, s2) \<Rightarrow> (None, s2)
               | (Some sts, s2) \<Rightarrow> (Some (st # sts), s2)))"

definition path :: "'s tree_env \<Rightarrow> bytes \<Rightarrow> 's \<Rightarrow> step list option \<times> 's" where
  "path E key s = path_loop E key 32 (bt_root (te_get E s)) s"

definition child_index :: "u32 \<Rightarrow> bytes list \<Rightarrow> nat option" where
  "child_index n recs = find (\<lambda>i. childOf (recs ! i) = n) [0..<length recs]"

text \<open>Where a node is split: about half the bytes on each side.\<close>

fun split_loop :: "bytes list \<Rightarrow> nat \<Rightarrow> nat \<Rightarrow> nat" where
  "split_loop [] bytes acc = 0"
| "split_loop [r] bytes acc = 0"
| "split_loop (r # rs) bytes acc =
     (if acc + length r \<le> bytes div 2 then Suc (split_loop rs bytes (acc + length r)) else 0)"

definition split_at :: "bytes list \<Rightarrow> nat" where
  "split_at recs = (let k = split_loop recs (sum_list (map length recs)) 0 in if k = 0 then 1 else k)"

text \<open>What storing records in a node leaves to do in its parent.\<close>

datatype parent_work = W_done | W_first bytes | W_split bytes bytes u32

definition store_split :: "'s tree_env \<Rightarrow> step \<Rightarrow> u32 \<Rightarrow> u32 \<Rightarrow> bytes list \<Rightarrow> bytes list \<Rightarrow> ('s, parent_work) op" where
  "store_split E st fl bl left right =
     ok_bind (allocNode E) (\<lambda>m.
       ok_bind (writeNode E (st_node st) (st_kind st) (st_height st) m bl left) (\<lambda>_.
         ok_bind (writeNode E m (st_kind st) (st_height st) fl (st_node st) right) (\<lambda>_.
           ok_bind (if fl \<noteq> 0 then setLinks E fl None (Some m) else ret ()) (\<lambda>_.
             ok_bind (modify (te_upd E (\<lambda>t.
                 if st_kind st = kLeafNode \<and> bt_lastLeaf t = st_node st then t\<lparr>bt_lastLeaf := m\<rparr> else t))) (\<lambda>_.
               ret (W_split (hd left) (hd right) m))))))"

definition store_node :: "'s tree_env \<Rightarrow> step \<Rightarrow> bytes list \<Rightarrow> ('s, parent_work) op" where
  "store_node E st recs =
     some_or (fail E_io) (node E (st_node st)) (\<lambda>old.
       st_bind (look (te_get E)) (\<lambda>t.
         let fl = next_link old; bl = be32_at old 4; prev = records t old in
         if fits t recs then
           ok_bind (writeNode E (st_node st) (st_kind st) (st_height st) fl bl recs) (\<lambda>_.
             ret (if recs = [] \<or> (prev \<noteq> [] \<and> indexKey t (hd prev) = indexKey t (hd recs)) then W_done
                  else W_first (hd recs)))
         else
           let left = take (split_at recs) recs; right = drop (split_at recs) recs in
           if \<not> fits t left \<or> \<not> fits t right then fail E_io
           else store_split E st fl bl left right))"

definition new_root :: "'s tree_env \<Rightarrow> step \<Rightarrow> bytes \<Rightarrow> bytes \<Rightarrow> u32 \<Rightarrow> ('s, unit) op" where
  "new_root E st l r m =
     ok_bind (allocNode E) (\<lambda>n.
       st_bind (look (te_get E)) (\<lambda>t.
         ok_bind (writeNode E n kIndexNode (st_height st + 1) 0 0 [indexRecord t l (st_node st), indexRecord t r m]) (\<lambda>_.
           modify (te_upd E (\<lambda>t. t\<lparr>bt_root := n, bt_depth := bt_depth t + 1\<rparr>)))))"

text \<open>The records of the parent, in a continuation that gets the index of the node's record.\<close>

definition with_parent :: "'s tree_env \<Rightarrow> step \<Rightarrow> u32 \<Rightarrow> (btree \<Rightarrow> bytes list \<Rightarrow> nat \<Rightarrow> ('s, unit) op) \<Rightarrow> ('s, unit) op" where
  "with_parent E parent n f =
     some_or (fail E_undefined) (node E (st_node parent)) (\<lambda>nd.
       st_bind (look (te_get E)) (\<lambda>t.
         let precs = records t nd in
         case child_index n precs of None \<Rightarrow> fail E_io | Some i \<Rightarrow> f t precs i))"

fun store :: "'s tree_env \<Rightarrow> step list \<Rightarrow> nat \<Rightarrow> bytes list \<Rightarrow> ('s, unit) op" where
  "store E steps 0 recs =
     ok_bind (store_node E (steps ! 0) recs) (\<lambda>w.
       case w of W_split l r m \<Rightarrow> new_root E (steps ! 0) l r m | _ \<Rightarrow> ret ())"
| "store E steps (Suc level) recs =
     ok_bind (store_node E (steps ! Suc level) recs) (\<lambda>w.
       case w of
         W_done \<Rightarrow> ret ()
       | W_first f \<Rightarrow>
           with_parent E (steps ! level) (st_node (steps ! Suc level)) (\<lambda>t precs i.
             let updated = indexRecord t f (st_node (steps ! Suc level)) in
             if updated = precs ! i then ret () else store E steps level (precs[i := updated]))
       | W_split l r m \<Rightarrow>
           with_parent E (steps ! level) (st_node (steps ! Suc level)) (\<lambda>t precs i.
             store E steps level
               (take i precs @ [indexRecord t l (st_node (steps ! Suc level)), indexRecord t r m] @ drop (Suc i) precs)))"

definition unlink :: "'s tree_env \<Rightarrow> step \<Rightarrow> ('s, unit) op" where
  "unlink E st =
     some_or (fail E_io) (node E (st_node st)) (\<lambda>old.
       let fl = next_link old; bl = be32_at old 4 in
       ok_bind (if bl \<noteq> 0 then setLinks E bl (Some fl) None else ret ()) (\<lambda>_.
         ok_bind (if fl \<noteq> 0 then setLinks E fl None (Some bl) else ret ()) (\<lambda>_.
           ok_bind (modify (te_upd E (\<lambda>t.
               if st_kind st = kLeafNode
               then t\<lparr>bt_firstLeaf := (if bt_firstLeaf t = st_node st then fl else bt_firstLeaf t),
                      bt_lastLeaf := (if bt_lastLeaf t = st_node st then bl else bt_lastLeaf t)\<rparr>
               else t))) (\<lambda>_.
             freeNode E (st_node st)))))"

fun dropNode :: "'s tree_env \<Rightarrow> step list \<Rightarrow> nat \<Rightarrow> ('s, unit) op" where
  "dropNode E steps 0 =
     ok_bind (unlink E (steps ! 0)) (\<lambda>_.
       modify (te_upd E (\<lambda>t. t\<lparr>bt_root := 0, bt_depth := 0, bt_firstLeaf := 0, bt_lastLeaf := 0\<rparr>)))"
| "dropNode E steps (Suc level) =
     ok_bind (unlink E (steps ! Suc level)) (\<lambda>_.
       with_parent E (steps ! level) (st_node (steps ! Suc level)) (\<lambda>t precs i.
         let rest = take i precs @ drop (Suc i) precs in
         if rest = [] then dropNode E steps level else store E steps level rest))"

fun collapse_loop :: "'s tree_env \<Rightarrow> nat \<Rightarrow> ('s, unit) op" where
  "collapse_loop E 0 = ret ()"
| "collapse_loop E (Suc d) =
     (if d = 0 then ret ()
      else st_bind (look (te_get E)) (\<lambda>t.
        some_or (ret ()) (node E (bt_root t)) (\<lambda>r.
          if kind r \<noteq> kIndexNode \<or> count r \<noteq> 1 then ret ()
          else case records t r of
            [] \<Rightarrow> fail E_undefined
          | rec # _ \<Rightarrow>
              ok_bind (freeNode E (bt_root t)) (\<lambda>_.
                ok_bind (modify (te_upd E (\<lambda>t. t\<lparr>bt_root := childOf rec, bt_depth := bt_depth t - 1\<rparr>))) (\<lambda>_.
                  collapse_loop E d)))))"

definition collapseRoot :: "'s tree_env \<Rightarrow> ('s, unit) op" where
  "collapseRoot E s = collapse_loop E (unat (bt_depth (te_get E s))) s"

definition padded_key :: "bytes \<Rightarrow> bytes" where
  "padded_key key = (if odd (length key) then key @ [0] else key)"

text \<open>The leaf for a key and its records.\<close>

definition leaf_records :: "'s tree_env \<Rightarrow> step list \<Rightarrow> (btree \<Rightarrow> bytes list \<Rightarrow> ('s, 'a) op) \<Rightarrow> ('s, 'a) op" where
  "leaf_records E steps f =
     some_or (fail E_undefined) (node E (st_node (last steps))) (\<lambda>nd.
       st_bind (look (te_get E)) (\<lambda>t. f t (records t nd)))"

text \<open>The first record that is not below the key, and whether it has the key.\<close>

fun insert_index :: "(bytes \<Rightarrow> int) \<Rightarrow> bytes list \<Rightarrow> nat option" where
  "insert_index cmp [] = Some 0"
| "insert_index cmp (r # rs) =
     (if cmp r = 0 then None else if cmp r < 0 then Some 0 else map_option Suc (insert_index cmp rs))"

definition bt_insert :: "'s tree_env \<Rightarrow> bytes \<Rightarrow> bytes \<Rightarrow> ('s, unit) op" where
  "bt_insert E key dat =
     st_bind (look (te_get E)) (\<lambda>t.
       let rec = padded_key key @ dat in
       if bt_root t = 0 then
         ok_bind (allocNode E) (\<lambda>n.
           ok_bind (writeNode E n kLeafNode 1 0 0 [rec]) (\<lambda>_.
             ok_bind (modify (te_upd E (\<lambda>t. t\<lparr>bt_root := n, bt_firstLeaf := n, bt_lastLeaf := n, bt_depth := 1,
                 bt_leafRecords := 1\<rparr>))) (\<lambda>_.
               writeHeader E)))
       else
         some_or (fail E_io) (path E key) (\<lambda>steps.
           leaf_records E steps (\<lambda>t recs.
             st_bind (look (te_order E)) (\<lambda>order.
               case insert_index (order key) recs of
                 None \<Rightarrow> fail E_exists
               | Some i \<Rightarrow>
                   ok_bind (store E steps (length steps - 1) (take i recs @ rec # drop i recs)) (\<lambda>_.
                     ok_bind (modify (te_upd E (\<lambda>t. t\<lparr>bt_leafRecords := bt_leafRecords t + 1\<rparr>))) (\<lambda>_.
                       writeHeader E))))))"

definition same_key :: "(bytes \<Rightarrow> int) \<Rightarrow> bytes list \<Rightarrow> nat option" where
  "same_key cmp recs = find (\<lambda>i. cmp (recs ! i) = 0) [0..<length recs]"

definition bt_remove :: "'s tree_env \<Rightarrow> bytes \<Rightarrow> ('s, unit) op" where
  "bt_remove E key =
     st_bind (look (te_get E)) (\<lambda>t.
       if bt_root t = 0 then fail E_notFound
       else some_or (fail E_notFound) (path E key) (\<lambda>steps.
         leaf_records E steps (\<lambda>t recs.
           st_bind (look (te_order E)) (\<lambda>order.
             case same_key (order key) recs of
               None \<Rightarrow> fail E_notFound
             | Some i \<Rightarrow>
                 let rest = take i recs @ drop (Suc i) recs in
                 ok_bind (if rest = [] then dropNode E steps (length steps - 1)
                          else store E steps (length steps - 1) rest) (\<lambda>_.
                   ok_bind (collapseRoot E) (\<lambda>_.
                     ok_bind (modify (te_upd E (\<lambda>t. t\<lparr>bt_leafRecords := bt_leafRecords t - 1\<rparr>))) (\<lambda>_.
                       writeHeader E)))))))"

definition bt_replace :: "'s tree_env \<Rightarrow> bytes \<Rightarrow> bytes \<Rightarrow> ('s, unit) op" where
  "bt_replace E key dat =
     st_bind (look (te_get E)) (\<lambda>t.
       if bt_root t = 0 then fail E_notFound
       else some_or (fail E_notFound) (path E key) (\<lambda>steps.
         leaf_records E steps (\<lambda>t recs.
           st_bind (look (te_order E)) (\<lambda>order.
             case same_key (order key) recs of
               None \<Rightarrow> fail E_notFound
             | Some i \<Rightarrow>
                 ok_bind (store E steps (length steps - 1)
                    (recs[i := take (keyBytes t (recs ! i) False) (recs ! i) @ dat])) (\<lambda>_.
                   writeHeader E)))))"

end
