(* ===== verification/HFSP_Unicode.thy ===== *)
theory HFSP_Unicode
  imports HFSP_Tables
begin

text \<open>
  Names on HFS+ volumes: \<^verbatim>\<open>executor/core/romlib/hfs/plus/unicode.cpp\<close>. A
  \<open>std::u16string\<close> is a list of 16-bit words, a \<open>std::string\<close> in MacRoman a list of bytes; the
  maps \<open>Reverse\<close> builds are partial functions built by the same loop.
\<close>

section \<open>The order of names\<close>

definition fold_char :: "u16 \<Rightarrow> u16" where
  "fold_char c =
     (let sub = kLowerCase ! unat (drop_bit 8 c)
      in if sub \<noteq> 0 then kLowerCase ! (unat sub + unat (c AND 0xFF)) else c)"

text \<open>One of the inner loops: the next character that is not ignored, 0 at the end.\<close>

fun next_char :: "u16 list \<Rightarrow> u16 \<times> u16 list" where
  "next_char [] = (0, [])"
| "next_char (c # cs) = (if fold_char c \<noteq> 0 then (fold_char c, cs) else next_char cs)"

lemma next_char_shorter: "next_char a = (c, a') \<Longrightarrow> c \<noteq> 0 \<Longrightarrow> length a' < length a"
  by (induction a) (auto split: if_splits)

lemma next_char_rest: "next_char a = (c, a') \<Longrightarrow> length a' \<le> length a"
  by (induction a) (auto split: if_splits)

function fastUnicodeCompare :: "u16 list \<Rightarrow> u16 list \<Rightarrow> int" where
  "fastUnicodeCompare a b =
     (case next_char a of (c1, a') \<Rightarrow> case next_char b of (c2, b') \<Rightarrow>
        if c1 \<noteq> c2 then (if c1 < c2 then - 1 else 1)
        else if c1 = 0 then 0
        else fastUnicodeCompare a' b')"
  by pat_completeness auto
termination
  by (relation "measure (\<lambda>(a, b). length a)") (auto dest!: sym [of "(_, _)"] next_char_shorter)

declare fastUnicodeCompare.simps [simp del]

fun binaryCompare :: "u16 list \<Rightarrow> u16 list \<Rightarrow> int" where
  "binaryCompare (a # as) (b # bs) = (if a \<noteq> b then (if a < b then - 1 else 1) else binaryCompare as bs)"
| "binaryCompare [] [] = 0"
| "binaryCompare [] (b # bs) = - 1"
| "binaryCompare (a # as) [] = 1"

section \<open>MacRoman\<close>

definition decomposed :: "u8 \<Rightarrow> u16 list" where
  "decomposed b = (let d = kMacRomanDecomposed ! unat b in d ! 0 # takeWhile (\<lambda>c. c \<noteq> 0) [d ! 1, d ! 2])"

definition macRomanToUnicode :: "bytes \<Rightarrow> u16 list" where
  "macRomanToUnicode macRoman = concat (map decomposed macRoman)"

definition macRomanCharacter :: "u8 \<Rightarrow> u16" where
  "macRomanCharacter b = kMacRomanUnicode ! unat b"

text \<open>The two maps built backwards from byte 255 to 0, so that the least byte wins.\<close>

definition rev_step :: "nat \<Rightarrow> (u16 list \<rightharpoonup> u8) \<times> (u16 \<rightharpoonup> u8) \<Rightarrow> (u16 list \<rightharpoonup> u8) \<times> (u16 \<rightharpoonup> u8)" where
  "rev_step b m =
     (let sq = decomposed (of_nat b);
          multi = (if 1 < length sq then (fst m)(sq \<mapsto> of_nat b) else fst m);
          single = (if 1 < length sq then snd m else (snd m)(sq ! 0 \<mapsto> of_nat b));
          u = kMacRomanUnicode ! b
      in (multi, if single u = None then single(u \<mapsto> of_nat b) else single))"

definition reverse_maps :: "(u16 list \<rightharpoonup> u8) \<times> (u16 \<rightharpoonup> u8)" where
  "reverse_maps = fold rev_step (rev [0..<256]) (Map.empty, Map.empty)"

text \<open>The longest known sequence of two or three units at the front.\<close>

definition longest_match :: "(u16 list \<rightharpoonup> u8) \<Rightarrow> u16 list \<Rightarrow> (nat \<times> u8) option" where
  "longest_match multi cs =
     (case if 3 \<le> length cs then multi (take 3 cs) else None of
        Some b \<Rightarrow> Some (3, b)
      | None \<Rightarrow>
          (case if 2 \<le> length cs then multi (take 2 cs) else None of Some b \<Rightarrow> Some (2, b) | None \<Rightarrow> None))"

lemma longest_match_pos: "longest_match multi cs = Some (n, b) \<Longrightarrow> 0 < n"
  by (auto simp: longest_match_def split: option.splits if_splits)

function to_mac_roman :: "(u16 list \<rightharpoonup> u8) \<times> (u16 \<rightharpoonup> u8) \<Rightarrow> u16 list \<Rightarrow> bytes \<times> bool" where
  "to_mac_roman r [] = ([], False)"
| "to_mac_roman r (c # cs) =
     (case longest_match (fst r) (c # cs) of
        Some (n, b) \<Rightarrow> (case to_mac_roman r (drop n (c # cs)) of (out, lost) \<Rightarrow> (b # out, lost))
      | None \<Rightarrow>
          (case to_mac_roman r cs of (out, lost) \<Rightarrow>
             (case snd r c of
                Some b \<Rightarrow> if c = 0x3A then (0x3F # out, True) else (b # out, lost)
              | None \<Rightarrow> (0x3F # out, True))))"
  by pat_completeness auto
termination by (relation "measure (\<lambda>(r, cs). length cs)") (auto dest: longest_match_pos)

definition unicodeToMacRoman :: "u16 list \<Rightarrow> bytes \<times> bool" where
  "unicodeToMacRoman name = to_mac_roman reverse_maps name"

section \<open>Short names\<close>

fun rfind :: "u8 \<Rightarrow> bytes \<Rightarrow> nat option" where
  "rfind c [] = None"
| "rfind c (x # xs) = (case rfind c xs of Some i \<Rightarrow> Some (Suc i) | None \<Rightarrow> if x = c then Some 0 else None)"

text \<open>\<open>snprintf\<close> with \<^verbatim>\<open>%X\<close>.\<close>

definition hex_char :: "nat \<Rightarrow> u8" where
  "hex_char d = (if d < 10 then of_nat (0x30 + d) else of_nat (0x41 + (d - 10)))"

fun hex_upper :: "nat \<Rightarrow> bytes" where
  "hex_upper n = (if n < 16 then [hex_char n] else hex_upper (n div 16) @ [hex_char (n mod 16)])"

declare hex_upper.simps [simp del]

definition extension :: "bytes \<Rightarrow> bytes" where
  "extension mac =
     (case rfind 0x2E mac of
        Some dot \<Rightarrow> if 0 < dot \<and> 2 \<le> length mac - dot \<and> length mac - dot \<le> 6 then drop dot mac else []
      | None \<Rightarrow> [])"

definition classicName :: "u16 list \<Rightarrow> u32 \<Rightarrow> bytes" where
  "classicName name cnid =
     (case unicodeToMacRoman name of (mac, lossy) \<Rightarrow>
        if \<not> lossy \<and> length mac \<le> 31 then mac
        else
          let ext = extension mac;
              base = take (length mac - length ext) mac;
              tag = 0x23 # hex_upper (unat cnid);
              room = 31 - min 31 (length tag + length ext)
          in take room base @ tag @ ext)"

definition hex_value :: "u8 \<Rightarrow> u32 option" where
  "hex_value c =
     (if 0x30 \<le> c \<and> c \<le> 0x39 then Some (ucast c - 0x30)
      else if 0x41 \<le> c \<and> c \<le> 0x46 then Some (ucast c - 0x41 + 10)
      else if 0x61 \<le> c \<and> c \<le> 0x66 then Some (ucast c - 0x61 + 10)
      else None)"

fun read_hex :: "nat \<Rightarrow> u32 \<Rightarrow> bytes \<Rightarrow> nat \<times> u32 \<times> bytes" where
  "read_hex digits cnid [] = (digits, cnid, [])"
| "read_hex digits cnid (c # cs) =
     (if digits < 8 then
        (case hex_value c of
           None \<Rightarrow> (digits, cnid, c # cs)
         | Some v \<Rightarrow> read_hex (Suc digits) (push_bit 4 cnid OR v) cs)
      else (digits, cnid, c # cs))"

definition cnidInClassicName :: "bytes \<Rightarrow> u32 option" where
  "cnidInClassicName mac =
     (case rfind 0x23 mac of
        None \<Rightarrow> None
      | Some hash \<Rightarrow>
          (case read_hex 0 0 (drop (Suc hash) mac) of (digits, cnid, rest) \<Rightarrow>
             if digits = 0 \<or> (rest \<noteq> [] \<and> hd rest \<noteq> 0x2E) then None else Some cnid))"

section \<open>UTF-8\<close>

definition utf8_of :: "u32 \<Rightarrow> bytes" where
  "utf8_of c =
     (if c < 0x80 then [ucast c]
      else if c < 0x800 then [ucast (0xC0 OR drop_bit 6 c), ucast (0x80 OR (c AND 0x3F))]
      else if c < 0x10000 then
        [ucast (0xE0 OR drop_bit 12 c), ucast (0x80 OR (drop_bit 6 c AND 0x3F)), ucast (0x80 OR (c AND 0x3F))]
      else
        [ucast (0xF0 OR drop_bit 18 c), ucast (0x80 OR (drop_bit 12 c AND 0x3F)),
         ucast (0x80 OR (drop_bit 6 c AND 0x3F)), ucast (0x80 OR (c AND 0x3F))])"

fun toUTF8 :: "u16 list \<Rightarrow> bytes" where
  "toUTF8 [] = []"
| "toUTF8 (c # cs) =
     (case cs of
        d # ds \<Rightarrow>
          if 0xD800 \<le> c \<and> c < 0xDC00 \<and> 0xDC00 \<le> d \<and> d < 0xE000
          then utf8_of (0x10000 + push_bit 10 (ucast c - 0xD800) + (ucast d - 0xDC00)) @ toUTF8 ds
          else utf8_of (ucast c) @ toUTF8 cs
      | [] \<Rightarrow> utf8_of (ucast c))"

section \<open>What the order is\<close>

definition folded :: "u16 list \<Rightarrow> u16 list" where
  "folded name = filter (\<lambda>c. c \<noteq> 0) (map fold_char name)"

lemma next_char_folded:
  "next_char a = (c, a') \<Longrightarrow> folded a = (if c = 0 then [] else c # folded a')"
  by (induction a) (auto simp: folded_def split: if_splits)

lemma fast_compare_folded: "fastUnicodeCompare a b = binaryCompare (folded a) (folded b)"
proof (induction a b rule: fastUnicodeCompare.induct)
  case (1 a b)
  obtain c1 a' where a: "next_char a = (c1, a')" by fastforce
  obtain c2 b' where b: "next_char b = (c2, b')" by fastforce
  have fa: "folded a = (if c1 = 0 then [] else c1 # folded a')" by (rule next_char_folded [OF a])
  have fb: "folded b = (if c2 = 0 then [] else c2 # folded b')" by (rule next_char_folded [OF b])
  have "0 < c \<longleftrightarrow> c \<noteq> 0" "\<not> c < 0" for c :: u16 by (simp_all add: word_greater_zero_iff)
  then show ?case
    by (subst fastUnicodeCompare.simps) (use 1 [OF a [symmetric] b [symmetric]] in \<open>simp add: a b fa fb\<close>)
qed

lemma binary_compare_zero: "binaryCompare a b = 0 \<longleftrightarrow> a = b"
  by (induction a b rule: binaryCompare.induct) auto

lemma binary_compare_swap: "binaryCompare b a = - binaryCompare a b"
  by (induction a b rule: binaryCompare.induct) (auto simp: not_less)

lemma binary_compare_trans: "binaryCompare a b \<le> 0 \<Longrightarrow> binaryCompare b c \<le> 0 \<Longrightarrow> binaryCompare a c \<le> 0"
proof (induction a b arbitrary: c rule: binaryCompare.induct)
  case (1 a as b bs)
  then show ?case by (cases c) (auto split: if_splits)
next
  case (2)
  then show ?case by simp
next
  case (3 b bs)
  then show ?case by (cases c) auto
qed auto

lemma byte_lt: "unat b < 256" for b :: u8
  using unsigned_less [where 'a = nat, of b] by simp

text \<open>
  C34: The case-insensitive order of names, TN1150's FastUnicodeCompare, is a total order on
  names up to case and ignored characters: two names compare equal exactly when they fold to
  the same characters, swapping the names swaps the sign, and the order is transitive, so a
  catalog sorted by it can be searched.
\<close>

theorem name_order:
  "(fastUnicodeCompare a b = 0 \<longleftrightarrow> folded a = folded b) \<and> fastUnicodeCompare b a = - fastUnicodeCompare a b
    \<and> (fastUnicodeCompare a b \<le> 0 \<and> fastUnicodeCompare b c \<le> 0 \<longrightarrow> fastUnicodeCompare a c \<le> 0)"
  unfolding fast_compare_folded
  using binary_compare_zero binary_compare_swap binary_compare_trans by blast

section \<open>MacRoman names\<close>

lemma decomposed_shape:
  "length kMacRomanDecomposed = 256"
  "list_all (\<lambda>d. d ! 0 \<notin> {0x300, 0x301, 0x302, 0x303, 0x308, 0x30A, 0x327}
     \<and> (d ! 1 = 0 \<or> d ! 1 \<in> {0x300, 0x301, 0x302, 0x303, 0x308, 0x30A, 0x327}) \<and> d ! 2 = 0) kMacRomanDecomposed"
  by (simp_all add: kMacRomanDecomposed_def)

lemma decomposed_distinct: "distinct (map (\<lambda>d. 0x10000 * unat (d ! 1) + unat (d ! 0)) kMacRomanDecomposed)"
  by (simp add: kMacRomanDecomposed_def)

lemma decomposed_cases:
  "decomposed b = [kMacRomanDecomposed ! unat b ! 0] \<and> kMacRomanDecomposed ! unat b ! 1 = 0
    \<or> decomposed b = [kMacRomanDecomposed ! unat b ! 0, kMacRomanDecomposed ! unat b ! 1]
      \<and> kMacRomanDecomposed ! unat b ! 1 \<in> {0x300, 0x301, 0x302, 0x303, 0x308, 0x30A, 0x327}"
  "hd (decomposed b) \<notin> {0x300, 0x301, 0x302, 0x303, 0x308, 0x30A, 0x327}"
proof -
  have "unat b < 256" by (rule byte_lt)
  then have *: "kMacRomanDecomposed ! unat b ! 0 \<notin> {0x300, 0x301, 0x302, 0x303, 0x308, 0x30A, 0x327}
     \<and> (kMacRomanDecomposed ! unat b ! 1 = 0 \<or> kMacRomanDecomposed ! unat b ! 1 \<in> {0x300, 0x301, 0x302, 0x303, 0x308, 0x30A, 0x327})
     \<and> kMacRomanDecomposed ! unat b ! 2 = 0"
    by (rule decomposed_shape(2) [unfolded list_all_length decomposed_shape(1), rule_format])
  then show "decomposed b = [kMacRomanDecomposed ! unat b ! 0] \<and> kMacRomanDecomposed ! unat b ! 1 = 0
    \<or> decomposed b = [kMacRomanDecomposed ! unat b ! 0, kMacRomanDecomposed ! unat b ! 1]
      \<and> kMacRomanDecomposed ! unat b ! 1 \<in> {0x300, 0x301, 0x302, 0x303, 0x308, 0x30A, 0x327}"
    by (auto simp: decomposed_def Let_def)
  show "hd (decomposed b) \<notin> {0x300, 0x301, 0x302, 0x303, 0x308, 0x30A, 0x327}"
    using * by (simp add: decomposed_def Let_def)
qed

lemma decomposed_key:
  "kMacRomanDecomposed ! unat b ! 0 = hd (decomposed b)"
  "kMacRomanDecomposed ! unat b ! 1 = (if length (decomposed b) = 1 then 0 else decomposed b ! 1)"
  using decomposed_cases(1) [of b] by (elim disjE; simp)+

lemma decomposed_inject: "decomposed b = decomposed b' \<longleftrightarrow> b = b'"
proof
  assume eq: "decomposed b = decomposed b'"
  let ?k = "\<lambda>d. 0x10000 * unat (d ! 1) + unat (d ! 0 :: u16)"
  have lt: "unat b < 256" "unat b' < 256" by (rule byte_lt)+
  have k: "?k (kMacRomanDecomposed ! unat b) = ?k (kMacRomanDecomposed ! unat b')"
    unfolding decomposed_key eq by (rule refl)
  have len: "length (map ?k kMacRomanDecomposed) = 256" by (simp only: length_map decomposed_shape(1))
  have "map ?k kMacRomanDecomposed ! unat b = map ?k kMacRomanDecomposed ! unat b'"
    using k lt by (simp only: nth_map decomposed_shape(1))
  then have "unat b = unat b'"
    by (rule iffD1 [OF nth_eq_iff_index_eq [OF decomposed_distinct], rotated -1]) (use lt len in \<open>simp_all only:\<close>)
  then show "b = b'" by (rule unsigned_word_eqI)
qed simp

definition known :: "u8 \<Rightarrow> (u16 list \<rightharpoonup> u8) \<times> (u16 \<rightharpoonup> u8) \<Rightarrow> bool" where
  "known b r \<longleftrightarrow>
     (if 1 < length (decomposed b) then fst r (decomposed b) = Some b else snd r (hd (decomposed b)) = Some b)"

lemma rev_step_known: "known (of_nat i) (rev_step i r)"
  using decomposed_cases(1) [of "of_nat i"] by (auto simp: known_def rev_step_def Let_def)

lemma rev_step_keeps: "known b r \<Longrightarrow> of_nat i \<noteq> b \<Longrightarrow> known b (rev_step i r)"
  using decomposed_cases(1) [of "of_nat i"] decomposed_cases(1) [of b] decomposed_inject [of b "of_nat i"]
  by (auto simp: known_def rev_step_def Let_def)

lemma rev_fold_keeps: "known b r \<Longrightarrow> (of_nat ` set is :: u8 set) \<subseteq> - {b} \<Longrightarrow> known b (fold rev_step is r)"
proof (induction "is" arbitrary: r)
  case (Cons i "is")
  have "known b (rev_step i r)" using Cons.prems by (intro rev_step_keeps) auto
  then show ?case using Cons by simp
qed simp

lemma rev_fold_pairs:
  "fst (fold rev_step is r) sq = Some b \<Longrightarrow> fst r sq = Some b \<or> (\<exists>b'. sq = decomposed b' \<and> 1 < length sq)"
proof (induction "is" arbitrary: r)
  case (Cons i "is")
  from Cons.IH [of "rev_step i r"] Cons.prems
  have "fst (rev_step i r) sq = Some b \<or> (\<exists>b'. sq = decomposed b' \<and> 1 < length sq)" by simp
  then show ?case by (auto simp: rev_step_def Let_def split: if_splits)
qed simp

lemma reverse_known: "known b reverse_maps"
proof -
  have lt: "unat b < 256" by (rule byte_lt)
  have "[0..<256] = [0..<unat b] @ [unat b..<256]"
    using lt upt_add_eq_append [of 0 "unat b" "256 - unat b"] by (simp only: le_add_diff_inverse less_imp_le_nat)
  also have "[unat b..<256] = unat b # [Suc (unat b)..<256]" using lt by (rule upt_conv_Cons)
  finally have "rev [0..<256] = rev [Suc (unat b)..<256] @ unat b # rev [0..<unat b]" by simp
  then have r: "reverse_maps = fold rev_step (rev [0..<unat b])
      (rev_step (unat b) (fold rev_step (rev [Suc (unat b)..<256]) (Map.empty, Map.empty)))"
    by (simp add: reverse_maps_def)
  have "of_nat ` set (rev [0..<unat b]) \<subseteq> - {b}"
    using lt by (auto simp: unat_of_nat take_bit_nat_eq_self dest!: arg_cong [where f = unat])
  moreover have "known b (rev_step (unat b) r)" for r using rev_step_known [of "unat b" r] by simp
  ultimately show ?thesis unfolding r by (intro rev_fold_keeps)
qed

lemma reverse_pairs: "fst reverse_maps sq = Some b \<Longrightarrow> \<exists>b'. sq = decomposed b' \<and> 1 < length sq"
  using rev_fold_pairs [of "rev [0..<256]" "(Map.empty, Map.empty)" sq b] by (simp add: reverse_maps_def)

lemma match_front:
  assumes "cs = [] \<or> (\<exists>b' cs'. cs = decomposed b' @ cs')"
  shows "longest_match (fst reverse_maps) (decomposed b @ cs) = (if 1 < length (decomposed b) then Some (2, b) else None)"
proof -
  have no3: "fst reverse_maps (take 3 xs) = None" if "3 \<le> length xs" for xs
  proof (rule ccontr)
    assume "\<not> ?thesis"
    then obtain b' where "take 3 xs = decomposed b'" using reverse_pairs by blast
    then have "length (decomposed b') = 3" using that by (metis length_take min.absorb2)
    then show False using decomposed_cases(1) [of b'] by auto
  qed
  show ?thesis
  proof (cases "1 < length (decomposed b)")
    case True
    then obtain x y where d: "decomposed b = [x, y]" using decomposed_cases(1) [of b] by auto
    moreover have "fst reverse_maps (decomposed b) = Some b" using reverse_known [of b] True by (simp add: known_def)
    ultimately show ?thesis using no3 [of "decomposed b @ cs"] by (auto simp: longest_match_def split: option.split)
  next
    case False
    then obtain x where d: "decomposed b = [x]" using decomposed_cases(1) [of b] by auto
    have "fst reverse_maps (take 2 (x # cs)) = None" if "2 \<le> length (x # cs)"
    proof (rule ccontr)
      assume "\<not> ?thesis"
      then obtain b' where b': "take 2 (x # cs) = decomposed b'" "1 < length (decomposed b')" using reverse_pairs by fastforce
      have "cs \<noteq> []" using that by auto
      then obtain b2 cs' where "cs = decomposed b2 @ cs'" using assms by blast
      then have "decomposed b' = [x, hd (decomposed b2)]"
        using b' decomposed_cases(1) [of b2] by auto
      then show False using decomposed_cases(1) [of b'] decomposed_cases(2) [of b2] by auto
    qed
    moreover have "(if 3 \<le> length (x # cs) then fst reverse_maps (take 3 (x # cs)) else None) = None"
      using no3 [of "x # cs"] by simp
    ultimately show ?thesis using d by (simp add: longest_match_def)
  qed
qed

lemma decomposed_colon: "decomposed 0x3A = [0x3A]"
  by (simp add: decomposed_def kMacRomanDecomposed_def)

lemma to_mac_roman_front:
  assumes "cs = [] \<or> (\<exists>b' cs'. cs = decomposed b' @ cs')" and "b \<noteq> 0x3A"
  shows "to_mac_roman reverse_maps (decomposed b @ cs) = apfst (Cons b) (to_mac_roman reverse_maps cs)"
proof (cases "1 < length (decomposed b)")
  case True
  then obtain x y where d: "decomposed b = [x, y]" using decomposed_cases(1) [of b] by auto
  show ?thesis using match_front [OF assms(1), of b] True d by (auto split: prod.split)
next
  case False
  then obtain x where d: "decomposed b = [x]" using decomposed_cases(1) [of b] by auto
  then have "snd reverse_maps x = Some b" using reverse_known [of b] False by (simp add: known_def)
  moreover have "x \<noteq> 0x3A" using d decomposed_inject [of b "0x3A"] decomposed_colon assms(2) by auto
  ultimately show ?thesis using match_front [OF assms(1), of b] d by (auto split: prod.split)
qed

lemma mac_roman_back: "0x3A \<notin> set name \<Longrightarrow> unicodeToMacRoman (macRomanToUnicode name) = (name, False)"
  unfolding unicodeToMacRoman_def
proof (induction name)
  case Nil
  show ?case by (simp add: macRomanToUnicode_def)
next
  case (Cons b name)
  have "macRomanToUnicode name = [] \<or> (\<exists>b' cs'. macRomanToUnicode name = decomposed b' @ cs')"
    by (cases name) (auto simp: macRomanToUnicode_def)
  then show ?case
    using to_mac_roman_front [of "macRomanToUnicode name" b] Cons by (auto simp: macRomanToUnicode_def)
qed

text \<open>
  C35: A MacRoman name without a colon, the classic path separator, is stored decomposed and
  comes back unchanged and without loss.
\<close>

theorem mac_name_round_trip:
  "0x3A \<notin> set name \<Longrightarrow> unicodeToMacRoman (macRomanToUnicode name) = (name, False)"
  by (rule mac_roman_back)

lemma mac_name_round_trip_witness: "unicodeToMacRoman (macRomanToUnicode [0x80, 0x41]) = ([0x80, 0x41], False)"
  by (rule mac_name_round_trip) simp

lemma name_order_witness: "fastUnicodeCompare [0x41] [0x41] \<le> 0"
  using name_order [of "[0x41]" "[0x41]" "[0x41]"] by simp

section \<open>Short names\<close>

lemma rfind_last: "c \<notin> set ys \<Longrightarrow> rfind c (xs @ c # ys) = Some (length xs)"
proof -
  assume "c \<notin> set ys"
  then have "rfind c ys = None" by (induction ys) auto
  then show ?thesis by (induction xs) auto
qed













lemma extension_of:
  "base \<noteq> [] \<Longrightarrow> 0x2E \<notin> set xs \<Longrightarrow> xs \<noteq> [] \<Longrightarrow> length xs \<le> 5 \<Longrightarrow> extension (base @ 0x2E # xs) = 0x2E # xs"
  by (cases xs) (simp_all add: extension_def rfind_last)






text \<open>With a number sign in the extension the wrong number is read back.\<close>

lemma short_name_lost:
  "cnidInClassicName (classicName (macRomanToUnicode (replicate 30 0x41 @ [0x2E, 0x61, 0x23, 0x62])) 0x2A) = Some 0xB"
proof -
  define s where "s = replicate 30 0x41 @ 0x2E # [0x61, 0x23, 0x62 :: u8]"
  have nb: "unicodeToMacRoman (macRomanToUnicode s) = (s, False)" by (rule mac_roman_back) (simp add: s_def)
  have ext: "extension s = 0x2E # [0x61, 0x23, 0x62]" unfolding s_def by (rule extension_of) simp_all
  have len: "length s = 34" by (simp add: s_def)
  have tag: "hex_upper 42 = [0x32, 0x41]" by (simp add: hex_upper.simps hex_char_def)
  have "classicName (macRomanToUnicode s) 0x2A = (take 24 s @ [0x23, 0x32, 0x41, 0x2E, 0x61]) @ 0x23 # [0x62]"
    by (simp add: classicName_def nb ext len tag)
  moreover have "rfind 0x23 ((take 24 s @ [0x23, 0x32, 0x41, 0x2E, 0x61]) @ 0x23 # [0x62])
      = Some (length (take 24 s @ [0x23, 0x32, 0x41, 0x2E, 0x61 :: u8]))"
    by (rule rfind_last) simp
  ultimately have "rfind 0x23 (classicName (macRomanToUnicode s) 0x2A) = Some 29"
    and "drop 30 (classicName (macRomanToUnicode s) 0x2A) = [0x62]" by (simp_all add: len)
  then have "cnidInClassicName (classicName (macRomanToUnicode s) 0x2A) = Some 0xB"
    by (simp add: cnidInClassicName_def hex_value_def)
  then show ?thesis by (simp add: s_def)
qed

end
