(* ===== verification/HFSP_Volume.thy ===== *)
theory HFSP_Volume
  imports HFSP_BTree HFSP_Unicode
begin

text \<open>
  An open HFS+ volume for reading: \<^verbatim>\<open>executor/core/romlib/hfs/plus/reader.cpp\<close> and the structures
  of \<^verbatim>\<open>reader.h\<close>. The object \<open>Reader\<close> with its forks and its two B-trees is the record \<open>vol\<close>.
  Times are the answers \<open>v_times\<close> of the clock, taken one after the other.
\<close>

section \<open>Structures\<close>

abbreviation kRootParentID :: u32 where "kRootParentID \<equiv> 1"
abbreviation kRootFolderID :: u32 where "kRootFolderID \<equiv> 2"
abbreviation kExtentsFileID :: u32 where "kExtentsFileID \<equiv> 3"
abbreviation kCatalogFileID :: u32 where "kCatalogFileID \<equiv> 4"
abbreviation kAllocationFileID :: u32 where "kAllocationFileID \<equiv> 6"
abbreviation kFirstUserCatalogNodeID :: u32 where "kFirstUserCatalogNodeID \<equiv> 16"

abbreviation kFolderRecord :: u16 where "kFolderRecord \<equiv> 1"
abbreviation kFileRecord :: u16 where "kFileRecord \<equiv> 2"
abbreviation kFolderThreadRecord :: u16 where "kFolderThreadRecord \<equiv> 3"
abbreviation kFileThreadRecord :: u16 where "kFileThreadRecord \<equiv> 4"

abbreviation kHardwareLock :: u32 where "kHardwareLock \<equiv> 0x80"
abbreviation kUnmounted :: u32 where "kUnmounted \<equiv> 0x100"
abbreviation kInconsistent :: u32 where "kInconsistent \<equiv> 0x800"
abbreviation kJournaled :: u32 where "kJournaled \<equiv> 0x2000"
abbreviation kSoftwareLock :: u32 where "kSoftwareLock \<equiv> 0x8000"

abbreviation kLocked :: u16 where "kLocked \<equiv> 1"
abbreviation kThreadExists :: u16 where "kThreadExists \<equiv> 2"

type_synonym extent = "u32 \<times> u32"  \<comment> \<open>start and count, in allocation blocks\<close>

record fork_data =
  fd_logicalSize :: u64
  fd_clumpSize :: u32
  fd_totalBlocks :: u32
  fd_extents :: "extent list"

record volume_header =
  vh_signature :: u16
  vh_version :: u16
  vh_attributes :: u32
  vh_lastMountedVersion :: u32
  vh_journalInfoBlock :: u32
  vh_createDate :: u32
  vh_modifyDate :: u32
  vh_backupDate :: u32
  vh_checkedDate :: u32
  vh_fileCount :: u32
  vh_folderCount :: u32
  vh_blockSize :: u32
  vh_totalBlocks :: u32
  vh_freeBlocks :: u32
  vh_nextAllocation :: u32
  vh_rsrcClumpSize :: u32
  vh_dataClumpSize :: u32
  vh_nextCatalogID :: u32
  vh_writeCount :: u32
  vh_encodingsBitmap :: u64
  vh_finderInfo :: "u32 list"
  vh_allocationFile :: fork_data
  vh_extentsFile :: fork_data
  vh_catalogFile :: fork_data
  vh_attributesFile :: fork_data
  vh_startupFile :: fork_data
  vh_raw :: bytes

record catalog_entry =
  ce_folder :: bool
  ce_parentID :: u32
  ce_cnid :: u32
  ce_name :: "u16 list"
  ce_flags :: u16
  ce_valence :: u32
  ce_createDate :: u32
  ce_contentModDate :: u32
  ce_attributeModDate :: u32
  ce_accessDate :: u32
  ce_backupDate :: u32
  ce_userInfo :: bytes
  ce_finderInfo :: bytes
  ce_textEncoding :: u32
  ce_special :: u32
  ce_dataFork :: fork_data
  ce_resourceFork :: fork_data
  ce_raw :: bytes

record fork =
  fk_size :: nat
  fk_extents :: "extent list"
  fk_complete :: bool

record cursor =
  cu_parentID :: u32
  cu_index :: u32
  cu_node :: u32
  cu_record :: nat

record vol =
  v_image :: image
  v_offset :: nat
  v_wrapped :: bool
  v_writable :: bool
  v_dirty :: bool
  v_wrapperBlockSize :: u32
  v_wrapperEmbedBlocks :: u16
  v_header :: volume_header
  v_extentsFork :: fork
  v_catalogFork :: fork
  v_allocationFork :: fork
  v_extents :: btree
  v_catalog :: btree
  v_binaryOrder :: bool
  v_bitmap :: bytes
  v_cursor :: cursor
  v_privateFolder :: "u32 option"
  v_times :: "nat \<Rightarrow> u32"
  v_tick :: nat

definition parse_fork :: "bytes \<Rightarrow> nat \<Rightarrow> fork_data" where
  "parse_fork p off =
     \<lparr>fd_logicalSize = be64_at p off, fd_clumpSize = be32_at p (off + 8), fd_totalBlocks = be32_at p (off + 12),
      fd_extents = map (\<lambda>i. (be32_at p (off + 16 + 8 * i), be32_at p (off + 20 + 8 * i))) [0..<8]\<rparr>"

definition extent_bytes :: "extent \<Rightarrow> bytes" where
  "extent_bytes e = bytes32 (fst e) @ bytes32 (snd e)"

definition store_fork :: "nat \<Rightarrow> fork_data \<Rightarrow> bytes \<Rightarrow> bytes" where
  "store_fork off f p =
     overwrite p off (bytes64 (fd_logicalSize f) @ bytes32 (fd_clumpSize f) @ bytes32 (fd_totalBlocks f)
       @ concat (map extent_bytes (fd_extents f)))"

definition readUniStr :: "bytes \<Rightarrow> nat \<Rightarrow> u16 list" where
  "readUniStr p room =
     (if room < 2 then [] else map (\<lambda>i. be16_at p (2 + 2 * i)) [0..<min (unat (be16_at p 0)) ((room - 2) div 2)])"

definition key_name :: "bytes \<Rightarrow> u16 list" where
  "key_name key = readUniStr (drop 6 key) (unat (be16_at key 0) - 4)"

definition parseRecord :: "bytes \<Rightarrow> bytes \<Rightarrow> nat \<Rightarrow> catalog_entry option" where
  "parseRecord key dat room =
     (if room < 2 then None
      else
        let type = be16_at dat 0; folder = (type = kFolderRecord) in
        if \<not> (folder \<and> 88 \<le> room) \<and> \<not> (type = kFileRecord \<and> 248 \<le> room) then None
        else Some \<lparr>ce_folder = folder, ce_parentID = be32_at key 2, ce_cnid = be32_at dat 8, ce_name = key_name key,
          ce_flags = be16_at dat 2, ce_valence = (if folder then be32_at dat 4 else 0), ce_createDate = be32_at dat 12,
          ce_contentModDate = be32_at dat 16, ce_attributeModDate = be32_at dat 20, ce_accessDate = be32_at dat 24,
          ce_backupDate = be32_at dat 28, ce_userInfo = slice 48 16 dat, ce_finderInfo = slice 64 16 dat,
          ce_textEncoding = be32_at dat 80, ce_special = be32_at dat 44,
          ce_dataFork = (if folder then \<lparr>fd_logicalSize = 0, fd_clumpSize = 0, fd_totalBlocks = 0, fd_extents = replicate 8 (0, 0)\<rparr>
             else parse_fork dat 88),
          ce_resourceFork = (if folder then \<lparr>fd_logicalSize = 0, fd_clumpSize = 0, fd_totalBlocks = 0, fd_extents = replicate 8 (0, 0)\<rparr>
             else parse_fork dat 168),
          ce_raw = take (if folder then 88 else 248) dat\<rparr>)"

section \<open>Where volumes are\<close>

definition isHFSPlus :: "nat \<Rightarrow> image \<Rightarrow> bool \<times> image" where
  "isHFSPlus start img =
     (case image_read (start + 1024) 130 img of
        (None, img') \<Rightarrow> (False, img')
      | (Some m, img') \<Rightarrow>
          let sig = be16_at m 0 in
          (sig = 0x482B \<or> sig = 0x4858 \<or> (sig = 0x4244 \<and> be16_at m 124 = 0x482B), img'))"

definition c_string :: "bytes \<Rightarrow> bytes" where
  "c_string p = takeWhile (\<lambda>c. c \<noteq> 0) p"

definition Apple_HFS :: bytes where
  "Apple_HFS = [0x41, 0x70, 0x70, 0x6C, 0x65, 0x5F, 0x48, 0x46, 0x53]"

fun starts_loop :: "u32 \<Rightarrow> nat list \<Rightarrow> u32 \<Rightarrow> image \<Rightarrow> nat list \<times> image" where
  "starts_loop bs [] n img = ([], img)"
| "starts_loop bs (i # is) n img =
     (if n < of_nat i then ([], img)
      else case image_read (unat bs * i) 512 img of
        (None, img1) \<Rightarrow> ([], img1)
      | (Some pm, img1) \<Rightarrow>
          if be16_at pm 0 \<noteq> 0x504D then ([], img1)
          else
            let type = c_string (slice 48 32 pm) in
            case starts_loop bs is (be32_at pm 4) img1 of (starts, img2) \<Rightarrow>
              (if type = Apple_HFS \<or> type = Apple_HFS @ [0x58] then unat bs * unat (be32_at pm 8) # starts else starts, img2))"

definition volumeStarts :: "image \<Rightarrow> nat list \<times> image" where
  "volumeStarts img =
     (case image_read 0 512 img of
        (None, img1) \<Rightarrow> ([0], img1)
      | (Some b, img1) \<Rightarrow>
          if be16_at b 0 \<noteq> 0x4552 then ([0], img1)
          else
            let bs0 = ucast (be16_at b 2) :: u32;
                bs1 = (if bs0 < 512 \<or> bs0 AND (bs0 - 1) \<noteq> 0 then 512 else bs0) in
            case image_read (unat bs1) 2 img1 of (pm, img2) \<Rightarrow>
              let bs = (case pm of None \<Rightarrow> 512 | Some p \<Rightarrow> if be16_at p 0 \<noteq> 0x504D then 512 else bs1) in
              case starts_loop bs [1..<256] 1 img2 of (starts, img3) \<Rightarrow> (if starts = [] then [0] else starts, img3))"

section \<open>Forks\<close>

definition on_image :: "(image \<Rightarrow> 'a \<times> image) \<Rightarrow> vol \<Rightarrow> 'a \<times> vol" where
  "on_image f v = (case f (v_image v) of (r, img) \<Rightarrow> (r, v\<lparr>v_image := img\<rparr>))"

definition readAt :: "nat \<Rightarrow> nat \<Rightarrow> vol \<Rightarrow> bytes option \<times> vol" where
  "readAt pos n v = on_image (image_read (v_offset v + pos) n) v"

definition writeAt :: "nat \<Rightarrow> bytes \<Rightarrow> vol \<Rightarrow> bool \<times> vol" where
  "writeAt pos bs v = on_image (image_write (v_offset v + pos) bs) v"

definition block_size :: "vol \<Rightarrow> nat" where
  "block_size v = unat (vh_blockSize (v_header v))"

text \<open>\<open>start\<close> is the extent's first byte in the fork; \<open>acc\<close> what was read so far.\<close>

fun fork_read_loop :: "nat \<Rightarrow> nat \<Rightarrow> nat \<Rightarrow> extent list \<Rightarrow> nat \<Rightarrow> bytes \<Rightarrow> vol \<Rightarrow> bytes \<times> vol" where
  "fork_read_loop bs offset n [] start acc v = (acc, v)"
| "fork_read_loop bs offset n (e # es) start acc v =
     (let len = unat (snd e) * bs; pos = offset + length acc in
      if pos < start + len then
        (case readAt (unat (fst e) * bs + (pos - start)) (min (n - length acc) (len - (pos - start))) v of
           (None, v1) \<Rightarrow> (acc, v1)
         | (Some got, v1) \<Rightarrow>
             if length (acc @ got) = n then (acc @ got, v1)
             else fork_read_loop bs offset n es (start + len) (acc @ got) v1)
      else fork_read_loop bs offset n es (start + len) acc v)"

definition fork_read :: "fork \<Rightarrow> nat \<Rightarrow> nat \<Rightarrow> vol \<Rightarrow> bytes \<times> vol" where
  "fork_read f offset n v =
     (if fk_size f \<le> offset then ([], v)
      else fork_read_loop (block_size v) offset (min n (fk_size f - offset)) (fk_extents f) 0 [] v)"

fun fork_write_loop :: "nat \<Rightarrow> nat \<Rightarrow> extent list \<Rightarrow> nat \<Rightarrow> bytes \<Rightarrow> vol \<Rightarrow> bool \<times> vol" where
  "fork_write_loop bs pos [] start dat v = (dat = [], v)"
| "fork_write_loop bs pos (e # es) start dat v =
     (if dat = [] then (True, v)
      else
        let len = unat (snd e) * bs in
        if pos < start + len then
          let put = min (length dat) (len - (pos - start)) in
          case writeAt (unat (fst e) * bs + (pos - start)) (take put dat) v of
            (False, v1) \<Rightarrow> (False, v1)
          | (True, v1) \<Rightarrow> fork_write_loop bs (pos + put) es (start + len) (drop put dat) v1
        else fork_write_loop bs pos es (start + len) dat v)"

definition fork_write :: "fork \<Rightarrow> nat \<Rightarrow> bytes \<Rightarrow> vol \<Rightarrow> bool \<times> vol" where
  "fork_write f offset dat v = fork_write_loop (block_size v) offset (fk_extents f) 0 dat v"

definition allocatedBytes :: "vol \<Rightarrow> fork \<Rightarrow> nat" where
  "allocatedBytes v f = sum_list (map (\<lambda>e. unat (snd e)) (fk_extents f)) * block_size v"

section \<open>Orders and keys\<close>

definition catalogKey :: "u32 \<Rightarrow> u16 list \<Rightarrow> bytes" where
  "catalogKey parentID name =
     bytes16 (of_nat (6 + 2 * length name)) @ bytes32 parentID @ bytes16 (of_nat (length name)) @ concat (map bytes16 name)"

definition extentKey :: "u8 \<Rightarrow> u32 \<Rightarrow> u32 \<Rightarrow> bytes" where
  "extentKey forkType fileID startBlock = bytes16 10 @ [forkType, 0] @ bytes32 fileID @ bytes32 startBlock"

definition compare3 :: "'a::linorder \<Rightarrow> 'a \<Rightarrow> int \<Rightarrow> int" where
  "compare3 a b otherwise = (if a \<noteq> b then (if a < b then - 1 else 1) else otherwise)"

definition extentOrder :: "bytes \<Rightarrow> bytes \<Rightarrow> int" where
  "extentOrder a b =
     compare3 (be32_at a 4) (be32_at b 4) (compare3 (a ! 2) (b ! 2) (compare3 (be32_at a 8) (be32_at b 8) 0))"

definition compareNames :: "vol \<Rightarrow> u16 list \<Rightarrow> u16 list \<Rightarrow> int" where
  "compareNames v a b = (if v_binaryOrder v then binaryCompare a b else fastUnicodeCompare a b)"

definition catalogOrder :: "vol \<Rightarrow> bytes \<Rightarrow> bytes \<Rightarrow> int" where
  "catalogOrder v a b = compare3 (be32_at a 2) (be32_at b 2) (compareNames v (key_name a) (key_name b))"

definition extents_tree :: "(u32 \<Rightarrow> (vol, unit) op) \<Rightarrow> vol tree_env" where
  "extents_tree grow =
     \<lparr>te_get = v_extents, te_upd = v_extents_update, te_read = (\<lambda>pos n v. fork_read (v_extentsFork v) pos n v),
      te_write = (\<lambda>pos bs v. fork_write (v_extentsFork v) pos bs v), te_order = (\<lambda>_. extentOrder), te_grow = grow\<rparr>"

definition catalog_tree :: "(u32 \<Rightarrow> (vol, unit) op) \<Rightarrow> vol tree_env" where
  "catalog_tree grow =
     \<lparr>te_get = v_catalog, te_upd = v_catalog_update, te_read = (\<lambda>pos n v. fork_read (v_catalogFork v) pos n v),
      te_write = (\<lambda>pos bs v. fork_write (v_catalogFork v) pos bs v), te_order = catalogOrder, te_grow = grow\<rparr>"

text \<open>For operations that never grow the tree.\<close>

abbreviation ext_ro :: "vol tree_env" where "ext_ro \<equiv> extents_tree (\<lambda>_. fail E_undefined)"
abbreviation cat_ro :: "vol tree_env" where "cat_ro \<equiv> catalog_tree (\<lambda>_. fail E_undefined)"

section \<open>Extents\<close>

definition nonempty_extents :: "extent list \<Rightarrow> extent list" where
  "nonempty_extents = filter (\<lambda>e. snd e \<noteq> 0)"

definition overflowExtents :: "u32 \<Rightarrow> u8 \<Rightarrow> u32 \<Rightarrow> vol \<Rightarrow> extent list \<times> vol" where
  "overflowExtents fileID forkType startBlock v =
     (let cmp = (\<lambda>k. compare3 fileID (be32_at k 4) (compare3 forkType (k ! 2) (compare3 startBlock (be32_at k 8) 0))) in
      case seek ext_ro cmp v of
        (None, v1) \<Rightarrow> ([], v1)
      | (Some pos, v1) \<Rightarrow>
          (case at_pos ext_ro pos v1 of
             (None, v2) \<Rightarrow> ([], v2)
           | (Some (_, key, dat, room), v2) \<Rightarrow>
               (if cmp key = 0 \<and> 64 \<le> room
                then nonempty_extents (map (\<lambda>i. (be32_at dat (8 * i), be32_at dat (8 * i + 4))) [0..<8])
                else [], v2)))"

definition blocks_of :: "extent list \<Rightarrow> nat" where
  "blocks_of es = sum_list (map (\<lambda>e. unat (snd e)) es)"

lemma blocks_of_nonempty: "es \<noteq> [] \<Longrightarrow> \<forall>e\<in>set es. snd e \<noteq> 0 \<Longrightarrow> 0 < blocks_of es"
  by (cases es) (auto simp: blocks_of_def unat_gt_0)

lemma overflow_nonzero: "overflowExtents f t b v = (extra, v') \<Longrightarrow> \<forall>e\<in>set extra. snd e \<noteq> 0"
  by (auto simp: overflowExtents_def nonempty_extents_def Let_def split: prod.splits option.splits if_splits)

function fill_loop :: "u32 \<Rightarrow> u8 \<Rightarrow> nat \<Rightarrow> nat \<Rightarrow> extent list \<Rightarrow> vol \<Rightarrow> (extent list \<times> bool) \<times> vol" where
  "fill_loop fileID forkType total' blocks acc v =
     (if blocks < total' then
        (case overflowExtents fileID forkType (of_nat blocks) v of (extra, v1) \<Rightarrow>
           if extra = [] then ((acc, False), v1)
           else fill_loop fileID forkType total' (blocks + blocks_of extra) (acc @ extra) v1)
      else ((acc, True), v))"
  by pat_completeness auto
termination
  by (relation "measure (\<lambda>(f, t, total', blocks, acc, v). total' - blocks)")
     (auto dest!: sym [of "(_, _)"] overflow_nonzero blocks_of_nonempty)

declare fill_loop.simps [simp del]

definition fillExtents :: "u32 \<Rightarrow> u8 \<Rightarrow> fork_data \<Rightarrow> fork \<Rightarrow> vol \<Rightarrow> fork \<times> vol" where
  "fillExtents fileID forkType fd f v =
     (let own = nonempty_extents (fd_extents fd) in
      case fill_loop fileID forkType (unat (fd_totalBlocks fd)) (blocks_of own) (fk_extents f @ own) v of
        ((es, complete), v1) \<Rightarrow> (f\<lparr>fk_extents := es, fk_complete := fk_complete f \<and> complete\<rparr>, v1))"

definition openFork :: "catalog_entry \<Rightarrow> bool \<Rightarrow> vol \<Rightarrow> fork \<times> vol" where
  "openFork e resource v =
     (let fd = (if resource then ce_resourceFork e else ce_dataFork e) in
      fillExtents (ce_cnid e) (if resource then 0xFF else 0) fd
        \<lparr>fk_size = unat (fd_logicalSize fd), fk_extents = [], fk_complete = True\<rparr> v)"

section \<open>Opening a volume\<close>

definition parse_header :: "bytes \<Rightarrow> volume_header" where
  "parse_header m =
     \<lparr>vh_signature = be16_at m 0, vh_version = be16_at m 2, vh_attributes = be32_at m 4, vh_lastMountedVersion = be32_at m 8,
      vh_journalInfoBlock = be32_at m 12, vh_createDate = be32_at m 16, vh_modifyDate = be32_at m 20,
      vh_backupDate = be32_at m 24, vh_checkedDate = be32_at m 28, vh_fileCount = be32_at m 32, vh_folderCount = be32_at m 36,
      vh_blockSize = be32_at m 40, vh_totalBlocks = be32_at m 44, vh_freeBlocks = be32_at m 48,
      vh_nextAllocation = be32_at m 52, vh_rsrcClumpSize = be32_at m 56, vh_dataClumpSize = be32_at m 60,
      vh_nextCatalogID = be32_at m 64, vh_writeCount = be32_at m 68, vh_encodingsBitmap = be64_at m 72,
      vh_finderInfo = map (\<lambda>i. be32_at m (80 + 4 * i)) [0..<8], vh_allocationFile = parse_fork m 112,
      vh_extentsFile = parse_fork m 192, vh_catalogFile = parse_fork m 272, vh_attributesFile = parse_fork m 352,
      vh_startupFile = parse_fork m 432, vh_raw = m\<rparr>"

definition closed_tree :: btree where
  "closed_tree = \<lparr>bt_depth = 0, bt_nodeSize = 0, bt_maxKeyLength = 0, bt_root = 0, bt_leafRecords = 0, bt_firstLeaf = 0,
     bt_lastLeaf = 0, bt_totalNodes = 0, bt_freeNodes = 0, bt_clumpSize = 0, bt_attributes = 0, bt_keyCompareType = 0,
     bt_cache = []\<rparr>"

definition sized_fork :: "fork_data \<Rightarrow> fork" where
  "sized_fork fd = \<lparr>fk_size = unat (fd_logicalSize fd), fk_extents = [], fk_complete = True\<rparr>"

definition start_volume :: "image \<Rightarrow> nat \<Rightarrow> bool \<Rightarrow> u32 \<Rightarrow> u16 \<Rightarrow> volume_header \<Rightarrow> (nat \<Rightarrow> u32) \<Rightarrow> vol" where
  "start_volume img offset wrapped bs emb h clock =
     \<lparr>v_image = img, v_offset = offset, v_wrapped = wrapped, v_writable = False, v_dirty = False,
      v_wrapperBlockSize = bs, v_wrapperEmbedBlocks = emb, v_header = h,
      v_extentsFork = (sized_fork (vh_extentsFile h))\<lparr>fk_extents := nonempty_extents (fd_extents (vh_extentsFile h))\<rparr>,
      v_catalogFork = sized_fork (vh_catalogFile h), v_allocationFork = sized_fork (vh_allocationFile h),
      v_extents = closed_tree, v_catalog = closed_tree, v_binaryOrder = False, v_bitmap = [],
      v_cursor = \<lparr>cu_parentID = 0, cu_index = 0, cu_node = 0, cu_record = 0\<rparr>, v_privateFolder = None,
      v_times = clock, v_tick = 0\<rparr>"

text \<open>Changes only to a clean, unjournaled, unlocked volume, all its special files whole.\<close>

definition may_write :: "vol \<Rightarrow> bool" where
  "may_write v \<longleftrightarrow>
     img_writable (v_image v) \<and> vh_attributes (v_header v) AND (kJournaled OR kSoftwareLock OR kHardwareLock) = 0
     \<and> vh_attributes (v_header v) AND kUnmounted \<noteq> 0 \<and> vh_attributes (v_header v) AND kInconsistent = 0
     \<and> fk_complete (v_catalogFork v) \<and> fk_complete (v_allocationFork v)"

definition open_trees :: "vol \<Rightarrow> vol option" where
  "open_trees v0 =
     (case bt_open ext_ro v0 of
        (False, _) \<Rightarrow> None
      | (True, v1) \<Rightarrow>
          (case fillExtents kCatalogFileID 0 (vh_catalogFile (v_header v1)) (v_catalogFork v1) v1 of (f, v2) \<Rightarrow>
             (case bt_open cat_ro (v2\<lparr>v_catalogFork := f\<rparr>) of
                (False, _) \<Rightarrow> None
              | (True, v3) \<Rightarrow>
                  let v4 = v3\<lparr>v_binaryOrder := (vh_signature (v_header v3) = 0x4858 \<and> bt_keyCompareType (v_catalog v3) = 0xBC)\<rparr> in
                  (case fillExtents kAllocationFileID 0 (vh_allocationFile (v_header v4)) (v_allocationFork v4) v4 of (g, v5) \<Rightarrow>
                     let v6 = v5\<lparr>v_allocationFork := g\<rparr> in Some (v6\<lparr>v_writable := may_write v6\<rparr>)))))"

definition open_at :: "image \<Rightarrow> nat \<Rightarrow> bool \<Rightarrow> u32 \<Rightarrow> u16 \<Rightarrow> bytes \<Rightarrow> (nat \<Rightarrow> u32) \<Rightarrow> vol option" where
  "open_at img offset wrapped bs emb m clock =
     (let h = parse_header m in
      if vh_signature h \<noteq> 0x482B \<and> vh_signature h \<noteq> 0x4858 then None
      else if vh_blockSize h < 512 \<or> vh_blockSize h AND (vh_blockSize h - 1) \<noteq> 0 then None
      else open_trees (start_volume img offset wrapped bs emb h clock))"

definition open_volume :: "image \<Rightarrow> nat \<Rightarrow> (nat \<Rightarrow> u32) \<Rightarrow> vol option" where
  "open_volume img start clock =
     (case image_read (start + 1024) 512 img of
        (None, _) \<Rightarrow> None
      | (Some m, img1) \<Rightarrow>
          if be16_at m 0 = 0x4244 then
            if be16_at m 124 \<noteq> 0x482B then None
            else
              let offset = start + unat (be16_at m 28) * 512 + unat (be16_at m 126) * unat (be32_at m 20) in
              case image_read (offset + 1024) 512 img1 of
                (None, _) \<Rightarrow> None
              | (Some m2, img2) \<Rightarrow> open_at img2 offset True (be32_at m 20) (be16_at m 128) m2 clock
          else open_at img1 start False 0 0 m clock)"

section \<open>The catalog\<close>

definition catalog_cmp :: "vol \<Rightarrow> u32 \<Rightarrow> u16 list \<Rightarrow> bytes \<Rightarrow> int" where
  "catalog_cmp v parent name k = compare3 parent (be32_at k 2) (compareNames v name (key_name k))"

definition find_record :: "u32 \<Rightarrow> u16 list \<Rightarrow> vol \<Rightarrow> (bytes \<times> bytes \<times> nat) option \<times> vol" where
  "find_record parent name v =
     (case seek cat_ro (catalog_cmp v parent name) v of
        (None, v1) \<Rightarrow> (None, v1)
      | (Some pos, v1) \<Rightarrow>
          (case at_pos cat_ro pos v1 of
             (None, v2) \<Rightarrow> (None, v2)
           | (Some (_, key, dat, room), v2) \<Rightarrow>
               (if catalog_cmp v2 parent name key = 0 then Some (key, dat, room) else None, v2)))"

definition lookup :: "u32 \<Rightarrow> u16 list \<Rightarrow> vol \<Rightarrow> catalog_entry option \<times> vol" where
  "lookup parentID name v =
     (case find_record parentID name v of
        (None, v1) \<Rightarrow> (None, v1)
      | (Some (key, dat, room), v1) \<Rightarrow> (parseRecord key dat room, v1))"

definition byID :: "u32 \<Rightarrow> vol \<Rightarrow> catalog_entry option \<times> vol" where
  "byID cnid v =
     (case find_record cnid [] v of
        (None, v1) \<Rightarrow> (None, v1)
      | (Some (key, dat, room), v1) \<Rightarrow>
          if room < 10 then (None, v1)
          else if be16_at dat 0 \<noteq> kFolderThreadRecord \<and> be16_at dat 0 \<noteq> kFileThreadRecord then (None, v1)
          else lookup (be32_at dat 4) (readUniStr (drop 8 dat) (room - 8)) v1)"

definition volumeName :: "vol \<Rightarrow> u16 list \<times> vol" where
  "volumeName v = (case byID kRootFolderID v of (r, v1) \<Rightarrow> (case r of None \<Rightarrow> [] | Some e \<Rightarrow> ce_name e, v1))"

text \<open>
  The walk along a folder's records. A damaged leaf chain can be a ring, so the walk has fuel;
  the accumulator stands for what the callback keeps, its flag for going on.
\<close>

fun child_walk :: "nat \<Rightarrow> u32 \<Rightarrow> (catalog_entry \<Rightarrow> u32 \<times> nat \<Rightarrow> 'a \<Rightarrow> 'a \<times> bool) \<Rightarrow> u32 \<times> nat \<Rightarrow> 'a \<Rightarrow> vol \<Rightarrow> 'a option \<times> vol" where
  "child_walk 0 parentID f pos acc v = (None, v)"
| "child_walk (Suc fuel) parentID f pos acc v =
     (case at_pos cat_ro pos v of
        (None, v1) \<Rightarrow> (Some acc, v1)
      | (Some ((n, i), key, dat, room), v1) \<Rightarrow>
          if be32_at key 2 \<noteq> parentID then (Some acc, v1)
          else
            (case parseRecord key dat room of
               None \<Rightarrow> child_walk fuel parentID f (n, i + 1) acc v1
             | Some e \<Rightarrow>
                 (case f e (n, i) acc of (acc', go) \<Rightarrow>
                    if go then child_walk fuel parentID f (n, i + 1) acc' v1 else (Some acc', v1))))"

definition forEachChild :: "nat \<Rightarrow> u32 \<Rightarrow> (catalog_entry \<Rightarrow> 'a \<Rightarrow> 'a \<times> bool) \<Rightarrow> 'a \<Rightarrow> vol \<Rightarrow> 'a option \<times> vol" where
  "forEachChild fuel parentID f acc v =
     (case seek cat_ro (catalog_cmp v parentID []) v of
        (None, v1) \<Rightarrow> (Some acc, v1)
      | (Some pos, v1) \<Rightarrow> child_walk fuel parentID (\<lambda>e _. f e) pos acc v1)"

definition children :: "nat \<Rightarrow> u32 \<Rightarrow> vol \<Rightarrow> catalog_entry list option \<times> vol" where
  "children fuel parentID = forEachChild fuel parentID (\<lambda>e out. (out @ [e], True)) []"

text \<open>Every file and folder record of the leaf nodes, by node number.\<close>

fun leaf_walk :: "u32 list \<Rightarrow> vol \<Rightarrow> catalog_entry list \<times> vol" where
  "leaf_walk [] v = ([], v)"
| "leaf_walk (n # ns) v =
     (case node cat_ro n v of
        (None, v1) \<Rightarrow> leaf_walk ns v1
      | (Some nd, v1) \<Rightarrow>
          (case leaf_walk ns v1 of (rest, v2) \<Rightarrow>
             (if kind nd \<noteq> kLeafNode then rest
              else List.map_filter (\<lambda>i. case record_at (v_catalog v1) nd i of
                     None \<Rightarrow> None
                   | Some (k, d, room) \<Rightarrow> parseRecord (drop k nd) (drop d nd) room) [0..<count nd] @ rest, v2)))"

definition forEachLeafRecord :: "vol \<Rightarrow> catalog_entry list \<times> vol" where
  "forEachLeafRecord v = leaf_walk (map of_nat [1..<unat (bt_totalNodes (v_catalog v))]) v"

text \<open>The item with an index (from 1), found from the last one found where that is before it.\<close>

definition childAt :: "nat \<Rightarrow> u32 \<Rightarrow> u32 \<Rightarrow> vol \<Rightarrow> catalog_entry option option \<times> vol" where
  "childAt fuel parentID index v =
     (if index = 0 then (Some None, v)
      else
        let c = v_cursor v;
            near = (cu_parentID c = parentID \<and> cu_index c \<noteq> 0 \<and> cu_index c \<le> index);
            prev = (if near then cu_index c - 1 else 0);
            start = (if near then (Some (cu_node c, cu_record c), v) else seek cat_ro (catalog_cmp v parentID []) v);
            f = (\<lambda>e pos (at, found). if at + 1 = index then ((at + 1, Some (e, pos)), False) else ((at + 1, found), True))
        in case start of
          (None, v1) \<Rightarrow> (Some None, v1)
        | (Some pos, v1) \<Rightarrow>
            (case child_walk fuel parentID f pos (prev, None) v1 of
               (None, v2) \<Rightarrow> (None, v2)
             | (Some (_, None), v2) \<Rightarrow> (Some None, v2)
             | (Some (_, Some (e, (n, i))), v2) \<Rightarrow>
                 (Some (Some e), v2\<lparr>v_cursor := \<lparr>cu_parentID = parentID, cu_index = index, cu_node = n, cu_record = i\<rparr>\<rparr>)))"

section \<open>Hard links\<close>

definition kMetadataFolderName :: "u16 list" where
  "kMetadataFolderName = [0, 0, 0, 0, 0x48, 0x46, 0x53, 0x2B, 0x20, 0x50, 0x72, 0x69, 0x76, 0x61, 0x74, 0x65, 0x20, 0x44, 0x61, 0x74, 0x61]"

definition isLink :: "catalog_entry \<Rightarrow> bool" where
  "isLink e \<longleftrightarrow> \<not> ce_folder e \<and> take 8 (ce_userInfo e) = [0x68, 0x6C, 0x6E, 0x6B, 0x68, 0x66, 0x73, 0x2B]"

fun decimal :: "nat \<Rightarrow> u16 list" where
  "decimal n = (if n < 10 then [of_nat (0x30 + n)] else decimal (n div 10) @ [of_nat (0x30 + n mod 10)])"

declare decimal.simps [simp del]

definition inodeName :: "u32 \<Rightarrow> u16 list" where
  "inodeName ref = [0x69, 0x4E, 0x6F, 0x64, 0x65] @ decimal (unat ref)"

definition metadataFolder :: "vol \<Rightarrow> u32 option \<times> vol" where
  "metadataFolder v =
     (case v_privateFolder v of
        Some p \<Rightarrow> (if p \<noteq> 0 then Some p else None, v)
      | None \<Rightarrow>
          (case lookup kRootFolderID kMetadataFolderName v of (f, v1) \<Rightarrow>
             let p = (case f of Some e \<Rightarrow> if ce_folder e then ce_cnid e else 0 | None \<Rightarrow> 0)
             in (if p \<noteq> 0 then Some p else None, v1\<lparr>v_privateFolder := Some p\<rparr>)))"

definition resolveLink :: "catalog_entry \<Rightarrow> vol \<Rightarrow> catalog_entry \<times> vol" where
  "resolveLink e v =
     (if \<not> isLink e then (e, v)
      else case metadataFolder v of
        (None, v1) \<Rightarrow> (e, v1)
      | (Some p, v1) \<Rightarrow>
          (case lookup p (inodeName (ce_special e)) v1 of
             (None, v2) \<Rightarrow> (e, v2)
           | (Some t, v2) \<Rightarrow>
               (if ce_folder t then e else t\<lparr>ce_parentID := ce_parentID e, ce_name := ce_name e\<rparr>, v2)))"

end
