(* ===== verification/HFSP_Writer.thy ===== *)
theory HFSP_Writer
  imports HFSP_Volume
begin

text \<open>
  Changing an HFS+ volume: \<^verbatim>\<open>executor/core/romlib/hfs/plus/writer.cpp\<close>, all of it. The extents
  file and the B-trees call each other: growing a tree stores its extents, which inserts records
  into the extents tree, which may have to grow. The tree environment \<open>ext_env k\<close> allows \<open>k\<close>
  nested growths; the extents file has no overflow records of its own, so one is enough.
\<close>

section \<open>The volume header\<close>

definition kMacOS810 :: u32 where
  "kMacOS810 = 0x382E3130"

definition now :: "vol \<Rightarrow> u32 \<times> vol" where
  "now v = (v_times v (v_tick v), v\<lparr>v_tick := Suc (v_tick v)\<rparr>)"

definition put_words :: "nat \<Rightarrow> u32 list \<Rightarrow> bytes \<Rightarrow> bytes" where
  "put_words off ws m = overwrite m off (concat (map bytes32 ws))"

definition header_bytes :: "volume_header \<Rightarrow> bytes" where
  "header_bytes h =
     store_fork 272 (vh_catalogFile h) (store_fork 192 (vh_extentsFile h) (store_fork 112 (vh_allocationFile h)
       (put_words 80 (vh_finderInfo h) (put64_at 72 (vh_encodingsBitmap h) (put32_at 68 (vh_writeCount h)
         (put32_at 64 (vh_nextCatalogID h) (put32_at 52 (vh_nextAllocation h) (put32_at 48 (vh_freeBlocks h)
           (put32_at 36 (vh_folderCount h) (put32_at 32 (vh_fileCount h) (put32_at 20 (vh_modifyDate h)
             (put32_at 8 (vh_lastMountedVersion h) (put32_at 4 (vh_attributes h) (vh_raw h))))))))))))))"

definition upd_header :: "(volume_header \<Rightarrow> volume_header) \<Rightarrow> vol \<Rightarrow> vol" where
  "upd_header f v = v\<lparr>v_header := f (v_header v)\<rparr>"

definition write_header :: "bool \<Rightarrow> (vol, unit) op" where
  "write_header alternate v =
     (let h = v_header v; m = header_bytes h; v1 = upd_header (\<lambda>h. h\<lparr>vh_raw := m\<rparr>) v in
      case writeAt 1024 m v1 of
        (False, v2) \<Rightarrow> (Inl E_io, v2)
      | (True, v2) \<Rightarrow>
          if alternate then
            must E_io (writeAt (unat (vh_totalBlocks h) * unat (vh_blockSize h) - 1024) m) v2
          else (Inr (), v2))"

definition begin_change :: "(vol, unit) op" where
  "begin_change v =
     (if \<not> v_writable v then (Inl E_readOnly, v)
      else
        let v1 = v\<lparr>v_cursor := \<lparr>cu_parentID = 0, cu_index = 0, cu_node = 0, cu_record = 0\<rparr>\<rparr> in
        if v_dirty v1 then (Inr (), v1)
        else
          write_header False
            (upd_header (\<lambda>h. h\<lparr>vh_attributes := vh_attributes h AND NOT kUnmounted, vh_lastMountedVersion := kMacOS810,
                vh_writeCount := vh_writeCount h + 1\<rparr>) (v1\<lparr>v_dirty := True\<rparr>)))"

definition end_change :: "error + 'a \<Rightarrow> (vol, 'a) op" where
  "end_change r v =
     (case now v of (t, v1) \<Rightarrow>
        case write_header True
               (upd_header (\<lambda>h. h\<lparr>vh_modifyDate := t, vh_attributes := vh_attributes h OR kUnmounted\<rparr>) (v1\<lparr>v_dirty := False\<rparr>)) of
          (w, v2) \<Rightarrow> (case r of Inl e \<Rightarrow> Inl e | Inr a \<Rightarrow> (case w of Inl e \<Rightarrow> Inl e | Inr _ \<Rightarrow> Inr a), v2))"

text \<open>Every change is bracketed so; an error inside it passes through the end.\<close>

definition change :: "(vol, 'a) op \<Rightarrow> (vol, 'a) op" where
  "change body = ok_bind begin_change (\<lambda>_. st_bind body end_change)"

definition flush :: "(vol, unit) op" where
  "flush v = (if \<not> v_writable v then (Inr (), v) else write_header True v)"

section \<open>Allocation blocks\<close>

fun merge_onto :: "extent list \<Rightarrow> extent list \<Rightarrow> extent list" where
  "merge_onto out [] = out"
| "merge_onto out (e # es) =
     (if snd e = 0 then merge_onto out es
      else if out \<noteq> [] \<and> fst (last out) + snd (last out) = fst e
      then merge_onto (butlast out @ [(fst (last out), snd (last out) + snd e)]) es
      else merge_onto (out @ [e]) es)"

definition merge_extents :: "extent list \<Rightarrow> extent list" where
  "merge_extents v = merge_onto [] v"

definition blocksIn :: "extent list \<Rightarrow> u32" where
  "blocksIn v = sum_list (map snd v)"

definition loadBitmap :: "(vol, unit) op" where
  "loadBitmap v =
     (if v_bitmap v \<noteq> [] then (Inr (), v)
      else
        let n = unat ((vh_totalBlocks (v_header v) + 7) div 8) in
        case fork_read (v_allocationFork v) 0 n v of (bs, v1) \<Rightarrow>
          if length bs \<noteq> n then (Inl E_io, v1\<lparr>v_bitmap := []\<rparr>) else (Inr (), v1\<lparr>v_bitmap := bs\<rparr>))"

definition bit_mask :: "nat \<Rightarrow> u8" where
  "bit_mask b = drop_bit (b mod 8) 0x80"

definition block_used :: "bytes \<Rightarrow> nat \<Rightarrow> bool" where
  "block_used bm b \<longleftrightarrow> bm ! (b div 8) AND bit_mask b \<noteq> 0"

definition mark_block :: "bool \<Rightarrow> nat \<Rightarrow> bytes \<Rightarrow> bytes" where
  "mark_block used b bm =
     bm[b div 8 := if used then bm ! (b div 8) OR bit_mask b else bm ! (b div 8) AND NOT (bit_mask b)]"

definition markBlocks :: "u32 \<Rightarrow> u32 \<Rightarrow> bool \<Rightarrow> (vol, unit) op" where
  "markBlocks start n used v =
     (let bm = fold (mark_block used) [unat start..<unat (start + n)] (v_bitmap v);
          first = unat start div 8; lst = unat (start + n - 1) div 8;
          v1 = v\<lparr>v_bitmap := bm\<rparr>
      in must E_io (fork_write (v_allocationFork v1) first (slice first (lst - first + 1) bm)) v1)"

text \<open>
  The scan for a free run: \<open>b\<close> runs from \<open>from\<close> to \<open>to\<close>, the free blocks from it on are
  counted up to \<open>want\<close>.
\<close>

fun free_run :: "bytes \<Rightarrow> nat \<Rightarrow> nat \<Rightarrow> nat \<Rightarrow> nat" where
  "free_run bm total' b 0 = 0"
| "free_run bm total' b (Suc want) =
     (if b < total' \<and> \<not> block_used bm b then Suc (free_run bm total' (Suc b) want) else 0)"

function find_run :: "bytes \<Rightarrow> nat \<Rightarrow> nat \<Rightarrow> nat \<Rightarrow> nat \<Rightarrow> nat option" where
  "find_run bm total' want b to =
     (if to \<le> b then None
      else if block_used bm b then find_run bm total' want (b + 1) to
      else
        let run = free_run bm total' b want in
        if run = want then Some b else if run = 0 then None else find_run bm total' want (b + run) to)"
  by pat_completeness auto
termination by (relation "measure (\<lambda>(bm, total', want, b, to). to - b)") auto

declare find_run.simps [simp del]

text \<open>Pieces: the free blocks from the hint on, round to the start, until there are enough.\<close>

fun pieces :: "bytes \<Rightarrow> nat list \<Rightarrow> nat \<Rightarrow> extent list \<Rightarrow> extent list option" where
  "pieces bm bs 0 got = Some got"
| "pieces bm [] (Suc need) got = None"
| "pieces bm (b # bs) (Suc need) got =
     (if block_used bm b then pieces bm bs (Suc need) got
      else if got \<noteq> [] \<and> fst (last got) + snd (last got) = of_nat b
      then pieces bm bs need (butlast got @ [(fst (last got), snd (last got) + 1)])
      else pieces bm bs need (got @ [(of_nat b, 1)]))"

definition choose_blocks :: "bytes \<Rightarrow> u32 \<Rightarrow> u32 \<Rightarrow> u32 \<Rightarrow> extent list option" where
  "choose_blocks bm total' want hint =
     (case find_run bm (unat total') (unat want) (unat hint) (unat total') of
        Some b \<Rightarrow> Some [(of_nat b, want)]
      | None \<Rightarrow>
          (case find_run bm (unat total') (unat want) 0 (unat hint) of
             Some b \<Rightarrow> Some [(of_nat b, want)]
           | None \<Rightarrow> pieces bm (map (\<lambda>i. unat ((hint + of_nat i) mod total')) [0..<unat total']) (unat want) []))"

definition allocate :: "u32 \<Rightarrow> u32 \<Rightarrow> (vol, extent list) op" where
  "allocate want hint =
     (if want = 0 then ret []
      else ok_bind loadBitmap (\<lambda>_.
        st_bind (look id) (\<lambda>v.
          let h = v_header v; total' = vh_totalBlocks h in
          if vh_freeBlocks h < want then fail E_diskFull
          else
            case choose_blocks (v_bitmap v) total' want (if total' \<le> hint then 0 else hint) of
              None \<Rightarrow> fail E_diskFull
            | Some got \<Rightarrow>
                ok_bind (ok_list (\<lambda>x. markBlocks (fst x) (snd x) True) got) (\<lambda>_.
                  ok_bind (modify (upd_header (\<lambda>h. h\<lparr>vh_freeBlocks := vh_freeBlocks h - want,
                      vh_nextAllocation := fst (last got) + snd (last got)\<rparr>))) (\<lambda>_.
                    ret got)))))"

definition release :: "extent \<Rightarrow> (vol, unit) op" where
  "release x =
     (if snd x = 0 then ret ()
      else ok_bind loadBitmap (\<lambda>_.
        ok_bind (markBlocks (fst x) (snd x) False) (\<lambda>_.
          modify (upd_header (\<lambda>h. h\<lparr>vh_freeBlocks := vh_freeBlocks h + snd x\<rparr>)))))"

definition zero_extent :: "extent \<Rightarrow> (vol, unit) op" where
  "zero_extent x v =
     must E_io (on_image (image_zero (v_offset v + unat (fst x) * block_size v) (unat (snd x) * block_size v))) v"

section \<open>Extents\<close>

fun drop_overflow :: "vol tree_env \<Rightarrow> u32 \<Rightarrow> u8 \<Rightarrow> nat \<Rightarrow> (vol, unit) op" where
  "drop_overflow X fileID forkType 0 v = (Inr (), v)"
| "drop_overflow X fileID forkType (Suc guard) v =
     (let cmp = (\<lambda>k. compare3 fileID (be32_at k 4) (compare3 forkType (k ! 2) (if be32_at k 8 = 0 then 0 else - 1))) in
      case seek X cmp v of
        (None, v1) \<Rightarrow> (Inr (), v1)
      | (Some pos, v1) \<Rightarrow>
          (case at_pos X pos v1 of
             (None, v2) \<Rightarrow> (Inr (), v2)
           | (Some (_, key, _, _), v2) \<Rightarrow>
               if be32_at key 4 \<noteq> fileID \<or> key ! 2 \<noteq> forkType then (Inr (), v2)
               else
                 (case bt_remove X (take 12 key) v2 of
                    (Inl e, v3) \<Rightarrow> (Inl e, v3)
                  | (Inr _, v3) \<Rightarrow> drop_overflow X fileID forkType guard v3)))"

text \<open>From the ninth extent on every eighth begins a record, keyed by the blocks before it.\<close>

fun insert_overflow :: "vol tree_env \<Rightarrow> u32 \<Rightarrow> u8 \<Rightarrow> nat \<Rightarrow> u32 \<Rightarrow> extent list \<Rightarrow> (vol, unit) op" where
  "insert_overflow X fileID forkType i start [] = ret ()"
| "insert_overflow X fileID forkType i start (e # es) =
     ok_bind
       (if 8 \<le> i \<and> (i - 8) mod 8 = 0
        then bt_insert X (extentKey forkType fileID start)
               (overwrite (replicate 64 0) 0 (concat (map extent_bytes (take 8 (e # es)))))
        else ret ())
       (\<lambda>_. insert_overflow X fileID forkType (i + 1) (start + snd e) es)"

text \<open>The fork data is changed also where an error follows.\<close>

definition storeExtents ::
    "vol tree_env \<Rightarrow> u32 \<Rightarrow> u8 \<Rightarrow> extent list \<Rightarrow> fork_data \<Rightarrow> vol \<Rightarrow> ((error + unit) \<times> fork_data) \<times> vol" where
  "storeExtents X fileID forkType exts fd v =
     (let all = merge_extents exts in
      if fileID = kExtentsFileID \<and> 8 < length all then ((Inl E_diskFull, fd), v)
      else
        case drop_overflow X fileID forkType 65536 v of
          (Inl e, v1) \<Rightarrow> ((Inl e, fd), v1)
        | (Inr _, v1) \<Rightarrow>
            let fd' = fd\<lparr>fd_extents := take 8 (all @ replicate 8 (0, 0)), fd_totalBlocks := blocksIn all\<rparr> in
            (case insert_overflow X fileID forkType 0 0 all v1 of (r, v2) \<Rightarrow> ((r, fd'), v2)))"

fun shrink_loop :: "u32 \<Rightarrow> u32 \<Rightarrow> extent list \<Rightarrow> (vol, extent list) op" where
  "shrink_loop blocks have' [] = ret []"
| "shrink_loop blocks have' (x # xs) =
     (if have' \<le> blocks then ret (x # xs)
      else
        let cut = min (snd x) (have' - blocks) in
        ok_bind (release (fst x + snd x - cut, cut)) (\<lambda>_.
          if snd x - cut = 0 then shrink_loop blocks (have' - cut) xs
          else ret ((fst x, snd x - cut) # xs)))"

definition resizeExtents :: "extent list \<Rightarrow> u32 \<Rightarrow> u32 \<Rightarrow> (vol, extent list) op" where
  "resizeExtents exts blocks clump =
     st_bind (look v_header) (\<lambda>h.
       let have' = blocksIn exts in
       if have' < blocks then
         let clumpBlocks = max 1 (clump div vh_blockSize h);
             add = (blocks - have' + clumpBlocks - 1) div clumpBlocks * clumpBlocks;
             add' = (if vh_freeBlocks h < add then blocks - have' else add);
             hint = (if exts = [] then vh_nextAllocation h else fst (last exts) + snd (last exts))
         in ok_bind (allocate add' hint) (\<lambda>got.
              ok_bind (ok_list zero_extent got) (\<lambda>_. ret (merge_extents (exts @ got))))
       else
         ok_bind (shrink_loop blocks have' (rev exts)) (\<lambda>left. ret (rev left)))"

section \<open>Growing a B-tree\<close>

text \<open>
  \<open>X\<close> is the environment of the extents tree, \<open>T\<close> that of the tree that grows; the four
  functions name its fork and its fork data in the volume.
\<close>

definition grow_tree ::
    "vol tree_env \<Rightarrow> vol tree_env \<Rightarrow> u32 \<Rightarrow> (vol \<Rightarrow> fork) \<Rightarrow> ((fork \<Rightarrow> fork) \<Rightarrow> vol \<Rightarrow> vol) \<Rightarrow>
     (volume_header \<Rightarrow> fork_data) \<Rightarrow> ((fork_data \<Rightarrow> fork_data) \<Rightarrow> volume_header \<Rightarrow> volume_header) \<Rightarrow> u32 \<Rightarrow> (vol, unit) op" where
  "grow_tree X T fileID frk upd_frk fdata upd_fdata nodes v0 =
     (let f = frk v0; bs = block_size v0;
          need = allocatedBytes v0 f + unat nodes * node_size T v0;
          blocks = of_nat ((need + bs - 1) div bs)
      in case resizeExtents (fk_extents f) blocks (fd_clumpSize (fdata (v_header v0))) v0 of
        (Inl e, v1) \<Rightarrow> (Inl e, v1)
      | (Inr exts, v1) \<Rightarrow>
          (case storeExtents X fileID 0 exts (fdata (v_header v1)) v1 of
             ((r, fd'), v2) \<Rightarrow>
               let v3 = upd_header (upd_fdata (\<lambda>_. fd')) v2 in
               (case r of
                  Inl e \<Rightarrow> (Inl e, v3)
                | Inr _ \<Rightarrow>
                    let newSize = unat (blocksIn exts) * bs;
                        new_nodes = of_nat ((newSize - fk_size (frk v3)) div node_size T v3);
                        v4 = upd_frk (\<lambda>f. f\<lparr>fk_extents := merge_extents exts, fk_size := newSize\<rparr>) v3;
                        v5 = upd_header (upd_fdata (\<lambda>fd. fd\<lparr>fd_logicalSize := of_nat newSize\<rparr>)) v4
                    in ok_bind (write_header False) (\<lambda>_. added T new_nodes) v5)))"

primrec ext_env :: "nat \<Rightarrow> vol tree_env" where
  "ext_env 0 = ext_ro"
| "ext_env (Suc k) =
     extents_tree (grow_tree (ext_env k) (ext_env k) kExtentsFileID v_extentsFork v_extentsFork_update
       vh_extentsFile vh_extentsFile_update)"

abbreviation exts_tree :: "vol tree_env" where "exts_tree \<equiv> ext_env 4"

definition cat_tree :: "vol tree_env" where
  "cat_tree =
     catalog_tree (grow_tree exts_tree cat_ro kCatalogFileID v_catalogFork v_catalogFork_update
       vh_catalogFile vh_catalogFile_update)"

section \<open>Catalog records\<close>

definition threadRecord :: "bool \<Rightarrow> u32 \<Rightarrow> u16 list \<Rightarrow> bytes" where
  "threadRecord folder parentID name =
     bytes16 (if folder then kFolderThreadRecord else kFileThreadRecord) @ [0, 0] @ bytes32 parentID
       @ bytes16 (of_nat (length name)) @ concat (map bytes16 name)"

definition resize :: "nat \<Rightarrow> bytes \<Rightarrow> bytes" where
  "resize n d = take n (d @ replicate (n - length d) 0)"

definition encode :: "catalog_entry \<Rightarrow> bytes" where
  "encode e =
     (let d0 = resize (if ce_folder e then 88 else 248) (ce_raw e);
          d1 = put16_at 2 (ce_flags e) (put16_at 0 (if ce_folder e then kFolderRecord else kFileRecord) d0);
          d2 = put32_at 8 (ce_cnid e) (if ce_folder e then put32_at 4 (ce_valence e) d1 else d1);
          d3 = put_words 12 [ce_createDate e, ce_contentModDate e, ce_attributeModDate e, ce_accessDate e, ce_backupDate e] d2;
          d4 = put32_at 80 (ce_textEncoding e) (put32_at 44 (ce_special e)
                 (overwrite (overwrite d3 48 (ce_userInfo e)) 64 (ce_finderInfo e)))
      in if ce_folder e then d4 else store_fork 168 (ce_resourceFork e) (store_fork 88 (ce_dataFork e) d4))"

definition putEntry :: "catalog_entry \<Rightarrow> (vol, unit) op" where
  "putEntry e = bt_replace cat_tree (catalogKey (ce_parentID e) (ce_name e)) (encode e)"

definition adjustFolder :: "u32 \<Rightarrow> int \<Rightarrow> (vol, unit) op" where
  "adjustFolder folderID delta =
     some_or (fail E_notFound) (byID folderID) (\<lambda>f.
       if \<not> ce_folder f then fail E_notFound
       else st_bind now (\<lambda>t.
         putEntry (f\<lparr>ce_valence := of_int (int (unat (ce_valence f)) + delta), ce_contentModDate := t\<rparr>)))"

section \<open>The changes\<close>

definition empty_fork_data :: fork_data where
  "empty_fork_data = \<lparr>fd_logicalSize = 0, fd_clumpSize = 0, fd_totalBlocks = 0, fd_extents = replicate 8 (0, 0)\<rparr>"

definition new_entry :: "bool \<Rightarrow> u32 \<Rightarrow> u32 \<Rightarrow> u16 list \<Rightarrow> u32 \<Rightarrow> bytes option \<Rightarrow> catalog_entry" where
  "new_entry folder parentID cnid name t userInfo =
     \<lparr>ce_folder = folder, ce_parentID = parentID, ce_cnid = cnid, ce_name = name,
      ce_flags = (if folder then 0 else kThreadExists), ce_valence = 0, ce_createDate = t, ce_contentModDate = t,
      ce_attributeModDate = 0, ce_accessDate = 0, ce_backupDate = 0,
      ce_userInfo = (case userInfo of Some u \<Rightarrow> u | None \<Rightarrow> replicate 16 0), ce_finderInfo = replicate 16 0,
      ce_textEncoding = 0, ce_special = 0, ce_dataFork = empty_fork_data, ce_resourceFork = empty_fork_data, ce_raw = []\<rparr>"

text \<open>\<open>Some\<close> entry: the optional is there; a folder where one is needed.\<close>

definition is_folder :: "catalog_entry option \<Rightarrow> bool" where
  "is_folder e = (case e of Some x \<Rightarrow> ce_folder x | None \<Rightarrow> False)"

definition bad_name :: "u16 list \<Rightarrow> bool" where
  "bad_name name \<longleftrightarrow> name = [] \<or> 255 < length name"

definition next_cnid :: "vol \<Rightarrow> u32 \<times> vol" where
  "next_cnid v = (vh_nextCatalogID (v_header v), upd_header (\<lambda>h. h\<lparr>vh_nextCatalogID := vh_nextCatalogID h + 1\<rparr>) v)"

definition count_item :: "bool \<Rightarrow> u32 \<Rightarrow> vol \<Rightarrow> vol" where
  "count_item folder d =
     upd_header (\<lambda>h. if folder then h\<lparr>vh_folderCount := vh_folderCount h + d\<rparr> else h\<lparr>vh_fileCount := vh_fileCount h + d\<rparr>)"

definition create_body :: "u32 \<Rightarrow> u16 list \<Rightarrow> bool \<Rightarrow> bytes option \<Rightarrow> bool \<Rightarrow> (vol, catalog_entry option) op" where
  "create_body parentID name folder userInfo want_made =
     st_bind (byID parentID) (\<lambda>parent.
       if \<not> is_folder parent then fail E_notFound
       else if bad_name name then fail E_notFound
       else st_bind (lookup parentID name) (\<lambda>there.
         if there \<noteq> None then fail E_exists
         else st_bind next_cnid (\<lambda>cnid.
           st_bind now (\<lambda>t.
             let c = new_entry folder parentID cnid name t userInfo in
             ok_bind (bt_insert cat_tree (catalogKey parentID name) (encode c)) (\<lambda>_.
               ok_bind (bt_insert cat_tree (catalogKey cnid []) (threadRecord folder parentID name)) (\<lambda>_.
                 ok_bind (adjustFolder parentID 1) (\<lambda>_.
                   ok_bind (modify (count_item folder 1)) (\<lambda>_.
                     ok_bind (modify (upd_header (\<lambda>h. h\<lparr>vh_encodingsBitmap := vh_encodingsBitmap h OR 1\<rparr>))) (\<lambda>_.
                       if want_made then some_or (fail E_undefined) (byID cnid) (\<lambda>e. ret (Some e))
                       else ret None)))))))))"

definition vol_create :: "u32 \<Rightarrow> u16 list \<Rightarrow> bool \<Rightarrow> bytes option \<Rightarrow> bool \<Rightarrow> (vol, catalog_entry option) op" where
  "vol_create parentID name folder userInfo want_made = change (create_body parentID name folder userInfo want_made)"

definition free_fork :: "u32 \<Rightarrow> catalog_entry \<Rightarrow> bool \<Rightarrow> (vol, unit) op" where
  "free_fork cnid c rsrc =
     st_bind (openFork c rsrc) (\<lambda>f.
       ok_bind (ok_list release (fk_extents f)) (\<lambda>_.
         st_bind (storeExtents exts_tree cnid (if rsrc then 0xFF else 0) []
                    (if rsrc then ce_resourceFork c else ce_dataFork c)) (\<lambda>(r, fd).
           case r of Inl e \<Rightarrow> fail e | Inr _ \<Rightarrow> ret ())))"

definition vol_remove :: "u32 \<Rightarrow> (vol, unit) op" where
  "vol_remove cnid =
     change (some_or (fail E_notFound) (byID cnid) (\<lambda>c.
       if cnid < kFirstUserCatalogNodeID then fail E_notFound
       else if ce_folder c \<and> ce_valence c \<noteq> 0 then fail E_notEmpty
       else
         ok_bind (if ce_folder c then ret () else ok_list (free_fork cnid c) [False, True]) (\<lambda>_.
           ok_bind (bt_remove cat_tree (catalogKey (ce_parentID c) (ce_name c))) (\<lambda>_.
             ok_bind (bt_remove cat_tree (catalogKey cnid [])) (\<lambda>_.
               ok_bind (adjustFolder (ce_parentID c) (- 1)) (\<lambda>_.
                 modify (count_item (ce_folder c) (- 1))))))))"

definition vol_rename :: "u32 \<Rightarrow> u16 list \<Rightarrow> (vol, unit) op" where
  "vol_rename cnid name =
     change (some_or (fail E_notFound) (byID cnid) (\<lambda>c.
       if bad_name name then fail E_notFound
       else st_bind (lookup (ce_parentID c) name) (\<lambda>other.
         if (case other of Some o' \<Rightarrow> ce_cnid o' \<noteq> cnid | None \<Rightarrow> False) then fail E_exists
         else
           ok_bind (bt_remove cat_tree (catalogKey (ce_parentID c) (ce_name c))) (\<lambda>_.
             ok_bind (bt_insert cat_tree (catalogKey (ce_parentID c) name) (encode (c\<lparr>ce_name := name\<rparr>))) (\<lambda>_.
               ok_bind (bt_replace cat_tree (catalogKey cnid []) (threadRecord (ce_folder c) (ce_parentID c) name)) (\<lambda>_.
                 if cnid \<noteq> kRootFolderID then adjustFolder (ce_parentID c) 0 else ret ()))))))"

definition exchange_fork :: "u32 \<Rightarrow> u32 \<Rightarrow> bool \<Rightarrow> catalog_entry \<times> catalog_entry \<Rightarrow> (vol, catalog_entry \<times> catalog_entry) op" where
  "exchange_fork idA idB rsrc = (\<lambda>(a, b).
     st_bind (openFork a rsrc) (\<lambda>fa.
       st_bind (openFork b rsrc) (\<lambda>fb.
         let type = (if rsrc then 0xFF else 0); fork_of = (if rsrc then ce_resourceFork else ce_dataFork);
             with_fork = (\<lambda>e fd. if rsrc then e\<lparr>ce_resourceFork := fd\<rparr> else e\<lparr>ce_dataFork := fd\<rparr>)
         in st_bind (storeExtents exts_tree idA type (fk_extents fb) (fork_of b)) (\<lambda>(r, fda).
              case r of
                Inl e \<Rightarrow> fail e
              | Inr _ \<Rightarrow>
                  st_bind (storeExtents exts_tree idB type (fk_extents fa) (fork_of a)) (\<lambda>(r, fdb).
                    case r of Inl e \<Rightarrow> fail e | Inr _ \<Rightarrow> ret (with_fork a fda, with_fork b fdb))))))"

definition vol_exchange :: "u32 \<Rightarrow> u32 \<Rightarrow> (vol, unit) op" where
  "vol_exchange idA idB =
     change (st_bind (byID idA) (\<lambda>oa.
       st_bind (byID idB) (\<lambda>ob.
         case (oa, ob) of
           (Some a, Some b) \<Rightarrow>
             if ce_folder a \<or> ce_folder b then fail E_notFound
             else ok_bind (exchange_fork idA idB False (a, b)) (\<lambda>ab.
               ok_bind (exchange_fork idA idB True ab) (\<lambda>(a, b).
                 ok_bind (putEntry (a\<lparr>ce_contentModDate := ce_contentModDate b\<rparr>)) (\<lambda>_.
                   putEntry (b\<lparr>ce_contentModDate := ce_contentModDate a\<rparr>))))
         | _ \<Rightarrow> fail E_notFound)))"

text \<open>
  Up from a folder to the root, looking for \<open>cnid\<close>. In a damaged catalog the parents can form a
  ring, so the climb has fuel, and \<open>None\<close> when it is used up.
\<close>

fun climb :: "nat \<Rightarrow> u32 \<Rightarrow> u32 \<Rightarrow> vol \<Rightarrow> bool option \<times> vol" where
  "climb 0 cnid up v = (None, v)"
| "climb (Suc fuel) cnid up v =
     (if up < kRootFolderID then (Some False, v)
      else if up = cnid then (Some True, v)
      else case byID up v of
        (None, v1) \<Rightarrow> (Some False, v1)
      | (Some u, v1) \<Rightarrow> climb fuel cnid (ce_parentID u) v1)"

definition vol_move :: "nat \<Rightarrow> u32 \<Rightarrow> u32 \<Rightarrow> (vol, unit) op" where
  "vol_move fuel cnid newParentID =
     change (st_bind (byID cnid) (\<lambda>oc.
       st_bind (byID newParentID) (\<lambda>np.
         case oc of
           None \<Rightarrow> fail E_notFound
         | Some c \<Rightarrow>
             if \<not> is_folder np \<or> cnid = kRootFolderID then fail E_notFound
             else if ce_parentID c = newParentID then ret ()
             else some_or (fail E_undefined) (climb fuel cnid newParentID) (\<lambda>inside.
               if inside then fail E_badMove
               else st_bind (lookup newParentID (ce_name c)) (\<lambda>there.
                 if there \<noteq> None then fail E_exists
                 else
                   ok_bind (bt_remove cat_tree (catalogKey (ce_parentID c) (ce_name c))) (\<lambda>_.
                     ok_bind (bt_insert cat_tree (catalogKey newParentID (ce_name c)) (encode (c\<lparr>ce_parentID := newParentID\<rparr>))) (\<lambda>_.
                       ok_bind (bt_replace cat_tree (catalogKey cnid []) (threadRecord (ce_folder c) newParentID (ce_name c))) (\<lambda>_.
                         ok_bind (adjustFolder (ce_parentID c) (- 1)) (\<lambda>_.
                           adjustFolder newParentID 1)))))))))"

definition vol_update :: "catalog_entry \<Rightarrow> (vol, unit) op" where
  "vol_update e =
     change (some_or (fail E_notFound) (byID (ce_cnid e)) (\<lambda>c.
       putEntry (c\<lparr>ce_flags := (ce_flags c AND NOT kLocked) OR (ce_flags e AND kLocked), ce_createDate := ce_createDate e,
         ce_contentModDate := ce_contentModDate e, ce_attributeModDate := ce_attributeModDate e,
         ce_backupDate := ce_backupDate e, ce_userInfo := ce_userInfo e, ce_finderInfo := ce_finderInfo e\<rparr>)))"

definition setForkSize :: "u32 \<Rightarrow> bool \<Rightarrow> u64 \<Rightarrow> u64 \<Rightarrow> bool \<Rightarrow> (vol, unit) op" where
  "setForkSize cnid resource size' reserve clumped =
     change (some_or (fail E_notFound) (byID cnid) (\<lambda>c.
       if ce_folder c then fail E_notFound
       else
         st_bind (look v_header) (\<lambda>h.
           st_bind (openFork c resource) (\<lambda>f.
             let fd = (if resource then ce_resourceFork c else ce_dataFork c);
                 bs = ucast (vh_blockSize h); want = max size' reserve;
                 blocks = ucast ((want + bs - 1) div bs) :: u32;
                 type = (if resource then 0xFF else 0);
                 clump = (if \<not> clumped then vh_blockSize h else if fd_clumpSize fd \<noteq> 0 then fd_clumpSize fd
                          else if resource then vh_rsrcClumpSize h else vh_dataClumpSize h);
                 finish = (\<lambda>fd'.
                   let fd2 = fd'\<lparr>fd_logicalSize := size'\<rparr> in
                   putEntry (if resource then c\<lparr>ce_resourceFork := fd2\<rparr> else c\<lparr>ce_dataFork := fd2\<rparr>))
             in if blocks = blocksIn (fk_extents f) then finish fd
                else ok_bind (resizeExtents (fk_extents f) blocks clump) (\<lambda>exts.
                  st_bind (storeExtents exts_tree cnid type exts fd) (\<lambda>(r, fd').
                    case r of Inl e \<Rightarrow> fail e | Inr _ \<Rightarrow> finish fd'))))))"

definition setFinderInfo :: "u32 list \<Rightarrow> (vol, unit) op" where
  "setFinderInfo info = change (modify (upd_header (\<lambda>h. h\<lparr>vh_finderInfo := info\<rparr>)))"

definition renameVolume :: "u16 list \<Rightarrow> (vol, unit) op" where
  "renameVolume name = vol_rename kRootFolderID name"

section \<open>Hard links\<close>

text \<open>A new link reference that no file in the metadata folder has; the search has fuel.\<close>

fun pick_ref :: "nat \<Rightarrow> u32 \<Rightarrow> u32 \<Rightarrow> vol \<Rightarrow> u32 option \<times> vol" where
  "pick_ref 0 meta ref v = (None, v)"
| "pick_ref (Suc fuel) meta ref v =
     (case lookup meta (inodeName ref) v of
        (None, v1) \<Rightarrow> (Some ref, v1)
      | (Some _, v1) \<Rightarrow> pick_ref fuel meta (100 + (ref * 2654435761 + 1) mod 1073741824) v1)"

definition link_info :: bytes where
  "link_info = [0x68, 0x6C, 0x6E, 0x6B, 0x68, 0x66, 0x73, 0x2B] @ bytes16 0x0100 @ replicate 6 0"

definition metadata_info :: bytes where
  "metadata_info = replicate 8 0 @ bytes16 0x5000 @ bytes16 22460 @ bytes16 22460 @ [0, 0]"

definition make_metadata_folder :: "(vol, unit) op" where
  "make_metadata_folder =
     ok_bind (vol_create kRootFolderID kMetadataFolderName True (Some metadata_info) True) (\<lambda>made.
       some_or (fail E_undefined) (byID kRootFolderID) (\<lambda>root.
         case made of
           None \<Rightarrow> fail E_undefined
         | Some m \<Rightarrow>
             ok_bind (vol_update (m\<lparr>ce_createDate := ce_createDate root\<rparr>)) (\<lambda>_.
               modify (\<lambda>v. v\<lparr>v_privateFolder := Some (ce_cnid m)\<rparr>))))"

fun make_links :: "u32 \<Rightarrow> u32 \<Rightarrow> (u32 \<times> u16 list) list \<Rightarrow> catalog_entry \<Rightarrow> (vol, catalog_entry) op" where
  "make_links created ref [] inode = ret inode"
| "make_links created ref ((dir, n) # links) inode =
     ok_bind (vol_create dir n False (Some link_info) True) (\<lambda>made.
       case made of
         None \<Rightarrow> fail E_undefined
       | Some m \<Rightarrow>
           ok_bind (change (putEntry (m\<lparr>ce_createDate := created, ce_special := ref\<rparr>))) (\<lambda>_.
             make_links created ref links (inode\<lparr>ce_special := ce_special inode + 1\<rparr>)))"

definition link_target :: "nat \<Rightarrow> catalog_entry \<Rightarrow> u32 \<Rightarrow> (u32 \<times> u16 list) list \<Rightarrow> (vol, u32 \<times> catalog_entry \<times> (u32 \<times> u16 list) list) op" where
  "link_target fuel t meta links =
     (if isLink t then
        some_or (fail E_notFound) (lookup meta (inodeName (ce_special t))) (\<lambda>inode. ret (ce_special t, inode, links))
      else
        some_or (fail E_undefined) (pick_ref fuel meta (100 + (ce_cnid t * 2654435761) mod 1073741824)) (\<lambda>ref.
          ok_bind (vol_move fuel (ce_cnid t) meta) (\<lambda>_.
            ok_bind (vol_rename (ce_cnid t) (inodeName ref)) (\<lambda>_.
              some_or (fail E_undefined) (byID (ce_cnid t)) (\<lambda>inode.
                ret (ref, inode\<lparr>ce_special := 0\<rparr>, (ce_parentID t, ce_name t) # links))))))"

definition makeLink :: "nat \<Rightarrow> u32 \<Rightarrow> u32 \<Rightarrow> u16 list \<Rightarrow> (vol, unit) op" where
  "makeLink fuel targetID parentID name =
     st_bind (byID targetID) (\<lambda>ot.
       case ot of
         None \<Rightarrow> fail E_notFound
       | Some t \<Rightarrow>
           if ce_folder t then fail E_notFound
           else st_bind (lookup parentID name) (\<lambda>there.
             if there \<noteq> None then fail E_exists
             else st_bind metadataFolder (\<lambda>mf.
               ok_bind (if mf = None then make_metadata_folder else ret ()) (\<lambda>_.
                 st_bind (look v_privateFolder) (\<lambda>p.
                   let meta = the p in
                   ok_bind (link_target fuel t meta [(parentID, name)]) (\<lambda>(ref, inode, links).
                     some_or (fail E_undefined) (byID meta) (\<lambda>folder.
                       ok_bind (make_links (ce_createDate folder) ref links inode) (\<lambda>inode'.
                         change (putEntry inode')))))))))"

end
