(* ===== verification/HFSP_Node.thy ===== *)
theory HFSP_Node
  imports HFSP_BTree
begin

text \<open>
  What the bytes of a B-tree node say: reading back a node that \<open>writeNode\<close> built, changing its
  links, and the index records.
\<close>

section \<open>Numbers in buffers\<close>

lemma length_bytes [simp]: "length (bytes16 v) = 2" "length (bytes32 w) = 4" "length (bytes64 x) = 8"
  by (simp_all add: bytes16_def bytes32_def bytes64_def)

lemma length_put [simp]:
  "off + 2 \<le> length p \<Longrightarrow> length (put16_at off v p) = length p"
  "off + 4 \<le> length p \<Longrightarrow> length (put32_at off w p) = length p"
  by (simp_all add: put16_at_def put32_at_def)

lemma overwrite_other:
  assumes "off + length ys \<le> length xs" and "i < length xs" and "i < off \<or> off + length ys \<le> i"
  shows "overwrite xs off ys ! i = xs ! i"
  using assms by (auto simp: nth_overwrite)

lemma get16_overwrite_other:
  "off + length ys \<le> length xs \<Longrightarrow> a + 2 \<le> length xs \<Longrightarrow> a + 2 \<le> off \<or> off + length ys \<le> a \<Longrightarrow>
     be16_at (overwrite xs off ys) a = be16_at xs a"
  by (auto simp: be16_at_def overwrite_other)

lemma get32_overwrite_other:
  "off + length ys \<le> length xs \<Longrightarrow> a + 4 \<le> length xs \<Longrightarrow> a + 4 \<le> off \<or> off + length ys \<le> a \<Longrightarrow>
     be32_at (overwrite xs off ys) a = be32_at xs a"
  by (auto simp: be32_at_def overwrite_other)

lemma get_put16 [simp]: "off + 2 \<le> length p \<Longrightarrow> be16_at (put16_at off v p) off = v"
  by (simp add: be16_at_def put16_at_def bytes16_def nth_overwrite)

lemma get_put32 [simp]: "off + 4 \<le> length p \<Longrightarrow> be32_at (put32_at off v p) off = v"
  by (simp add: be32_at_def put32_at_def bytes32_def nth_overwrite)

lemma slice_overwrite_other:
  assumes "off + length ys \<le> length xs" and "a + n \<le> length xs" and "a + n \<le> off \<or> off + length ys \<le> a"
  shows "slice a n (overwrite xs off ys) = slice a n xs"
  using assms by (intro nth_equalityI) (auto simp: nth_slice overwrite_other)

lemma get_append [simp]:
  "off + 2 \<le> length p \<Longrightarrow> be16_at (p @ q) off = be16_at p off"
  "off + 4 \<le> length p \<Longrightarrow> be32_at (p @ q) off = be32_at p off"
  by (simp_all add: be16_at_def be32_at_def nth_append)

lemma get_drop:
  "a + off + 2 \<le> length p \<Longrightarrow> be16_at (drop a p) off = be16_at p (a + off)"
  "a + off + 4 \<le> length p \<Longrightarrow> be32_at (drop a p) off = be32_at p (a + off)"
  by (simp_all add: be16_at_def be32_at_def add.assoc)

lemma get_bytes [simp]: "be16_at (bytes16 v) 0 = v" "be32_at (bytes32 w) 0 = w"
  by (simp_all add: be16_at_def be32_at_def bytes16_def bytes32_def)

section \<open>Bits of a bitmap, the most significant first\<close>

lemma mask_iff: "k < 8 \<Longrightarrow> bit (drop_bit k (0x80 :: u8)) n \<longleftrightarrow> n + k = 7"
proof -
  assume k: "k < 8"
  have c: "(0x80 :: u8) = push_bit 7 1" by (simp add: push_bit_eq_mult)
  show ?thesis unfolding c bit_drop_bit_eq bit_push_bit_iff bit_1_iff using k by auto
qed

lemma mask_bit: "k < 8 \<Longrightarrow> (b AND drop_bit k 0x80 = 0) = (\<not> bit b (7 - k))" for b :: u8
proof -
  assume k: "k < 8"
  have "bit (drop_bit k (0x80 :: u8)) n \<longleftrightarrow> bit (2 ^ (7 - k) :: u8) n" for n
    using k by (auto simp: mask_iff bit_exp_iff)
  then have "drop_bit k (0x80 :: u8) = 2 ^ (7 - k)" by (intro bit_word_eqI) blast
  then show ?thesis by (simp add: and_exp_eq_0_iff_not_bit)
qed

lemma bit_mask_simps:
  fixes b :: u8
  assumes "k < 8" and "j < 8"
  shows "bit (b OR drop_bit k 0x80) (7 - j) \<longleftrightarrow> j = k \<or> bit b (7 - j)"
    and "bit (b AND NOT (drop_bit k 0x80)) (7 - j) \<longleftrightarrow> j \<noteq> k \<and> bit b (7 - j)"
  using assms by (auto simp: bit_or_iff bit_and_iff bit_not_iff mask_iff)

lemma all_bits: "(b :: u8) = 0xFF \<longleftrightarrow> (\<forall>k<8. bit b (7 - k))"
proof
  assume "b = 0xFF"
  then have b: "b = - 1" by simp
  show "\<forall>k<8. bit b (7 - k)" unfolding b by (auto simp: bit_minus_1_iff)
next
  assume all: "\<forall>k<8. bit b (7 - k)"
  have "b = - 1"
  proof (rule bit_word_eqI)
    fix n assume "n < LENGTH(8)"
    then have "7 - n < 8" "7 - (7 - n) = n" by auto
    then have "bit b n" using all by metis
    then show "bit b n \<longleftrightarrow> bit (- 1 :: u8) n" using \<open>n < LENGTH(8)\<close> by (simp add: bit_minus_1_iff)
  qed
  then show "b = 0xFF" by simp
qed

section \<open>A node as it was built\<close>

lemma place_facts:
  assumes "length buf = N" and "off + sum_list (map length recs) + 2 * (i + length recs + 1) \<le> N" and "N \<le> 65535"
  shows "length (place N i off recs buf) = N
    \<and> (\<forall>p. p < off \<or> N - 2 * i \<le> p \<longrightarrow> p < N \<longrightarrow> place N i off recs buf ! p = buf ! p)
    \<and> slice off (sum_list (map length recs)) (place N i off recs buf) = concat recs
    \<and> (\<forall>j\<le>length recs. be16_at (place N i off recs buf) (N - 2 * (i + j + 1)) = of_nat (off + sum_list (map length (take j recs))))"
  using assms(1,2)
proof (induction recs arbitrary: i off buf)
  case Nil
  then show ?case
    using assms(3) get_put16 [of "N - 2 * (i + 1)" buf "of_nat off"]
    by (auto simp: put16_at_def slice_def intro!: overwrite_other)
next
  case (Cons r rs)
  let ?b = "overwrite (put16_at (N - 2 * (i + 1)) (of_nat off) buf) off r"
  let ?p = "place N (i + 1) (off + length r) rs ?b"
  have N: "2 * (i + 1) \<le> N" "N - 2 * (i + 1) + 2 \<le> N" "off + length r \<le> N - 2 * (i + 1)" using Cons.prems by auto
  have lp: "length (put16_at (N - 2 * (i + 1)) (of_nat off) buf) = N" using Cons.prems N by simp
  then have lb: "length ?b = N" using N by simp
  have IH: "length ?p = N
    \<and> (\<forall>p. p < off + length r \<or> N - 2 * (i + 1) \<le> p \<longrightarrow> p < N \<longrightarrow> ?p ! p = ?b ! p)
    \<and> slice (off + length r) (sum_list (map length rs)) ?p = concat rs
    \<and> (\<forall>j\<le>length rs. be16_at ?p (N - 2 * (i + 1 + j + 1)) = of_nat (off + length r + sum_list (map length (take j rs))))"
    by (rule Cons.IH [OF lb]) (use Cons.prems in simp)
  have same: "?p ! p = buf ! p" if "p < off \<or> N - 2 * i \<le> p" "p < N" for p
  proof -
    have "?p ! p = ?b ! p" using IH that N by auto
    also have "\<dots> = put16_at (N - 2 * (i + 1)) (of_nat off) buf ! p"
      using that N lp by (intro overwrite_other) auto
    also have "\<dots> = buf ! p" unfolding put16_at_def using that N Cons.prems by (intro overwrite_other) auto
    finally show ?thesis .
  qed
  have "slice off (length r) ?p = slice off (length r) ?b"
    using IH lb N by (intro nth_equalityI) (auto simp: nth_slice)
  also have "\<dots> = r" using lp N by (intro slice_overwrite) simp
  finally have sl: "slice off (sum_list (map length (r # rs))) ?p = concat (r # rs)" using IH by (simp add: slice_add)
  have first: "be16_at ?p (N - 2 * (i + 1)) = of_nat off"
  proof -
    have "be16_at ?p (N - 2 * (i + 1)) = be16_at ?b (N - 2 * (i + 1))" using IH N by (auto simp: be16_at_def)
    also have "\<dots> = be16_at (put16_at (N - 2 * (i + 1)) (of_nat off) buf) (N - 2 * (i + 1))"
      using lp N by (intro get16_overwrite_other) auto
    also have "\<dots> = of_nat off" using Cons.prems N by simp
    finally show ?thesis .
  qed
  have offs: "be16_at ?p (N - 2 * (i + j + 1)) = of_nat (off + sum_list (map length (take j (r # rs))))"
    if "j \<le> length (r # rs)" for j
  proof (cases j)
    case 0
    then show ?thesis using first by simp
  next
    case (Suc k)
    then have "k \<le> length rs" using that by simp
    then have "be16_at ?p (N - 2 * (i + 1 + k + 1)) = of_nat (off + length r + sum_list (map length (take k rs)))"
      using IH by blast
    then show ?thesis using Suc by (simp add: add.assoc)
  qed
  show ?case using IH same sl offs by simp
qed

lemma fits_bound: "fits t recs \<Longrightarrow> kDescriptor + sum_list (map length recs) + 2 * (length recs + 1) \<le> unat (bt_nodeSize t)"
  by (simp add: fits_def)

lemma node_size_bound: "unat (bt_nodeSize t) < 65536"
  by simp

text \<open>\<open>nd\<close> is a node of a kind and height, with two links and a list of records.\<close>

definition node_shape :: "btree \<Rightarrow> bytes \<Rightarrow> u8 \<Rightarrow> u8 \<Rightarrow> u32 \<Rightarrow> u32 \<Rightarrow> bytes list \<Rightarrow> bool" where
  "node_shape t nd k h fl bl recs \<longleftrightarrow>
     length nd = unat (bt_nodeSize t) \<and> fits t recs
     \<and> kind nd = k \<and> nd ! 9 = h \<and> next_link nd = fl \<and> be32_at nd 4 = bl \<and> count nd = length recs
     \<and> (\<forall>j\<le>length recs. offset_at t nd j = kDescriptor + sum_list (map length (take j recs)))
     \<and> slice kDescriptor (sum_list (map length recs)) nd = concat recs"

lemma sum_take_le: "sum_list (map length (take j recs)) \<le> sum_list (map length recs)"
  by (metis append_take_drop_id le_add1 map_append sum_list_append)

lemma node_bytes_shape:
  assumes "fits t recs"
  shows "node_shape t (node_bytes (unat (bt_nodeSize t)) k h fl bl recs) k h fl bl recs"
proof -
  define N where "N = unat (bt_nodeSize t)"
  define base where "base = put16_at 10 (of_nat (length recs)) ((put32_at 4 bl (put32_at 0 fl (replicate N 0)))[8 := k, 9 := h])"
  define nd where "nd = node_bytes N k h fl bl recs"
  have room: "kDescriptor + sum_list (map length recs) + 2 * (0 + length recs + 1) \<le> N" "N < 65536" "16 \<le> N"
    using fits_bound [OF assms] node_size_bound [of t] unfolding N_def by auto
  have place: "length nd = N
    \<and> (\<forall>p. p < kDescriptor \<or> N - 2 * 0 \<le> p \<longrightarrow> p < N \<longrightarrow> nd ! p = base ! p)
    \<and> slice kDescriptor (sum_list (map length recs)) nd = concat recs
    \<and> (\<forall>j\<le>length recs. be16_at nd (N - 2 * (0 + j + 1)) = of_nat (kDescriptor + sum_list (map length (take j recs))))"
    unfolding nd_def node_bytes_def base_def [symmetric]
    by (rule place_facts) (use room in \<open>simp_all add: base_def\<close>)
  then have low: "nd ! p = base ! p" if "p < kDescriptor" for p using that room by simp
  have n: "length recs < 65536" using room by simp
  have "be16_at nd 10 = of_nat (length recs)"
    using room by (simp add: be16_at_def low base_def put16_at_def bytes16_def nth_overwrite)
  then have cnt: "count nd = length recs" using n by (simp add: count_def unat_of_nat take_bit_nat_eq_self)
  have hd4: "kind nd = k" "nd ! 9 = h" "next_link nd = fl" "be32_at nd 4 = bl"
    using room
    by (simp_all add: kind_def next_link_def be32_at_def low base_def put16_at_def put32_at_def bytes16_def bytes32_def nth_overwrite)
  have offs: "offset_at t nd j = kDescriptor + sum_list (map length (take j recs))" if "j \<le> length recs" for j
  proof -
    define o' where "o' = kDescriptor + sum_list (map length (take j recs))"
    have "o' < 65536" using sum_take_le [of j recs] room unfolding o'_def by linarith
    moreover have "be16_at nd (N - 2 * (j + 1)) = of_nat o'" using place that by (simp add: o'_def)
    ultimately show ?thesis
      unfolding offset_at_def N_def [symmetric] o'_def [symmetric] by (simp add: unat_of_nat take_bit_nat_eq_self)
  qed
  show ?thesis
    unfolding node_shape_def N_def [symmetric] nd_def [symmetric] using assms place cnt hd4 offs by blast
qed

lemma shape_slice:
  assumes "node_shape t nd k h fl bl recs" and "j < length recs"
  shows "slice (offset_at t nd j) (length (recs ! j)) nd = recs ! j"
    and "offset_at t nd j + length (recs ! j) = offset_at t nd (Suc j)"
    and "offset_at t nd (Suc j) + 2 \<le> unat (bt_nodeSize t)"
proof -
  define a where "a = sum_list (map length (take j recs))"
  have split: "recs = take j recs @ recs ! j # drop (Suc j) recs" using assms(2) by (rule id_take_nth_drop)
  define c where "c = sum_list (map length (drop (Suc j) recs))"
  have sum: "sum_list (map length recs) = a + (length (recs ! j) + c)"
    unfolding a_def c_def by (subst split) simp
  have off: "offset_at t nd j = kDescriptor + a" "offset_at t nd (Suc j) = kDescriptor + sum_list (map length (take (Suc j) recs))"
    using assms by (simp_all add: node_shape_def a_def)
  have sj: "sum_list (map length (take (Suc j) recs)) = a + length (recs ! j)"
    using assms(2) by (simp add: take_Suc_conv_app_nth a_def)
  show "offset_at t nd j + length (recs ! j) = offset_at t nd (Suc j)" using off sj by simp
  have room: "kDescriptor + sum_list (map length recs) + 2 \<le> unat (bt_nodeSize t)"
    using assms(1) by (auto simp: node_shape_def fits_def)
  then show "offset_at t nd (Suc j) + 2 \<le> unat (bt_nodeSize t)" using off sj sum by simp
  have len: "length nd = unat (bt_nodeSize t)" using assms(1) by (simp add: node_shape_def)
  have "slice kDescriptor (sum_list (map length recs)) nd = concat recs" using assms(1) by (simp add: node_shape_def)
  also have "concat recs = concat (take j recs) @ recs ! j @ concat (drop (Suc j) recs)"
    by (subst split) simp
  finally have "slice kDescriptor a nd @ slice (kDescriptor + a) (length (recs ! j)) nd
      @ slice (kDescriptor + a + length (recs ! j)) c nd
      = concat (take j recs) @ recs ! j @ concat (drop (Suc j) recs)"
    unfolding sum slice_add by simp
  moreover have "length (slice kDescriptor a nd) = length (concat (take j recs))"
    using len room sum by (simp add: length_concat a_def)
  moreover have "length (slice (kDescriptor + a) (length (recs ! j)) nd) = length (recs ! j)"
    using len room sum by simp
  ultimately show "slice (offset_at t nd j) (length (recs ! j)) nd = recs ! j" by (simp add: off)
qed

lemma records_from_shape:
  assumes "node_shape t nd k h fl bl recs"
  shows "\<forall>i\<in>set is. i < length recs \<Longrightarrow> records_from t nd is = map ((!) recs) is"
proof (induction "is")
  case (Cons i "is")
  note s = shape_slice [OF assms, of i]
  have i: "i < length recs" using Cons.prems by simp
  have "kDescriptor \<le> offset_at t nd i" using assms i by (simp add: node_shape_def)
  then show ?case using Cons s i by (simp add: Let_def) (metis add_diff_cancel_left')
qed simp

lemma shape_records: "node_shape t nd k h fl bl recs \<Longrightarrow> records t nd = recs"
  unfolding records_def
  by (subst records_from_shape) (auto simp: node_shape_def intro: map_nth)

text \<open>New links in a node leave its records alone.\<close>

lemma shape_put32:
  assumes "node_shape t nd k h fl bl recs"
  shows "node_shape t (put32_at 0 l nd) k h l bl recs" and "node_shape t (put32_at 4 l nd) k h fl l recs"
proof -
  have len: "length nd = unat (bt_nodeSize t)" and room: "16 \<le> length nd"
    and offs: "\<forall>j\<le>length recs. kDescriptor \<le> offset_at t nd j \<and> unat (bt_nodeSize t) - 2 * (j + 1) \<ge> kDescriptor"
    and slc: "kDescriptor + sum_list (map length recs) \<le> length nd"
    using assms by (auto simp: node_shape_def fits_def)
  have o0: "offset_at t (put32_at 0 l nd) j = offset_at t nd j" "offset_at t (put32_at 4 l nd) j = offset_at t nd j"
    if "j \<le> length recs" for j
  proof -
    have "kDescriptor \<le> unat (bt_nodeSize t) - 2 * (j + 1)" using offs that by blast
    define q where "q = unat (bt_nodeSize t) - 2 * (j + 1)"
    have q: "8 \<le> q" "q + 2 \<le> length nd" using \<open>kDescriptor \<le> _\<close> room len unfolding q_def by arith+
    have "be16_at (overwrite nd 0 (bytes32 l)) q = be16_at nd q" "be16_at (overwrite nd 4 (bytes32 l)) q = be16_at nd q"
      by (rule get16_overwrite_other; use q room in simp)+
    then show "offset_at t (put32_at 0 l nd) j = offset_at t nd j" "offset_at t (put32_at 4 l nd) j = offset_at t nd j"
      unfolding offset_at_def put32_at_def q_def by simp_all
  qed
  show "node_shape t (put32_at 0 l nd) k h l bl recs" "node_shape t (put32_at 4 l nd) k h fl l recs"
    using assms room slc len o0
    by (simp_all add: node_shape_def kind_def next_link_def count_def put32_at_def overwrite_other get16_overwrite_other
        get32_overwrite_other slice_overwrite_other get_put32 [unfolded put32_at_def])
qed

text \<open>
  C33: a node \<open>writeNode\<close> lays out reads back as it was: its kind and height, its links and its
  records, each found at its offset, where they fit into a node.
\<close>

theorem node_round_trip:
  "fits t recs \<Longrightarrow>
     let nd = node_bytes (unat (bt_nodeSize t)) k h fl bl recs in
     records t nd = recs \<and> kind nd = k \<and> nd ! 9 = h \<and> next_link nd = fl \<and> be32_at nd 4 = bl \<and> count nd = length recs
     \<and> length nd = unat (bt_nodeSize t)"
  using node_bytes_shape [of t recs k h fl bl] shape_records [of t] unfolding Let_def
  by (simp add: node_shape_def)


definition small_tree :: btree where
  "small_tree = \<lparr>bt_depth = 0, bt_nodeSize = 512, bt_maxKeyLength = 10, bt_root = 0, bt_leafRecords = 0, bt_firstLeaf = 0,
     bt_lastLeaf = 0, bt_totalNodes = 8, bt_freeNodes = 7, bt_clumpSize = 0, bt_attributes = 0, bt_keyCompareType = 0,
     bt_cache = []\<rparr>"

lemma node_round_trip_witness:
  "records small_tree (node_bytes 512 kLeafNode 1 0 0 [[0, 2, 1, 2], [0, 2, 3, 4]]) = [[0, 2, 1, 2], [0, 2, 3, 4]]"
  using node_round_trip [of small_tree "[[0, 2, 1, 2], [0, 2, 3, 4]]" kLeafNode 1 0 0]
  by (simp add: fits_def small_tree_def Let_def)

end
