(* ===== verification/HFSP_Tree.thy ===== *)
theory HFSP_Tree
  imports HFSP_Node
begin

text \<open>
  What the B-trees rely on: a tree kept in a state, over a file that can be read and written, is
  the locale \<open>tree_file\<close>. Its lemmas say that the cache is transparent and what reading and
  writing nodes, links, the header and the node map do to the bytes of the file.
\<close>

section \<open>The nodes of a file\<close>

definition nodeb :: "'s tree_env \<Rightarrow> ('s \<Rightarrow> bytes) \<Rightarrow> 's \<Rightarrow> u32 \<Rightarrow> bytes" where
  "nodeb E dsk s n = slice (unat n * node_size E s) (node_size E s) (dsk s)"

definition in_file :: "'s tree_env \<Rightarrow> ('s \<Rightarrow> bytes) \<Rightarrow> 's \<Rightarrow> u32 \<Rightarrow> bool" where
  "in_file E dsk s n \<longleftrightarrow> unat n * node_size E s + node_size E s \<le> length (dsk s)"

definition bare :: "btree \<Rightarrow> btree" where
  "bare t = t\<lparr>bt_cache := []\<rparr>"

definition cache_ok :: "'s tree_env \<Rightarrow> ('s \<Rightarrow> bytes) \<Rightarrow> 's \<Rightarrow> bool" where
  "cache_ok E dsk s \<longleftrightarrow> (\<forall>(n, b)\<in>set (bt_cache (te_get E s)). in_file E dsk s n \<and> b = nodeb E dsk s n)"

text \<open>Only the cache may differ.\<close>

definition same_view :: "'s tree_env \<Rightarrow> ('s \<Rightarrow> bytes) \<Rightarrow> 's \<Rightarrow> 's \<Rightarrow> bool" where
  "same_view E dsk s s' \<longleftrightarrow>
     dsk s' = dsk s \<and> bare (te_get E s') = bare (te_get E s) \<and> te_order E s' = te_order E s"

definition ready :: "'s tree_env \<Rightarrow> ('s \<Rightarrow> bytes) \<Rightarrow> ('s \<Rightarrow> bool) \<Rightarrow> 's \<Rightarrow> bool" where
  "ready E dsk live s \<longleftrightarrow> live s \<and> cache_ok E dsk s \<and> 0 < node_size E s"

lemma bare_simps [simp]:
  "bt_depth (bare t) = bt_depth t" "bt_nodeSize (bare t) = bt_nodeSize t" "bt_maxKeyLength (bare t) = bt_maxKeyLength t"
  "bt_root (bare t) = bt_root t" "bt_leafRecords (bare t) = bt_leafRecords t" "bt_firstLeaf (bare t) = bt_firstLeaf t"
  "bt_lastLeaf (bare t) = bt_lastLeaf t" "bt_totalNodes (bare t) = bt_totalNodes t" "bt_freeNodes (bare t) = bt_freeNodes t"
  "bt_clumpSize (bare t) = bt_clumpSize t" "bt_attributes (bare t) = bt_attributes t" "bt_cache (bare t) = []"
  "bare (bare t) = bare t" "bare (t\<lparr>bt_cache := c\<rparr>) = bare t"
  by (simp_all add: bare_def)

lemma node_fun_bare:
  "offset_at (bare t) = offset_at t" "variable_keys (bare t) = variable_keys t" "keyBytes (bare t) = keyBytes t"
  "record_at (bare t) = record_at t" "records (bare t) = records t" "indexKey (bare t) = indexKey t"
  "indexRecord (bare t) = indexRecord t" "fits (bare t) = fits t" "node_shape (bare t) = node_shape t"
proof -
  show o: "offset_at (bare t) = offset_at t" and v: "variable_keys (bare t) = variable_keys t"
    by (simp_all add: fun_eq_iff offset_at_def variable_keys_def)
  show k: "keyBytes (bare t) = keyBytes t" by (simp add: fun_eq_iff keyBytes_def v)
  show "record_at (bare t) = record_at t" by (simp add: fun_eq_iff record_at_def o k Let_def)
  have "records_from (bare t) nd is = records_from t nd is" for nd "is" by (induction "is") (simp_all add: o Let_def)
  then show "records (bare t) = records t" by (simp add: fun_eq_iff records_def)
  show i: "indexKey (bare t) = indexKey t" by (simp add: fun_eq_iff indexKey_def v)
  then show "indexRecord (bare t) = indexRecord t" by (simp add: fun_eq_iff indexRecord_def)
  show f: "fits (bare t) = fits t" by (simp add: fun_eq_iff fits_def)
  show "node_shape (bare t) = node_shape t" by (simp add: fun_eq_iff node_shape_def o f)
qed

text \<open>Functions of a node see only the fields of the tree, not its cache.\<close>

lemma node_fun_cong:
  assumes "bare t' = bare t"
  shows "offset_at t' = offset_at t" "variable_keys t' = variable_keys t" "keyBytes t' = keyBytes t" "record_at t' = record_at t"
    "records t' = records t" "indexKey t' = indexKey t" "indexRecord t' = indexRecord t" "fits t' = fits t"
    "node_shape t' = node_shape t" "bt_nodeSize t' = bt_nodeSize t" "bt_root t' = bt_root t" "bt_depth t' = bt_depth t"
    "bt_totalNodes t' = bt_totalNodes t" "bt_freeNodes t' = bt_freeNodes t" "bt_firstLeaf t' = bt_firstLeaf t"
    "bt_lastLeaf t' = bt_lastLeaf t" "bt_leafRecords t' = bt_leafRecords t"
  using node_fun_bare [of t] node_fun_bare [of t'] assms bare_simps(1-11) [of t] bare_simps(1-11) [of t'] by metis+

lemma slices_apart:
  "a \<noteq> b \<Longrightarrow> a * N + N \<le> b * N \<or> b * N + N \<le> (a * N :: nat)"
proof -
  assume "a \<noteq> b"
  then have "Suc a \<le> b \<or> Suc b \<le> a" by auto
  then have "Suc a * N \<le> b * N \<or> Suc b * N \<le> a * N" by (metis mult_le_mono1)
  then show ?thesis by auto
qed

lemma slice_of_overwrite:
  assumes "a + length ys \<le> l" and "p + l \<le> length xs"
  shows "slice p l (overwrite xs (p + a) ys) = overwrite (slice p l xs) a ys"
  using assms by (intro nth_equalityI) (auto simp: nth_slice nth_overwrite)

locale tree_file =
  fixes E :: "'s tree_env" and dsk :: "'s \<Rightarrow> bytes" and live :: "'s \<Rightarrow> bool"
  assumes get_upd: "te_get E (te_upd E f s) = f (te_get E s)"
    and dsk_upd: "dsk (te_upd E f s) = dsk s"
    and live_upd: "live (te_upd E f s) = live s"
    and order_upd: "te_order E (te_upd E f s) = te_order E s"
    and read_ok: "live s \<Longrightarrow> 0 < n \<Longrightarrow> pos + n \<le> length (dsk s) \<Longrightarrow>
      \<exists>s'. te_read E pos n s = (slice pos n (dsk s), s') \<and> live s' \<and> dsk s' = dsk s \<and> te_get E s' = te_get E s
        \<and> te_order E s' = te_order E s"
    and write_ok: "live s \<Longrightarrow> bs \<noteq> [] \<Longrightarrow> pos + length bs \<le> length (dsk s) \<Longrightarrow>
      \<exists>s'. te_write E pos bs s = (True, s') \<and> live s' \<and> dsk s' = overwrite (dsk s) pos bs \<and> te_get E s' = te_get E s
        \<and> te_order E s' = te_order E s"
begin

abbreviation at_node where "at_node \<equiv> nodeb E dsk"
abbreviation inside where "inside \<equiv> in_file E dsk"
abbreviation rdy where "rdy \<equiv> ready E dsk live"
abbreviation view where "view \<equiv> same_view E dsk"
abbreviation tree where "tree \<equiv> te_get E"

lemmas upd_laws = get_upd dsk_upd live_upd order_upd

lemma view_refl: "view s s"
  by (simp add: same_view_def)

lemma view_trans: "view s s' \<Longrightarrow> view s' s'' \<Longrightarrow> view s s''"
  by (simp add: same_view_def)

lemma view_facts:
  assumes "view s s'"
  shows "node_size E s' = node_size E s" "at_node s' = at_node s" "inside s' = inside s" "dsk s' = dsk s"
    "te_order E s' = te_order E s" "bare (tree s') = bare (tree s)"
proof -
  have "bt_nodeSize (tree s') = bt_nodeSize (tree s)" using assms bare_simps(2) unfolding same_view_def by metis
  then show n: "node_size E s' = node_size E s" by (simp add: node_size_def)
  show "at_node s' = at_node s" "inside s' = inside s" "dsk s' = dsk s" "te_order E s' = te_order E s"
    "bare (tree s') = bare (tree s)"
    using assms n by (simp_all add: fun_eq_iff nodeb_def in_file_def same_view_def)
qed

lemmas view_tree = node_fun_cong [OF view_facts(6)]

lemma cache_update_view: "view s (upd_cache E f s)"
  by (simp add: same_view_def upd_cache_def upd_laws)

lemma cache_update_ready:
  assumes "rdy s" and "\<And>n b. (n, b) \<in> set (f (bt_cache (tree s))) \<Longrightarrow> inside s n \<and> b = at_node s n"
  shows "rdy (upd_cache E f s)"
proof -
  note v = view_facts [OF cache_update_view [of s f]]
  show ?thesis using assms v unfolding ready_def cache_ok_def
    by (auto simp: upd_cache_def upd_laws)
qed

lemma node_length: "inside s n \<Longrightarrow> length (at_node s n) = node_size E s"
  by (simp add: nodeb_def in_file_def)

text \<open>Reading a node, from the cache or the file.\<close>

lemma node_read:
  assumes "rdy s" and "inside s n"
  shows "\<exists>s'. node E n s = (Some (at_node s n), s') \<and> view s s' \<and> rdy s'"
proof (cases "cache_get n (bt_cache (tree s))")
  case (Some buf)
  then have in': "(n, buf) \<in> set (bt_cache (tree s))" by (simp add: cache_get_def map_of_SomeD)
  then have buf: "buf = at_node s n" using assms(1) by (auto simp: ready_def cache_ok_def)
  let ?f = "\<lambda>c. (n, buf) # cache_erase n c"
  have "rdy (upd_cache E ?f s)"
    by (rule cache_update_ready [OF assms(1)])
       (use assms in' in \<open>auto simp: cache_erase_def ready_def cache_ok_def\<close>)
  then show ?thesis using Some cache_update_view buf by (auto simp: node_def)
next
  case None
  have pos: "live s" "0 < node_size E s" "unat n * node_size E s + node_size E s \<le> length (dsk s)"
    using assms by (simp_all add: ready_def in_file_def)
  obtain s1 where r: "te_read E (unat n * node_size E s) (node_size E s) s = (at_node s n, s1)"
    and s1: "live s1" "dsk s1 = dsk s" "tree s1 = tree s" "te_order E s1 = te_order E s"
    using read_ok [OF pos] unfolding nodeb_def by blast
  have v: "view s s1" using s1 by (simp add: same_view_def)
  have r1: "rdy s1" using assms s1 view_facts [OF v] by (simp add: ready_def cache_ok_def)
  have "rdy (upd_cache E (cache_add n (at_node s n)) s1)"
  proof (rule cache_update_ready [OF r1])
    fix m b
    assume "(m, b) \<in> set (cache_add n (at_node s n) (bt_cache (tree s1)))"
    then have "(m, b) = (n, at_node s n) \<or> (m, b) \<in> set (bt_cache (tree s1))"
      by (auto simp: cache_add_def Let_def split: if_splits dest: in_set_butlastD)
    then show "inside s1 m \<and> b = at_node s1 m"
      using r1 assms(2) view_facts [OF v] by (auto simp: ready_def cache_ok_def)
  qed
  moreover have "view s (upd_cache E (cache_add n (at_node s n)) s1)" using v cache_update_view view_trans by blast
  moreover have "length (at_node s n) = node_size E s" using assms(2) by (rule node_length)
  ultimately show ?thesis using None r by (simp add: node_def)
qed

section \<open>Writing\<close>

lemma node_after_overwrite:
  assumes "dsk s' = overwrite (dsk s) (unat n * node_size E s) buf" and "node_size E s' = node_size E s"
    and "inside s n" and "length buf = node_size E s"
  shows "at_node s' n = buf" and "inside s m \<Longrightarrow> m \<noteq> n \<Longrightarrow> at_node s' m = at_node s m" and "inside s' = inside s"
proof -
  have le: "unat n * node_size E s + length buf \<le> length (dsk s)" using assms(3,4) by (simp add: in_file_def)
  show "at_node s' n = buf" using le assms(4) slice_overwrite [OF le] by (simp add: nodeb_def assms(1,2))
  show "inside s' = inside s" using le by (simp add: fun_eq_iff in_file_def assms(1,2))
  assume m: "inside s m" "m \<noteq> n"
  then have "unat m \<noteq> unat n" by (auto dest: unsigned_word_eqI)
  then show "at_node s' m = at_node s m"
    using m(1) le assms(4) slices_apart [of "unat m" "unat n" "node_size E s"]
    by (simp add: nodeb_def assms(1,2) slice_overwrite_other in_file_def)
qed

lemma write_cached_ok:
  assumes "rdy s" and "inside s n" and "length buf = node_size E s"
  shows "\<exists>s'. write_cached E n buf s = (Inr (), s') \<and> rdy s' \<and> bare (tree s') = bare (tree s) \<and> te_order E s' = te_order E s
    \<and> length (dsk s') = length (dsk s) \<and> inside s' = inside s \<and> at_node s' n = buf
    \<and> (\<forall>m. inside s m \<longrightarrow> m \<noteq> n \<longrightarrow> at_node s' m = at_node s m)"
proof -
  have pos: "live s" "buf \<noteq> []" "unat n * node_size E s + length buf \<le> length (dsk s)"
    using assms by (auto simp: ready_def in_file_def)
  obtain s1 where w: "te_write E (unat n * node_size E s) buf s = (True, s1)"
    and s1: "live s1" "dsk s1 = overwrite (dsk s) (unat n * node_size E s) buf" "tree s1 = tree s" "te_order E s1 = te_order E s"
    using write_ok [OF pos] by blast
  define s' where "s' = upd_cache E (cache_set n buf) s1"
  have t': "tree s' = (tree s)\<lparr>bt_cache := cache_set n buf (bt_cache (tree s))\<rparr>" "dsk s' = dsk s1" "live s'"
    "te_order E s' = te_order E s"
    using s1 by (simp_all add: s'_def upd_cache_def upd_laws)
  have ns: "node_size E s' = node_size E s" by (simp add: node_size_def t')
  note after = node_after_overwrite [OF trans [OF t'(2) s1(2)] ns assms(2,3)]
  have "cache_ok E dsk s'"
    unfolding cache_ok_def
  proof clarify
    fix m b
    assume "(m, b) \<in> set (bt_cache (tree s'))"
    then have "(m = n \<and> b = buf) \<or> (m \<noteq> n \<and> (m, b) \<in> set (bt_cache (tree s)))"
      using assms(2) by (auto simp: t' cache_set_def split: if_splits)
    moreover have "\<forall>(m, b)\<in>set (bt_cache (tree s)). inside s m \<and> b = at_node s m"
      using assms(1) by (simp add: ready_def cache_ok_def)
    ultimately show "inside s' m \<and> b = at_node s' m" using after assms(2) by auto
  qed
  then have "rdy s'" using assms(1) t' ns by (simp add: ready_def)
  moreover have "write_cached E n buf s = (Inr (), s')" by (simp add: write_cached_def w s'_def)
  moreover have "bare (tree s') = bare (tree s)" by (simp add: t')
  moreover have "length (dsk s') = length (dsk s)" using pos(3) by (simp add: t'(2) s1(2))
  ultimately show ?thesis using after t'(4) by blast
qed

end

end
