(* ===== verification/HFSP_Fork.thy ===== *)
theory HFSP_Fork
  imports HFSP_Volume HFSP_Tree
begin

text \<open>
  Forks as byte sequences: on an image that can be read and written, \<open>Fork::read\<close> and
  \<open>Fork::write\<close> see a fork's extents as one array of bytes. The two B-tree files of a volume are
  such forks, so the locale \<open>tree_file\<close> holds of them.
\<close>

section \<open>Images that work\<close>

lemma write_all_inside:
  "reliable (length bs) cs \<Longrightarrow> pos + length bs \<le> length dat \<Longrightarrow>
     \<exists>cs'. write_all cs dat pos bs = (True, cs', overwrite dat pos bs)"
proof (induction cs dat pos bs rule: write_all.induct)
  case (2 dat pos b bs)
  then show ?case by (simp add: reliable_def)
next
  case (3 cs dat pos b bs)
  then show ?case using reliable_Cons [of _ Interrupted cs] by fastforce
next
  case (4 cs dat pos b bs)
  then show ?case by (simp add: reliable_def)
next
  case (5 k cs dat pos b bs)
  have "0 < k" and rel: "reliable (length (b # bs) - 1) cs"
    using "5.prems"(1) reliable_Cons [of "length (b # bs)" "Transfer k" cs] by auto
  then have k: "k \<noteq> 0" by simp
  have rel': "reliable (length (drop k (b # bs))) cs" by (rule reliable_mono [OF rel]) (use k in simp)
  have put: "file_put dat pos (take k (b # bs)) = overwrite dat pos (take k (b # bs))"
    using "5.prems"(2) by (intro file_put_inside) simp
  have mk: "min k (length (b # bs)) = length (take k (b # bs))" by simp
  have len: "pos + length (take k (b # bs)) + length (drop k (b # bs)) \<le> length dat" using "5.prems"(2) by simp
  then have "pos + length (take k (b # bs)) \<le> length dat" by linarith
  then have "length (overwrite dat pos (take k (b # bs))) = length dat" by (rule length_overwrite)
  then have "\<exists>cs'. write_all cs (overwrite dat pos (take k (b # bs))) (pos + length (take k (b # bs))) (drop k (b # bs))
      = (True, cs', overwrite (overwrite dat pos (take k (b # bs))) (pos + length (take k (b # bs))) (drop k (b # bs)))"
    using "5.IH" [OF k, unfolded put mk, OF rel'] len by argo
  then show ?case
    using k put mk overwrite_append [OF len] by (simp only: write_all.simps if_False append_take_drop_id)
qed simp

definition steady_image :: "image \<Rightarrow> bool" where
  "steady_image img \<longleftrightarrow> img_writable img \<and> (\<forall>k. reliable (length (img_data img)) (img_answers img k))"

lemma image_read_ok:
  assumes "steady_image img" and "pos + n \<le> length (img_data img)"
  shows "\<exists>img'. image_read pos n img = (Some (slice pos n (img_data img)), img') \<and> img_data img' = img_data img \<and> steady_image img'"
proof (cases "n = 0")
  case True
  then show ?thesis using assms by (simp add: image_read_def slice_def)
next
  case False
  have "reliable (n + 0) (img_answers img (img_next img))"
    using assms reliable_mono [of "length (img_data img)" _ "n + 0"] by (simp add: steady_image_def)
  from read_all_reliable [OF this assms(2)] obtain cs' where
    "read_all (img_answers img (img_next img)) (img_data img) n pos = (Some (slice pos n (img_data img)), cs')" by blast
  then show ?thesis using False assms(1) by (simp add: image_read_def steady_image_def)
qed

lemma image_write_ok:
  assumes "steady_image img" and "pos + length bs \<le> length (img_data img)"
  shows "\<exists>img'. image_write pos bs img = (True, img') \<and> img_data img' = overwrite (img_data img) pos bs \<and> steady_image img'"
proof (cases "bs = []")
  case True
  then show ?thesis using assms by (simp add: image_write_def steady_image_def)
next
  case False
  have "reliable (length bs) (img_answers img (img_next img))"
    using assms reliable_mono [of "length (img_data img)" _ "length bs"] by (simp add: steady_image_def)
  from write_all_inside [OF this assms(2)] obtain cs' where
    "write_all (img_answers img (img_next img)) (img_data img) pos bs = (True, cs', overwrite (img_data img) pos bs)" by blast
  then show ?thesis using False assms by (simp add: image_write_def steady_image_def)
qed

section \<open>The bytes of a fork\<close>

definition extent_at :: "vol \<Rightarrow> extent \<Rightarrow> nat" where
  "extent_at v e = v_offset v + unat (fst e) * block_size v"

definition extent_len :: "vol \<Rightarrow> extent \<Rightarrow> nat" where
  "extent_len v e = unat (snd e) * block_size v"

definition fork_content :: "vol \<Rightarrow> extent list \<Rightarrow> bytes" where
  "fork_content v es = concat (map (\<lambda>e. slice (extent_at v e) (extent_len v e) (img_data (v_image v))) es)"

definition inside_image :: "vol \<Rightarrow> extent list \<Rightarrow> bool" where
  "inside_image v es \<longleftrightarrow> (\<forall>e\<in>set es. extent_at v e + extent_len v e \<le> length (img_data (v_image v)))"

text \<open>The allocation blocks of a fork, in its order.\<close>

definition fork_blocks :: "extent list \<Rightarrow> nat list" where
  "fork_blocks es = concat (map (\<lambda>e. [unat (fst e)..<unat (fst e) + unat (snd e)]) es)"

text \<open>Volumes that differ in the image's contents only.\<close>

definition same_vol :: "vol \<Rightarrow> vol \<Rightarrow> bool" where
  "same_vol v v' \<longleftrightarrow> v' = v\<lparr>v_image := v_image v'\<rparr> \<and> steady_image (v_image v')
     \<and> length (img_data (v_image v')) = length (img_data (v_image v))"

lemma same_vol_facts:
  assumes "same_vol v v'"
  shows "v_offset v' = v_offset v" "block_size v' = block_size v" "extent_at v' = extent_at v" "extent_len v' = extent_len v"
    "inside_image v' = inside_image v" "v_header v' = v_header v" "v_extents v' = v_extents v" "v_catalog v' = v_catalog v"
    "v_extentsFork v' = v_extentsFork v" "v_catalogFork v' = v_catalogFork v" "v_allocationFork v' = v_allocationFork v"
    "v_binaryOrder v' = v_binaryOrder v" "steady_image (v_image v')"
    "length (img_data (v_image v')) = length (img_data (v_image v))" "v_bitmap v' = v_bitmap v"
proof -
  obtain img where v': "v' = v\<lparr>v_image := img\<rparr>" using assms unfolding same_vol_def by metis
  show "v_offset v' = v_offset v" "block_size v' = block_size v" and e: "extent_at v' = extent_at v" "extent_len v' = extent_len v"
    and "v_header v' = v_header v" "v_extents v' = v_extents v" "v_catalog v' = v_catalog v"
    "v_extentsFork v' = v_extentsFork v" "v_catalogFork v' = v_catalogFork v" "v_allocationFork v' = v_allocationFork v"
    "v_binaryOrder v' = v_binaryOrder v" "v_bitmap v' = v_bitmap v"
    unfolding v' by (simp_all add: fun_eq_iff block_size_def extent_at_def extent_len_def)
  show "steady_image (v_image v')" and l: "length (img_data (v_image v')) = length (img_data (v_image v))"
    using assms by (simp_all add: same_vol_def)
  show "inside_image v' = inside_image v" by (simp add: fun_eq_iff inside_image_def e l)
qed

lemma same_vol_refl: "steady_image (v_image v) \<Longrightarrow> same_vol v v"
  by (simp add: same_vol_def)

lemma same_vol_trans: "same_vol u v \<Longrightarrow> same_vol v w \<Longrightarrow> same_vol u w"
  unfolding same_vol_def by (metis vol.surjective vol.update_convs(1))

lemma length_fork_content: "inside_image v es \<Longrightarrow> length (fork_content v es) = blocks_of es * block_size v"
  by (induction es) (auto simp: fork_content_def inside_image_def blocks_of_def extent_len_def add_mult_distrib)

lemma read_at_ok:
  assumes "steady_image (v_image v)" and "v_offset v + pos + n \<le> length (img_data (v_image v))"
  shows "\<exists>v'. readAt pos n v = (Some (slice (v_offset v + pos) n (img_data (v_image v))), v') \<and> same_vol v v'
    \<and> img_data (v_image v') = img_data (v_image v)"
proof -
  obtain img where "image_read (v_offset v + pos) n (v_image v) = (Some (slice (v_offset v + pos) n (img_data (v_image v))), img)"
    "img_data img = img_data (v_image v)" "steady_image img"
    using image_read_ok [OF assms] by blast
  then show ?thesis by (auto simp: readAt_def on_image_def same_vol_def)
qed

lemma write_at_ok:
  assumes "steady_image (v_image v)" and "v_offset v + pos + length bs \<le> length (img_data (v_image v))"
  shows "\<exists>v'. writeAt pos bs v = (True, v') \<and> same_vol v v'
    \<and> img_data (v_image v') = overwrite (img_data (v_image v)) (v_offset v + pos) bs"
proof -
  obtain img where "image_write (v_offset v + pos) bs (v_image v) = (True, img)"
    "img_data img = overwrite (img_data (v_image v)) (v_offset v + pos) bs" "steady_image img"
    using image_write_ok [OF assms] by blast
  then show ?thesis using assms by (auto simp: writeAt_def on_image_def same_vol_def)
qed

lemma slice_slice: "a + m \<le> l \<Longrightarrow> slice a m (slice p l xs) = slice (p + a) m xs"
  by (simp add: slice_def take_drop drop_drop ac_simps min_def)

lemma slice_inner:
  "a \<le> length xs \<Longrightarrow> length xs \<le> a + m \<Longrightarrow>
     slice a m (xs @ ys) = slice a (length xs - a) xs @ slice 0 (m - (length xs - a)) ys"
  by (simp add: slice_def)

lemma content_Cons: "fork_content v (e # es) = slice (extent_at v e) (extent_len v e) (img_data (v_image v)) @ fork_content v es"
  by (simp add: fork_content_def)

lemma fork_read_loop_ok:
  assumes "steady_image (v_image v)" and "inside_image v es" and "length acc < n" and "start \<le> offset + length acc"
    and "offset + n \<le> start + length (fork_content v es)"
  shows "\<exists>v'. fork_read_loop (block_size v) offset n es start acc v
      = (acc @ slice (offset + length acc - start) (n - length acc) (fork_content v es), v')
    \<and> same_vol v v' \<and> img_data (v_image v') = img_data (v_image v)"
  using assms
proof (induction es arbitrary: acc start v)
  case Nil
  then show ?case by (simp add: fork_content_def)
next
  case (Cons e es)
  define dat where "dat = img_data (v_image v)"
  define pos where "pos = offset + length acc"
  define len where "len = extent_len v e"
  define A where "A = slice (extent_at v e) len dat"
  have inside: "extent_at v e + len \<le> length dat" using Cons.prems(2) by (simp add: inside_image_def len_def dat_def)
  have lenA: "length A = len" using inside by (simp add: A_def)
  have content: "fork_content v (e # es) = A @ fork_content v es" by (simp add: content_Cons A_def len_def dat_def)
  have loop: "fork_read_loop (block_size v) offset n (e # es) start acc v =
     (if pos < start + len then
        (case readAt (unat (fst e) * block_size v + (pos - start)) (min (n - length acc) (len - (pos - start))) v of
           (None, v1) \<Rightarrow> (acc, v1)
         | (Some got, v1) \<Rightarrow>
             if length (acc @ got) = n then (acc @ got, v1)
             else fork_read_loop (block_size v) offset n es (start + len) (acc @ got) v1)
      else fork_read_loop (block_size v) offset n es (start + len) acc v)"
    unfolding fork_read_loop.simps Let_def pos_def len_def extent_len_def by (rule refl)
  show ?case
  proof (cases "pos < start + len")
    case False
    have "\<exists>v'. fork_read_loop (block_size v) offset n es (start + len) acc v
        = (acc @ slice (offset + length acc - (start + len)) (n - length acc) (fork_content v es), v')
      \<and> same_vol v v' \<and> img_data (v_image v') = img_data (v_image v)"
      by (rule Cons.IH) (use Cons.prems False lenA content in \<open>auto simp: inside_image_def pos_def\<close>)
    moreover have "slice (pos - start) (n - length acc) (A @ fork_content v es)
        = slice (offset + length acc - (start + len)) (n - length acc) (fork_content v es)"
      using False Cons.prems(4) lenA by (simp add: slice_append2 pos_def)
    ultimately show ?thesis using False by (simp add: loop content pos_def del: fork_read_loop.simps)
  next
    case True
    define a where "a = pos - start"
    define m where "m = min (n - length acc) (len - a)"
    have a: "a < len" "start + a = pos" using True Cons.prems(4) by (auto simp: a_def pos_def)
    have m: "a + m \<le> len" "0 < m" "m \<le> n - length acc" using a Cons.prems(3) by (auto simp: m_def)
    have "v_offset v + (unat (fst e) * block_size v + a) + m \<le> length dat"
      using inside m(1) by (simp add: extent_at_def)
    from read_at_ok [OF Cons.prems(1) this [unfolded dat_def]] obtain v1 where
      r: "readAt (unat (fst e) * block_size v + a) m v = (Some (slice (extent_at v e + a) m dat), v1)"
      and v1: "same_vol v v1" "img_data (v_image v1) = dat"
      by (auto simp: extent_at_def dat_def add.assoc)
    define got where "got = slice a m A"
    have got: "slice (extent_at v e + a) m dat = got" "length got = m"
      using m inside lenA by (simp_all add: got_def A_def slice_slice)
    show ?thesis
    proof (cases "m = n - length acc")
      case True
      then have "slice a (n - length acc) (A @ fork_content v es) = got"
        using m lenA by (simp add: got_def slice_append1)
      then show ?thesis using a m r got v1 True Cons.prems(3) \<open>pos < start + len\<close>
        by (simp add: loop content a_def [symmetric] pos_def [symmetric] m_def [symmetric] dat_def del: fork_read_loop.simps)
    next
      case False
      then have m': "m = len - a" by (auto simp: m_def)
      note sv = same_vol_facts [OF v1(1)]
      have "\<exists>v'. fork_read_loop (block_size v1) offset n es (start + len) (acc @ got) v1
          = ((acc @ got) @ slice (offset + length (acc @ got) - (start + len)) (n - length (acc @ got)) (fork_content v1 es), v')
        \<and> same_vol v1 v' \<and> img_data (v_image v') = img_data (v_image v1)"
        by (rule Cons.IH)
          (use Cons.prems False m m' a got lenA content sv v1 in
            \<open>auto simp: inside_image_def pos_def fork_content_def dat_def\<close>)
      moreover have "fork_content v1 es = fork_content v es" by (simp add: fork_content_def sv v1 dat_def)
      moreover have "slice a (n - length acc) (A @ fork_content v es) = got @ slice 0 (n - length (acc @ got)) (fork_content v es)"
        using slice_inner [of a A "n - length acc" "fork_content v es"] lenA a m m' got by (simp add: got_def)
      moreover have "offset + length (acc @ got) - (start + len) = 0" using a m' got(2) by (simp add: pos_def)
      moreover have "length (acc @ got) \<noteq> n" using False got(2) m by simp
      ultimately show ?thesis using a m r got v1 same_vol_trans [OF v1(1)] \<open>pos < start + len\<close>
        by (simp add: loop content a_def [symmetric] pos_def [symmetric] m_def [symmetric] dat_def sv del: fork_read_loop.simps) blast
    qed
  qed
qed

lemma overwrite_append1: "a + length ys \<le> length xs \<Longrightarrow> overwrite (xs @ zs) a ys = overwrite xs a ys @ zs"
  by (simp add: overwrite_def)

lemma overwrite_append2: "length xs \<le> a \<Longrightarrow> overwrite (xs @ zs) a ys = xs @ overwrite zs (a - length xs) ys"
  by (simp add: overwrite_def)

lemma overwrite_middle:
  "a \<le> length xs \<Longrightarrow> length xs - a = k \<Longrightarrow> k \<le> length ys \<Longrightarrow>
     overwrite (xs @ zs) a ys = overwrite xs a (take k ys) @ overwrite zs 0 (drop k ys)"
proof -
  assume a: "a \<le> length xs" "length xs - a = k" "k \<le> length ys"
  have e: "take k ys @ (drop k ys @ w) = ys @ w" for w by (metis append_assoc append_take_drop_id)
  have n: "a + length ys - length xs = length ys - k" "a + length (take k ys) = length xs" using a by auto
  show ?thesis using a n by (simp add: overwrite_def e del: length_take)
qed

definition in_area :: "vol \<Rightarrow> extent list \<Rightarrow> nat \<Rightarrow> bool" where
  "in_area v es p \<longleftrightarrow> (\<exists>e\<in>set es. extent_at v e \<le> p \<and> p < extent_at v e + extent_len v e)"

lemma extents_apart:
  assumes "distinct (fork_blocks (e # es))" and "extent_at v e \<le> p" and "p < extent_at v e + extent_len v e"
  shows "\<not> in_area v es p"
proof
  assume "in_area v es p"
  then obtain e' where e': "e' \<in> set es" "extent_at v e' \<le> p" "p < extent_at v e' + extent_len v e'" by (auto simp: in_area_def)
  let ?B = "block_size v" and ?b = "(p - v_offset v) div block_size v"
  have mine: "unat (fst x) \<le> ?b \<and> ?b < unat (fst x) + unat (snd x)"
    if "extent_at v x \<le> p" "p < extent_at v x + extent_len v x" for x
  proof -
    have "unat (fst x) * ?B \<le> p - v_offset v" "p - v_offset v < (unat (fst x) + unat (snd x)) * ?B"
      using that by (auto simp: extent_at_def extent_len_def add_mult_distrib)
    then show ?thesis
      by (metis div_le_mono div_mult_self_is_m less_mult_imp_div_less mult_0_right not_less_zero gr0I)
  qed
  have "?b \<in> set (fork_blocks es)" using mine [OF e'(2,3)] e'(1) by (fastforce simp: fork_blocks_def)
  moreover have "?b \<in> {unat (fst e)..<unat (fst e) + unat (snd e)}" using mine [OF assms(2,3)] by simp
  moreover have "set (fork_blocks es) \<inter> {unat (fst e)..<unat (fst e) + unat (snd e)} = {}"
    using assms(1) by (simp add: fork_blocks_def Int_commute)
  ultimately show False by blast
qed

lemma fork_write_nothing: "fork_write_loop bs pos es start [] v = (True, v)"
  by (cases es) auto

lemma fork_write_loop_ok:
  assumes "steady_image (v_image v)" and "inside_image v es" and "distinct (fork_blocks es)" and "start \<le> pos"
    and "pos + length dat \<le> start + length (fork_content v es)"
  shows "\<exists>v'. fork_write_loop (block_size v) pos es start dat v = (True, v') \<and> same_vol v v'
    \<and> fork_content v' es = overwrite (fork_content v es) (pos - start) dat
    \<and> (\<forall>p<length (img_data (v_image v)). \<not> in_area v es p \<longrightarrow> img_data (v_image v') ! p = img_data (v_image v) ! p)"
  using assms
proof (induction es arbitrary: pos start dat v)
  case Nil
  then have "pos + length dat \<le> start" "start \<le> pos" by (simp_all add: fork_content_def)
  then have "length dat = 0" by linarith
  then have "dat = []" by simp
  then show ?case using Nil by (simp add: fork_content_def same_vol_def)
next
  case (Cons e es)
  define img where "img = img_data (v_image v)"
  define len where "len = extent_len v e"
  define A where "A = slice (extent_at v e) len img"
  have inside: "extent_at v e + len \<le> length img" using Cons.prems(2) by (simp add: inside_image_def len_def img_def)
  have lenA: "length A = len" using inside by (simp add: A_def)
  have content: "fork_content v (e # es) = A @ fork_content v es" by (simp add: content_Cons A_def len_def img_def)
  have own: "\<not> in_area v es p" if "extent_at v e \<le> p" "p < extent_at v e + len" for p
    using extents_apart [OF Cons.prems(3)] that by (simp add: len_def)
  have es: "inside_image v es" "distinct (fork_blocks es)" using Cons.prems by (auto simp: inside_image_def fork_blocks_def)
  show ?case
  proof (cases "dat = []")
    case True
    then show ?thesis using Cons.prems(1) by (simp add: same_vol_def)
  next
    case dat: False
    have loop: "fork_write_loop (block_size v) pos (e # es) start dat v =
       (if pos < start + len then
          let put = min (length dat) (len - (pos - start)) in
          case writeAt (unat (fst e) * block_size v + (pos - start)) (take put dat) v of
            (False, v1) \<Rightarrow> (False, v1)
          | (True, v1) \<Rightarrow> fork_write_loop (block_size v) (pos + put) es (start + len) (drop put dat) v1
        else fork_write_loop (block_size v) pos es (start + len) dat v)"
      unfolding fork_write_loop.simps if_not_P [OF dat] Let_def [of "unat (snd e) * block_size v"] len_def extent_len_def
      by (rule refl)
    show ?thesis
    proof (cases "pos < start + len")
      case False
      obtain v' where v': "fork_write_loop (block_size v) pos es (start + len) dat v = (True, v')" "same_vol v v'"
        "fork_content v' es = overwrite (fork_content v es) (pos - (start + len)) dat"
        "\<forall>p<length img. \<not> in_area v es p \<longrightarrow> img_data (v_image v') ! p = img ! p"
        using Cons.IH [OF Cons.prems(1) es, of "start + len" pos dat] Cons.prems(5) False lenA content
        unfolding img_def by auto
      note sv = same_vol_facts [OF v'(2)]
      have "slice (extent_at v e) len (img_data (v_image v')) = A"
        using v'(4) own inside sv(14) by (intro nth_equalityI) (auto simp: A_def nth_slice img_def)
      then have c': "fork_content v' (e # es) = A @ fork_content v' es" by (simp add: content_Cons sv len_def)
      have "fork_content v' (e # es) = overwrite (fork_content v (e # es)) (pos - start) dat"
        unfolding c' content v'(3) using False lenA by (subst overwrite_append2) auto
      moreover have "\<forall>p<length img. \<not> in_area v (e # es) p \<longrightarrow> img_data (v_image v') ! p = img ! p"
        using v'(4) by (simp add: in_area_def)
      ultimately show ?thesis using False v'(1,2) by (simp add: loop img_def del: fork_write_loop.simps)
    next
      case True
      define a where "a = pos - start"
      define put where "put = min (length dat) (len - a)"
      have a: "a < len" "start + a = pos" using True Cons.prems(4) by (auto simp: a_def)
      have put: "a + length (take put dat) \<le> len" "length (take put dat) = put" using a by (auto simp: put_def)
      have "v_offset v + (unat (fst e) * block_size v + a) + length (take put dat) \<le> length img"
        using inside put(1) by (simp add: extent_at_def)
      from write_at_ok [OF Cons.prems(1) this [unfolded img_def]] obtain v1 where
        w: "writeAt (unat (fst e) * block_size v + a) (take put dat) v = (True, v1)" and v1: "same_vol v v1"
        and d1: "img_data (v_image v1) = overwrite img (extent_at v e + a) (take put dat)"
        by (auto simp: extent_at_def img_def add.assoc)
      note sv = same_vol_facts [OF v1]
      have fit: "extent_at v e + a + length (take put dat) \<le> length img" using inside put by linarith
      have A1: "slice (extent_at v e) len (img_data (v_image v1)) = overwrite A a (take put dat)"
        unfolding d1 A_def by (rule slice_of_overwrite [OF put(1) inside])
      have same1: "img_data (v_image v1) ! p = img ! p" if "p < length img" "\<not> (extent_at v e \<le> p \<and> p < extent_at v e + len)" for p
        unfolding d1 using that fit put by (intro overwrite_other) auto
      have C1: "fork_content v1 es = fork_content v es"
      proof -
        have "slice (extent_at v x) (extent_len v x) (img_data (v_image v1)) = slice (extent_at v x) (extent_len v x) img"
          if "x \<in> set es" for x
        proof (rule nth_equalityI)
          have ix: "extent_at v x + extent_len v x \<le> length img" using es(1) that by (simp add: inside_image_def img_def)
          then show "length (slice (extent_at v x) (extent_len v x) (img_data (v_image v1))) = length (slice (extent_at v x) (extent_len v x) img)"
            using sv(14) by (simp add: img_def)
          fix i assume "i < length (slice (extent_at v x) (extent_len v x) (img_data (v_image v1)))"
          then have i: "i < extent_len v x" using ix sv(14) by (simp add: img_def)
          then have "in_area v es (extent_at v x + i)" unfolding in_area_def by (intro bexI [OF _ that]) simp
          then have "img_data (v_image v1) ! (extent_at v x + i) = img ! (extent_at v x + i)"
            using own ix i by (intro same1) auto
          then show "slice (extent_at v x) (extent_len v x) (img_data (v_image v1)) ! i = slice (extent_at v x) (extent_len v x) img ! i"
            using ix i sv(14) by (simp add: nth_slice img_def)
        qed
        then show ?thesis by (simp add: fork_content_def sv img_def cong: map_cong)
      qed
      obtain v' where v': "fork_write_loop (block_size v) (pos + put) es (start + len) (drop put dat) v1 = (True, v')" "same_vol v1 v'"
        "fork_content v' es = overwrite (fork_content v es) 0 (drop put dat)"
        "\<forall>p<length img. \<not> in_area v es p \<longrightarrow> img_data (v_image v') ! p = img_data (v_image v1) ! p"
      proof (cases "put = length dat")
        case True
        then show ?thesis using that [of v1] fork_write_nothing same_vol_refl [OF sv(13)] by (simp add: C1)
      next
        case False
        then have z: "pos + put = start + len" using a by (auto simp: put_def)
        have "start + len + length (drop put dat) \<le> start + len + length (fork_content v1 es)"
          using Cons.prems(5) z lenA content C1 put(2) by simp
        from Cons.IH [OF sv(13) _ es(2) _ this] es(1) sv obtain v' where
          "fork_write_loop (block_size v) (start + len) es (start + len) (drop put dat) v1 = (True, v')" "same_vol v1 v'"
          "fork_content v' es = overwrite (fork_content v es) 0 (drop put dat)"
          "\<forall>p<length img. \<not> in_area v1 es p \<longrightarrow> img_data (v_image v') ! p = img_data (v_image v1) ! p"
          by (auto simp: C1 img_def)
        then show ?thesis using that [of v'] z by (simp add: in_area_def sv)
      qed
      note sv' = same_vol_facts [OF same_vol_trans [OF v1 v'(2)]]
      have "slice (extent_at v e) len (img_data (v_image v')) = slice (extent_at v e) len (img_data (v_image v1))"
        using v'(4) own inside sv(14) sv'(14) by (intro nth_equalityI) (auto simp: nth_slice img_def)
      then have "fork_content v' (e # es) = overwrite A a (take put dat) @ overwrite (fork_content v es) 0 (drop put dat)"
        using v'(3) by (simp add: content_Cons sv' A1 len_def [symmetric])
      also have "\<dots> = overwrite (A @ fork_content v es) a dat"
      proof (cases "put = length dat")
        case True
        then show ?thesis using put(1) lenA by (simp add: overwrite_append1)
      next
        case False
        then have "put = len - a" "put \<le> length dat" by (auto simp: put_def)
        then show ?thesis using overwrite_middle [of a A put dat "fork_content v es"] a lenA by simp
      qed
      finally have fin: "fork_content v' (e # es) = overwrite (fork_content v (e # es)) (pos - start) dat"
        by (simp add: content a_def)
      have "img_data (v_image v') ! p = img ! p" if "p < length img" "\<not> in_area v (e # es) p" for p
        using that v'(4) same1 [of p] by (auto simp: in_area_def len_def)
      then show ?thesis
        using fin True w v'(1) same_vol_trans [OF v1 v'(2)]
        by (simp add: loop Let_def a_def [symmetric] put_def [symmetric] img_def sv del: fork_write_loop.simps)
    qed
  qed
qed

section \<open>Reading and writing\<close>

definition fork_ok :: "vol \<Rightarrow> fork \<Rightarrow> bool" where
  "fork_ok v f \<longleftrightarrow>
     inside_image v (fk_extents f) \<and> distinct (fork_blocks (fk_extents f))
     \<and> fk_size f \<le> blocks_of (fk_extents f) * block_size v"

definition fork_bytes :: "vol \<Rightarrow> fork \<Rightarrow> bytes" where
  "fork_bytes v f = take (fk_size f) (fork_content v (fk_extents f))"

lemma length_fork_bytes: "fork_ok v f \<Longrightarrow> length (fork_bytes v f) = fk_size f"
  by (simp add: fork_ok_def fork_bytes_def length_fork_content)

lemma same_vol_fork_ok: "same_vol v v' \<Longrightarrow> fork_ok v' f = fork_ok v f"
  using same_vol_facts [of v v'] by (simp add: fork_ok_def)

lemma slice_take: "a + n \<le> m \<Longrightarrow> slice a n (take m xs) = slice a n xs"
  by (simp add: slice_def drop_take min_def)

lemma take_of_overwrite: "a + length ys \<le> m \<Longrightarrow> take m (overwrite xs a ys) = overwrite (take m xs) a ys"
  by (cases "m = a") (auto simp: overwrite_def min_def take_drop)

lemma fork_read_ok:
  assumes "steady_image (v_image v)" and "fork_ok v f" and "0 < n" and "pos + n \<le> fk_size f"
  shows "\<exists>v'. fork_read f pos n v = (slice pos n (fork_bytes v f), v') \<and> same_vol v v'
    \<and> img_data (v_image v') = img_data (v_image v)"
proof -
  have c: "length (fork_content v (fk_extents f)) = blocks_of (fk_extents f) * block_size v" "inside_image v (fk_extents f)"
    using assms(2) length_fork_content by (auto simp: fork_ok_def)
  have "pos + n \<le> 0 + length (fork_content v (fk_extents f))" using assms(2,4) c(1) by (simp add: fork_ok_def)
  from fork_read_loop_ok [OF assms(1) c(2) _ _ this, of "[]"] assms(3)
  obtain v' where "fork_read_loop (block_size v) pos n (fk_extents f) 0 [] v
      = (slice pos n (fork_content v (fk_extents f)), v')" "same_vol v v'" "img_data (v_image v') = img_data (v_image v)"
    by auto
  moreover have "min n (fk_size f - pos) = n" "\<not> fk_size f \<le> pos" using assms(3,4) by auto
  ultimately show ?thesis using assms(4) by (simp add: fork_read_def fork_bytes_def slice_take)
qed

lemma fork_write_ok:
  assumes "steady_image (v_image v)" and "fork_ok v f" and "pos + length dat \<le> fk_size f"
  shows "\<exists>v'. fork_write f pos dat v = (True, v') \<and> same_vol v v' \<and> fork_bytes v' f = overwrite (fork_bytes v f) pos dat
    \<and> (\<forall>p<length (img_data (v_image v)). \<not> in_area v (fk_extents f) p \<longrightarrow> img_data (v_image v') ! p = img_data (v_image v) ! p)"
proof -
  have c: "length (fork_content v (fk_extents f)) = blocks_of (fk_extents f) * block_size v" "inside_image v (fk_extents f)"
    "distinct (fork_blocks (fk_extents f))"
    using assms(2) length_fork_content by (auto simp: fork_ok_def)
  have "pos + length dat \<le> 0 + length (fork_content v (fk_extents f))" using assms(2,3) c(1) by (simp add: fork_ok_def)
  from fork_write_loop_ok [OF assms(1) c(2,3) _ this]
  obtain v' where "fork_write f pos dat v = (True, v')" "same_vol v v'"
    "fork_content v' (fk_extents f) = overwrite (fork_content v (fk_extents f)) pos dat"
    "\<forall>p<length (img_data (v_image v)). \<not> in_area v (fk_extents f) p \<longrightarrow> img_data (v_image v') ! p = img_data (v_image v) ! p"
    unfolding fork_write_def by auto
  then show ?thesis using assms(3) by (auto simp: fork_bytes_def take_of_overwrite)
qed

text \<open>
  C32: What \<open>Fork::write\<close> puts into a fork's extents, however they are scattered over the volume,
  \<open>Fork::read\<close> finds there again; the rest of the fork and every byte of the image outside the
  fork's extents stay as they were.
\<close>

theorem fork_round_trip:
  assumes "steady_image (v_image v)" and "fork_ok v f" and "dat \<noteq> []" and "pos + length dat \<le> fk_size f"
  shows "\<exists>v1. fork_write f pos dat v = (True, v1)
    \<and> fst (fork_read f pos (length dat) v1) = dat
    \<and> fst (fork_read f 0 (fk_size f) v1) = overwrite (fst (fork_read f 0 (fk_size f) v)) pos dat
    \<and> (\<forall>p<length (img_data (v_image v)). \<not> in_area v (fk_extents f) p \<longrightarrow> img_data (v_image v1) ! p = img_data (v_image v) ! p)"
proof -
  obtain v1 where v1: "fork_write f pos dat v = (True, v1)" "same_vol v v1"
    "fork_bytes v1 f = overwrite (fork_bytes v f) pos dat"
    "\<forall>p<length (img_data (v_image v)). \<not> in_area v (fk_extents f) p \<longrightarrow> img_data (v_image v1) ! p = img_data (v_image v) ! p"
    using fork_write_ok [OF assms(1,2,4)] by blast
  note s1 = same_vol_facts(13) [OF v1(2)]
  have ok: "fork_ok v1 f" using assms(2) same_vol_fork_ok [OF v1(2)] by simp
  have "0 < length dat" using assms(3) by simp
  then have n: "0 < length dat" "0 < fk_size f" "0 + fk_size f \<le> fk_size f" using assms(4) by linarith+
  have len: "length (fork_bytes v f) = fk_size f" "length (fork_bytes v1 f) = fk_size f"
    using assms(2) ok by (simp_all add: length_fork_bytes)
  have "fst (fork_read f pos (length dat) v1) = slice pos (length dat) (fork_bytes v1 f)"
    using fork_read_ok [OF s1 ok n(1) assms(4)] by auto
  moreover have "fst (fork_read f 0 (fk_size f) v1) = fork_bytes v1 f"
    using fork_read_ok [OF s1 ok n(2,3)] len by (auto simp: slice_full)
  moreover have "fst (fork_read f 0 (fk_size f) v) = fork_bytes v f"
    using fork_read_ok [OF assms(1,2) n(2,3)] len by (auto simp: slice_full)
  ultimately show ?thesis using v1 assms(4) len by (simp add: slice_overwrite)
qed

text \<open>A volume of sixteen blocks of four bytes, and a fork scattered over it.\<close>

definition tiny_volume :: vol where
  "tiny_volume =
     start_volume
       \<lparr>img_data = replicate 64 0, img_answers = (\<lambda>_. replicate 64 (Transfer 64)), img_next = 0, img_writable = True,
        img_size = 64, img_punch = False\<rparr>
       0 False 0 0 ((parse_header (replicate 512 0))\<lparr>vh_blockSize := 4, vh_totalBlocks := 16, vh_freeBlocks := 16\<rparr>) (\<lambda>_. 0)"

definition scattered :: fork where
  "scattered = \<lparr>fk_size = 10, fk_extents = [(5, 1), (2, 2)], fk_complete = True\<rparr>"

lemma tiny_volume_ok: "steady_image (v_image tiny_volume)" "fork_ok tiny_volume scattered"
  by (simp_all add: steady_image_def reliable_def tiny_volume_def start_volume_def fork_ok_def inside_image_def extent_at_def
      extent_len_def block_size_def fork_blocks_def blocks_of_def scattered_def list_all_iff upt_rec)

lemma fork_round_trip_witness:
  "\<exists>v1. fork_write scattered 2 [1, 2, 3, 4] tiny_volume = (True, v1) \<and> fst (fork_read scattered 2 4 v1) = [1, 2, 3, 4]"
  using fork_round_trip [OF tiny_volume_ok, of "[1, 2, 3, 4]" 2] by (auto simp: scattered_def eval_nat_numeral)

section \<open>The files of the B-trees\<close>

definition cat_disk :: "vol \<Rightarrow> bytes" where
  "cat_disk v = fork_bytes v (v_catalogFork v)"

definition cat_live :: "vol \<Rightarrow> bool" where
  "cat_live v \<longleftrightarrow> steady_image (v_image v) \<and> fork_ok v (v_catalogFork v)"

definition ext_disk :: "vol \<Rightarrow> bytes" where
  "ext_disk v = fork_bytes v (v_extentsFork v)"

definition ext_live :: "vol \<Rightarrow> bool" where
  "ext_live v \<longleftrightarrow> steady_image (v_image v) \<and> fork_ok v (v_extentsFork v)"

lemma tree_update_vol [simp]:
  "fork_bytes (v_catalog_update g v) = fork_bytes v" "fork_ok (v_catalog_update g v) = fork_ok v"
  "fork_bytes (v_extents_update g v) = fork_bytes v" "fork_ok (v_extents_update g v) = fork_ok v"
  by (simp_all add: fun_eq_iff fork_bytes_def fork_ok_def fork_content_def inside_image_def extent_at_def extent_len_def
      block_size_def)

lemma same_vol_content:
  "same_vol v v' \<Longrightarrow> img_data (v_image v') = img_data (v_image v) \<Longrightarrow> fork_bytes v' f = fork_bytes v f"
  using same_vol_facts [of v v'] by (simp add: fork_bytes_def fork_content_def)

lemma same_vol_order: "same_vol v v' \<Longrightarrow> catalogOrder v' = catalogOrder v"
  using same_vol_facts(12) [of v v'] by (simp add: fun_eq_iff catalogOrder_def compareNames_def)

interpretation cat_file: tree_file "catalog_tree grow" cat_disk cat_live for grow
proof
  fix v :: vol and n pos bs
  show "\<exists>v'. te_read (catalog_tree grow) pos n v = (slice pos n (cat_disk v), v') \<and> cat_live v' \<and> cat_disk v' = cat_disk v
      \<and> te_get (catalog_tree grow) v' = te_get (catalog_tree grow) v \<and> te_order (catalog_tree grow) v' = te_order (catalog_tree grow) v"
    if "cat_live v" "0 < n" "pos + n \<le> length (cat_disk v)"
  proof -
    have l: "steady_image (v_image v)" "fork_ok v (v_catalogFork v)" "pos + n \<le> fk_size (v_catalogFork v)"
      using that length_fork_bytes by (auto simp: cat_live_def cat_disk_def)
    from fork_read_ok [OF l(1,2) that(2) l(3)] obtain v' where
      v': "fork_read (v_catalogFork v) pos n v = (slice pos n (cat_disk v), v')" "same_vol v v'"
        "img_data (v_image v') = img_data (v_image v)"
      by (auto simp: cat_disk_def)
    then show ?thesis
      using l same_vol_facts [OF v'(2)] same_vol_fork_ok [OF v'(2)] same_vol_order [OF v'(2)] same_vol_content [OF v'(2,3)]
      by (simp add: catalog_tree_def cat_live_def cat_disk_def)
  qed
  show "\<exists>v'. te_write (catalog_tree grow) pos bs v = (True, v') \<and> cat_live v' \<and> cat_disk v' = overwrite (cat_disk v) pos bs
      \<and> te_get (catalog_tree grow) v' = te_get (catalog_tree grow) v \<and> te_order (catalog_tree grow) v' = te_order (catalog_tree grow) v"
    if "cat_live v" "pos + length bs \<le> length (cat_disk v)"
  proof -
    have l: "steady_image (v_image v)" "fork_ok v (v_catalogFork v)" "pos + length bs \<le> fk_size (v_catalogFork v)"
      using that length_fork_bytes by (auto simp: cat_live_def cat_disk_def)
    from fork_write_ok [OF l] obtain v' where
      v': "fork_write (v_catalogFork v) pos bs v = (True, v')" "same_vol v v'"
        "fork_bytes v' (v_catalogFork v) = overwrite (cat_disk v) pos bs"
      by (auto simp: cat_disk_def)
    then show ?thesis
      using l same_vol_facts [OF v'(2)] same_vol_fork_ok [OF v'(2)] same_vol_order [OF v'(2)]
      by (simp add: catalog_tree_def cat_live_def cat_disk_def)
  qed
qed (simp_all add: catalog_tree_def cat_disk_def cat_live_def fun_eq_iff catalogOrder_def compareNames_def)

interpretation ext_file: tree_file "extents_tree grow" ext_disk ext_live for grow
proof
  fix v :: vol and n pos bs
  show "\<exists>v'. te_read (extents_tree grow) pos n v = (slice pos n (ext_disk v), v') \<and> ext_live v' \<and> ext_disk v' = ext_disk v
      \<and> te_get (extents_tree grow) v' = te_get (extents_tree grow) v \<and> te_order (extents_tree grow) v' = te_order (extents_tree grow) v"
    if "ext_live v" "0 < n" "pos + n \<le> length (ext_disk v)"
  proof -
    have l: "steady_image (v_image v)" "fork_ok v (v_extentsFork v)" "pos + n \<le> fk_size (v_extentsFork v)"
      using that length_fork_bytes by (auto simp: ext_live_def ext_disk_def)
    from fork_read_ok [OF l(1,2) that(2) l(3)] obtain v' where
      v': "fork_read (v_extentsFork v) pos n v = (slice pos n (ext_disk v), v')" "same_vol v v'"
        "img_data (v_image v') = img_data (v_image v)"
      by (auto simp: ext_disk_def)
    then show ?thesis
      using l same_vol_facts [OF v'(2)] same_vol_fork_ok [OF v'(2)] same_vol_content [OF v'(2,3)]
      by (simp add: extents_tree_def ext_live_def ext_disk_def)
  qed
  show "\<exists>v'. te_write (extents_tree grow) pos bs v = (True, v') \<and> ext_live v' \<and> ext_disk v' = overwrite (ext_disk v) pos bs
      \<and> te_get (extents_tree grow) v' = te_get (extents_tree grow) v \<and> te_order (extents_tree grow) v' = te_order (extents_tree grow) v"
    if "ext_live v" "pos + length bs \<le> length (ext_disk v)"
  proof -
    have l: "steady_image (v_image v)" "fork_ok v (v_extentsFork v)" "pos + length bs \<le> fk_size (v_extentsFork v)"
      using that length_fork_bytes by (auto simp: ext_live_def ext_disk_def)
    from fork_write_ok [OF l] obtain v' where
      v': "fork_write (v_extentsFork v) pos bs v = (True, v')" "same_vol v v'"
        "fork_bytes v' (v_extentsFork v) = overwrite (ext_disk v) pos bs"
      by (auto simp: ext_disk_def)
    then show ?thesis
      using l same_vol_facts [OF v'(2)] same_vol_fork_ok [OF v'(2)]
      by (simp add: extents_tree_def ext_live_def ext_disk_def)
  qed
qed (simp_all add: extents_tree_def ext_disk_def ext_live_def)

end
