(* ===== verification/HFSP_Map.thy ===== *)
theory HFSP_Map
  imports HFSP_Fork
begin

text \<open>
  Links, the header and the node map of a B-tree file: which bytes the routines change, and that
  an allocated node is a free one that is marked used.
\<close>

section \<open>What a change leaves alone\<close>

text \<open>Only the nodes of a set were written.\<close>

definition keeps_nodes :: "'s tree_env \<Rightarrow> ('s \<Rightarrow> bytes) \<Rightarrow> ('s \<Rightarrow> bool) \<Rightarrow> u32 set \<Rightarrow> 's \<Rightarrow> 's \<Rightarrow> bool" where
  "keeps_nodes E dsk live S s s' \<longleftrightarrow>
     ready E dsk live s' \<and> node_size E s' = node_size E s \<and> in_file E dsk s' = in_file E dsk s
     \<and> length (dsk s') = length (dsk s) \<and> te_order E s' = te_order E s
     \<and> (\<forall>m. in_file E dsk s m \<longrightarrow> m \<notin> S \<longrightarrow> nodeb E dsk s' m = nodeb E dsk s m)"

lemma keeps_more:
  "keeps_nodes E dsk live S s s1 \<Longrightarrow> keeps_nodes E dsk live T s1 s2 \<Longrightarrow> S \<union> T \<subseteq> U \<Longrightarrow> keeps_nodes E dsk live U s s2"
  unfolding keeps_nodes_def by (metis UnI1 UnI2 subsetD)

lemma keeps_mono: "keeps_nodes E dsk live S s s' \<Longrightarrow> S \<subseteq> U \<Longrightarrow> keeps_nodes E dsk live U s s'"
  unfolding keeps_nodes_def by blast

lemma bare_update:
  "bare (t\<lparr>bt_freeNodes := x\<rparr>) = (bare t)\<lparr>bt_freeNodes := x\<rparr>" "bare (t\<lparr>bt_root := x\<rparr>) = (bare t)\<lparr>bt_root := x\<rparr>"
  "bare (t\<lparr>bt_depth := d\<rparr>) = (bare t)\<lparr>bt_depth := d\<rparr>" "bare (t\<lparr>bt_leafRecords := x\<rparr>) = (bare t)\<lparr>bt_leafRecords := x\<rparr>"
  "bare (t\<lparr>bt_firstLeaf := x\<rparr>) = (bare t)\<lparr>bt_firstLeaf := x\<rparr>" "bare (t\<lparr>bt_lastLeaf := x\<rparr>) = (bare t)\<lparr>bt_lastLeaf := x\<rparr>"
  by (simp_all add: bare_def)

section \<open>The map\<close>

definition map_node_ok :: "btree \<Rightarrow> bytes \<Rightarrow> u32 \<Rightarrow> nat \<Rightarrow> map_record \<Rightarrow> bool" where
  "map_node_ok t nd n cov m \<longleftrightarrow>
     (let r = (if n = 0 then 2 else 0); a = offset_at t nd r; b = offset_at t nd (r + 1) in
      kind nd = (if n = 0 then kHeaderNode else kMapNode) \<and> r < count nd
      \<and> (if n = 0 then 120 else kDescriptor) \<le> a \<and> a \<le> b \<and> b + 2 * (count nd + 1) \<le> unat (bt_nodeSize t)
      \<and> length nd = unat (bt_nodeSize t)
      \<and> m = \<lparr>mr_node = n, mr_offset = of_nat a, mr_bytes = of_nat (b - a), mr_first = of_nat cov\<rparr>)"

fun map_chain :: "(u32 \<Rightarrow> bytes) \<Rightarrow> btree \<Rightarrow> u32 \<Rightarrow> nat \<Rightarrow> map_record list \<Rightarrow> bool" where
  "map_chain nf t n cov [] = False"
| "map_chain nf t n cov (m # ms) =
     (map_node_ok t (nf n) n cov m \<and> cov + unat (mr_bytes m) * 8 < 2 ^ 32
      \<and> (if ms = [] then next_link (nf n) = 0
         else next_link (nf n) \<noteq> 0 \<and> map_chain nf t (next_link (nf n)) (cov + unat (mr_bytes m) * 8) ms))"

definition map_ok :: "'s tree_env \<Rightarrow> ('s \<Rightarrow> bytes) \<Rightarrow> 's \<Rightarrow> map_record list \<Rightarrow> bool" where
  "map_ok E dsk s ms \<longleftrightarrow>
     map_chain (nodeb E dsk s) (te_get E s) 0 0 ms \<and> length ms \<le> 4096 \<and> distinct (map mr_node ms)
     \<and> (\<forall>m\<in>set ms. in_file E dsk s (mr_node m))"

abbreviation map_nodes :: "map_record list \<Rightarrow> u32 set" where
  "map_nodes ms \<equiv> mr_node ` set ms"

text \<open>The record for a node's bit, the byte and the bit's number from the left.\<close>

definition map_for :: "map_record list \<Rightarrow> u32 \<Rightarrow> map_record option" where
  "map_for ms n = find (\<lambda>m. n < mr_first m + ucast (mr_bytes m) * 8) ms"

definition bit_pos :: "map_record \<Rightarrow> u32 \<Rightarrow> nat" where
  "bit_pos m n = unat (mr_offset m) + unat (n - mr_first m) div 8"

definition node_used :: "(u32 \<Rightarrow> bytes) \<Rightarrow> map_record list \<Rightarrow> u32 \<Rightarrow> bool" where
  "node_used nf ms n =
     (case map_for ms n of
        None \<Rightarrow> False
      | Some m \<Rightarrow> bit (nf (mr_node m) ! bit_pos m n) (7 - unat (n - mr_first m) mod 8))"

lemma map_node_facts:
  assumes "map_node_ok t nd n cov m"
  shows "unat (mr_offset m) = offset_at t nd (if n = 0 then 2 else 0)"
    and "unat (mr_bytes m) = offset_at t nd (if n = 0 then 3 else 1) - offset_at t nd (if n = 0 then 2 else 0)"
    and "mr_node m = n" and "(if n = 0 then 120 else kDescriptor) \<le> unat (mr_offset m)"
    and "unat (mr_offset m) + unat (mr_bytes m) + 2 * (count nd + 1) \<le> unat (bt_nodeSize t)"
    and "length nd = unat (bt_nodeSize t)" and "mr_first m = of_nat cov" and "2 * (count nd + 1) \<le> unat (bt_nodeSize t)"
proof -
  define r where "r = (if n = 0 then 2 else 0 :: nat)"
  define a where "a = offset_at t nd r"
  define b where "b = offset_at t nd (r + 1)"
  have le: "a \<le> b" "b + 2 * (count nd + 1) \<le> unat (bt_nodeSize t)"
    and m: "m = \<lparr>mr_node = n, mr_offset = of_nat a, mr_bytes = of_nat (b - a), mr_first = of_nat cov\<rparr>"
    and lo: "(if n = 0 then 120 else kDescriptor) \<le> a" and len: "length nd = unat (bt_nodeSize t)"
    using assms unfolding map_node_ok_def r_def a_def b_def Let_def by auto
  have lt: "a < 65536" "b - a < 65536" using le node_size_bound [of t] by linarith+
  have off: "unat (mr_offset m) = a" "unat (mr_bytes m) = b - a" using m lt by (simp_all add: unat_of_nat take_bit_nat_eq_self)
  then show "unat (mr_offset m) = offset_at t nd (if n = 0 then 2 else 0)"
    "unat (mr_bytes m) = offset_at t nd (if n = 0 then 3 else 1) - offset_at t nd (if n = 0 then 2 else 0)"
    by (simp_all add: a_def b_def r_def)
  show "mr_node m = n" "(if n = 0 then 120 else kDescriptor) \<le> unat (mr_offset m)"
    "unat (mr_offset m) + unat (mr_bytes m) + 2 * (count nd + 1) \<le> unat (bt_nodeSize t)"
    "length nd = unat (bt_nodeSize t)" "mr_first m = of_nat cov" "2 * (count nd + 1) \<le> unat (bt_nodeSize t)"
    using off le m lo len by auto
qed

text \<open>A node is a map node of the same record after bytes inside the record changed.\<close>

lemma map_node_keep:
  assumes "map_node_ok t nd n cov m" and "length nd' = length nd" and "bt_nodeSize t' = bt_nodeSize t"
    and "\<And>p. p < length nd \<Longrightarrow> p < kDescriptor \<or> unat (mr_offset m) + unat (mr_bytes m) \<le> p \<Longrightarrow> nd' ! p = nd ! p"
  shows "map_node_ok t' nd' n cov m \<and> next_link nd' = next_link nd"
proof -
  note f = map_node_facts [OF assms(1)]
  have cn: "3 \<le> count nd + 2" "0 < count nd" using assms(1) by (auto simp: map_node_ok_def Let_def)
  then have room: "kDescriptor \<le> length nd" using f by (auto split: if_splits)
  have low: "nd' ! p = nd ! p" if "p < kDescriptor" for p using assms(4) room that by simp
  have cnt: "count nd' = count nd" "kind nd' = kind nd" "next_link nd' = next_link nd"
    by (simp_all add: count_def kind_def next_link_def be16_at_def be32_at_def low)
  have off: "offset_at t' nd' j = offset_at t nd j" if "j \<le> count nd" for j
  proof -
    define q where "q = unat (bt_nodeSize t) - 2 * (j + 1)"
    have "unat (mr_offset m) + unat (mr_bytes m) \<le> q" "q + 2 \<le> length nd" using f that unfolding q_def by auto
    then have "be16_at nd' q = be16_at nd q" by (simp add: be16_at_def assms(4))
    then show ?thesis by (simp add: offset_at_def assms(3) q_def)
  qed
  have "r + 1 \<le> count nd" if "r = (if n = 0 then 2 else 0 :: nat)" for r
    using assms(1) that by (auto simp: map_node_ok_def Let_def)
  then have off2: "offset_at t' nd' r = offset_at t nd r" "offset_at t' nd' (r + 1) = offset_at t nd (r + 1)"
    if "r = (if n = 0 then 2 else 0 :: nat)" for r using that off by auto
  show ?thesis using assms(1) off2 [OF refl] cnt unfolding map_node_ok_def Let_def by (simp add: assms(2,3))
qed

lemma map_chain_keep:
  assumes "map_chain nf t n cov ms" and "bt_nodeSize t' = bt_nodeSize t"
    and "\<And>m. m \<in> set ms \<Longrightarrow> length (nf' (mr_node m)) = length (nf (mr_node m))"
    and "\<And>m p. m \<in> set ms \<Longrightarrow> p < length (nf (mr_node m)) \<Longrightarrow>
        p < kDescriptor \<or> unat (mr_offset m) + unat (mr_bytes m) \<le> p \<Longrightarrow> nf' (mr_node m) ! p = nf (mr_node m) ! p"
  shows "map_chain nf' t' n cov ms"
  using assms(1,3,4)
proof (induction ms arbitrary: n cov)
  case (Cons m ms)
  have mn: "mr_node m = n" using Cons.prems(1) map_node_facts(3) by fastforce
  have "map_node_ok t' (nf' n) n cov m \<and> next_link (nf' n) = next_link (nf n)"
  proof (rule map_node_keep)
    show "map_node_ok t (nf n) n cov m" using Cons.prems(1) by simp
    show "length (nf' n) = length (nf n)" using Cons.prems(2) [of m] mn by simp
    show "nf' n ! p = nf n ! p" if "p < length (nf n)" "p < kDescriptor \<or> unat (mr_offset m) + unat (mr_bytes m) \<le> p" for p
      using Cons.prems(3) [of m p] mn that by simp
  qed (rule assms(2))
  then show ?case using Cons by auto
qed simp

text \<open>Along the chain the records cover consecutive node numbers.\<close>

lemma map_chain_covers:
  assumes "map_chain nf t n0 cov ms" and "m \<in> set ms"
  shows "\<exists>c n. cov \<le> c \<and> c + unat (mr_bytes m) * 8 < 2 ^ 32 \<and> map_node_ok t (nf n) n c m"
  using assms
proof (induction ms arbitrary: n0 cov)
  case (Cons x xs)
  show ?case
  proof (cases "m = x")
    case True
    then show ?thesis using Cons.prems by (auto intro: exI [of _ cov])
  next
    case False
    then have "m \<in> set xs" "map_chain nf t (next_link (nf n0)) (cov + unat (mr_bytes x) * 8) xs"
      using Cons.prems by (auto split: if_splits)
    from Cons.IH [OF this(2,1)] show ?thesis by (meson add_leE)
  qed
qed simp

lemma first_bytes:
  assumes "c + unat b * 8 < 2 ^ 32"
  shows "unat (of_nat c + ucast (b :: u16) * 8 :: u32) = c + unat b * 8" and "unat (of_nat c :: u32) = c"
proof -
  have c: "c < 2 ^ 32" using assms by simp
  then show c': "unat (of_nat c :: u32) = c" by (simp add: unat_of_nat take_bit_nat_eq_self)
  have "(of_nat c + ucast b * 8 :: u32) = of_nat (c + unat b * 8)" by simp
  show "unat (of_nat c + ucast (b :: u16) * 8 :: u32) = c + unat b * 8"
    unfolding \<open>_ = of_nat (c + unat b * 8)\<close>
    using assms by (simp add: unat_of_nat take_bit_nat_eq_self del: of_nat_add of_nat_mult)
qed

lemma map_for_range:
  assumes "map_chain nf t n0 cov ms" and "cov \<le> unat n" and "map_for ms n = Some m"
  shows "\<exists>c. map_node_ok t (nf (mr_node m)) (mr_node m) c m \<and> c \<le> unat n \<and> unat n < c + unat (mr_bytes m) * 8
    \<and> c + unat (mr_bytes m) * 8 < 2 ^ 32"
  using assms
proof (induction ms arbitrary: n0 cov)
  case (Cons x xs)
  have x: "map_node_ok t (nf n0) n0 cov x" "cov + unat (mr_bytes x) * 8 < 2 ^ 32" using Cons.prems(1) by auto
  then have xf: "mr_node x = n0" "mr_first x = of_nat cov" using map_node_facts(3,7) by blast+
  have e: "n < mr_first x + ucast (mr_bytes x) * 8 \<longleftrightarrow> unat n < cov + unat (mr_bytes x) * 8"
    using first_bytes(1) [OF x(2)] by (simp add: word_less_nat_alt xf)
  show ?case
  proof (cases "unat n < cov + unat (mr_bytes x) * 8")
    case True
    then have "m = x" using Cons.prems(3) e by (simp add: map_for_def)
    then show ?thesis using True Cons.prems(2) x xf by auto
  next
    case False
    then have "map_for xs n = Some m" using Cons.prems(3) e by (simp add: map_for_def)
    then have "xs \<noteq> []" by (auto simp: map_for_def)
    then have "map_chain nf t (next_link (nf n0)) (cov + unat (mr_bytes x) * 8) xs" using Cons.prems(1) by auto
    with Cons.IH \<open>map_for xs n = Some m\<close> False show ?thesis by auto
  qed
qed (simp add: map_for_def)

lemma map_for_in: "map_for ms n = Some m \<Longrightarrow> m \<in> set ms"
  by (auto simp: map_for_def find_Some_iff)

lemma bit_pos_range:
  assumes "map_chain nf t 0 0 ms" and "map_for ms n = Some m"
  shows "unat (mr_offset m) \<le> bit_pos m n" and "bit_pos m n < unat (mr_offset m) + unat (mr_bytes m)"
    and "bit_pos m n < length (nf (mr_node m))" and "kDescriptor \<le> bit_pos m n" and "mr_node m = 0 \<Longrightarrow> 120 \<le> bit_pos m n"
    and "bit_pos m n + 4 \<le> length (nf (mr_node m))"
    and "map_for ms n' = Some m \<Longrightarrow> bit_pos m n' = bit_pos m n \<Longrightarrow>
      unat (n' - mr_first m) mod 8 = unat (n - mr_first m) mod 8 \<Longrightarrow> n' = n"
proof -
  obtain c where c: "map_node_ok t (nf (mr_node m)) (mr_node m) c m" "c \<le> unat n" "unat n < c + unat (mr_bytes m) * 8"
    "c + unat (mr_bytes m) * 8 < 2 ^ 32"
    using map_for_range [OF assms(1) _ assms(2)] by auto
  note f = map_node_facts [OF c(1)]
  have first: "unat (mr_first m) = c" using f(7) first_bytes(2) [OF c(4)] by simp
  have d: "unat (n - mr_first m) = unat n - c" using first c(2) by (subst unat_sub_le) (auto simp: word_le_nat_alt)
  show "unat (mr_offset m) \<le> bit_pos m n" by (simp add: bit_pos_def)
  show lt: "bit_pos m n < unat (mr_offset m) + unat (mr_bytes m)" using d c(2,3) by (simp add: bit_pos_def)
  show "bit_pos m n < length (nf (mr_node m))" "bit_pos m n + 4 \<le> length (nf (mr_node m))"
    using lt f(5,6) c(1) by (auto simp: map_node_ok_def Let_def)
  show "kDescriptor \<le> bit_pos m n" "mr_node m = 0 \<Longrightarrow> 120 \<le> bit_pos m n"
    using f(4) by (auto simp: bit_pos_def split: if_splits)
  assume n': "map_for ms n' = Some m" "bit_pos m n' = bit_pos m n"
    "unat (n' - mr_first m) mod 8 = unat (n - mr_first m) mod 8"
  then have "unat (n' - mr_first m) = unat (n - mr_first m)"
    unfolding bit_pos_def by (metis add_left_cancel div_mult_mod_eq)
  then have "n' - mr_first m = n - mr_first m" by (rule unsigned_word_eqI)
  then show "n' = n" by simp
qed

text \<open>Changing a node's bit in its byte changes its bit only.\<close>

lemma node_used_set:
  assumes "map_chain nf t 0 0 ms" and "distinct (map mr_node ms)" and "map_for ms n = Some m"
    and "nf' (mr_node m) = (nf (mr_node m))[bit_pos m n :=
        if used then nf (mr_node m) ! bit_pos m n OR drop_bit (unat (n - mr_first m) mod 8) 0x80
        else nf (mr_node m) ! bit_pos m n AND NOT (drop_bit (unat (n - mr_first m) mod 8) 0x80)]"
    and "\<And>x. x \<in> set ms \<Longrightarrow> x \<noteq> m \<Longrightarrow> nf' (mr_node x) = nf (mr_node x)"
  shows "node_used nf' ms n' = (if n' = n then used else node_used nf ms n')"
proof (cases "map_for ms n'")
  case None
  then show ?thesis using assms(3) by (auto simp: node_used_def)
next
  case (Some m')
  show ?thesis
  proof (cases "m' = m")
    case False
    then have "n' \<noteq> n" using Some assms(3) by auto
    then show ?thesis using Some False assms(5) map_for_in [OF Some] by (simp add: node_used_def)
  next
    case True
    let ?k = "unat (n - mr_first m) mod 8" and ?j = "unat (n' - mr_first m) mod 8"
    note r = bit_pos_range [OF assms(1,3)]
    have k: "?k < 8" "?j < 8" by simp_all
    show ?thesis
    proof (cases "bit_pos m n' = bit_pos m n")
      case True
      then have "n' = n \<longleftrightarrow> ?j = ?k" using r(7) Some \<open>m' = m\<close> by auto
      then show ?thesis
        using Some \<open>m' = m\<close> True r(3) bit_mask_simps [OF k] by (auto simp: node_used_def assms(4))
    next
      case False
      then show ?thesis using Some \<open>m' = m\<close> by (auto simp: node_used_def assms(4))
    qed
  qed
qed

section \<open>Allocating nodes\<close>

lemma first_zero_facts:
  assumes "b \<noteq> 0xFF"
  shows "first_zero b < 8" and "\<not> bit b (7 - first_zero b)" and "k < first_zero b \<Longrightarrow> bit b (7 - k)"
proof -
  let ?P = "\<lambda>k. b AND drop_bit k 0x80 = 0"
  have P: "?P k \<longleftrightarrow> \<not> bit b (7 - k)" if "k < 8" for k using mask_bit [OF that] by blast
  obtain j where j: "j < 8" "\<not> bit b (7 - j)" using assms all_bits by blast
  then have "find ?P [0..<8] \<noteq> None" using P by (auto simp: find_None_iff)
  then obtain i where f: "find ?P [0..<8] = Some i" by blast
  then have "first_zero b = i" by (simp add: first_zero_def)
  moreover have "i < 8" "?P i" "\<forall>k<i. \<not> ?P k" using f by (auto simp: find_Some_iff)
  ultimately have i: "first_zero b = i" "i < 8" "?P i" "\<forall>k<i. \<not> ?P k" by blast+
  then show "first_zero b < 8" "\<not> bit b (7 - first_zero b)" using P by auto
  show "bit b (7 - k)" if "k < first_zero b" using i P [of k] that by auto
qed

lemma scan_bytes_ok:
  assumes "unat (mr_first m) = c" and "c + 8 * b < 2 ^ 32"
  shows "case scan_bytes nodes m nd [i..<b] of
      Some n \<Rightarrow> \<exists>x<8 * b. unat n = c + x \<and> n < nodes \<and> \<not> bit (nd ! (unat (mr_offset m) + x div 8)) (7 - x mod 8)
    | None \<Rightarrow> \<forall>x<8 * b. 8 * i \<le> x \<longrightarrow> c + x < unat nodes \<longrightarrow> bit (nd ! (unat (mr_offset m) + x div 8)) (7 - x mod 8)"
proof (induction "b - i" arbitrary: i)
  case 0
  then show ?case by simp
next
  case (Suc d)
  then have i: "i < b" "[i..<b] = i # [Suc i..<b]" by (auto simp: upt_conv_Cons)
  let ?byte = "nd ! (unat (mr_offset m) + i)"
  have small: "c + 8 * i + 8 < 2 ^ 32" using i assms(2) by simp
  have f: "(mr_first m + of_nat i * 8 :: u32) = of_nat (c + 8 * i)" by (simp flip: assms(1))
  have uf: "unat (mr_first m + of_nat i * 8 :: u32) = c + 8 * i"
    unfolding f using small by (simp add: unat_of_nat take_bit_nat_eq_self del: of_nat_add of_nat_mult)
  have un: "unat (mr_first m + of_nat i * 8 + of_nat k :: u32) = c + 8 * i + k" if "k < 8" for k
  proof -
    have "(mr_first m + of_nat i * 8 + of_nat k :: u32) = of_nat (c + 8 * i + k)" unfolding f by simp
    then show ?thesis using small that by (simp add: unat_of_nat take_bit_nat_eq_self del: of_nat_add of_nat_mult)
  qed
  show ?case
  proof (cases "c + 8 * i < unat nodes")
    case False
    then have "\<not> mr_first m + of_nat i * 8 < nodes" by (simp add: word_less_nat_alt uf)
    then show ?thesis using False by (simp add: i)
  next
    case True
    then have lt: "mr_first m + of_nat i * 8 < nodes" by (simp add: word_less_nat_alt uf)
    show ?thesis
    proof (cases "?byte = 0xFF")
      case True
      have here: "bit (nd ! (unat (mr_offset m) + x div 8)) (7 - x mod 8)" if "8 * i \<le> x" "x < 8 * Suc i" for x
      proof -
        have "x div 8 = i" using that by (intro div_nat_eqI) auto
        then show ?thesis using True all_bits [of ?byte] by simp
      qed
      have e: "scan_bytes nodes m nd [i..<b] = scan_bytes nodes m nd [Suc i..<b]" using lt True by (simp add: i Let_def)
      have "d = b - Suc i" using Suc.hyps(2) by simp
      note rest = Suc.hyps(1) [OF this]
      show ?thesis
      proof (cases "scan_bytes nodes m nd [Suc i..<b]")
        case None
        then have "bit (nd ! (unat (mr_offset m) + x div 8)) (7 - x mod 8)"
          if "x < 8 * b" "8 * i \<le> x" "c + x < unat nodes" for x
          using here [of x] rest that by (cases "x < 8 * Suc i") auto
        then show ?thesis using None by (simp add: e)
      qed (use rest e in simp)
    next
      case False
      note z = first_zero_facts [OF False]
      define k where "k = first_zero ?byte"
      have k: "k < 8" "\<not> bit ?byte (7 - k)" using z by (simp_all add: k_def)
      have x: "(8 * i + k) div 8 = i" "(8 * i + k) mod 8 = k" "8 * i + k < 8 * b" using k(1) i(1) by auto
      have step: "scan_bytes nodes m nd [i..<b] = (if nodes \<le> mr_first m + of_nat i * 8 + of_nat k then None
          else Some (mr_first m + of_nat i * 8 + of_nat k))"
        using lt False by (simp add: i Let_def k_def)
      show ?thesis
      proof (cases "nodes \<le> mr_first m + of_nat i * 8 + of_nat k")
        case True
        then have le: "unat nodes \<le> c + 8 * i + k" by (simp add: word_le_nat_alt un [OF k(1)])
        have "bit (nd ! (unat (mr_offset m) + x div 8)) (7 - x mod 8)" if "8 * i \<le> x" "c + x < unat nodes" for x
        proof -
          have "x - 8 * i < k" using that le by linarith
          moreover have d: "x div 8 = i" using that(1) \<open>x - 8 * i < k\<close> k(1) by (intro div_nat_eqI) auto
          moreover have "x mod 8 = x - 8 * i" using d by (simp add: minus_mult_div_eq_mod [symmetric])
          ultimately show ?thesis using z(3) [of "x - 8 * i"] by (simp only: k_def)
        qed
        then show ?thesis using True by (simp add: step)
      next
        case False
        then show ?thesis using k x un [OF k(1)] by (auto simp: step not_le intro!: exI [of _ "8 * i + k"])
      qed
    qed
  qed
qed

lemma map_for_first:
  assumes "map_chain nf t n0 cov ms" and "m \<in> set ms" and "unat (mr_first m) \<le> unat n"
    and "unat n < unat (mr_first m) + unat (mr_bytes m) * 8"
  shows "map_for ms n = Some m"
  using assms
proof (induction ms arbitrary: n0 cov)
  case (Cons x xs)
  have x: "map_node_ok t (nf n0) n0 cov x" "cov + unat (mr_bytes x) * 8 < 2 ^ 32" using Cons.prems(1) by auto
  then have xf: "mr_first x = of_nat cov" using map_node_facts(7) by blast
  have e: "n < mr_first x + ucast (mr_bytes x) * 8 \<longleftrightarrow> unat n < cov + unat (mr_bytes x) * 8"
    using first_bytes(1) [OF x(2)] by (simp add: word_less_nat_alt xf)
  show ?case
  proof (cases "m = x")
    case True
    then show ?thesis using e Cons.prems(4) first_bytes(2) [OF x(2)] xf by (simp add: map_for_def)
  next
    case False
    then have m: "m \<in> set xs" and ch: "map_chain nf t (next_link (nf n0)) (cov + unat (mr_bytes x) * 8) xs"
      using Cons.prems by (auto split: if_splits)
    obtain c n' where c: "cov + unat (mr_bytes x) * 8 \<le> c" "c + unat (mr_bytes m) * 8 < 2 ^ 32" "map_node_ok t (nf n') n' c m"
      using map_chain_covers [OF ch m] by blast
    have "unat (mr_first m) = c" using map_node_facts(7) [OF c(3)] first_bytes(2) [OF c(2)] by simp
    then have "\<not> n < mr_first x + ucast (mr_bytes x) * 8" using e c(1) Cons.prems(3) by linarith
    then have "map_for (x # xs) n = map_for xs n" by (simp add: map_for_def)
    then show ?thesis using Cons.IH [OF ch m Cons.prems(3,4)] by simp
  qed
qed simp

section \<open>Running the routines\<close>

context tree_file begin

abbreviation kp where "kp \<equiv> keeps_nodes E dsk live"

lemma keeps_facts:
  assumes "kp S s s'"
  shows "rdy s'" "node_size E s' = node_size E s" "inside s' = inside s" "length (dsk s') = length (dsk s)"
    "te_order E s' = te_order E s" "inside s m \<Longrightarrow> m \<notin> S \<Longrightarrow> at_node s' m = at_node s m"
  using assms by (auto simp: keeps_nodes_def)

lemma view_keeps: "view s s' \<Longrightarrow> rdy s' \<Longrightarrow> kp {} s s'"
  using view_facts [of s s'] by (simp add: keeps_nodes_def)

lemma update_keeps:
  assumes "rdy s" and "bt_nodeSize (f (tree s)) = bt_nodeSize (tree s)" and "bt_cache (f (tree s)) = bt_cache (tree s)"
  shows "kp {} s (te_upd E f s)" and "bare (tree (te_upd E f s)) = bare (f (tree s))"
proof -
  have n: "node_size E (te_upd E f s) = node_size E s" by (simp add: node_size_def upd_laws assms(2))
  have "at_node (te_upd E f s) = at_node s" "inside (te_upd E f s) = inside s"
    by (simp_all add: fun_eq_iff nodeb_def in_file_def n upd_laws)
  then show "kp {} s (te_upd E f s)"
    using assms n by (auto simp: keeps_nodes_def ready_def cache_ok_def upd_laws)
qed (simp add: upd_laws)

lemma write_cached_keeps:
  assumes "rdy s" and "inside s n" and "length buf = node_size E s"
  shows "\<exists>s'. write_cached E n buf s = (Inr (), s') \<and> kp {n} s s' \<and> bare (tree s') = bare (tree s) \<and> at_node s' n = buf"
proof -
  obtain s' where s': "write_cached E n buf s = (Inr (), s')" "rdy s'" "bare (tree s') = bare (tree s)"
    "te_order E s' = te_order E s" "length (dsk s') = length (dsk s)" "inside s' = inside s" "at_node s' n = buf"
    "\<forall>m. inside s m \<longrightarrow> m \<noteq> n \<longrightarrow> at_node s' m = at_node s m"
    using write_cached_ok [OF assms] by blast
  have "node_size E s' = node_size E s" using node_fun_cong(10) [OF s'(3)] by (simp add: node_size_def)
  then show ?thesis using s' by (intro exI [of _ s']) (simp add: keeps_nodes_def)
qed

lemma node_keeps:
  assumes "rdy s" and "inside s n"
  shows "\<exists>s'. node E n s = (Some (at_node s n), s') \<and> kp {} s s' \<and> bare (tree s') = bare (tree s) \<and> at_node s' = at_node s"
  using node_read [OF assms] view_keeps view_facts by blast

lemma setLinks_ok:
  assumes "rdy s" and "inside s n" and "8 \<le> node_size E s"
  shows "\<exists>s'. setLinks E n fl bl s = (Inr (), s') \<and> kp {n} s s' \<and> bare (tree s') = bare (tree s)
    \<and> at_node s' n = (case bl of Some l \<Rightarrow> put32_at 4 l | None \<Rightarrow> id) ((case fl of Some l \<Rightarrow> put32_at 0 l | None \<Rightarrow> id) (at_node s n))"
proof -
  obtain s1 where r: "node E n s = (Some (at_node s n), s1)" and k: "kp {} s s1" and b: "bare (tree s1) = bare (tree s)"
    using node_keeps [OF assms(1,2)] by blast
  note f = keeps_facts [OF k]
  define buf where "buf = (case bl of Some l \<Rightarrow> put32_at 4 l | None \<Rightarrow> id) ((case fl of Some l \<Rightarrow> put32_at 0 l | None \<Rightarrow> id) (at_node s n))"
  have "length buf = node_size E s1" using assms f node_length [of s n] by (simp add: buf_def split: option.splits)
  from write_cached_keeps [OF f(1) _ this, of n] assms(2) f(3) obtain s2 where
    w: "write_cached E n buf s1 = (Inr (), s2)" "kp {n} s1 s2" "bare (tree s2) = bare (tree s1)" "at_node s2 n = buf" by auto
  have "kp {n} s s2" using keeps_more [OF k w(2)] by blast
  moreover have "setLinks E n fl bl s = (Inr (), s2)"
    using r w(1) by (simp add: setLinks_def op_simps buf_def Let_def split: option.splits)
  ultimately show ?thesis using w b buf_def by auto
qed

text \<open>The bytes of the header record \<open>writeHeader\<close> writes.\<close>

lemma writeHeader_ok:
  assumes "rdy s" and "inside s 0" and "44 \<le> node_size E s"
  shows "\<exists>s'. writeHeader E s = (Inr (), s') \<and> kp {0} s s' \<and> bare (tree s') = bare (tree s)
    \<and> length (at_node s' 0) = length (at_node s 0)
    \<and> (\<forall>p<node_size E s. p < 14 \<or> 44 \<le> p \<longrightarrow> at_node s' 0 ! p = at_node s 0 ! p)"
proof -
  obtain s1 where r: "node E 0 s = (Some (at_node s 0), s1)" and k: "kp {} s s1" and b: "bare (tree s1) = bare (tree s)"
    using node_keeps [OF assms(1,2)] by blast
  note f = keeps_facts [OF k]
  define t where "t = tree s1"
  define buf where "buf = put32_at 40 (bt_freeNodes t) (put32_at 36 (bt_totalNodes t) (put32_at 28 (bt_lastLeaf t)
     (put32_at 24 (bt_firstLeaf t) (put32_at 20 (bt_leafRecords t) (put32_at 16 (bt_root t) (put16_at 14 (bt_depth t) (at_node s 0)))))))"
  have l0: "length (at_node s 0) = node_size E s" using assms(2) by (rule node_length)
  then have len: "length buf = node_size E s1" using assms(3) f(2) by (simp add: buf_def)
  from write_cached_keeps [OF f(1) _ len, of 0] assms(2) f(3) obtain s2 where
    w: "write_cached E 0 buf s1 = (Inr (), s2)" "kp {0} s1 s2" "bare (tree s2) = bare (tree s1)" "at_node s2 0 = buf" by auto
  have "kp {0} s s2" using keeps_more [OF k w(2)] by blast
  moreover have "writeHeader E s = (Inr (), s2)"
    using r w(1) by (simp add: writeHeader_def op_simps buf_def t_def)
  moreover have "buf ! p = at_node s 0 ! p" if "p < node_size E s" "p < 14 \<or> 44 \<le> p" for p
    using that assms(3) l0 unfolding buf_def put16_at_def put32_at_def by (auto simp: overwrite_other)
  ultimately show ?thesis using w b l0 len f(2) by auto
qed

lemma map_loop_ok:
  assumes "map_chain nf (tree s) n cov ms" and "length ms \<le> guard" and "rdy s" and "\<forall>m\<in>set ms. inside s (mr_node m)"
    and "nf = at_node s"
  shows "\<exists>s'. map_loop E guard n (of_nat cov) s = (Some ms, s') \<and> view s s' \<and> rdy s'"
  using assms
proof (induction ms arbitrary: guard n cov s)
  case (Cons m ms)
  obtain g where g: "guard = Suc g" using Cons.prems(2) by (cases guard) auto
  let ?nd = "at_node s n"
  have mo: "map_node_ok (tree s) ?nd n cov m" and link: "if ms = [] then next_link ?nd = 0
      else next_link ?nd \<noteq> 0 \<and> map_chain nf (tree s) (next_link ?nd) (cov + unat (mr_bytes m) * 8) ms"
    using Cons.prems(1,5) by auto
  have "inside s n" using Cons.prems(4) map_node_facts(3) [OF mo] by simp
  from node_read [OF Cons.prems(3) this] obtain s1 where r: "node E n s = (Some ?nd, s1)" "view s s1" "rdy s1" by blast
  note v = view_facts [OF r(2)] and c = view_tree [OF r(2)]
  define k where "k = (if n = 0 then 2 else 0 :: nat)"
  define a where "a = offset_at (tree s) ?nd k"
  define b where "b = offset_at (tree s) ?nd (k + 1)"
  have k: "(if kind ?nd = kHeaderNode then 2 else 0) = k" "n \<noteq> 0 \<longrightarrow> kind ?nd = kMapNode" "k < count ?nd"
    "a \<le> b" "b \<le> unat (bt_nodeSize (tree s))" "m = \<lparr>mr_node = n, mr_offset = of_nat a, mr_bytes = of_nat (b - a), mr_first = of_nat cov\<rparr>"
    using mo by (auto simp: map_node_ok_def Let_def k_def a_def b_def)
  have step: "map_loop E guard n (of_nat cov) s =
     (if next_link ?nd = 0 then (Some [m], s1)
      else case map_loop E g (next_link ?nd) (of_nat cov + of_nat (b - a) * 8) s1 of
        (None, s2) \<Rightarrow> (None, s2)
      | (Some ms, s2) \<Rightarrow> (Some (m # ms), s2))"
    unfolding g map_loop.simps r(1) prod.case option.case Let_def c k(1) a_def [symmetric] b_def [symmetric] k(6) [symmetric]
    using k by auto
  show ?case
  proof (cases "ms = []")
    case True
    then show ?thesis using link r step by auto
  next
    case False
    have "unat (mr_bytes m) = b - a" using map_node_facts(2) [OF mo] by (simp add: a_def b_def k_def)
    then have cov: "(of_nat (cov + unat (mr_bytes m) * 8) :: u32) = of_nat cov + of_nat (b - a) * 8" by simp
    have ch: "map_chain nf (tree s1) (next_link ?nd) (cov + unat (mr_bytes m) * 8) ms"
      using link False map_chain_keep [of nf "tree s" _ _ ms "tree s1" nf] c by auto
    obtain s2 where "map_loop E g (next_link ?nd) (of_nat cov + of_nat (b - a) * 8) s1 = (Some ms, s2)" "view s1 s2" "rdy s2"
      using Cons.IH [OF ch _ r(3)] Cons.prems(2,4,5) g v unfolding cov by auto
    then show ?thesis using link False step r view_trans by auto
  qed
qed simp

lemma mapRecords_ok:
  assumes "rdy s" and "map_ok E dsk s ms"
  shows "\<exists>s'. mapRecords E s = (Some ms, s') \<and> view s s' \<and> rdy s'"
  using map_loop_ok [of "at_node s" s 0 0 ms 4096] assms unfolding mapRecords_def map_ok_def by auto

lemma mapBit_ok:
  assumes "rdy s" and "map_ok E dsk s ms" and "map_for ms n = Some m"
  shows "\<exists>s'. mapBit E n s = (Some (unat (mr_node m) * node_size E s + bit_pos m n, drop_bit (unat (n - mr_first m) mod 8) 0x80), s')
    \<and> view s s' \<and> rdy s'"
proof -
  obtain s1 where "mapRecords E s = (Some ms, s1)" "view s s1" "rdy s1" using mapRecords_ok [OF assms(1,2)] by blast
  then show ?thesis using assms(3) view_facts(1) [of s s1]
    by (auto simp: mapBit_def map_for_def bit_pos_def Let_def)
qed

text \<open>One byte of a node written to the file and in the cache.\<close>

lemma byte_write_ok:
  assumes "rdy s" and "inside s n" and "p < node_size E s"
  shows "\<exists>s1 s'. te_write E (unat n * node_size E s + p) [b] s = (True, s1)
    \<and> s' = upd_cache E (cache_set n ((at_node s n)[p := b])) s1
    \<and> kp {n} s s' \<and> bare (tree s') = bare (tree s) \<and> at_node s' n = (at_node s n)[p := b]"
proof -
  let ?N = "node_size E s" and ?buf = "(at_node s n)[p := b]"
  have le: "unat n * ?N + p + length [b] \<le> length (dsk s)" using assms(2,3) by (simp add: in_file_def)
  obtain s1 where w: "te_write E (unat n * ?N + p) [b] s = (True, s1)"
    and s1: "live s1" "dsk s1 = overwrite (dsk s) (unat n * ?N + p) [b]" "tree s1 = tree s" "te_order E s1 = te_order E s"
    using write_ok [OF _ _ le] assms(1) by (auto simp: ready_def)
  have "overwrite (at_node s n) p [b] = ?buf"
    using node_length [OF assms(2)] assms(3) by (intro nth_equalityI) (auto simp: nth_overwrite nth_list_update)
  moreover have "nodeb E dsk s1 n = overwrite (at_node s n) p [b]"
    using slice_of_overwrite [of p "[b]" ?N "unat n * ?N" "dsk s"] assms(2,3)
    by (simp add: nodeb_def node_size_def s1 in_file_def)
  ultimately have nb: "nodeb E dsk s1 n = ?buf" by simp
  have other: "nodeb E dsk s1 m = at_node s m" if "inside s m" "m \<noteq> n" for m
  proof -
    have "unat m \<noteq> unat n" using that by (auto dest: unsigned_word_eqI)
    then have "unat m * ?N + ?N \<le> unat n * ?N + p \<or> unat n * ?N + p + length [b] \<le> unat m * ?N"
      using slices_apart [of "unat m" "unat n" ?N] assms(3) by auto
    from slice_overwrite_other [OF le _ this] that(1) show ?thesis
      by (simp add: nodeb_def node_size_def s1 in_file_def)
  qed
  have len: "length (dsk s1) = length (dsk s)" using le by (simp add: s1(2))
  have ins: "inside s1 = inside s" by (simp add: fun_eq_iff in_file_def node_size_def s1(3) len)
  define s' where "s' = upd_cache E (cache_set n ?buf) s1"
  have t': "tree s' = (tree s)\<lparr>bt_cache := cache_set n ?buf (bt_cache (tree s))\<rparr>" "dsk s' = dsk s1" "live s'"
    "te_order E s' = te_order E s"
    using s1 by (simp_all add: s'_def upd_cache_def upd_laws)
  have ns: "node_size E s' = ?N" by (simp add: node_size_def t')
  have at: "at_node s' = at_node s1" "inside s' = inside s1"
    by (simp_all add: fun_eq_iff nodeb_def in_file_def t' node_size_def s1)
  have "cache_ok E dsk s'"
    unfolding cache_ok_def
  proof clarify
    fix m c
    assume "(m, c) \<in> set (bt_cache (tree s'))"
    then have "(m = n \<and> c = ?buf) \<or> (m \<noteq> n \<and> (m, c) \<in> set (bt_cache (tree s)))"
      by (auto simp: t' cache_set_def split: if_splits)
    moreover have "\<forall>(m, c)\<in>set (bt_cache (tree s)). inside s m \<and> c = at_node s m"
      using assms(1) by (simp add: ready_def cache_ok_def)
    ultimately show "inside s' m \<and> c = at_node s' m" using at ins nb other assms(2) by auto
  qed
  then have "kp {n} s s'" using assms(1) t' ns at ins other len by (simp add: keeps_nodes_def ready_def)
  then show ?thesis using w nb at t' s'_def by auto
qed

lemma map_zero:
  assumes "map_ok E dsk s ms"
  shows "0 \<in> map_nodes ms" and "inside s 0" and "44 \<le> node_size E s"
proof -
  obtain m ms' where ms: "ms = m # ms'" using assms by (cases ms) (auto simp: map_ok_def)
  then have "map_node_ok (tree s) (at_node s 0) 0 0 m" using assms by (simp add: map_ok_def)
  note f = map_node_facts [OF this]
  show "0 \<in> map_nodes ms" using f(3) by (force simp: ms)
  then show "inside s 0" using assms by (auto simp: map_ok_def)
  show "44 \<le> node_size E s" using f(4,5) by (simp add: node_size_def)
qed

lemma setMapBit_ok:
  assumes "rdy s" and "map_ok E dsk s ms" and "map_for ms n = Some m"
  shows "\<exists>s'. setMapBit E n used s = (Inr (), s') \<and> kp (map_nodes ms) s s' \<and> bare (tree s') = bare (tree s)
    \<and> map_ok E dsk s' ms \<and> (\<forall>n'. node_used (at_node s') ms n' = (if n' = n then used else node_used (at_node s) ms n'))"
proof -
  let ?N = "node_size E s" and ?n = "mr_node m" and ?p = "bit_pos m n" and ?mask = "drop_bit (unat (n - mr_first m) mod 8) 0x80 :: u8"
  define at where "at = unat ?n * ?N + ?p"
  have m: "m \<in> set ms" using assms(3) by (rule map_for_in)
  have link: "map_chain (at_node s) (tree s) 0 0 ms" and ins: "inside s ?n" and dist: "distinct (map mr_node ms)"
    using assms(2) m by (auto simp: map_ok_def)
  note range = bit_pos_range [OF link assms(3)]
  have p: "?p < ?N" using range(3) node_length [OF ins] by simp
  obtain s1 where mb: "mapBit E n s = (Some (at, ?mask), s1)" "view s s1" "rdy s1"
    using mapBit_ok [OF assms] unfolding at_def by blast
  note v1 = view_facts [OF mb(2)]
  obtain s2 where nd: "node E ?n s1 = (Some (at_node s ?n), s2)" "view s1 s2" "rdy s2"
    using node_read [OF mb(3), of ?n] ins v1 by auto
  note v2 = view_facts [OF view_trans [OF mb(2) nd(2)]]
  have dm: "at div ?N = unat ?n" "at mod ?N = ?p" using p by (simp_all add: at_def)
  define byte where "byte = (if used then at_node s ?n ! ?p OR ?mask else at_node s ?n ! ?p AND NOT ?mask)"
  obtain s3 s' where w: "te_write E at [byte] s2 = (True, s3)" "s' = upd_cache E (cache_set ?n ((at_node s ?n)[?p := byte])) s3"
    "kp {?n} s2 s'" "bare (tree s') = bare (tree s2)" "at_node s' ?n = (at_node s ?n)[?p := byte]"
    using byte_write_ok [OF nd(3), of ?n ?p byte] ins p v2 unfolding at_def by auto
  have run: "setMapBit E n used s = (Inr (), s')"
    using mb(1) nd(1) w(1) by (cases used) (simp_all add: setMapBit_def op_simps dm v1 Let_def byte_def w(2))
  have k: "kp {?n} s s'" using keeps_more [OF view_keeps [OF mb(2,3)] keeps_more [OF view_keeps [OF nd(2,3)] w(3)]] by blast
  note f = keeps_facts [OF k]
  have b: "bare (tree s') = bare (tree s)" using w(4) v2(6) by simp
  have other: "at_node s' (mr_node x) = at_node s (mr_node x)" if "x \<in> set ms" "x \<noteq> m" for x
  proof (rule f(6))
    show "inside s (mr_node x)" using assms(2) that by (simp add: map_ok_def)
    show "mr_node x \<notin> {?n}" using dist m that by (auto simp: distinct_map inj_on_def)
  qed
  have "map_chain (at_node s') (tree s') 0 0 ms"
  proof (rule map_chain_keep [OF link node_fun_cong(10) [OF b]])
    fix x assume x: "x \<in> set ms"
    show "length (at_node s' (mr_node x)) = length (at_node s (mr_node x))"
      using other [OF x] w(5) by (cases "x = m") auto
    show "at_node s' (mr_node x) ! q = at_node s (mr_node x) ! q"
      if "q < kDescriptor \<or> unat (mr_offset x) + unat (mr_bytes x) \<le> q" for q
      using other [OF x] w(5) range(2,4) that by (cases "x = m") auto
  qed
  then have "map_ok E dsk s' ms" using assms(2) f(3) by (simp add: map_ok_def)
  moreover have "node_used (at_node s') ms n' = (if n' = n then used else node_used (at_node s) ms n')" for n'
    by (rule node_used_set [OF link dist assms(3) _ other]) (simp add: w(5) byte_def)
  moreover have "kp (map_nodes ms) s s'" using keeps_mono [OF k] m by blast
  ultimately show ?thesis using run b by blast
qed

lemma writeHeader_map:
  assumes "rdy s" and "map_ok E dsk s ms"
  shows "\<exists>s'. writeHeader E s = (Inr (), s') \<and> kp (map_nodes ms) s s' \<and> bare (tree s') = bare (tree s)
    \<and> map_ok E dsk s' ms \<and> node_used (at_node s') ms = node_used (at_node s) ms"
proof -
  note z = map_zero [OF assms(2)]
  obtain s' where w: "writeHeader E s = (Inr (), s')" "kp {0} s s'" "bare (tree s') = bare (tree s)"
    "length (at_node s' 0) = length (at_node s 0)"
    "\<forall>p<node_size E s. p < 14 \<or> 44 \<le> p \<longrightarrow> at_node s' 0 ! p = at_node s 0 ! p"
    using writeHeader_ok [OF assms(1) z(2,3)] by blast
  note f = keeps_facts [OF w(2)]
  have link: "map_chain (at_node s) (tree s) 0 0 ms" and ins: "\<forall>x\<in>set ms. inside s (mr_node x)" using assms(2) by (auto simp: map_ok_def)
  have low: "120 \<le> unat (mr_offset x)" if x: "x \<in> set ms" "mr_node x = 0" for x
  proof -
    obtain c n where mo: "map_node_ok (tree s) (at_node s n) n c x" using map_chain_covers [OF link x(1)] by blast
    then have "n = 0" using map_node_facts(3) x(2) by metis
    then show ?thesis using map_node_facts(4) [OF mo] by simp
  qed
  have same: "at_node s' (mr_node x) ! p = at_node s (mr_node x) ! p"
    if "x \<in> set ms" "p < length (at_node s (mr_node x))" "p < kDescriptor \<or> 44 \<le> p \<or> mr_node x \<noteq> 0" for x p
  proof (cases "mr_node x = 0")
    case True
    then show ?thesis using w(5) that node_length [OF z(2)] by auto
  next
    case False
    then show ?thesis using f(6) [of "mr_node x"] ins that(1) by simp
  qed
  have "map_chain (at_node s') (tree s') 0 0 ms"
  proof (rule map_chain_keep [OF link node_fun_cong(10) [OF w(3)]])
    fix x assume x: "x \<in> set ms"
    show "length (at_node s' (mr_node x)) = length (at_node s (mr_node x))"
      using f(6) [of "mr_node x"] ins x w(4) by (cases "mr_node x = 0") auto
    show "at_node s' (mr_node x) ! q = at_node s (mr_node x) ! q"
      if "q < length (at_node s (mr_node x))" "q < kDescriptor \<or> unat (mr_offset x) + unat (mr_bytes x) \<le> q" for q
    proof (rule same [OF x that(1)])
      show "q < kDescriptor \<or> 44 \<le> q \<or> mr_node x \<noteq> 0" using low [OF x] that(2) by (cases "mr_node x = 0") auto
    qed
  qed
  then have "map_ok E dsk s' ms" using assms(2) f(3) by (simp add: map_ok_def)
  moreover have "node_used (at_node s') ms n = node_used (at_node s) ms n" for n
  proof (cases "map_for ms n")
    case (Some m)
    note r = bit_pos_range [OF link Some]
    have "at_node s' (mr_node m) ! bit_pos m n = at_node s (mr_node m) ! bit_pos m n"
      using same [OF map_for_in [OF Some] r(3)] r(5) by (cases "mr_node m = 0") auto
    then show ?thesis using Some by (simp add: node_used_def)
  qed (simp add: node_used_def)
  moreover have "kp (map_nodes ms) s s'" using keeps_mono [OF w(2)] z(1) by blast
  ultimately show ?thesis using w(1,3) by blast
qed

lemma map_ok_view:
  assumes "view s s'" and "map_ok E dsk s ms"
  shows "map_ok E dsk s' ms"
  using assms map_chain_keep [of "at_node s" "tree s" 0 0 ms "tree s'" "at_node s'"] view_facts [OF assms(1)] view_tree [OF assms(1)]
  by (auto simp: map_ok_def)

lemma scan_map_ok:
  assumes "rdy s" and "map_ok E dsk s ms" and "set ms' \<subseteq> set ms"
  shows "\<exists>r s'. scan_map E ms' s = (Inr r, s') \<and> view s s' \<and> rdy s'
    \<and> (case r of
          Some n \<Rightarrow> n < bt_totalNodes (tree s) \<and> map_for ms n \<noteq> None \<and> \<not> node_used (at_node s) ms n
        | None \<Rightarrow> \<forall>n m. m \<in> set ms' \<longrightarrow> map_for ms n = Some m \<longrightarrow> n < bt_totalNodes (tree s) \<longrightarrow> node_used (at_node s) ms n)"
  using assms
proof (induction ms' arbitrary: s)
  case Nil
  then show ?case using view_refl by (auto simp: op_simps)
next
  case (Cons m ms')
  have m: "m \<in> set ms" "inside s (mr_node m)" and link: "map_chain (at_node s) (tree s) 0 0 ms"
    using Cons.prems by (auto simp: map_ok_def)
  let ?nd = "at_node s (mr_node m)" and ?T = "bt_totalNodes (tree s)"
  obtain s1 where r: "node E (mr_node m) s = (Some ?nd, s1)" "view s s1" "rdy s1"
    using node_read [OF Cons.prems(1) m(2)] by blast
  note v = view_facts [OF r(2)] and vt = view_tree [OF r(2)]
  obtain c where c: "c + unat (mr_bytes m) * 8 < 2 ^ 32" "unat (mr_first m) = c"
    using map_chain_covers [OF link m(1)] map_node_facts(7) first_bytes(2) by metis
  have b8: "c + 8 * unat (mr_bytes m) < 2 ^ 32" using c(1) by simp
  note scan = scan_bytes_ok [OF c(2) b8, where nodes = ?T and nd = ?nd and i = 0]
  have used: "node_used (at_node s) ms n = bit (?nd ! (unat (mr_offset m) + (unat n - c) div 8)) (7 - (unat n - c) mod 8)"
    if "map_for ms n = Some m" "c \<le> unat n" for n
  proof -
    have "unat (n - mr_first m) = unat n - c" using that(2) c(2) by (subst unat_sub_le) (auto simp: word_le_nat_alt)
    then show ?thesis using that(1) by (simp add: node_used_def bit_pos_def)
  qed
  show ?case
  proof (cases "scan_bytes ?T m ?nd [0..<unat (mr_bytes m)]")
    case (Some n)
    then obtain x where x: "x < 8 * unat (mr_bytes m)" "unat n = c + x" "n < ?T"
      "\<not> bit (?nd ! (unat (mr_offset m) + x div 8)) (7 - x mod 8)" using scan by auto
    have mf: "map_for ms n = Some m" by (rule map_for_first [OF link m(1)]) (use x c in auto)
    have "\<not> node_used (at_node s) ms n" using used [OF mf] x by simp
    then show ?thesis using r Some x(3) mf by (auto simp: op_simps vt)
  next
    case None
    have mine: "node_used (at_node s) ms n" if n: "map_for ms n = Some m" "n < ?T" for n
    proof -
      obtain d where d: "map_node_ok (tree s) ?nd (mr_node m) d m" "d \<le> unat n" "unat n < d + unat (mr_bytes m) * 8"
        "d + unat (mr_bytes m) * 8 < 2 ^ 32"
        using map_for_range [OF link _ n(1)] by auto
      have "d = c" using map_node_facts(7) [OF d(1)] c(2) first_bytes(2) [OF d(4)] by simp
      then show ?thesis using used [OF n(1)] scan None d n(2) by (auto simp: word_less_nat_alt)
    qed
    have sub: "set ms' \<subseteq> set ms" using Cons.prems(3) by simp
    obtain q s2 where q: "scan_map E ms' s1 = (Inr q, s2)" "view s1 s2" "rdy s2"
      "case q of Some n \<Rightarrow> n < ?T \<and> map_for ms n \<noteq> None \<and> \<not> node_used (at_node s) ms n
        | None \<Rightarrow> \<forall>n m. m \<in> set ms' \<longrightarrow> map_for ms n = Some m \<longrightarrow> n < ?T \<longrightarrow> node_used (at_node s) ms n"
      using Cons.IH [OF r(3) map_ok_view [OF r(2) Cons.prems(2)] sub] unfolding v(2) vt(13) by blast
    have "scan_map E (m # ms') s = (Inr q, s2)" using r(1) None q(1) by (simp add: op_simps vt)
    then show ?thesis using q view_trans [OF r(2)] mine by (auto split: option.splits)
  qed
qed

text \<open>Writing other nodes leaves the map alone.\<close>

lemma map_ok_keeps:
  assumes "kp S s s'" and "S \<inter> map_nodes ms = {}" and "map_ok E dsk s ms"
  shows "map_ok E dsk s' ms" and "node_used (at_node s') ms = node_used (at_node s) ms"
proof -
  note f = keeps_facts [OF assms(1)]
  have ns: "bt_nodeSize (tree s') = bt_nodeSize (tree s)" using f(2) unsigned_word_eqI by (auto simp: node_size_def)
  have same: "at_node s' (mr_node m) = at_node s (mr_node m)" if "m \<in> set ms" for m
    using f(6) [of "mr_node m"] assms(2,3) that by (auto simp: map_ok_def)
  show "map_ok E dsk s' ms"
    using assms(3) map_chain_keep [of "at_node s" "tree s" 0 0 ms "tree s'" "at_node s'"] ns same f(3)
    by (simp add: map_ok_def)
  show "node_used (at_node s') ms = node_used (at_node s) ms"
    using same map_for_in by (fastforce simp: fun_eq_iff node_used_def split: option.splits)
qed

end

text \<open>
  The map and the counts agree: every node of the file has a bit, \<open>bt_freeNodes\<close> is the number of
  clear ones, and the map's own nodes are marked used.
\<close>

definition free_nodes :: "'s tree_env \<Rightarrow> ('s \<Rightarrow> bytes) \<Rightarrow> 's \<Rightarrow> map_record list \<Rightarrow> u32 set" where
  "free_nodes E dsk s ms = {n. n < bt_totalNodes (te_get E s) \<and> \<not> node_used (nodeb E dsk s) ms n}"

definition alloc_ok :: "'s tree_env \<Rightarrow> ('s \<Rightarrow> bytes) \<Rightarrow> 's \<Rightarrow> map_record list \<Rightarrow> bool" where
  "alloc_ok E dsk s ms \<longleftrightarrow>
     map_ok E dsk s ms \<and> (\<forall>n<bt_totalNodes (te_get E s). in_file E dsk s n \<and> map_for ms n \<noteq> None)
     \<and> unat (bt_freeNodes (te_get E s)) = card (free_nodes E dsk s ms)
     \<and> (\<forall>n\<in>map_nodes ms. n < bt_totalNodes (te_get E s) \<and> n \<notin> free_nodes E dsk s ms)"

context tree_file begin

abbreviation free where "free \<equiv> free_nodes E dsk"

lemma alloc_ok_keeps:
  assumes "kp S s s'" and "S \<inter> map_nodes ms = {}" and "alloc_ok E dsk s ms"
    and "bt_totalNodes (tree s') = bt_totalNodes (tree s)" and "bt_freeNodes (tree s') = bt_freeNodes (tree s)"
  shows "alloc_ok E dsk s' ms" and "free s' ms = free s ms"
proof -
  have m: "map_ok E dsk s ms" using assms(3) by (simp add: alloc_ok_def)
  note k = map_ok_keeps [OF assms(1,2) m]
  show f: "free s' ms = free s ms" by (simp add: free_nodes_def k assms(4))
  show "alloc_ok E dsk s' ms"
    using assms(3) keeps_facts(3) [OF assms(1)] k by (simp add: alloc_ok_def f assms(4,5))
qed

lemma allocNode_ok:
  assumes "rdy s" and "alloc_ok E dsk s ms" and "bt_freeNodes (tree s) \<noteq> 0"
  shows "\<exists>n s'. allocNode E s = (Inr n, s') \<and> kp (map_nodes ms) s s' \<and> alloc_ok E dsk s' ms
    \<and> bare (tree s') = (bare (tree s))\<lparr>bt_freeNodes := bt_freeNodes (tree s) - 1\<rparr>
    \<and> n \<in> free s ms \<and> inside s n \<and> free s' ms = free s ms - {n}"
proof -
  have mo: "map_ok E dsk s ms" using assms(2) by (simp add: alloc_ok_def)
  obtain s1 where r1: "mapRecords E s = (Some ms, s1)" "view s s1" "rdy s1" using mapRecords_ok [OF assms(1) mo] by blast
  note v1 = view_facts [OF r1(2)] and t1 = view_tree [OF r1(2)]
  obtain q s2 where q: "scan_map E ms s1 = (Inr q, s2)" "view s1 s2" "rdy s2"
    "case q of Some n \<Rightarrow> n < bt_totalNodes (tree s1) \<and> map_for ms n \<noteq> None \<and> \<not> node_used (at_node s1) ms n
      | None \<Rightarrow> \<forall>n m. m \<in> set ms \<longrightarrow> map_for ms n = Some m \<longrightarrow> n < bt_totalNodes (tree s1) \<longrightarrow> node_used (at_node s1) ms n"
    using scan_map_ok [OF r1(3) map_ok_view [OF r1(2) mo]] by blast
  have card: "unat (bt_freeNodes (tree s)) = card (free s ms)" using assms(2) by (simp add: alloc_ok_def)
  have "free s ms \<noteq> {}" using card assms(3) by (auto simp: unat_eq_0)
  then obtain n0 where "n0 < bt_totalNodes (tree s)" "\<not> node_used (at_node s) ms n0" by (auto simp: free_nodes_def)
  moreover from this obtain m0 where "map_for ms n0 = Some m0" using assms(2) by (auto simp: alloc_ok_def)
  ultimately obtain n where n: "q = Some n" "n < bt_totalNodes (tree s)" "map_for ms n \<noteq> None" "\<not> node_used (at_node s) ms n"
    using q(4) map_for_in v1(2) t1(13) by (cases q) fastforce+
  then obtain m where m: "map_for ms n = Some m" by blast
  have v2: "view s s2" using view_trans r1(2) q(2) by blast
  obtain s3 where s3: "setMapBit E n True s2 = (Inr (), s3)" "kp (map_nodes ms) s2 s3" "bare (tree s3) = bare (tree s2)"
    "map_ok E dsk s3 ms" "\<forall>n'. node_used (at_node s3) ms n' = (if n' = n then True else node_used (at_node s2) ms n')"
    using setMapBit_ok [OF q(3) map_ok_view [OF v2 mo] m] by blast
  define s4 where "s4 = te_upd E (\<lambda>t. t\<lparr>bt_freeNodes := bt_freeNodes t - 1\<rparr>) s3"
  have s4: "kp {} s3 s4" "bare (tree s4) = bare ((tree s3)\<lparr>bt_freeNodes := bt_freeNodes (tree s3) - 1\<rparr>)"
    using update_keeps [OF keeps_facts(1) [OF s3(2)], of "\<lambda>t. t\<lparr>bt_freeNodes := bt_freeNodes t - 1\<rparr>"] by (simp_all add: s4_def)
  have m4: "map_ok E dsk s4 ms" "node_used (at_node s4) ms = node_used (at_node s3) ms"
    using map_ok_keeps [OF s4(1) _ s3(4)] by auto
  obtain s' where s': "writeHeader E s4 = (Inr (), s')" "kp (map_nodes ms) s4 s'" "bare (tree s') = bare (tree s4)"
    "map_ok E dsk s' ms" "node_used (at_node s') ms = node_used (at_node s4) ms"
    using writeHeader_map [OF keeps_facts(1) [OF s4(1)] m4(1)] by blast
  have fr: "bt_freeNodes (tree s1) \<noteq> 0" using assms(3) t1 by simp
  have run: "allocNode E s = (Inr n, s')"
    using r1(1) q(1) s3(1) s'(1) fr n(1)
    by (simp add: allocNode_def numeral_2_eq_2 op_simps take_node_def s4_def [symmetric])
  have k: "kp (map_nodes ms) s s'"
    using keeps_more [OF view_keeps [OF v2 q(3)] keeps_more [OF s3(2) keeps_more [OF s4(1) s'(2)]]] by blast
  have bs: "bare (tree s3) = bare (tree s)" using s3(3) view_facts(6) [OF v2] by simp
  have b: "bare (tree s') = (bare (tree s))\<lparr>bt_freeNodes := bt_freeNodes (tree s) - 1\<rparr>"
    using s'(3) s4(2) bs node_fun_cong(14) [OF bs] by (simp add: bare_update)
  have tot: "bt_totalNodes (tree s') = bt_totalNodes (tree s)" "bt_freeNodes (tree s') = bt_freeNodes (tree s) - 1"
    using arg_cong [OF b, of bt_totalNodes] arg_cong [OF b, of bt_freeNodes] by simp_all
  have used: "node_used (at_node s') ms n' = (n' = n \<or> node_used (at_node s) ms n')" for n'
    using s'(5) m4(2) s3(5) view_facts(2) [OF v2] by simp
  have nf: "n \<in> free s ms" using n by (simp add: free_nodes_def)
  have fr': "free s' ms = free s ms - {n}" by (auto simp: free_nodes_def used tot)
  have fin: "finite (free s ms)" by simp
  have "unat (bt_freeNodes (tree s) - 1) = card (free s ms) - 1"
    using assms(3) card by (simp add: unat_minus_one)
  then have "alloc_ok E dsk s' ms"
    using assms(2) s'(4) keeps_facts(3) [OF k] nf fr' tot fin
    by (auto simp: alloc_ok_def card_Diff_singleton)
  then show ?thesis using run k b nf fr' assms(2) n(2) by (auto simp: alloc_ok_def)
qed

lemma freeNode_ok:
  assumes "rdy s" and "alloc_ok E dsk s ms" and "n < bt_totalNodes (tree s)" and "n \<notin> free s ms" and "n \<notin> map_nodes ms"
  shows "\<exists>s'. freeNode E n s = (Inr (), s') \<and> kp (insert n (map_nodes ms)) s s' \<and> alloc_ok E dsk s' ms
    \<and> bare (tree s') = (bare (tree s))\<lparr>bt_freeNodes := bt_freeNodes (tree s) + 1\<rparr> \<and> free s' ms = insert n (free s ms)"
proof -
  have mo: "map_ok E dsk s ms" and ins: "inside s n" and card: "unat (bt_freeNodes (tree s)) = card (free s ms)"
    using assms(2,3) by (auto simp: alloc_ok_def)
  obtain m where m: "map_for ms n = Some m" using assms(2,3) by (auto simp: alloc_ok_def)
  obtain s1 where s1: "setMapBit E n False s = (Inr (), s1)" "kp (map_nodes ms) s s1" "bare (tree s1) = bare (tree s)"
    "map_ok E dsk s1 ms" "\<forall>n'. node_used (at_node s1) ms n' = (if n' = n then False else node_used (at_node s) ms n')"
    using setMapBit_ok [OF assms(1) mo m] by blast
  note k1 = keeps_facts [OF s1(2)]
  let ?N = "node_size E s1" and ?z = "replicate (node_size E s1) (0 :: u8)"
  have ins1: "inside s1 n" using ins k1(3) by simp
  have pos: "live s1" "?z \<noteq> []" "unat n * ?N + length ?z \<le> length (dsk s1)"
    using k1(1) ins1 by (auto simp: ready_def in_file_def)
  obtain s2 where w: "te_write E (unat n * ?N) ?z s1 = (True, s2)"
    and s2: "live s2" "dsk s2 = overwrite (dsk s1) (unat n * ?N) ?z" "tree s2 = tree s1" "te_order E s2 = te_order E s1"
    using write_ok [OF pos] by blast
  define f where "f = (\<lambda>t :: btree. t\<lparr>bt_cache := cache_erase n (bt_cache t), bt_freeNodes := bt_freeNodes t + 1\<rparr>)"
  define s' where "s' = te_upd E f s2"
  have t': "tree s' = f (tree s1)" "dsk s' = dsk s2" "live s'" "te_order E s' = te_order E s1"
    using s2 by (simp_all add: s'_def upd_laws)
  have ns: "node_size E s' = ?N" by (simp add: node_size_def t' f_def)
  have other: "at_node s' m = at_node s1 m" if "inside s1 m" "m \<noteq> n" for m
    using node_after_overwrite(2) [OF trans [OF t'(2) s2(2)] ns ins1] that by simp
  have ins': "inside s' = inside s1" using node_after_overwrite(3) [OF trans [OF t'(2) s2(2)] ns ins1] by simp
  have "cache_ok E dsk s'"
    unfolding cache_ok_def
  proof clarify
    fix m b
    assume "(m, b) \<in> set (bt_cache (tree s'))"
    then have "(m, b) \<in> set (bt_cache (tree s1))" "m \<noteq> n" by (auto simp: t' f_def cache_erase_def)
    moreover have "\<forall>(m, b)\<in>set (bt_cache (tree s1)). inside s1 m \<and> b = at_node s1 m"
      using k1(1) by (simp add: ready_def cache_ok_def)
    ultimately show "inside s' m \<and> b = at_node s' m" using other ins' by auto
  qed
  moreover have "length (dsk s') = length (dsk s1)" using pos(3) by (simp add: t'(2) s2(2))
  ultimately have k2: "kp {n} s1 s'" using k1(1) t' ns other ins' by (simp add: keeps_nodes_def ready_def)
  have k: "kp (insert n (map_nodes ms)) s s'" using keeps_more [OF s1(2) k2] by blast
  have run: "freeNode E n s = (Inr (), s')"
    using s1(1) w by (simp add: freeNode_def op_simps s'_def f_def)
  have m2: "map_ok E dsk s' ms" "node_used (at_node s') ms = node_used (at_node s1) ms"
    using map_ok_keeps [OF k2 _ s1(4)] assms(5) by auto
  have b: "bare (tree s') = (bare (tree s))\<lparr>bt_freeNodes := bt_freeNodes (tree s) + 1\<rparr>"
    using node_fun_cong(14) [OF s1(3)] by (simp add: t' f_def bare_update flip: s1(3))
  have tot: "bt_totalNodes (tree s') = bt_totalNodes (tree s)" "bt_freeNodes (tree s') = bt_freeNodes (tree s) + 1"
    using arg_cong [OF b, of bt_totalNodes] arg_cong [OF b, of bt_freeNodes] by simp_all
  have fr: "free s' ms = insert n (free s ms)" using assms(3) s1(5) by (auto simp: free_nodes_def m2 tot)
  have "unat ` free s ms \<subseteq> {..<unat (bt_totalNodes (tree s))} - {unat n}"
    using assms(4) unsigned_word_eqI by (auto simp: free_nodes_def word_less_nat_alt)
  then have "card (unat ` free s ms) \<le> card ({..<unat (bt_totalNodes (tree s))} - {unat n})" by (intro card_mono) auto
  moreover have "card (unat ` free s ms) = card (free s ms)" by (intro card_image inj_onI unsigned_word_eqI)
  moreover have "unat n < unat (bt_totalNodes (tree s))" using assms(3) by (simp add: word_less_nat_alt)
  ultimately have "card (free s ms) < unat (bt_totalNodes (tree s))" by simp
  then have "unat (bt_freeNodes (tree s)) < unat (bt_totalNodes (tree s))" using card by simp
  then have "unat (bt_freeNodes (tree s)) + unat (1 :: u32) < 2 ^ 32" using unsigned_less [of "bt_totalNodes (tree s)", where ?'a = nat] by simp
  then have "unat (bt_freeNodes (tree s) + 1) = card (free s ms) + 1" using card by (simp add: unat_word_ariths)
  then have "alloc_ok E dsk s' ms"
    using assms m2(1) keeps_facts(3) [OF k] fr tot by (auto simp: alloc_ok_def)
  then show ?thesis using run k b fr by blast
qed

end

end
