(* ===== verification/HFSP_Levels.thy ===== *)
theory HFSP_Levels
  imports HFSP_Map
begin

text \<open>
  What a well-formed B-tree file holds. A tree is the list of its levels, the leaves first; a
  level is the list of its nodes in the order of their links, each with its records. The index
  records of a level are those of the nodes of the level below, so the whole tree follows from
  the leaves.
\<close>

section \<open>Keys and records\<close>

abbreviation key_len :: "bytes \<Rightarrow> nat" where
  "key_len r \<equiv> unat (be16_at r 0)"

text \<open>
  The order of keys: it sees a key only, never what follows it, it is a total order on the
  well-formed ones, and an index key is ordered as the key it stands for.
\<close>

definition good_order :: "btree \<Rightarrow> (bytes \<Rightarrow> bool) \<Rightarrow> (bytes \<Rightarrow> bytes \<Rightarrow> int) \<Rightarrow> bool" where
  "good_order t wk ord \<longleftrightarrow>
     (\<forall>a x. wk a \<longrightarrow> 2 + key_len a \<le> length a \<and> wk (a @ x) \<and> wk (indexKey t a) \<and> 4 \<le> length (indexKey t a))
     \<and> (\<forall>a b x. wk a \<longrightarrow> wk b \<longrightarrow> ord a (b @ x) = ord a b \<and> ord (a @ x) b = ord a b \<and> ord a (indexKey t b) = ord a b
          \<and> ord (indexKey t a) b = ord a b)
     \<and> (\<forall>a b. wk a \<longrightarrow> wk b \<longrightarrow> ord b a = - ord a b)
     \<and> (\<forall>a b c. wk a \<longrightarrow> wk b \<longrightarrow> wk c \<longrightarrow> ord a b \<le> 0 \<longrightarrow> ord b c \<le> 0 \<longrightarrow> ord a c \<le> 0)"

lemma order_facts:
  assumes "good_order t wk ord" and "wk a" and "wk b"
  shows "2 + key_len a \<le> length a" "wk (a @ x)" "wk (indexKey t a)" "ord a (b @ x) = ord a b" "ord (a @ x) b = ord a b"
    "ord a (indexKey t b) = ord a b" "ord (indexKey t a) b = ord a b" "ord b a = - ord a b" "4 \<le> length (indexKey t a)"
  using assms unfolding good_order_def by blast+

lemma order_trans:
  assumes "good_order t wk ord" and "wk a" and "wk b" and "wk c"
  shows "ord a b < 0 \<Longrightarrow> ord b c \<le> 0 \<Longrightarrow> ord a c < 0" and "ord a b \<le> 0 \<Longrightarrow> ord b c < 0 \<Longrightarrow> ord a c < 0"
    and "ord a b \<le> 0 \<Longrightarrow> ord b c \<le> 0 \<Longrightarrow> ord a c \<le> 0"
proof -
  have tr: "ord x y \<le> 0 \<Longrightarrow> ord y z \<le> 0 \<Longrightarrow> ord x z \<le> 0" if "wk x" "wk y" "wk z" for x y z
    using assms(1) that unfolding good_order_def by blast
  have sw: "ord y x = - ord x y" if "wk x" "wk y" for x y using assms(1) that unfolding good_order_def by blast
  show "ord a b \<le> 0 \<Longrightarrow> ord b c \<le> 0 \<Longrightarrow> ord a c \<le> 0" using tr assms(2-4) by blast
  show "ord a c < 0" if "ord a b < 0" "ord b c \<le> 0"
    using tr [of b c a] sw [of a c] sw [of a b] assms(2-4) that by (cases "ord a c < 0") auto
  show "ord a c < 0" if "ord a b \<le> 0" "ord b c < 0"
    using tr [of c a b] sw [of a c] sw [of b c] assms(2-4) that by (cases "ord a c < 0") auto
qed

text \<open>A record's length: its key, padded, and its data; small enough that a full node splits in two.\<close>

definition record_ok :: "btree \<Rightarrow> (bytes \<Rightarrow> bool) \<Rightarrow> bool \<Rightarrow> bytes \<Rightarrow> bool" where
  "record_ok t wk index r \<longleftrightarrow>
     wk r \<and> 8 \<le> length r
     \<and> (if index then length r = keyBytes t r True + 4 \<and> 20 * length r + 58 \<le> 3 * unat (bt_nodeSize t)
        else keyBytes t r False \<le> length r \<and> 15 * length r + 58 \<le> 3 * unat (bt_nodeSize t)
          \<and> 20 * (length (indexKey t r) + 4) + 58 \<le> 3 * unat (bt_nodeSize t))"

lemma indexKey_prefix: "2 \<le> length a \<Longrightarrow> 2 + key_len a \<le> length a \<Longrightarrow> indexKey t (a @ x) = indexKey t a"
  by (simp add: indexKey_def min_def)

lemma childOf_index [simp]: "childOf (indexRecord t r n) = n"
  by (simp add: childOf_def indexRecord_def be32_at_def nth_append bytes32_def)

text \<open>Index records have a whole number of words.\<close>

definition even_keys :: "btree \<Rightarrow> bool" where
  "even_keys t \<longleftrightarrow> variable_keys t \<or> even (unat (bt_maxKeyLength t))"

lemma length_indexKey:
  assumes "2 + key_len r \<le> length r" and "even_keys t"
  shows "length (indexKey t r) = keyBytes t r True"
proof (cases "variable_keys t")
  case True
  have "length (indexKey t r) = (if odd (key_len r) then 3 + key_len r else 2 + key_len r)"
    using True assms by (auto simp: indexKey_def Let_def min_def)
  moreover have "2 * ((3 + key_len r) div 2) = (if odd (key_len r) then 3 + key_len r else 2 + key_len r)" by presburger
  ultimately show ?thesis using True by (simp add: keyBytes_def)
next
  case False
  then have "length (indexKey t r) = 2 + unat (bt_maxKeyLength t)" by (simp add: indexKey_def Let_def put16_at_def)
  then show ?thesis using False assms(2) by (auto simp: keyBytes_def even_keys_def elim!: evenE)
qed

lemma key_len_index:
  assumes "2 + key_len r \<le> length r"
  shows "key_len (indexKey t r) = (if variable_keys t then key_len r else unat (bt_maxKeyLength t))"
  using assms by (auto simp: indexKey_def be16_at_def Let_def nth_append put16_at_def bytes16_def nth_overwrite)

lemma indexKey_again:
  assumes "2 + key_len r \<le> length r"
  shows "indexKey t (indexKey t r) = indexKey t r"
proof (cases "variable_keys t")
  case True
  let ?k = "take (2 + key_len r) r"
  define k where "k = indexKey t r"
  have e: "k = (if odd (length ?k) then ?k @ [0] else ?k)" using True by (simp add: indexKey_def Let_def k_def)
  have "key_len k = key_len r" using key_len_index [OF assms, of t] True by (simp add: k_def)
  then have tk: "take (2 + key_len k) k = ?k" using e assms by auto
  have "indexKey t k = (if odd (length (take (2 + key_len k) k)) then take (2 + key_len k) k @ [0] else take (2 + key_len k) k)"
    using True by (simp add: indexKey_def Let_def)
  then show ?thesis unfolding tk e [symmetric] by (simp add: k_def)
next
  case False
  define n where "n = 2 + unat (bt_maxKeyLength t)"
  define k where "k = indexKey t r"
  obtain w where w: "k = put16_at 0 (bt_maxKeyLength t) w" "length w = n"
    using False by (simp add: k_def indexKey_def Let_def n_def)
  then have k: "length k = n" "take n k = k" "put16_at 0 (bt_maxKeyLength t) k = k" "2 \<le> n"
    by (simp_all add: n_def put16_at_def overwrite_def)
  have "key_len k = unat (bt_maxKeyLength t)" using key_len_index [OF assms, of t] False by (simp add: k_def)
  then have "indexKey t k = put16_at 0 (bt_maxKeyLength t) (overwrite (replicate n 0) 0 (take (min n n) k))"
    using False by (simp add: indexKey_def [of t k] Let_def n_def)
  then have "indexKey t k = k" using k by simp
  then show ?thesis by (simp add: k_def)
qed

lemma keyBytes_prefix: "2 \<le> length a \<Longrightarrow> keyBytes t (a @ x) i = keyBytes t a i"
  by (simp add: keyBytes_def)

lemma keyBytes_again:
  assumes "2 + key_len r \<le> length r" and "even_keys t"
  shows "keyBytes t (indexKey t r) True = keyBytes t r True"
  using key_len_index [OF assms(1), of t] by (auto simp: keyBytes_def Let_def)

lemma index_rec_ok:
  assumes "good_order t wk ord" and "even_keys t" and "record_ok t wk index r"
  shows "record_ok t wk True (indexRecord t r n)" and "indexKey t (indexRecord t r n) = indexKey t r"
proof -
  have wk: "wk r" using assms(3) by (simp add: record_ok_def)
  note f = order_facts [OF assms(1) wk wk]
  let ?k = "indexKey t r"
  have wkk: "wk ?k" using f(3) .
  note fk = order_facts [OF assms(1) wkk wkk]
  have len: "length ?k = keyBytes t r True" by (rule length_indexKey [OF f(1) assms(2)])
  have "indexKey t (?k @ bytes32 n) = indexKey t ?k" by (rule indexKey_prefix) (use fk(1) in auto)
  then show "indexKey t (indexRecord t r n) = ?k" using indexKey_again [OF f(1)] by (simp add: indexRecord_def)
  have "keyBytes t (?k @ bytes32 n) True = keyBytes t r True"
    using keyBytes_prefix [of ?k t "bytes32 n" True] fk(1) keyBytes_again [OF f(1) assms(2)] by simp
  moreover have "20 * (length ?k + 4) + 58 \<le> 3 * unat (bt_nodeSize t)"
    using assms(3) len by (auto simp: record_ok_def split: if_splits)
  ultimately show "record_ok t wk True (indexRecord t r n)"
    using fk(2) fk(9) len indexKey_again [OF f(1)] f(9) by (simp add: record_ok_def indexRecord_def)
qed

section \<open>Splitting a node\<close>

abbreviation bytes_of :: "bytes list \<Rightarrow> nat" where
  "bytes_of recs \<equiv> sum_list (map length recs)"

lemma split_loop_facts:
  assumes "recs \<noteq> []"
  shows "split_loop recs b acc < length recs"
    and "split_loop recs b acc = 0 \<or> acc + bytes_of (take (split_loop recs b acc) recs) \<le> b div 2"
    and "Suc (split_loop recs b acc) = length recs \<or> b div 2 < acc + bytes_of (take (Suc (split_loop recs b acc)) recs)"
proof -
  have "split_loop recs b acc < length recs
    \<and> (split_loop recs b acc = 0 \<or> acc + bytes_of (take (split_loop recs b acc) recs) \<le> b div 2)
    \<and> (Suc (split_loop recs b acc) = length recs \<or> b div 2 < acc + bytes_of (take (Suc (split_loop recs b acc)) recs))"
    using assms
  proof (induction recs b acc rule: split_loop.induct)
    case (3 r r2 rs b acc)
    then show ?case by (auto simp: add.assoc)
  qed auto
  then show "split_loop recs b acc < length recs"
    "split_loop recs b acc = 0 \<or> acc + bytes_of (take (split_loop recs b acc) recs) \<le> b div 2"
    "Suc (split_loop recs b acc) = length recs \<or> b div 2 < acc + bytes_of (take (Suc (split_loop recs b acc)) recs)"
    by blast+
qed

lemma bytes_of_bound: "\<forall>r\<in>set recs. 8 \<le> length r \<Longrightarrow> 8 * length recs \<le> bytes_of recs"
  by (induction recs) auto

lemma split_fits:
  assumes "\<forall>r\<in>set recs. 8 \<le> length r \<and> length r \<le> B" and "\<not> fits t recs" and "recs \<noteq> []"
    and "16 + 2 * length recs + bytes_of recs \<le> unat (bt_nodeSize t) + g" and "5 * g + 10 * B + 48 \<le> 3 * unat (bt_nodeSize t)"
  shows "fits t (take (split_at recs) recs)" and "fits t (drop (split_at recs) recs)"
    and "0 < split_at recs" and "split_at recs < length recs"
proof -
  define N where "N = unat (bt_nodeSize t)"
  define T where "T = bytes_of recs"
  define j where "j = split_loop recs T 0"
  define k where "k = split_at recs"
  have kj: "k = (if j = 0 then 1 else j)" by (simp add: k_def split_at_def j_def T_def)
  have fits: "fits t rs \<longleftrightarrow> 16 + 2 * length rs + bytes_of rs \<le> N" for rs by (auto simp: fits_def N_def)
  note j = split_loop_facts [OF assms(3), of T 0, folded j_def]
  have "length recs \<noteq> 1"
  proof
    assume "length recs = 1"
    then obtain r where "recs = [r]" by (cases recs) auto
    then show False using assms(1,2,5) fits [of recs] by (auto simp: N_def)
  qed
  then have two: "2 \<le> length recs" using assms(3) by (cases recs rule: remdups_adj.cases) auto
  then show "0 < split_at recs" "split_at recs < length recs" using kj j(1) by (auto simp: k_def [symmetric])
  then have k: "0 < k" "k < length recs" by (simp_all add: k_def)
  have parts: "bytes_of (take k recs) + bytes_of (drop k recs) = T"
    unfolding T_def by (metis append_take_drop_id map_append sum_list_append)
  have len8: "8 * length (take k recs) \<le> bytes_of (take k recs)" "8 * length (drop k recs) \<le> bytes_of (drop k recs)"
    using assms(1) by (meson bytes_of_bound in_set_takeD in_set_dropD)+
  have B: "length (recs ! i) \<le> B" if "i < length recs" for i using assms(1) that by simp
  have left: "bytes_of (take k recs) \<le> T div 2 + B"
  proof (cases "j = 0")
    case True
    then have "take k recs = [recs ! 0]" using assms(3) kj by (cases recs) auto
    then show ?thesis using B [of 0] assms(3) by simp
  next
    case False
    then show ?thesis using j(2) kj by simp
  qed
  have right: "bytes_of (drop k recs) \<le> T - T div 2 + B"
  proof (cases "Suc j = length recs")
    case True
    then have "k = j" using two kj by (cases j) auto
    then have "drop k recs = [recs ! k]" using True by (metis Cons_nth_drop_Suc drop_all k(2) le_refl)
    then show ?thesis using B [OF k(2)] by simp
  next
    case False
    then have big: "T div 2 < bytes_of (take (Suc j) recs)" using j(3) by simp
    have jl: "Suc j < length recs" using False j(1) by simp
    have "bytes_of (take (Suc j) recs) = bytes_of (take j recs) + length (recs ! j)" using j(1) by (simp add: take_Suc_conv_app_nth)
    moreover have "bytes_of (take j recs) \<le> bytes_of (take k recs)" using kj by (cases "j = 0") auto
    ultimately have "T div 2 < bytes_of (take k recs) + B" using big B [OF j(1)] by linarith
    then show ?thesis using parts by linarith
  qed
  have T: "16 + 2 * length recs + T \<le> N + g" "5 * g + 10 * B + 48 \<le> 3 * N" using assms(4,5) by (simp_all add: T_def N_def)
  then have T': "8 * T + 16 * 8 \<le> 8 * N + 8 * g" by linarith
  show "fits t (take (split_at recs) recs)" "fits t (drop (split_at recs) recs)"
    unfolding fits k_def [symmetric] using left right len8 T T' by linarith+
qed

section \<open>Levels\<close>

type_synonym level = "(u32 \<times> bytes list) list"

definition first_or :: "u32 \<Rightarrow> level \<Rightarrow> u32" where
  "first_or nxt lv = (case lv of [] \<Rightarrow> nxt | x # _ \<Rightarrow> fst x)"

definition last_or :: "u32 \<Rightarrow> level \<Rightarrow> u32" where
  "last_or prev lv = (if lv = [] then prev else fst (last lv))"

text \<open>The nodes of a level, from the node before it to the one after it.\<close>

fun node_chain :: "btree \<Rightarrow> (u32 \<Rightarrow> bytes) \<Rightarrow> u8 \<Rightarrow> u8 \<Rightarrow> u32 \<Rightarrow> u32 \<Rightarrow> level \<Rightarrow> bool" where
  "node_chain t nf k h prev nxt [] = True"
| "node_chain t nf k h prev nxt ((n, rs) # lv) =
     (node_shape t (nf n) k h (first_or nxt lv) prev rs \<and> node_chain t nf k h n nxt lv)"

lemma first_or_simps [simp]: "first_or nxt [] = nxt" "first_or nxt (x # lv) = fst x" "first_or nxt (xs @ ys) = first_or (first_or nxt ys) xs"
  by (simp_all add: first_or_def split: list.splits)

lemma last_or_simps [simp]: "last_or prev [] = prev" "last_or prev (x # lv) = last_or (fst x) lv"
  "last_or prev (xs @ ys) = last_or (last_or prev xs) ys"
  by (simp_all add: last_or_def)

lemma chain_append:
  "node_chain t nf k h prev nxt (xs @ ys) \<longleftrightarrow> node_chain t nf k h prev (first_or nxt ys) xs \<and> node_chain t nf k h (last_or prev xs) nxt ys"
proof (induction xs arbitrary: prev)
  case (Cons x xs)
  obtain n rs where x: "x = (n, rs)" by fastforce
  show ?case by (simp add: x Cons.IH)
qed simp

lemma chain_cong:
  assumes "node_chain t nf k h prev nxt lv" and "\<And>n. n \<in> fst ` set lv \<Longrightarrow> nf' n = nf n" and "node_shape t' = node_shape t"
  shows "node_chain t' nf' k h prev nxt lv"
  using assms(1,2)
proof (induction lv arbitrary: prev)
  case (Cons x lv)
  obtain n rs where x: "x = (n, rs)" by fastforce
  have "nf' n = nf n" by (rule Cons.prems(2)) (simp add: x)
  moreover have "node_chain t' nf' k h n nxt lv" by (rule Cons.IH) (use Cons.prems x in simp_all)
  ultimately show ?case using Cons.prems(1) by (simp add: x assms(3))
qed simp

lemma chain_member: "node_chain t nf k h prev nxt lv \<Longrightarrow> (n, rs) \<in> set lv \<Longrightarrow> \<exists>fl bl. node_shape t (nf n) k h fl bl rs"
  by (induction lv arbitrary: prev) (auto, blast)

lemma chain_relink_prev:
  assumes "node_chain t nf k h p nxt lv" and "\<And>n. n \<in> fst ` set lv \<Longrightarrow> n \<noteq> first_or nxt lv \<Longrightarrow> nf' n = nf n"
    and "lv \<noteq> [] \<Longrightarrow> nf' (first_or nxt lv) = put32_at 4 p' (nf (first_or nxt lv))" and "distinct (map fst lv)"
  shows "node_chain t nf' k h p' nxt lv"
proof (cases lv)
  case (Cons x lv')
  obtain n rs where x: "x = (n, rs)" by fastforce
  have "node_chain t nf' k h n nxt lv'"
    by (rule chain_cong [of t nf]) (use assms Cons x in \<open>auto simp: image_iff\<close>)
  moreover have "node_shape t (nf' n) k h (first_or nxt lv') p' rs"
    using assms(1,3) Cons x shape_put32(2) [of t "nf n" k h "first_or nxt lv'" p rs p'] by simp
  ultimately show ?thesis using Cons x by simp
qed simp

lemma chain_relink_next:
  assumes "node_chain t nf k h p nxt lv" and "\<And>n. n \<in> fst ` set lv \<Longrightarrow> n \<noteq> last_or p lv \<Longrightarrow> nf' n = nf n"
    and "lv \<noteq> [] \<Longrightarrow> nf' (last_or p lv) = put32_at 0 nxt' (nf (last_or p lv))" and "distinct (map fst lv)"
  shows "node_chain t nf' k h p nxt' lv"
proof (cases lv rule: rev_cases)
  case (snoc lv' x)
  obtain n rs where x: "x = (n, rs)" by fastforce
  have "node_chain t nf' k h p n lv'"
    by (rule chain_cong [of t nf]) (use assms snoc x in \<open>auto simp: image_iff chain_append\<close>)
  moreover have "node_shape t (nf' n) k h nxt' (last_or p lv') rs"
    using assms(1,3) snoc x shape_put32(1) [of t "nf n" k h nxt "last_or p lv'" rs nxt'] by (simp add: chain_append)
  ultimately show ?thesis using snoc x by (simp add: chain_append)
qed simp

definition node_kind :: "nat \<Rightarrow> u8" where
  "node_kind h = (if h = 1 then kLeafNode else kIndexNode)"

definition level_ok :: "btree \<Rightarrow> (bytes \<Rightarrow> bool) \<Rightarrow> (u32 \<Rightarrow> bytes) \<Rightarrow> nat \<Rightarrow> level \<Rightarrow> bool" where
  "level_ok t wk nf h lv \<longleftrightarrow>
     lv \<noteq> [] \<and> node_chain t nf (node_kind h) (of_nat h) 0 0 lv
     \<and> (\<forall>(n, rs)\<in>set lv. rs \<noteq> [] \<and> (\<forall>r\<in>set rs. record_ok t wk (h \<noteq> 1) r))"

text \<open>The index record of a node.\<close>

definition entry :: "btree \<Rightarrow> u32 \<times> bytes list \<Rightarrow> bytes" where
  "entry t x = indexRecord t (hd (snd x)) (fst x)"

definition contents :: "level \<Rightarrow> bytes list" where
  "contents lv = concat (map snd lv)"

text \<open>A level and the ones above it, up to the root.\<close>

fun levels_ok :: "btree \<Rightarrow> (bytes \<Rightarrow> bool) \<Rightarrow> (u32 \<Rightarrow> bytes) \<Rightarrow> nat \<Rightarrow> u32 \<Rightarrow> level \<Rightarrow> level list \<Rightarrow> bool" where
  "levels_ok t wk nf h root lv [] = (level_ok t wk nf h lv \<and> map fst lv = [root])"
| "levels_ok t wk nf h root lv (up # ups) =
     (level_ok t wk nf h lv \<and> contents up = map (entry t) lv \<and> levels_ok t wk nf (Suc h) root up ups)"

definition nodes_of :: "level list \<Rightarrow> u32 list" where
  "nodes_of Ls = concat (map (map fst) Ls)"

lemma contents_simps [simp]: "contents [] = []" "contents (x # lv) = snd x @ contents lv" "contents (xs @ ys) = contents xs @ contents ys"
  by (simp_all add: contents_def)

lemma nodes_of_simps [simp]: "nodes_of [] = []" "nodes_of (lv # Ls) = map fst lv @ nodes_of Ls"
  by (simp_all add: nodes_of_def)

lemma level_ok_cong:
  assumes "level_ok t wk nf h lv" and "\<And>n. n \<in> fst ` set lv \<Longrightarrow> nf' n = nf n" and "bare t' = bare t"
  shows "level_ok t' wk nf' h lv"
proof -
  have "record_ok t' wk = record_ok t wk" by (simp add: fun_eq_iff record_ok_def node_fun_cong [OF assms(3)])
  then show ?thesis
    using assms(1) chain_cong [of t nf _ _ 0 0 lv nf' t'] assms(2) node_fun_cong(9) [OF assms(3)] by (auto simp: level_ok_def)
qed

lemma levels_ok_cong:
  assumes "levels_ok t wk nf h root lv ups" and "\<And>n. n \<in> set (nodes_of (lv # ups)) \<Longrightarrow> nf' n = nf n" and "bare t' = bare t"
  shows "levels_ok t' wk nf' h root lv ups"
  using assms(1,2)
proof (induction ups arbitrary: h lv)
  case Nil
  have "nf' n = nf n" if "n \<in> fst ` set lv" for n by (rule Nil.prems(2)) (use that in simp)
  moreover have "level_ok t wk nf h lv" using Nil.prems(1) by simp
  ultimately have "level_ok t' wk nf' h lv" using level_ok_cong [OF _ _ assms(3)] by blast
  then show ?case using Nil by simp
next
  case (Cons up ups)
  have "entry t' = entry t" by (simp add: fun_eq_iff entry_def node_fun_cong [OF assms(3)])
  moreover have "level_ok t' wk nf' h lv" by (rule level_ok_cong [OF _ _ assms(3)]) (use Cons.prems in simp_all)
  moreover have "levels_ok t' wk nf' (Suc h) root up ups" by (rule Cons.IH) (use Cons.prems in simp_all)
  ultimately show ?case using Cons.prems by simp
qed

section \<open>Searching a node\<close>

lemma rec_ok_wk:
  assumes "good_order t wk ord" and "record_ok t wk index r"
  shows "wk r" "2 + key_len r \<le> length r" "keyBytes t r index \<le> length r" "8 \<le> length r"
    "index \<Longrightarrow> length r = keyBytes t r True + 4"
proof -
  show wk: "wk r" using assms(2) by (simp add: record_ok_def)
  show "2 + key_len r \<le> length r" using order_facts(1) [OF assms(1) wk wk] .
  show "keyBytes t r index \<le> length r" "8 \<le> length r" "index \<Longrightarrow> length r = keyBytes t r True + 4"
    using assms(2) by (auto simp: record_ok_def split: if_splits)
qed

text \<open>The record at an index: its place in the node, and the node's bytes from there on.\<close>

lemma shape_record_at:
  assumes "node_shape t nd k h fl bl recs" and "good_order t wk ord" and "record_ok t wk index (recs ! i)" and "i < length recs"
    and "index = (k = kIndexNode)"
  shows "\<exists>off rest. record_at t nd i = Some (off, off + keyBytes t (recs ! i) index, unat (bt_nodeSize t) - (off + keyBytes t (recs ! i) index))
    \<and> drop off nd = recs ! i @ rest \<and> off + length (recs ! i) + 2 \<le> unat (bt_nodeSize t) \<and> length nd = unat (bt_nodeSize t)"
proof -
  let ?off = "offset_at t nd i" and ?r = "recs ! i" and ?N = "unat (bt_nodeSize t)"
  note s = shape_slice [OF assms(1,4)] and r = rec_ok_wk [OF assms(2,3)]
  have nd: "count nd = length recs" "kind nd = k" "length nd = ?N" "kDescriptor \<le> ?off"
    using assms(1,4) by (simp_all add: node_shape_def)
  have bound: "?off + length ?r + 2 \<le> ?N" using s(2,3) by simp
  have "drop ?off nd = take (length ?r) (drop ?off nd) @ drop (length ?r) (drop ?off nd)"
    by (rule append_take_drop_id [symmetric])
  also have "take (length ?r) (drop ?off nd) = ?r" using s(1) by (simp add: slice_def)
  finally have d: "drop ?off nd = ?r @ drop (length ?r) (drop ?off nd)" .
  have kb: "keyBytes t (drop ?off nd) (kind nd = kIndexNode) = keyBytes t ?r index"
    by (subst d, subst keyBytes_prefix) (use r assms(5) nd in auto)
  have "record_at t nd i = Some (?off, ?off + keyBytes t ?r index, ?N - (?off + keyBytes t ?r index))"
    using bound r(3) assms(4) nd kb by (simp add: record_at_def Let_def)
  then show ?thesis using d bound nd by blast
qed

text \<open>In an index node the search takes the last record that is not above the key, or the first.\<close>

lemma child_loop_from:
  assumes "node_shape t nd kIndexNode h fl bl recs" and "good_order t wk ord" and "\<forall>r\<in>set recs. record_ok t wk True r" and "wk key"
    and "i \<le> length recs" and "0 < i" and "i = 1 \<or> 0 \<le> ord key (recs ! (i - 1))"
    and "\<And>r x. wk r \<Longrightarrow> cmp (r @ x) = ord key r"
  shows "\<exists>j<length recs. child_loop t cmp nd (childOf (recs ! (i - 1))) [i..<length recs] = Some (childOf (recs ! j))
    \<and> (j = 0 \<or> 0 \<le> ord key (recs ! j)) \<and> (Suc j < length recs \<longrightarrow> ord key (recs ! Suc j) < 0)"
  using assms(5-7)
proof (induction "length recs - i" arbitrary: i)
  case 0
  then show ?case by (auto intro!: exI [of _ "length recs - 1"])
next
  case (Suc d)
  then have i: "i < length recs" "[i..<length recs] = i # [Suc i..<length recs]" by (auto simp: upt_conv_Cons)
  have rok: "record_ok t wk True (recs ! i)" using assms(3) i(1) by simp
  note r = rec_ok_wk [OF assms(2) rok]
  obtain off rest where o': "record_at t nd i = Some (off, off + keyBytes t (recs ! i) True, unat (bt_nodeSize t) - (off + keyBytes t (recs ! i) True))"
    "drop off nd = recs ! i @ rest" "off + length (recs ! i) + 2 \<le> unat (bt_nodeSize t)" "length nd = unat (bt_nodeSize t)"
    using shape_record_at [OF assms(1,2) rok i(1)] by auto
  have cmp: "cmp (drop off nd) = ord key (recs ! i)" unfolding o'(2) by (rule assms(8) [OF r(1)])
  have room: "\<not> unat (bt_nodeSize t) - (off + keyBytes t (recs ! i) True) < 4" using o'(3) r(5) by simp
  have child: "be32_at nd (off + keyBytes t (recs ! i) True) = childOf (recs ! i)"
  proof -
    have "be32_at nd (off + keyBytes t (recs ! i) True) = be32_at (drop off nd) (keyBytes t (recs ! i) True)"
      using o'(3,4) r(5) by (subst get_drop) auto
    also have "\<dots> = childOf (recs ! i)" using r(5) by (simp add: o'(2) childOf_def)
    finally show ?thesis .
  qed
  have step: "child_loop t cmp nd c [i..<length recs] = (if ord key (recs ! i) < 0 then Some c
      else child_loop t cmp nd (childOf (recs ! i)) [Suc i..<length recs])" for c
    using o'(1) room Suc.prems(2) by (simp add: i(2) cmp child)
  show ?case
  proof (cases "ord key (recs ! i) < 0")
    case True
    then show ?thesis using Suc.prems i(1) step by (intro exI [of _ "i - 1"]) auto
  next
    case False
    then show ?thesis using Suc.hyps(1) [of "Suc i"] Suc.hyps(2) i(1) step by auto
  qed
qed

lemma child_loop_ok:
  assumes "node_shape t nd kIndexNode h fl bl recs" and "good_order t wk ord" and "\<forall>r\<in>set recs. record_ok t wk True r" and "wk key"
    and "recs \<noteq> []" and "\<And>r x. wk r \<Longrightarrow> cmp (r @ x) = ord key r"
  shows "\<exists>j<length recs. child_loop t cmp nd 0 [0..<count nd] = Some (childOf (recs ! j))
    \<and> (j = 0 \<or> 0 \<le> ord key (recs ! j)) \<and> (Suc j < length recs \<longrightarrow> ord key (recs ! Suc j) < 0)"
proof -
  have c: "count nd = length recs" using assms(1) by (simp add: node_shape_def)
  have u: "[0..<length recs] = 0 # [1..<length recs]" using assms(5) by (simp add: upt_conv_Cons)
  have rok: "record_ok t wk True (recs ! 0)" using assms(3,5) by simp
  note r = rec_ok_wk [OF assms(2) rok]
  obtain off rest where o': "record_at t nd 0 = Some (off, off + keyBytes t (recs ! 0) True, unat (bt_nodeSize t) - (off + keyBytes t (recs ! 0) True))"
    "drop off nd = recs ! 0 @ rest" "off + length (recs ! 0) + 2 \<le> unat (bt_nodeSize t)" "length nd = unat (bt_nodeSize t)"
    using shape_record_at [OF assms(1,2) rok] assms(5) by auto
  have "be32_at nd (off + keyBytes t (recs ! 0) True) = be32_at (drop off nd) (keyBytes t (recs ! 0) True)"
    using o'(3,4) r(5) by (subst get_drop) auto
  also have "\<dots> = childOf (recs ! 0)" using r(5) by (simp add: o'(2) childOf_def)
  finally have child: "be32_at nd (off + keyBytes t (recs ! 0) True) = childOf (recs ! 0)" .
  have "child_loop t cmp nd 0 [0..<count nd] = child_loop t cmp nd (childOf (recs ! (1 - 1))) [1..<length recs]"
    unfolding c u using o'(1,3) r(5) by (simp add: child)
  then show ?thesis using child_loop_from [OF assms(1-4), of 1 cmp] assms(5,6) by (simp add: Suc_le_eq)
qed

section \<open>The way to a key\<close>

text \<open>Nodes, in the order of their first keys.\<close>

definition heads_sorted :: "(bytes \<Rightarrow> bytes \<Rightarrow> int) \<Rightarrow> level \<Rightarrow> bool" where
  "heads_sorted ord lv \<longleftrightarrow> sorted_wrt (\<lambda>a b. ord (hd (snd a)) (hd (snd b)) < 0) lv"

definition keys_sorted :: "(bytes \<Rightarrow> bytes \<Rightarrow> int) \<Rightarrow> bytes list \<Rightarrow> bool" where
  "keys_sorted ord recs \<longleftrightarrow> sorted_wrt (\<lambda>a b. ord a b < 0) recs"

text \<open>A node of a level lies on the way to a key: the last one whose first key is not above it.\<close>

definition on_way :: "(bytes \<Rightarrow> bytes \<Rightarrow> int) \<Rightarrow> bytes \<Rightarrow> level \<Rightarrow> bytes list \<Rightarrow> level \<Rightarrow> bool" where
  "on_way ord key xs rs ys \<longleftrightarrow> (xs \<noteq> [] \<longrightarrow> 0 \<le> ord key (hd rs)) \<and> (\<forall>y\<in>set ys. ord key (hd (snd y)) < 0)"

lemma heads_of_contents:
  "keys_sorted ord (contents lv) \<Longrightarrow> \<forall>x\<in>set lv. snd x \<noteq> [] \<Longrightarrow> heads_sorted ord lv"
proof (induction lv)
  case (Cons x lv)
  then have "heads_sorted ord lv" by (simp add: keys_sorted_def sorted_wrt_append)
  moreover have "ord (hd (snd x)) (hd (snd y)) < 0" if "y \<in> set lv" for y
  proof -
    have "hd (snd x) \<in> set (snd x)" "hd (snd y) \<in> set (snd y)" using Cons.prems(2) that by auto
    moreover from this(2) that have "hd (snd y) \<in> set (contents lv)" by (auto simp: contents_def)
    ultimately show ?thesis using Cons.prems(1) by (simp add: keys_sorted_def sorted_wrt_append)
  qed
  ultimately show ?case by (simp add: heads_sorted_def)
qed (simp add: heads_sorted_def)

lemma level_ok_facts:
  assumes "level_ok t wk nf h lv" and "good_order t wk ord" and "(n, rs) \<in> set lv"
  shows "rs \<noteq> []" "r \<in> set rs \<Longrightarrow> record_ok t wk (h \<noteq> 1) r" "r \<in> set rs \<Longrightarrow> wk r" "wk (hd rs)" "hd rs \<in> set rs"
    "\<exists>fl bl. node_shape t (nf n) (node_kind h) (of_nat h) fl bl rs"
proof -
  show ne: "rs \<noteq> []" and rok: "r \<in> set rs \<Longrightarrow> record_ok t wk (h \<noteq> 1) r" for r using assms(1,3) by (auto simp: level_ok_def)
  show "r \<in> set rs \<Longrightarrow> wk r" for r using rec_ok_wk(1) [OF assms(2) rok] by blast
  then show "wk (hd rs)" "hd rs \<in> set rs" using ne by auto
  show "\<exists>fl bl. node_shape t (nf n) (node_kind h) (of_nat h) fl bl rs" using assms(1,3) chain_member by (fastforce simp: level_ok_def)
qed

lemma entry_order:
  assumes "good_order t wk ord" and "wk a" and "wk (hd (snd x))"
  shows "ord a (entry t x) = ord a (hd (snd x))" "ord (entry t x) a = ord (hd (snd x)) a" "wk (entry t x)"
proof -
  note f = order_facts [OF assms(1,2,3)] and g = order_facts [OF assms(1,3,2)]
  have k: "wk (indexKey t (hd (snd x)))" using g(3) .
  note h = order_facts [OF assms(1,2) k] and h' = order_facts [OF assms(1) k assms(2)]
  show "ord a (entry t x) = ord a (hd (snd x))" using h(4) f(6) by (simp add: entry_def indexRecord_def)
  show "ord (entry t x) a = ord (hd (snd x)) a" using h'(5) g(7) by (simp add: entry_def indexRecord_def)
  show "wk (entry t x)" using h'(2) by (simp add: entry_def indexRecord_def)
qed

lemma heads_sorted_up:
  assumes "good_order t wk ord" and "contents up = map (entry t) lv" and "heads_sorted ord lv"
    and "\<forall>x\<in>set lv. wk (hd (snd x))" and "\<forall>x\<in>set up. snd x \<noteq> []"
  shows "heads_sorted ord up"
proof (rule heads_of_contents [OF _ assms(5)])
  have "sorted_wrt (\<lambda>a b. ord (entry t a) (entry t b) < 0) lv"
    using assms(3) unfolding heads_sorted_def
  proof (rule sorted_wrt_mono_rel [rotated])
    fix x y assume xy: "x \<in> set lv" "y \<in> set lv" "ord (hd (snd x)) (hd (snd y)) < 0"
    then have w: "wk (hd (snd x))" "wk (hd (snd y))" using assms(4) by auto
    have "ord (entry t x) (entry t y) = ord (entry t x) (hd (snd y))"
      using entry_order(1) [OF assms(1) entry_order(3) [OF assms(1) w(1,1)] w(2)] .
    also have "\<dots> = ord (hd (snd x)) (hd (snd y))" using entry_order(2) [OF assms(1) w(2,1)] .
    finally show "ord (entry t x) (entry t y) < 0" using xy(3) by simp
  qed
  then show "keys_sorted ord (contents up)" by (simp add: keys_sorted_def assms(2) sorted_wrt_map)
qed

lemma descend:
  assumes "good_order t wk ord" and "contents up = map (entry t) lv" and "heads_sorted ord lv"
    and "\<forall>x\<in>set lv. wk (hd (snd x))" and "\<forall>x\<in>set up. snd x \<noteq> []" and "wk key"
    and "up = xs @ (p, prs) # ys" and "on_way ord key xs prs ys" and "j < length prs"
    and "j = 0 \<or> 0 \<le> ord key (prs ! j)" and "Suc j < length prs \<longrightarrow> ord key (prs ! Suc j) < 0"
  shows "\<exists>xs' n rs ys'. lv = xs' @ (n, rs) # ys' \<and> prs ! j = entry t (n, rs) \<and> on_way ord key xs' rs ys'"
proof -
  define i where "i = length (contents xs) + j"
  have cont: "contents up = contents xs @ prs @ contents ys" by (simp add: assms(7))
  then have i: "i < length lv" using assms(2,9) by (metis add_less_cancel_left i_def length_append length_map trans_less_add1 add.assoc)
  have at: "contents up ! i = prs ! j" using assms(9) by (simp add: cont i_def nth_append)
  obtain n rs where x: "lv ! i = (n, rs)" by fastforce
  have e: "prs ! j = entry t (n, rs)" using at i x by (simp add: assms(2))
  have split: "lv = take i lv @ (n, rs) # drop (Suc i) lv" using id_take_nth_drop [OF i] x by simp
  have wkx: "wk (hd (snd y))" if "y \<in> set lv" for y using assms(4) that by blast
  have wkl: "wk (hd (snd (lv ! k)))" if "k < length lv" for k using assms(4) that by simp
  have o': "ord key (contents up ! k) = ord key (hd (snd (lv ! k)))" if "k < length lv" for k
    using entry_order(1) [OF assms(1,6) wkl [OF that]] that by (simp add: assms(2))
  have lo: "0 \<le> ord key (hd rs)" if "take i lv \<noteq> []"
  proof -
    have "0 \<le> ord key (prs ! j)"
    proof (cases "j = 0")
      case True
      then have "xs \<noteq> []" using that by (auto simp: i_def)
      then show ?thesis using assms(8,9) True by (cases prs) (auto simp: on_way_def)
    qed (use assms(10) in simp)
    then show ?thesis using o' [OF i] at x by simp
  qed
  have hi: "ord key (hd (snd (lv ! Suc i))) < 0" if "Suc i < length lv"
  proof (cases "Suc j < length prs")
    case True
    then have "contents up ! Suc i = prs ! Suc j" by (simp add: cont i_def nth_append)
    then show ?thesis using True assms(11) o' [OF that] by simp
  next
    case False
    then have j: "Suc j = length prs" using assms(9) by simp
    have "length lv = length (contents up)" by (simp add: assms(2))
    then have "contents ys \<noteq> []" using that j by (auto simp: cont i_def)
    then obtain y ys1 where ys: "ys = y # ys1" by (cases ys) auto
    then have "snd y \<noteq> []" using assms(5,7) by auto
    then have "contents up ! Suc i = hd (snd y)" using j ys by (simp add: cont i_def nth_append hd_conv_nth)
    then show ?thesis using assms(8) ys o' [OF that] by (simp add: on_way_def)
  qed
  have up: "ord key (hd (snd y)) < 0" if y: "y \<in> set (drop (Suc i) lv)" for y
  proof -
    obtain k where k: "k < length lv - Suc i" "y = lv ! (Suc i + k)"
      using y i unfolding in_set_conv_nth by auto
    have s: "Suc i < length lv" using k(1) by simp
    show ?thesis
    proof (cases k)
      case 0
      then show ?thesis using hi [OF s] k by simp
    next
      case (Suc m)
      have "ord (hd (snd (lv ! Suc i))) (hd (snd (lv ! (Suc i + k)))) < 0"
        using assms(3) k(1) Suc unfolding heads_sorted_def by (intro sorted_wrt_nth_less [where P = "\<lambda>a b. ord (hd (snd a)) (hd (snd b)) < 0"]) auto
      then show ?thesis
        using order_trans(1) [OF assms(1,6) wkl [OF s], of "hd (snd y)"] hi [OF s] wkl k by auto
    qed
  qed
  have "on_way ord key (take i lv) rs (drop (Suc i) lv)" using lo up by (simp add: on_way_def)
  then show ?thesis using split e by blast
qed

text \<open>In a leaf on the way to a key, the records before it lie below the key, the ones after it above.\<close>

lemma leaf_order:
  assumes "good_order t wk ord" and "keys_sorted ord (contents (xs @ (n, rs) # ys))" and "on_way ord key xs rs ys" and "wk key"
    and "\<forall>x\<in>set (xs @ (n, rs) # ys). snd x \<noteq> [] \<and> (\<forall>r\<in>set (snd x). wk r)"
  shows "r \<in> set (contents xs) \<Longrightarrow> ord r key < 0" and "r \<in> set (contents ys) \<Longrightarrow> ord key r < 0"
proof -
  have s: "keys_sorted ord (contents xs @ rs @ contents ys)" using assms(2) by simp
  have hd: "hd rs \<in> set rs" "wk (hd rs)" using assms(5) by auto
  show "ord r key < 0" if r: "r \<in> set (contents xs)"
  proof -
    have "xs \<noteq> []" using r by auto
    then have "ord (hd rs) key \<le> 0" using assms(3) order_facts(8) [OF assms(1,4) hd(2)] by (simp add: on_way_def)
    moreover have "ord r (hd rs) < 0" using s r hd by (simp add: keys_sorted_def sorted_wrt_append)
    moreover have "wk r" using r assms(5) by (auto simp: contents_def)
    ultimately show ?thesis using order_trans(1) [OF assms(1) _ hd(2) assms(4)] by blast
  qed
  show "ord key r < 0" if r: "r \<in> set (contents ys)"
  proof -
    obtain y ya yb where y: "ys = ya @ y # yb" "r \<in> set (snd y)" using r by (auto simp: contents_def dest: split_list)
    then have yy: "snd y \<noteq> []" "\<forall>r\<in>set (snd y). wk r" using assms(5) by auto
    have k: "ord key (hd (snd y)) < 0" using assms(3) y(1) by (simp add: on_way_def)
    show ?thesis
    proof (cases "r = hd (snd y)")
      case False
      have "sorted_wrt (\<lambda>a b. ord a b < 0) (snd y)" using s y(1) by (simp add: keys_sorted_def sorted_wrt_append)
      then have "ord (hd (snd y)) r < 0" using y(2) yy(1) False by (cases "snd y") auto
      then show ?thesis using order_trans(1) [OF assms(1,4), of "hd (snd y)" r] k yy y(2) by simp
    qed (use k in simp)
  qed
qed

end
