(* ===== verification/HFSP_Search.thy ===== *)
theory HFSP_Search
  imports HFSP_Levels
begin

text \<open>
  The invariant of a B-tree file, and searching: a search goes down to the one leaf where the
  key belongs, and finds a record exactly when the tree has one with the key.
\<close>

section \<open>Levels by number\<close>

lemma levels_ok_nth:
  assumes "levels_ok t wk nf h root lv ups" and "i < length (lv # ups)"
  shows "level_ok t wk nf (h + i) ((lv # ups) ! i)"
    and "Suc i < length (lv # ups) \<Longrightarrow> contents ((lv # ups) ! Suc i) = map (entry t) ((lv # ups) ! i)"
    and "map fst (last (lv # ups)) = [root]"
proof -
  have "level_ok t wk nf (h + i) ((lv # ups) ! i)
    \<and> (Suc i < length (lv # ups) \<longrightarrow> contents ((lv # ups) ! Suc i) = map (entry t) ((lv # ups) ! i))
    \<and> map fst (last (lv # ups)) = [root]"
    using assms
  proof (induction ups arbitrary: h lv i)
    case (Cons up ups)
    have up: "levels_ok t wk nf (Suc h) root up ups" using Cons.prems(1) by simp
    show ?case
    proof (cases i)
      case 0
      then show ?thesis using Cons.prems Cons.IH [OF up, of 0] by auto
    next
      case (Suc j)
      then show ?thesis using Cons.prems Cons.IH [OF up, of j] by auto
    qed
  qed auto
  then show "level_ok t wk nf (h + i) ((lv # ups) ! i)"
    "Suc i < length (lv # ups) \<Longrightarrow> contents ((lv # ups) ! Suc i) = map (entry t) ((lv # ups) ! i)"
    "map fst (last (lv # ups)) = [root]" by blast+
qed

lemma level_heads:
  assumes "level_ok t wk nf h lv" and "good_order t wk ord"
  shows "\<forall>x\<in>set lv. snd x \<noteq> [] \<and> wk (hd (snd x)) \<and> (\<forall>r\<in>set (snd x). wk r)"
  using level_ok_facts [OF assms] by fastforce

lemma levels_heads_sorted:
  assumes "levels_ok t wk nf h root lv ups" and "good_order t wk ord" and "heads_sorted ord lv" and "i < length (lv # ups)"
  shows "heads_sorted ord ((lv # ups) ! i)"
  using assms(4)
proof (induction i)
  case (Suc i)
  note n = levels_ok_nth [OF assms(1)]
  have "contents ((lv # ups) ! Suc i) = map (entry t) ((lv # ups) ! i)" using n(2) Suc.prems by simp
  moreover have "\<forall>x\<in>set ((lv # ups) ! i). wk (hd (snd x))" "\<forall>x\<in>set ((lv # ups) ! Suc i). snd x \<noteq> []"
    using level_heads [OF n(1) assms(2), of i] level_heads [OF n(1) assms(2), of "Suc i"] Suc.prems by simp_all
  moreover have "heads_sorted ord ((lv # ups) ! i)" using Suc by simp
  ultimately show ?case using heads_sorted_up [OF assms(2)] by blast
qed (use assms(3) in simp)

section \<open>The invariant\<close>

text \<open>The nodes of the tree are marked used in the map, and none of them is a node of the map.\<close>

definition owned :: "'s tree_env \<Rightarrow> ('s \<Rightarrow> bytes) \<Rightarrow> 's \<Rightarrow> map_record list \<Rightarrow> level list \<Rightarrow> bool" where
  "owned E dsk s ms Ls \<longleftrightarrow>
     distinct (nodes_of Ls)
     \<and> (\<forall>n\<in>set (nodes_of Ls). n < bt_totalNodes (te_get E s) \<and> n \<notin> free_nodes E dsk s ms \<and> n \<notin> map_nodes ms)"

definition tree_ok :: "'s tree_env \<Rightarrow> ('s \<Rightarrow> bytes) \<Rightarrow> ('s \<Rightarrow> bool) \<Rightarrow> (bytes \<Rightarrow> bool) \<Rightarrow> 's \<Rightarrow> map_record list \<Rightarrow> level \<Rightarrow> level list \<Rightarrow> bool" where
  "tree_ok E dsk live wk s ms lv ups \<longleftrightarrow>
     (let t = te_get E s in
      ready E dsk live s \<and> alloc_ok E dsk s ms \<and> good_order t wk (te_order E s) \<and> even_keys t
      \<and> levels_ok t wk (nodeb E dsk s) 1 (bt_root t) lv ups \<and> owned E dsk s ms (lv # ups)
      \<and> keys_sorted (te_order E s) (contents lv) \<and> length ups < 32
      \<and> bt_depth t = of_nat (length (lv # ups)) \<and> bt_firstLeaf t = fst (hd lv) \<and> bt_lastLeaf t = fst (last lv)
      \<and> bt_leafRecords t = of_nat (length (contents lv)))"

lemma tree_ok_facts:
  assumes "tree_ok E dsk live wk s ms lv ups"
  shows "ready E dsk live s" "alloc_ok E dsk s ms" "good_order (te_get E s) wk (te_order E s)" "even_keys (te_get E s)"
    "levels_ok (te_get E s) wk (nodeb E dsk s) 1 (bt_root (te_get E s)) lv ups" "owned E dsk s ms (lv # ups)"
    "keys_sorted (te_order E s) (contents lv)" "length ups < 32" "bt_depth (te_get E s) = of_nat (length (lv # ups))"
    "bt_firstLeaf (te_get E s) = fst (hd lv)" "bt_lastLeaf (te_get E s) = fst (last lv)"
    "bt_leafRecords (te_get E s) = of_nat (length (contents lv))"
  using assms unfolding tree_ok_def Let_def by blast+

text \<open>A path: the steps from the root down to the node \<open>n\<close> of height \<open>h\<close>.\<close>

fun path_ok :: "step list \<Rightarrow> u32 \<Rightarrow> nat \<Rightarrow> level list \<Rightarrow> bool" where
  "path_ok steps n h [] = True"
| "path_ok steps n h (up # ups) =
     (\<exists>p prs. (p, prs) \<in> set up \<and> steps ! length ups = \<lparr>st_node = p, st_kind = kIndexNode, st_height = of_nat (Suc h)\<rparr>
        \<and> (\<exists>r\<in>set prs. childOf r = n) \<and> path_ok steps p (Suc h) ups)"

lemma path_ok_append: "length ups \<le> length pre \<Longrightarrow> path_ok (pre @ post) n h ups = path_ok pre n h ups"
  by (induction ups arbitrary: n h) (auto simp: nth_append)

lemma node_kinds [simp]: "node_kind (Suc 0) = kLeafNode" "node_kind 1 = kLeafNode" "h \<noteq> 1 \<Longrightarrow> node_kind h = kIndexNode"
  "node_kind (Suc (Suc h)) = kIndexNode"
  by (simp_all add: node_kind_def)

lemma child_loop_cong:
  assumes "bare t' = bare t"
  shows "child_loop t' = child_loop t"
proof -
  have "child_loop t' cmp nd c is = child_loop t cmp nd c is" for cmp nd c "is"
    by (induction "is" arbitrary: c) (auto simp: node_fun_cong [OF assms] split: option.splits prod.splits)
  then show ?thesis by (simp add: fun_eq_iff)
qed

lemma good_order_cong:
  assumes "bare t' = bare t"
  shows "good_order t' = good_order t"
  by (simp add: fun_eq_iff good_order_def node_fun_cong [OF assms])

context tree_file begin

lemma owned_inside:
  assumes "alloc_ok E dsk s ms" and "owned E dsk s ms Ls" and "n \<in> set (nodes_of Ls)"
  shows "inside s n" "n \<noteq> 0" "n < bt_totalNodes (tree s)" "n \<notin> free s ms" "n \<notin> map_nodes ms"
proof -
  show n: "n < bt_totalNodes (tree s)" "n \<notin> free s ms" "n \<notin> map_nodes ms" using assms(2,3) by (auto simp: owned_def)
  show "inside s n" using assms(1) n(1) by (simp add: alloc_ok_def)
  have "map_ok E dsk s ms" using assms(1) by (simp add: alloc_ok_def)
  then show "n \<noteq> 0" using map_zero(1) n(3) by metis
qed

lemma path_loop_ok:
  assumes "rdy s" and "good_order (tree s) wk ord" and "te_order E s = ord" and "levels_ok (tree s) wk (at_node s) 1 root lv ups"
    and "heads_sorted ord lv" and "\<forall>n\<in>set (nodes_of (lv # ups)). inside s n \<and> n \<noteq> 0" and "wk key"
    and "i < length (lv # ups)" and "i < guard" and "(lv # ups) ! i = xs @ (n, rs) # ys" and "on_way ord key xs rs ys"
    and "length pre = length (lv # ups) - Suc i" and "path_ok pre n (Suc i) (drop (Suc i) (lv # ups))"
  shows "\<exists>sts s' xs' lf rs' ys'. path_loop E key guard n s = (Some sts, s') \<and> view s s' \<and> rdy s' \<and> length sts = Suc i
    \<and> lv = xs' @ (lf, rs') # ys' \<and> on_way ord key xs' rs' ys' \<and> path_ok (pre @ sts) lf 1 ups
    \<and> last sts = \<lparr>st_node = lf, st_kind = kLeafNode, st_height = 1\<rparr>"
  using assms
proof (induction i arbitrary: s n rs xs ys guard pre)
  case 0
  obtain g where g: "guard = Suc g" using "0.prems"(9) by (cases guard) auto
  have n: "(n, rs) \<in> set lv" using "0.prems"(10) by simp
  have "n \<in> set (nodes_of (lv # ups))" using n by (force simp: nodes_of_def)
  then have in': "inside s n" "n \<noteq> 0" using "0.prems"(6) by auto
  obtain s1 where r: "node E n s = (Some (at_node s n), s1)" "view s s1" "rdy s1" using node_read [OF "0.prems"(1) in'(1)] by blast
  have lok: "level_ok (tree s) wk (at_node s) 1 lv" using levels_ok_nth(1) [OF "0.prems"(4), of 0] by simp
  obtain fl bl where sh: "node_shape (tree s) (at_node s n) kLeafNode 1 fl bl rs"
    using level_ok_facts(6) [OF lok "0.prems"(2) n] by auto
  then have k: "kind (at_node s n) = kLeafNode" "at_node s n ! 9 = 1" by (simp_all add: node_shape_def)
  have "path_ok (pre @ [\<lparr>st_node = n, st_kind = kLeafNode, st_height = 1\<rparr>]) n 1 ups"
    using "0.prems"(12,13) path_ok_append by simp
  moreover have "path_loop E key guard n s = (Some [\<lparr>st_node = n, st_kind = kLeafNode, st_height = 1\<rparr>], s1)"
    unfolding g using r(1) in'(2) k by (simp add: Let_def)
  ultimately show ?case using r(2,3) "0.prems"(10,11)
    by (intro exI [of _ "[\<lparr>st_node = n, st_kind = kLeafNode, st_height = 1\<rparr>]"] exI [of _ s1] exI [of _ xs] exI [of _ n]
        exI [of _ rs] exI [of _ ys]) simp
next
  case (Suc i)
  obtain g where g: "guard = Suc g" using Suc.prems(9) by (cases guard) auto
  let ?up = "(lv # ups) ! Suc i" and ?low = "(lv # ups) ! i"
  have n: "(n, rs) \<in> set ?up" using Suc.prems(10) by simp
  have upin: "?up \<in> set (lv # ups)" using Suc.prems(8) nth_mem by blast
  then have "n \<in> set (nodes_of (lv # ups))" using n unfolding nodes_of_def by force
  then have in': "inside s n" "n \<noteq> 0" using Suc.prems(6) by auto
  obtain s1 where r: "node E n s = (Some (at_node s n), s1)" "view s s1" "rdy s1" using node_read [OF Suc.prems(1) in'(1)] by blast
  note v = view_facts [OF r(2)] and vt = view_tree [OF r(2)]
  note lvl = levels_ok_nth [OF Suc.prems(4)]
  have lok: "level_ok (tree s) wk (at_node s) (1 + Suc i) ?up" using lvl(1) Suc.prems(8) by blast
  note f = level_ok_facts [OF lok Suc.prems(2) n]
  obtain fl bl where sh: "node_shape (tree s) (at_node s n) kIndexNode (of_nat (1 + Suc i)) fl bl rs" using f(6) by auto
  then have k: "kind (at_node s n) = kIndexNode" "at_node s n ! 9 = of_nat (1 + Suc i)" by (simp_all add: node_shape_def)
  have ext: "ord key (r @ x) = ord key r" if "wk r" for r x using order_facts(4) [OF Suc.prems(2,7) that] .
  have roks: "\<forall>r\<in>set rs. record_ok (tree s) wk True r" using f(2) by simp
  obtain j where j: "j < length rs" "child_loop (tree s) (ord key) (at_node s n) 0 [0..<count (at_node s n)] = Some (childOf (rs ! j))"
    "j = 0 \<or> 0 \<le> ord key (rs ! j)" "Suc j < length rs \<longrightarrow> ord key (rs ! Suc j) < 0"
    using child_loop_ok [OF sh Suc.prems(2) roks Suc.prems(7) f(1) ext] by blast
  have low: "contents ?up = map (entry (tree s)) ?low" using lvl(2) Suc.prems(8) by simp
  have lowok: "level_ok (tree s) wk (at_node s) (1 + i) ?low" using lvl(1) Suc.prems(8) by simp
  have hs: "heads_sorted ord ?low" using levels_heads_sorted [OF Suc.prems(4,2,5)] Suc.prems(8) by simp
  have hl: "\<forall>x\<in>set ?low. wk (hd (snd x))" using level_heads [OF lowok Suc.prems(2)] by blast
  have hu: "\<forall>x\<in>set ?up. snd x \<noteq> []" using level_heads [OF lok Suc.prems(2)] by blast
  obtain xs' m ms ys' where d: "?low = xs' @ (m, ms) # ys'" "rs ! j = entry (tree s) (m, ms)" "on_way ord key xs' ms ys'"
    using descend [OF Suc.prems(2) low hs hl hu Suc.prems(7,10,11) j(1,3,4)] by blast
  let ?st = "\<lparr>st_node = n, st_kind = kIndexNode, st_height = of_nat (Suc (Suc i))\<rparr>"
  have child: "childOf (rs ! j) = m" using d(2) by (simp add: entry_def)
  have drop: "drop (Suc i) (lv # ups) = ?up # drop (Suc (Suc i)) (lv # ups)"
    using Suc.prems(8) Cons_nth_drop_Suc [of "Suc i" "lv # ups"] by simp
  have lp: "length pre = length (drop (Suc (Suc i)) (lv # ups))" using Suc.prems(12) by simp
  have pok: "path_ok (pre @ [?st]) m (Suc i) (drop (Suc i) (lv # ups))"
    unfolding drop path_ok.simps
  proof (intro exI conjI)
    show "(n, rs) \<in> set ?up" by (rule n)
    show "(pre @ [?st]) ! length (drop (Suc (Suc i)) (lv # ups)) = ?st" using lp by (simp only: nth_append_length flip: lp)
    show "\<exists>r\<in>set rs. childOf r = m" using child j(1) nth_mem by blast
    show "path_ok (pre @ [?st]) n (Suc (Suc i)) (drop (Suc (Suc i)) (lv # ups))"
      using Suc.prems(13) path_ok_append [of "drop (Suc (Suc i)) (lv # ups)" pre] lp by simp
  qed
  have lv1: "levels_ok (tree s1) wk (at_node s1) 1 root lv ups" unfolding v(2) by (rule levels_ok_cong [OF Suc.prems(4) refl v(6)])
  have go1: "good_order (tree s1) wk ord" unfolding good_order_cong [OF v(6)] by (rule Suc.prems(2))
  have te: "te_order E s1 = ord" by (rule trans [OF v(5) Suc.prems(3)])
  have ins: "\<forall>n\<in>set (nodes_of (lv # ups)). inside s1 n \<and> n \<noteq> 0" unfolding v(3) by (rule Suc.prems(6))
  have il: "i < length (lv # ups)" "i < g" using Suc.prems(8,9) g by simp_all
  have lpre: "length (pre @ [?st]) = length (lv # ups) - Suc i" using Suc.prems(8,12) by simp
  note Suc.IH [OF r(3) go1 te lv1 Suc.prems(5) ins Suc.prems(7) il d(1,3) lpre pok]
  then obtain sts s' xs'' lf rs' ys'' where *: "path_loop E key g m s1 = (Some sts, s')" "view s1 s'" "rdy s'" "length sts = Suc i"
    "lv = xs'' @ (lf, rs') # ys''" "on_way ord key xs'' rs' ys''" "path_ok ((pre @ [?st]) @ sts) lf 1 ups"
    "last sts = \<lparr>st_node = lf, st_kind = kLeafNode, st_height = 1\<rparr>" by (elim exE conjE)
  have cl: "child_loop (tree s1) (te_order E s1 key) (at_node s n) 0 [0..<count (at_node s n)] = Some m"
    unfolding te child_loop_cong [OF v(6)] j(2) child ..
  have "path_loop E key guard n s = (Some (?st # sts), s')"
    unfolding g path_loop.simps r(1) using in'(2) by (simp add: Let_def k cl *(1))
  moreover have "sts \<noteq> []" using *(4) by auto
  ultimately show ?case using * view_trans [OF r(2) *(2)]
    by (intro exI [of _ "?st # sts"] exI [of _ s'] exI [of _ xs''] exI [of _ lf] exI [of _ rs'] exI [of _ ys'']) simp
qed

end

end
