(* ===== verification/HFSP_Store.thy ===== *)
theory HFSP_Store
  imports HFSP_Search
begin

text \<open>
  Storing records in a node: the node is rewritten, or split in two, and the change climbs to the
  root. Afterwards the levels hold exactly the records they held, with the node's replaced.
\<close>

section \<open>What the functions of a node depend on\<close>

definition form :: "btree \<Rightarrow> u16 \<times> u16 \<times> u32" where
  "form t = (bt_nodeSize t, bt_maxKeyLength t, bt_attributes t)"

lemma form_bare: "bare t' = bare t \<Longrightarrow> form t' = form t"
  by (metis bare_simps(2,3,11) form_def)

lemma form_update [simp]:
  "form (t\<lparr>bt_freeNodes := x\<rparr>) = form t" "form (t\<lparr>bt_root := x\<rparr>) = form t" "form (t\<lparr>bt_depth := d\<rparr>) = form t"
  "form (t\<lparr>bt_leafRecords := x\<rparr>) = form t" "form (t\<lparr>bt_firstLeaf := x\<rparr>) = form t" "form (t\<lparr>bt_lastLeaf := x\<rparr>) = form t"
  "form (bare t) = form t"
  by (simp_all add: form_def)

lemma form_cong:
  assumes "form t' = form t"
  shows "bt_nodeSize t' = bt_nodeSize t" "variable_keys t' = variable_keys t" "offset_at t' = offset_at t"
    "keyBytes t' = keyBytes t" "records t' = records t" "indexKey t' = indexKey t" "indexRecord t' = indexRecord t"
    "fits t' = fits t" "node_shape t' = node_shape t" "node_chain t' = node_chain t" "record_ok t' = record_ok t" "entry t' = entry t"
    "level_ok t' = level_ok t" "levels_ok t' = levels_ok t" "good_order t' = good_order t" "even_keys t' = even_keys t"
proof -
  have f: "bt_nodeSize t' = bt_nodeSize t" "bt_maxKeyLength t' = bt_maxKeyLength t" "bt_attributes t' = bt_attributes t"
    using assms by (simp_all add: form_def)
  show "bt_nodeSize t' = bt_nodeSize t" by (rule f(1))
  show v: "variable_keys t' = variable_keys t" by (simp add: variable_keys_def f)
  show o: "offset_at t' = offset_at t" by (simp add: fun_eq_iff offset_at_def f)
  show k: "keyBytes t' = keyBytes t" by (simp add: fun_eq_iff keyBytes_def v f)
  have "records_from t' nd is = records_from t nd is" for nd "is" by (induction "is") (simp_all add: o f Let_def)
  then show "records t' = records t" by (simp add: fun_eq_iff records_def)
  show i: "indexKey t' = indexKey t" by (simp add: fun_eq_iff indexKey_def v f)
  show r: "indexRecord t' = indexRecord t" by (simp add: fun_eq_iff indexRecord_def i)
  show w: "fits t' = fits t" by (simp add: fun_eq_iff fits_def f)
  show s: "node_shape t' = node_shape t" by (simp add: fun_eq_iff node_shape_def o f w)
  have "node_chain t' nf k h p n lv = node_chain t nf k h p n lv" for nf k h p n lv
    by (induction lv arbitrary: p) (auto simp: s)
  then show c: "node_chain t' = node_chain t" by (simp add: fun_eq_iff)
  show ro: "record_ok t' = record_ok t" by (simp add: fun_eq_iff record_ok_def k i f)
  show e: "entry t' = entry t" by (simp add: fun_eq_iff entry_def r)
  show l: "level_ok t' = level_ok t" by (simp add: fun_eq_iff level_ok_def c ro)
  have "levels_ok t' wk nf h root lv ups = levels_ok t wk nf h root lv ups" for wk nf h root lv ups
    by (induction ups arbitrary: h lv) (simp_all add: l e)
  then show "levels_ok t' = levels_ok t" by (simp add: fun_eq_iff)
  show "good_order t' = good_order t" by (simp add: fun_eq_iff good_order_def i)
  show "even_keys t' = even_keys t" by (simp add: even_keys_def v f)
qed

text \<open>A list of records that fits a node or two.\<close>

definition storable :: "btree \<Rightarrow> bytes list \<Rightarrow> bool" where
  "storable t recs \<longleftrightarrow>
     recs \<noteq> [] \<and> (\<exists>B g. (\<forall>r\<in>set recs. 8 \<le> length r \<and> length r \<le> B) \<and> 16 + 2 * length recs + bytes_of recs \<le> unat (bt_nodeSize t) + g
       \<and> 5 * g + 10 * B + 48 \<le> 3 * unat (bt_nodeSize t))"

lemma storable_split:
  assumes "storable t recs" and "\<not> fits t recs"
  shows "fits t (take (split_at recs) recs)" "fits t (drop (split_at recs) recs)"
    "take (split_at recs) recs \<noteq> []" "drop (split_at recs) recs \<noteq> []"
proof -
  obtain B g where "\<forall>r\<in>set recs. 8 \<le> length r \<and> length r \<le> B"
    "16 + 2 * length recs + bytes_of recs \<le> unat (bt_nodeSize t) + g" "5 * g + 10 * B + 48 \<le> 3 * unat (bt_nodeSize t)" "recs \<noteq> []"
    using assms(1) unfolding storable_def by blast
  note f = split_fits [OF this(1) assms(2) this(4,2,3)]
  show "fits t (take (split_at recs) recs)" "fits t (drop (split_at recs) recs)"
    "take (split_at recs) recs \<noteq> []" "drop (split_at recs) recs \<noteq> []"
    using f by auto
qed

section \<open>One level\<close>

definition step_of :: "u32 \<Rightarrow> nat \<Rightarrow> step" where
  "step_of n h = \<lparr>st_node = n, st_kind = node_kind h, st_height = of_nat h\<rparr>"

lemma step_of_simps [simp]: "st_node (step_of n h) = n" "st_kind (step_of n h) = node_kind h" "st_height (step_of n h) = of_nat h"
  by (simp_all add: step_of_def)

lemma node_of_level:
  assumes "level_ok t wk nf h (xs @ (n, rs) # ys)"
  shows "node_shape t (nf n) (node_kind h) (of_nat h) (first_or 0 ys) (last_or 0 xs) rs" "rs \<noteq> []"
  using assms by (simp_all add: level_ok_def chain_append)

lemma level_replace:
  assumes "level_ok t wk nf h (xs @ (n, rs) # ys)" and "\<And>m. m \<in> fst ` set (xs @ ys) \<Longrightarrow> nf' m = nf m"
    and "node_shape t (nf' n) (node_kind h) (of_nat h) (first_or 0 ys) (last_or 0 xs) recs"
    and "recs \<noteq> []" and "\<forall>r\<in>set recs. record_ok t wk (h \<noteq> 1) r"
  shows "level_ok t wk nf' h (xs @ (n, recs) # ys)"
proof -
  have c: "node_chain t nf (node_kind h) (of_nat h) 0 n xs" "node_chain t nf (node_kind h) (of_nat h) n 0 ys"
    using assms(1) by (simp_all add: level_ok_def chain_append)
  have "node_chain t nf' (node_kind h) (of_nat h) 0 n xs" by (rule chain_cong [OF c(1)]) (use assms(2) in auto)
  moreover have "node_chain t nf' (node_kind h) (of_nat h) n 0 ys" by (rule chain_cong [OF c(2)]) (use assms(2) in auto)
  ultimately show ?thesis using assms(1,3,4,5) by (auto simp: level_ok_def chain_append)
qed

lemma level_split:
  assumes "level_ok t wk nf h (xs @ (n, rs) # ys)" and "distinct (map fst ys)"
    and "\<And>k. k \<in> fst ` set xs \<Longrightarrow> nf' k = nf k" and "\<And>k. k \<in> fst ` set ys \<Longrightarrow> k \<noteq> first_or 0 ys \<Longrightarrow> nf' k = nf k"
    and "ys \<noteq> [] \<Longrightarrow> nf' (first_or 0 ys) = put32_at 4 m (nf (first_or 0 ys))"
    and "node_shape t (nf' n) (node_kind h) (of_nat h) m (last_or 0 xs) l"
    and "node_shape t (nf' m) (node_kind h) (of_nat h) (first_or 0 ys) n r"
    and "l \<noteq> []" and "r \<noteq> []" and "\<forall>x\<in>set l \<union> set r. record_ok t wk (h \<noteq> 1) x"
  shows "level_ok t wk nf' h (xs @ (n, l) # (m, r) # ys)"
proof -
  have c: "node_chain t nf (node_kind h) (of_nat h) 0 n xs" "node_chain t nf (node_kind h) (of_nat h) n 0 ys"
    using assms(1) by (simp_all add: level_ok_def chain_append)
  have "node_chain t nf' (node_kind h) (of_nat h) 0 n xs" by (rule chain_cong [OF c(1)]) (use assms(3) in auto)
  moreover have "node_chain t nf' (node_kind h) (of_nat h) m 0 ys"
    by (rule chain_relink_prev [OF c(2) assms(4,5,2)]) auto
  ultimately show ?thesis using assms(1,6-10) by (auto simp: level_ok_def chain_append)
qed

section \<open>The parent of a node\<close>

lemma childOf_entry [simp]: "childOf (entry t x) = fst x"
  by (simp add: entry_def)

lemma parent_entry:
  assumes "contents (us @ (p, prs) # vs) = map (entry t) (xs @ (n, rs) # ys)" and "distinct (map fst (xs @ (n, rs) # ys))"
    and "\<exists>r\<in>set prs. childOf r = n"
  shows "\<exists>i. child_index n prs = Some i \<and> i < length prs \<and> prs ! i = entry t (n, rs)
    \<and> contents us @ take i prs = map (entry t) xs \<and> drop (Suc i) prs @ contents vs = map (entry t) ys"
proof -
  let ?lv = "xs @ (n, rs) # ys"
  obtain i where i: "child_index n prs = Some i" "i < length prs" "childOf (prs ! i) = n"
  proof (cases "child_index n prs")
    case None
    then show ?thesis using assms(3) by (auto simp: child_index_def find_None_iff in_set_conv_nth)
  next
    case (Some i)
    then have "i < length prs \<and> childOf (prs ! i) = n" by (auto simp: child_index_def find_Some_iff)
    then show ?thesis using that Some by blast
  qed
  let ?j = "length (contents us) + i"
  have cont: "contents us @ prs @ contents vs = map (entry t) ?lv" using assms(1) by simp
  have j: "?j < length ?lv" using i(2) arg_cong [OF cont, of length] by simp
  have at: "prs ! i = entry t (?lv ! ?j)"
  proof -
    have "prs ! i = (contents us @ prs @ contents vs) ! ?j" using i(2) by (simp add: nth_append)
    then show ?thesis using j by (simp only: cont nth_map)
  qed
  have "map fst ?lv ! ?j = n" unfolding nth_map [OF j] using at i(3) by simp
  then have "map fst ?lv ! ?j = map fst ?lv ! length xs" by (simp add: nth_append)
  then have jx: "?j = length xs" using nth_eq_iff_index_eq [OF assms(2), of ?j "length xs"] j by simp
  then have "prs ! i = entry t (n, rs)" using at by simp
  moreover have "contents us @ take i prs = map (entry t) xs"
    using arg_cong [OF cont, of "take (length xs)"] i(2) by (simp flip: jx)
  moreover have "drop (Suc i) prs @ contents vs = map (entry t) ys"
    using arg_cong [OF cont, of "drop (Suc (length xs))"] i(2) by (simp flip: jx)
  ultimately show ?thesis using i by blast
qed

text \<open>An index node whose record for a child gives way to at most two.\<close>

lemma storable_index:
  assumes "fits t prs" and "\<forall>r\<in>set prs. record_ok t wk True r" and "i < length prs" and "es \<noteq> []" and "length es \<le> 2"
    and "\<forall>r\<in>set es. record_ok t wk True r"
  shows "storable t (take i prs @ es @ drop (Suc i) prs)"
proof -
  let ?N = "unat (bt_nodeSize t)" and ?rs = "take i prs @ es @ drop (Suc i) prs"
  define B where "B = (3 * ?N - 58) div 20"
  have len: "8 \<le> length r" "length r \<le> B" "58 \<le> 3 * ?N" if "record_ok t wk True r" for r
    using that by (auto simp: record_ok_def B_def)
  have all: "\<forall>r\<in>set ?rs. record_ok t wk True r" using assms(2,6) by (auto dest: in_set_takeD in_set_dropD)
  have "bytes_of (take i prs) + bytes_of (drop (Suc i) prs) \<le> bytes_of prs"
  proof -
    have "prs = take i prs @ prs ! i # drop (Suc i) prs" using id_take_nth_drop [OF assms(3)] .
    then have "bytes_of prs = bytes_of (take i prs) + length (prs ! i) + bytes_of (drop (Suc i) prs)"
      by (metis add.assoc list.simps(9) map_append sum_list.Cons sum_list_append)
    then show ?thesis by simp
  qed
  moreover have "bytes_of es \<le> 2 * B"
  proof -
    have "bytes_of es \<le> length es * B"
      using sum_list_mono [of es length "\<lambda>_. B"] assms(6) len(2) by (simp add: sum_list_triv)
    also have "\<dots> \<le> 2 * B" using assms(5) by simp
    finally show ?thesis .
  qed
  moreover have "16 + 2 * length prs + bytes_of prs \<le> ?N" using assms(1) by (simp add: fits_def)
  ultimately have size: "16 + 2 * length ?rs + bytes_of ?rs \<le> ?N + (2 * B + 2)" using assms(3,5) by simp
  have "58 \<le> 3 * ?N" using assms(4,6) len(3) by (cases es) auto
  moreover have "20 * B \<le> 3 * ?N - 58" unfolding B_def by (rule times_div_less_eq_dividend)
  ultimately have "20 * B + 58 \<le> 3 * ?N" by (simp add: le_diff_conv2)
  then have "5 * (2 * B + 2) + 10 * B + 48 \<le> 3 * ?N" by simp
  moreover have "\<forall>r\<in>set ?rs. 8 \<le> length r \<and> length r \<le> B" using all len by blast
  ultimately show ?thesis using size assms(4) unfolding storable_def by (intro conjI exI [of _ B] exI [of _ "2 * B + 2"]) simp_all
qed

context tree_file begin

lemma writeNode_ok:
  assumes "rdy s" and "inside s n" and "fits (tree s) recs"
  shows "\<exists>s'. writeNode E n k h fl bl recs s = (Inr (), s') \<and> kp {n} s s' \<and> bare (tree s') = bare (tree s)
    \<and> node_shape (tree s) (at_node s' n) k h fl bl recs"
proof -
  let ?b = "node_bytes (node_size E s) k h fl bl recs"
  have sh: "node_shape (tree s) ?b k h fl bl recs" using node_bytes_shape [OF assms(3)] by (simp add: node_size_def)
  then have "length ?b = node_size E s" by (simp add: node_shape_def node_size_def)
  from write_cached_keeps [OF assms(1,2) this] show ?thesis using sh by (auto simp: writeNode_def)
qed

text \<open>A node that is about to be rewritten: it is in the file, and no node of the map.\<close>

definition usable :: "'s \<Rightarrow> map_record list \<Rightarrow> u32 \<Rightarrow> bool" where
  "usable s ms n \<longleftrightarrow> inside s n \<and> n \<noteq> 0 \<and> n \<notin> map_nodes ms"


text \<open>What the nodes of a level may be: in the file, apart, not of the map and not free.\<close>

definition level_in :: "'s \<Rightarrow> map_record list \<Rightarrow> level \<Rightarrow> bool" where
  "level_in s ms lv \<longleftrightarrow>
     distinct (map fst lv) \<and> (\<forall>k\<in>fst ` set lv. inside s k \<and> k \<noteq> 0 \<and> k \<notin> map_nodes ms \<and> k \<notin> free s ms)"

lemma store_node_fits:
  assumes "rdy s" and "level_ok (tree s) wk (at_node s) h (xs @ (n, rs) # ys)" and "level_in s ms (xs @ (n, rs) # ys)"
    and "recs \<noteq> []" and "\<forall>r\<in>set recs. record_ok (tree s) wk (h \<noteq> 1) r" and "fits (tree s) recs"
  shows "\<exists>s'. store_node E (step_of n h) recs s
      = (Inr (if indexKey (tree s) (hd rs) = indexKey (tree s) (hd recs) then W_done else W_first (hd recs)), s')
    \<and> level_ok (tree s) wk (at_node s') h (xs @ (n, recs) # ys) \<and> kp {n} s s' \<and> bare (tree s') = bare (tree s)"
proof -
  note sh = node_of_level [OF assms(2)]
  have n: "inside s n" "n \<notin> fst ` set (xs @ ys)" and ins: "\<And>m. m \<in> fst ` set (xs @ ys) \<Longrightarrow> inside s m"
    using assms(3) by (auto simp: level_in_def)
  obtain s1 where s1: "node E n s = (Some (at_node s n), s1)" "kp {} s s1" "bare (tree s1) = bare (tree s)" "at_node s1 = at_node s"
    using node_keeps [OF assms(1) n(1)] by blast
  note k1 = keeps_facts [OF s1(2)] and f1 = form_cong [OF form_bare [OF s1(3)]]
  obtain s' where s': "writeNode E n (node_kind h) (of_nat h) (first_or 0 ys) (last_or 0 xs) recs s1 = (Inr (), s')" "kp {n} s1 s'"
    "bare (tree s') = bare (tree s1)" "node_shape (tree s1) (at_node s' n) (node_kind h) (of_nat h) (first_or 0 ys) (last_or 0 xs) recs"
    using writeNode_ok [OF k1(1), of n recs] n(1) assms(6) by (metis f1(8) k1(3))
  have k: "kp {n} s s'" using keeps_more [OF s1(2) s'(2)] by blast
  have links: "next_link (at_node s n) = first_or 0 ys" "be32_at (at_node s n) 4 = last_or 0 xs" "records (tree s) (at_node s n) = rs"
    using sh shape_records [OF sh(1)] by (simp_all add: node_shape_def)
  have run: "store_node E (step_of n h) recs s
      = (Inr (if indexKey (tree s) (hd rs) = indexKey (tree s) (hd recs) then W_done else W_first (hd recs)), s')"
    using s1(1) s'(1) assms(4,6) sh(2) by (simp add: store_node_def op_simps step_of_def Let_def links f1)
  have "level_ok (tree s) wk (at_node s') h (xs @ (n, recs) # ys)"
  proof (rule level_replace [OF assms(2)])
    show "at_node s' m = at_node s m" if "m \<in> fst ` set (xs @ ys)" for m
      using keeps_facts(6) [OF k ins [OF that]] that n(2) by auto
    show "node_shape (tree s) (at_node s' n) (node_kind h) (of_nat h) (first_or 0 ys) (last_or 0 xs) recs" using s'(4) by (simp add: f1)
  qed (use assms(4,5) in auto)
  then show ?thesis using run k s'(3) s1(3) by auto
qed


lemma store_node_splits:
  assumes "rdy s" and "alloc_ok E dsk s ms" and "bt_freeNodes (tree s) \<noteq> 0"
    and "level_ok (tree s) wk (at_node s) h (xs @ (n, rs) # ys)" and "level_in s ms (xs @ (n, rs) # ys)"
    and "storable (tree s) recs" and "\<forall>r\<in>set recs. record_ok (tree s) wk (h \<noteq> 1) r" and "\<not> fits (tree s) recs"
  shows "\<exists>m l r s'. store_node E (step_of n h) recs s = (Inr (W_split (hd l) (hd r) m), s')
    \<and> l @ r = recs \<and> l \<noteq> [] \<and> r \<noteq> [] \<and> m \<in> free s ms \<and> inside s m
    \<and> level_ok (tree s) wk (at_node s') h (xs @ (n, l) # (m, r) # ys)
    \<and> kp (insert m (fst ` set (xs @ (n, rs) # ys)) \<union> map_nodes ms) s s' \<and> alloc_ok E dsk s' ms \<and> free s' ms = free s ms - {m}
    \<and> bare (tree s') = (bare (tree s))\<lparr>bt_freeNodes := bt_freeNodes (tree s) - 1,
        bt_lastLeaf := (if h = 1 \<and> bt_lastLeaf (tree s) = n then m else bt_lastLeaf (tree s))\<rparr>"
proof -
  note sh = node_of_level [OF assms(4)]
  let ?l = "take (split_at recs) recs" and ?r = "drop (split_at recs) recs" and ?fl = "first_or 0 ys" and ?bl = "last_or 0 xs"
  note sp = storable_split [OF assms(6,8)]
  have n: "inside s n" "n \<noteq> 0" "n \<notin> fst ` set (xs @ ys)" "n \<notin> map_nodes ms" "n \<notin> free s ms" "distinct (map fst ys)"
    "fst ` set xs \<inter> fst ` set ys = {}"
    and ins: "\<And>k. k \<in> fst ` set (xs @ ys) \<Longrightarrow> inside s k \<and> k \<noteq> 0 \<and> k \<notin> map_nodes ms \<and> k \<notin> free s ms"
    using assms(5) by (auto simp: level_in_def)
  have fl: "?fl \<in> fst ` set ys" if "ys \<noteq> []" using that by (cases ys) auto
  obtain s1 where s1: "node E n s = (Some (at_node s n), s1)" "kp {} s s1" "bare (tree s1) = bare (tree s)" "at_node s1 = at_node s"
    using node_keeps [OF assms(1) n(1)] by blast
  note k1 = keeps_facts [OF s1(2)] and f1 = form_cong [OF form_bare [OF s1(3)]] and b1 = node_fun_cong [OF s1(3)]
  have a1: "alloc_ok E dsk s1 ms" "free s1 ms = free s ms" using alloc_ok_keeps [OF s1(2) _ assms(2)] b1 by auto
  obtain m s2 where s2: "allocNode E s1 = (Inr m, s2)" "kp (map_nodes ms) s1 s2" "alloc_ok E dsk s2 ms"
    "bare (tree s2) = (bare (tree s1))\<lparr>bt_freeNodes := bt_freeNodes (tree s1) - 1\<rparr>" "m \<in> free s1 ms" "inside s1 m"
    "free s2 ms = free s1 ms - {m}"
    using allocNode_ok [OF k1(1) a1(1)] assms(3) b1 by auto
  have m1: "m \<in> free s ms" "inside s m" using s2(5,6) a1(2) k1(3) by simp_all
  then have "m \<notin> map_nodes ms" "m \<noteq> n" "m \<notin> fst ` set (xs @ ys)" using assms(2) n(5) ins [of m] by (auto simp: alloc_ok_def)
  note m = m1(1) this m1(2)
  note k2 = keeps_facts [OF keeps_more [OF s1(2) s2(2) subset_refl]]
  have form2: "form (tree s2) = form (tree s)" using s2(4) s1(3) by (metis form_update(1,7))
  note f2 = form_cong [OF form2]
  obtain s3 where s3: "writeNode E n (node_kind h) (of_nat h) m ?bl ?l s2 = (Inr (), s3)" "kp {n} s2 s3" "bare (tree s3) = bare (tree s2)"
    "node_shape (tree s) (at_node s3 n) (node_kind h) (of_nat h) m ?bl ?l"
    using writeNode_ok [OF k2(1), of n ?l] n(1) sp(1) unfolding f2 k2(3) by blast
  note k3 = keeps_facts [OF keeps_more [OF keeps_more [OF s1(2) s2(2) subset_refl] s3(2) subset_refl]]
  obtain s4 where s4: "writeNode E m (node_kind h) (of_nat h) ?fl n ?r s3 = (Inr (), s4)" "kp {m} s3 s4" "bare (tree s4) = bare (tree s3)"
    "node_shape (tree s) (at_node s4 m) (node_kind h) (of_nat h) ?fl n ?r"
    using writeNode_ok [OF k3(1), of m ?r] m(5) sp(2) unfolding form_cong [OF trans [OF form_bare [OF s3(3)] form2]] k3(3) by blast
  note kk4 = keeps_more [OF keeps_more [OF keeps_more [OF s1(2) s2(2) subset_refl] s3(2) subset_refl] s4(2) subset_refl]
  note k4 = keeps_facts [OF kk4]
  have ns: "8 \<le> node_size E s4" using k4(2) map_zero(3) assms(2) by (fastforce simp: alloc_ok_def)
  obtain s5 where s5: "(if ?fl \<noteq> 0 then setLinks E ?fl None (Some m) else ret ()) s4 = (Inr (), s5)" "kp (fst ` set ys) s4 s5"
    "bare (tree s5) = bare (tree s4)" "ys \<noteq> [] \<Longrightarrow> at_node s5 ?fl = put32_at 4 m (at_node s4 ?fl)"
    "\<And>k. inside s k \<Longrightarrow> (ys = [] \<or> k \<noteq> ?fl) \<Longrightarrow> at_node s5 k = at_node s4 k"
  proof (cases "ys = []")
    case True
    then show ?thesis using that [of s4] k4(1) by (simp add: op_simps keeps_nodes_def)
  next
    case False
    have i: "inside s4 ?fl" "?fl \<noteq> 0" using ins fl [OF False] k4(3) by auto
    obtain s5 where "setLinks E ?fl None (Some m) s4 = (Inr (), s5)" "kp {?fl} s4 s5" "bare (tree s5) = bare (tree s4)"
      "at_node s5 ?fl = put32_at 4 m (at_node s4 ?fl)"
      using setLinks_ok [OF k4(1) i(1) ns, of None "Some m"] by auto
    then show ?thesis using that [of s5] i(2) False k4(3) keeps_facts(6) [of "{?fl}" s4 s5]
        keeps_mono [of E dsk live "{?fl}" s4 s5 "fst ` set ys"] fl [OF False] by auto
  qed
  define g :: "btree \<Rightarrow> btree" where "g = (\<lambda>t. if node_kind h = kLeafNode \<and> bt_lastLeaf t = n then t\<lparr>bt_lastLeaf := m\<rparr> else t)"
  define s' where "s' = te_upd E g s5"
  have gg: "bt_nodeSize (g (tree s5)) = bt_nodeSize (tree s5)" "bt_cache (g (tree s5)) = bt_cache (tree s5)" by (simp_all add: g_def)
  note kk5 = keeps_more [OF kk4 s5(2) subset_refl]
  have s': "kp {} s5 s'" "bare (tree s') = bare (g (tree s5))"
    using update_keeps [where f = g, OF keeps_facts(1) [OF s5(2)] gg] by (simp_all add: s'_def)
  have at': "at_node s' k = at_node s5 k" if "inside s k" for k
    using keeps_facts(6) [OF s'(1)] keeps_facts(3) [OF kk5] that by simp
  have kk: "kp (insert m (fst ` set (xs @ (n, rs) # ys)) \<union> map_nodes ms) s s'"
    by (rule keeps_mono [OF keeps_more [OF kk5 s'(1) subset_refl]]) auto
  have b5: "bare (tree s5) = (bare (tree s))\<lparr>bt_freeNodes := bt_freeNodes (tree s) - 1\<rparr>"
    using s5(3) s4(3) s3(3) s2(4) s1(3) b1(14) by simp
  have h: "node_kind h = kLeafNode \<longleftrightarrow> h = 1" by (simp add: node_kind_def)
  have l5: "bt_lastLeaf (tree s5) = bt_lastLeaf (tree s)" using arg_cong [OF b5, of bt_lastLeaf] by simp
  have b': "bare (tree s') = (bare (tree s))\<lparr>bt_freeNodes := bt_freeNodes (tree s) - 1,
        bt_lastLeaf := (if h = 1 \<and> bt_lastLeaf (tree s) = n then m else bt_lastLeaf (tree s))\<rparr>"
    using b5 l5 by (simp add: s'(2) g_def h bare_update)
  have tot: "bt_totalNodes (tree s') = bt_totalNodes (tree s2)" "bt_freeNodes (tree s') = bt_freeNodes (tree s2)"
    using arg_cong [OF b', of bt_totalNodes] arg_cong [OF b', of bt_freeNodes] arg_cong [OF s2(4), of bt_totalNodes]
      arg_cong [OF s2(4), of bt_freeNodes] b1 by simp_all
  have k25: "kp (insert n (insert m (fst ` set ys))) s2 s'"
    by (rule keeps_mono [OF keeps_more [OF keeps_more [OF keeps_more [OF s3(2) s4(2) subset_refl] s5(2) subset_refl] s'(1) subset_refl]]) auto
  have dis: "insert n (insert m (fst ` set ys)) \<inter> map_nodes ms = {}" using n(4) m(2) ins by auto
  have a': "alloc_ok E dsk s' ms" "free s' ms = free s ms - {m}"
    using alloc_ok_keeps [OF k25 dis s2(3) tot] s2(7) a1(2) by simp_all
  have keep3: "at_node s3 k = at_node s k" if "k \<in> fst ` set (xs @ ys)" for k
    using keeps_facts(6) [OF keeps_more [OF keeps_more [OF s1(2) s2(2) subset_refl] s3(2) subset_refl], of k] ins [OF that] n(3) that by auto
  have keep4: "at_node s4 k = at_node s k" if "k \<in> fst ` set (xs @ ys)" for k
    using keeps_facts(6) [OF s4(2), of k] k3(3) keep3 [OF that] ins [OF that] m(4) that by auto
  have n4: "at_node s4 n = at_node s3 n" using keeps_facts(6) [OF s4(2), of n] k3(3) n(1) m(3) by auto
  have lev: "level_ok (tree s) wk (at_node s') h (xs @ (n, ?l) # (m, ?r) # ys)"
  proof (rule level_split [OF assms(4) n(6)])
    have fy: "ys = [] \<or> k \<noteq> ?fl" if "k \<notin> fst ` set ys" for k using fl that by auto
    have keep: "at_node s' k = at_node s k" if "k \<in> fst ` set (xs @ ys)" "ys = [] \<or> k \<noteq> ?fl" for k
      using at' s5(5) [OF _ that(2)] keep4 [OF that(1)] ins [OF that(1)] by simp
    show "at_node s' k = at_node s k" if "k \<in> fst ` set xs" for k
    proof (rule keep)
      have "k \<notin> fst ` set ys" using n(7) that by blast
      then show "ys = [] \<or> k \<noteq> ?fl" by (rule fy)
    qed (use that in auto)
    show "at_node s' k = at_node s k" if "k \<in> fst ` set ys" "k \<noteq> ?fl" for k
      by (rule keep) (use that in auto)
    show "at_node s' ?fl = put32_at 4 m (at_node s ?fl)" if "ys \<noteq> []"
    proof -
      have "?fl \<in> fst ` set (xs @ ys)" using fl [OF that] by auto
      then show ?thesis using at' [of ?fl] s5(4) [OF that] keep4 [of ?fl] ins [of ?fl] by presburger
    qed
    have "at_node s' n = at_node s3 n" using at' [OF n(1)] s5(5) [OF n(1) fy] n4 n(3) by (simp add: image_Un)
    then show "node_shape (tree s) (at_node s' n) (node_kind h) (of_nat h) m (last_or 0 xs) ?l" using s3(4) by simp
    have "at_node s' m = at_node s4 m" using at' [OF m(5)] s5(5) [OF m(5) fy] m(4) by (simp add: image_Un)
    then show "node_shape (tree s) (at_node s' m) (node_kind h) (of_nat h) ?fl n ?r" using s4(4) by simp
    show "?l \<noteq> []" "?r \<noteq> []" by (rule sp)+
    show "\<forall>x\<in>set ?l \<union> set ?r. record_ok (tree s) wk (h \<noteq> 1) x" using assms(7) by (blast dest: in_set_takeD in_set_dropD)
  qed
  have links: "next_link (at_node s n) = ?fl" "be32_at (at_node s n) 4 = ?bl" using sh by (simp_all add: node_shape_def)
  have "store_node E (step_of n h) recs s = (Inr (W_split (hd ?l) (hd ?r) m), s')"
    using s1(1) s2(1) s3(1) s4(1) s5(1) assms(8) sp(1,2)
    by (simp add: store_node_def store_split_def op_simps Let_def links f1 s'_def g_def)
  then show ?thesis using sp(3,4) m lev kk a' b' by (intro exI [of _ m] exI [of _ ?l] exI [of _ ?r] exI [of _ s']) simp
qed


lemma new_root_ok:
  assumes "rdy s" and "alloc_ok E dsk s ms" and "bt_freeNodes (tree s) \<noteq> 0" and "good_order (tree s) wk ord" and "even_keys (tree s)"
    and "level_ok (tree s) wk (at_node s) h [(n, l), (m, r)]" and "level_in s ms [(n, l), (m, r)]" and "1 \<le> h"
  shows "\<exists>k s'. new_root E (step_of n h) (hd l) (hd r) m s = (Inr (), s') \<and> k \<in> free s ms
    \<and> levels_ok (tree s') wk (at_node s') h k [(n, l), (m, r)] [[(k, map (entry (tree s)) [(n, l), (m, r)])]]
    \<and> kp (insert k (map_nodes ms)) s s' \<and> alloc_ok E dsk s' ms \<and> free s' ms = free s ms - {k}
    \<and> bare (tree s') = (bare (tree s))\<lparr>bt_freeNodes := bt_freeNodes (tree s) - 1, bt_root := k, bt_depth := bt_depth (tree s) + 1\<rparr>"
proof -
  let ?lv = "[(n, l), (m, r)]"
  let ?es = "map (entry (tree s)) ?lv"
  have ro: "record_ok (tree s) wk (h \<noteq> 1) (hd l)" "record_ok (tree s) wk (h \<noteq> 1) (hd r)"
    using assms(6) by (auto simp: level_ok_def)
  have eo: "record_ok (tree s) wk True e" if "e \<in> set ?es" for e
    using that index_rec_ok(1) [OF assms(4,5) ro(1)] index_rec_ok(1) [OF assms(4,5) ro(2)] by (auto simp: entry_def)
  have len: "8 \<le> length e" "20 * length e + 58 \<le> 3 * unat (bt_nodeSize (tree s))" if "e \<in> set ?es" for e
    using eo [OF that] by (auto simp: record_ok_def)
  obtain k s1 where s1: "allocNode E s = (Inr k, s1)" "kp (map_nodes ms) s s1" "alloc_ok E dsk s1 ms"
    "bare (tree s1) = (bare (tree s))\<lparr>bt_freeNodes := bt_freeNodes (tree s) - 1\<rparr>" "k \<in> free s ms" "inside s k" "free s1 ms = free s ms - {k}"
    using allocNode_ok [OF assms(1-3)] by blast
  note k1 = keeps_facts [OF s1(2)]
  have form1: "form (tree s1) = form (tree s)" using s1(4) by (metis form_update(1,7))
  note f1 = form_cong [OF form1]
  have k: "k \<notin> map_nodes ms" "k \<noteq> n" "k \<noteq> m" using s1(5) assms(2,7) by (auto simp: alloc_ok_def level_in_def)
  have fits: "fits (tree s1) ?es"
    using len [of "entry (tree s) (n, l)"] len [of "entry (tree s) (m, r)"] by (simp add: fits_def f1)
  obtain s2 where s2: "writeNode E k kIndexNode (of_nat h + 1) 0 0 ?es s1 = (Inr (), s2)" "kp {k} s1 s2" "bare (tree s2) = bare (tree s1)"
    "node_shape (tree s1) (at_node s2 k) kIndexNode (of_nat h + 1) 0 0 ?es"
    using writeNode_ok [OF k1(1) _ fits, of k kIndexNode "of_nat h + 1" 0 0] s1(6) unfolding k1(3) by blast
  define g :: "btree \<Rightarrow> btree" where "g = (\<lambda>t. t\<lparr>bt_root := k, bt_depth := bt_depth t + 1\<rparr>)"
  define s' where "s' = te_upd E g s2"
  have s': "kp {} s2 s'" "bare (tree s') = bare (g (tree s2))"
    using update_keeps [where f = g, OF keeps_facts(1) [OF s2(2)]] by (simp_all add: s'_def g_def)
  have d: "bt_depth (tree s2) = bt_depth (tree s)" using arg_cong [OF trans [OF s2(3) s1(4)], of bt_depth] by simp
  have b': "bare (tree s') = (bare (tree s))\<lparr>bt_freeNodes := bt_freeNodes (tree s) - 1, bt_root := k, bt_depth := bt_depth (tree s) + 1\<rparr>"
    using s2(3) s1(4) d by (simp add: s'(2) g_def bare_update)
  have form': "form (tree s') = form (tree s)" using b' by (metis form_update(1,2,3,7))
  note f' = form_cong [OF form']
  have kk: "kp (insert k (map_nodes ms)) s s'"
    by (rule keeps_mono [OF keeps_more [OF keeps_more [OF s1(2) s2(2) subset_refl] s'(1) subset_refl]]) auto
  have k12: "kp {k} s1 s'" by (rule keeps_mono [OF keeps_more [OF s2(2) s'(1) subset_refl]]) auto
  have tot: "bt_totalNodes (tree s') = bt_totalNodes (tree s1)" "bt_freeNodes (tree s') = bt_freeNodes (tree s1)"
    using arg_cong [OF b', of bt_totalNodes] arg_cong [OF b', of bt_freeNodes] arg_cong [OF s1(4), of bt_totalNodes]
      arg_cong [OF s1(4), of bt_freeNodes] by simp_all
  have a': "alloc_ok E dsk s' ms" "free s' ms = free s ms - {k}"
    using alloc_ok_keeps [OF k12 _ s1(3) tot] s1(7) k(1) by auto
  have same: "at_node s' x = at_node s x" if "x \<in> {n, m}" for x
    using keeps_facts(6) [OF kk, of x] that assms(7) k by (auto simp: level_in_def)
  have low: "level_ok (tree s) wk (at_node s') h ?lv"
    by (rule level_ok_cong [OF assms(6)]) (use same in auto)
  have "at_node s' k = at_node s2 k" using keeps_facts(6) [OF s'(1), of k] keeps_facts(3) [OF s2(2)] s1(6) k1(3) by simp
  then have "level_ok (tree s) wk (at_node s') (Suc h) [(k, ?es)]"
    using s2(4) eo assms(8) by (simp add: level_ok_def f1 add.commute)
  then have lev: "levels_ok (tree s') wk (at_node s') h k ?lv [[(k, ?es)]]"
    using low by (simp add: f')
  have "new_root E (step_of n h) (hd l) (hd r) m s = (Inr (), s')"
    using s1(1) s2(1) by (simp add: new_root_def op_simps f1 entry_def s'_def g_def)
  then show ?thesis using lev kk a' b' s1(5) by blast
qed


text \<open>
  Rewriting a node of a level: one node or two take its place, and what is left to do in the
  parent is to put their index records where the node's was.
\<close>

definition node_stored :: "(bytes \<Rightarrow> bool) \<Rightarrow> 's \<Rightarrow> map_record list \<Rightarrow> nat \<Rightarrow> level \<Rightarrow> u32 \<Rightarrow> bytes list \<Rightarrow> level \<Rightarrow> bytes list
    \<Rightarrow> parent_work \<Rightarrow> 's \<Rightarrow> level \<Rightarrow> bool" where
  "node_stored wk s ms h xs n rs ys recs w s' ls \<longleftrightarrow>
     (w = W_done \<and> ls = [(n, recs)] \<and> entry (tree s) (n, rs) = entry (tree s) (n, recs)
       \<or> w = W_first (hd recs) \<and> ls = [(n, recs)] \<or> (\<exists>l r m. w = W_split (hd l) (hd r) m \<and> ls = [(n, l), (m, r)]))
     \<and> contents ls = recs \<and> level_ok (tree s') wk (at_node s') h (xs @ ls @ ys) \<and> level_in s' ms (xs @ ls @ ys)
     \<and> kp (fst ` set (xs @ ls @ ys) \<union> map_nodes ms) s s' \<and> alloc_ok E dsk s' ms \<and> free s' ms = free s ms - fst ` set ls
     \<and> fst ` set ls \<subseteq> insert n (free s ms) \<and> n \<in> fst ` set ls
     \<and> (\<exists>f. bare (tree s') = (bare (tree s))\<lparr>bt_freeNodes := f,
         bt_lastLeaf := (if h = 1 \<and> bt_lastLeaf (tree s) = n then fst (last ls) else bt_lastLeaf (tree s))\<rparr>)"

lemma node_stored_facts:
  assumes "node_stored wk s ms h xs n rs ys recs w s' ls"
  shows "w = W_done \<and> ls = [(n, recs)] \<and> entry (tree s) (n, rs) = entry (tree s) (n, recs)
       \<or> w = W_first (hd recs) \<and> ls = [(n, recs)] \<or> (\<exists>l r m. w = W_split (hd l) (hd r) m \<and> ls = [(n, l), (m, r)])"
    "contents ls = recs" "level_ok (tree s') wk (at_node s') h (xs @ ls @ ys)" "level_in s' ms (xs @ ls @ ys)"
    "kp (fst ` set (xs @ ls @ ys) \<union> map_nodes ms) s s'" "alloc_ok E dsk s' ms" "free s' ms = free s ms - fst ` set ls"
    "fst ` set ls \<subseteq> insert n (free s ms)" "n \<in> fst ` set ls"
    "\<exists>f. bare (tree s') = (bare (tree s))\<lparr>bt_freeNodes := f,
         bt_lastLeaf := (if h = 1 \<and> bt_lastLeaf (tree s) = n then fst (last ls) else bt_lastLeaf (tree s))\<rparr>"
    "ls \<noteq> []" "fst (hd ls) = n" "length ls \<le> 2" "form (tree s') = form (tree s)" "bt_root (tree s') = bt_root (tree s)"
    "bt_totalNodes (tree s') = bt_totalNodes (tree s)" "bt_depth (tree s') = bt_depth (tree s)"
proof -
  show 1: "w = W_done \<and> ls = [(n, recs)] \<and> entry (tree s) (n, rs) = entry (tree s) (n, recs)
       \<or> w = W_first (hd recs) \<and> ls = [(n, recs)] \<or> (\<exists>l r m. w = W_split (hd l) (hd r) m \<and> ls = [(n, l), (m, r)])"
    "contents ls = recs" "level_ok (tree s') wk (at_node s') h (xs @ ls @ ys)" "level_in s' ms (xs @ ls @ ys)"
    "kp (fst ` set (xs @ ls @ ys) \<union> map_nodes ms) s s'" "alloc_ok E dsk s' ms" "free s' ms = free s ms - fst ` set ls"
    "fst ` set ls \<subseteq> insert n (free s ms)" "n \<in> fst ` set ls"
    "\<exists>f. bare (tree s') = (bare (tree s))\<lparr>bt_freeNodes := f,
         bt_lastLeaf := (if h = 1 \<and> bt_lastLeaf (tree s) = n then fst (last ls) else bt_lastLeaf (tree s))\<rparr>"
    using assms unfolding node_stored_def by blast+
  show "ls \<noteq> []" "fst (hd ls) = n" "length ls \<le> 2" using 1(1) by auto
  obtain f l where b: "bare (tree s') = (bare (tree s))\<lparr>bt_freeNodes := f, bt_lastLeaf := l\<rparr>" using 1(10) by blast
  show "form (tree s') = form (tree s)" using b by (metis form_update(1,6,7))
  show "bt_root (tree s') = bt_root (tree s)" "bt_totalNodes (tree s') = bt_totalNodes (tree s)"
    "bt_depth (tree s') = bt_depth (tree s)"
    using arg_cong [OF b, of bt_root] arg_cong [OF b, of bt_totalNodes] arg_cong [OF b, of bt_depth] by simp_all
qed

lemma store_node_ok:
  assumes "rdy s" and "alloc_ok E dsk s ms" and "bt_freeNodes (tree s) \<noteq> 0"
    and "level_ok (tree s) wk (at_node s) h (xs @ (n, rs) # ys)" and "level_in s ms (xs @ (n, rs) # ys)"
    and "storable (tree s) recs" and "\<forall>r\<in>set recs. record_ok (tree s) wk (h \<noteq> 1) r"
  shows "\<exists>w s' ls. store_node E (step_of n h) recs s = (Inr w, s') \<and> node_stored wk s ms h xs n rs ys recs w s' ls"
proof (cases "fits (tree s) recs")
  case True
  have ne: "recs \<noteq> []" using assms(6) by (simp add: storable_def)
  obtain s' where s': "store_node E (step_of n h) recs s
      = (Inr (if indexKey (tree s) (hd rs) = indexKey (tree s) (hd recs) then W_done else W_first (hd recs)), s')"
    "level_ok (tree s) wk (at_node s') h (xs @ (n, recs) # ys)" "kp {n} s s'" "bare (tree s') = bare (tree s)"
    using store_node_fits [OF assms(1,4,5) ne assms(7) True] by blast
  note f = form_cong [OF form_bare [OF s'(4)]] and b = node_fun_cong [OF s'(4)]
  have n: "n \<notin> map_nodes ms" "n \<notin> free s ms" using assms(5) by (auto simp: level_in_def)
  then have a: "alloc_ok E dsk s' ms" "free s' ms = free s ms" using alloc_ok_keeps [OF s'(3) _ assms(2)] b by auto
  have "level_in s' ms (xs @ (n, recs) # ys)" using assms(5) keeps_facts(3) [OF s'(3)] a(2) by (simp add: level_in_def)
  moreover have "kp (fst ` set (xs @ [(n, recs)] @ ys) \<union> map_nodes ms) s s'" by (rule keeps_mono [OF s'(3)]) auto
  moreover have "\<exists>f. bare (tree s) = (bare (tree s))\<lparr>bt_freeNodes := f, bt_lastLeaf := bt_lastLeaf (tree s)\<rparr>"
    by (rule exI [of _ "bt_freeNodes (tree s)"]) (simp add: bare_def)
  ultimately show ?thesis using s' a n(2)
    by (intro exI [of _ "if indexKey (tree s) (hd rs) = indexKey (tree s) (hd recs) then W_done else W_first (hd recs)"] exI [of _ s']
        exI [of _ "[(n, recs)]"]) (auto simp: node_stored_def f entry_def indexRecord_def)
next
  case False
  obtain m l r s' where s': "store_node E (step_of n h) recs s = (Inr (W_split (hd l) (hd r) m), s')"
    "l @ r = recs" "l \<noteq> []" "r \<noteq> []" "m \<in> free s ms" "inside s m" "level_ok (tree s) wk (at_node s') h (xs @ (n, l) # (m, r) # ys)"
    "kp (insert m (fst ` set (xs @ (n, rs) # ys)) \<union> map_nodes ms) s s'" "alloc_ok E dsk s' ms" "free s' ms = free s ms - {m}"
    "bare (tree s') = (bare (tree s))\<lparr>bt_freeNodes := bt_freeNodes (tree s) - 1,
        bt_lastLeaf := (if h = 1 \<and> bt_lastLeaf (tree s) = n then m else bt_lastLeaf (tree s))\<rparr>"
    using store_node_splits [OF assms False] by blast
  have "form (tree s') = form (tree s)" using s'(11) by (metis form_update(1,6,7))
  note f = form_cong [OF this]
  have n: "n \<notin> free s ms" using assms(5) by (auto simp: level_in_def)
  have mm: "m \<notin> map_nodes ms" "m \<notin> fst ` set (xs @ (n, rs) # ys)"
    using s'(5) assms(2,5) by (auto simp: level_in_def alloc_ok_def)
  have "0 \<in> map_nodes ms" by (rule map_zero(1) [of s]) (use assms(2) in \<open>simp add: alloc_ok_def\<close>)
  then have m0: "m \<noteq> 0" using mm(1) by metis
  have "level_in s' ms (xs @ (n, l) # (m, r) # ys)"
    using assms(5) keeps_facts(3) [OF s'(8)] s'(6,10) mm m0 by (auto simp: level_in_def)
  moreover have "kp (fst ` set (xs @ [(n, l), (m, r)] @ ys) \<union> map_nodes ms) s s'" by (rule keeps_mono [OF s'(8)]) auto
  ultimately show ?thesis using s' n
    by (intro exI [of _ "W_split (hd l) (hd r) m"] exI [of _ s'] exI [of _ "[(n, l), (m, r)]"]) (auto simp: node_stored_def f)
qed


section \<open>The levels above a node\<close>

definition whole :: "(bytes \<Rightarrow> bool) \<Rightarrow> 's \<Rightarrow> map_record list \<Rightarrow> nat \<Rightarrow> level \<Rightarrow> level list \<Rightarrow> bool" where
  "whole wk s ms h lv ups \<longleftrightarrow>
     rdy s \<and> alloc_ok E dsk s ms \<and> good_order (tree s) wk (te_order E s) \<and> even_keys (tree s)
     \<and> levels_ok (tree s) wk (at_node s) h (bt_root (tree s)) lv ups \<and> owned E dsk s ms (lv # ups)"

lemma whole_facts:
  assumes "whole wk s ms h lv ups"
  shows "rdy s" "alloc_ok E dsk s ms" "good_order (tree s) wk (te_order E s)" "even_keys (tree s)"
    "levels_ok (tree s) wk (at_node s) h (bt_root (tree s)) lv ups" "owned E dsk s ms (lv # ups)"
    "level_ok (tree s) wk (at_node s) h lv" "level_in s ms lv"
proof -
  show f: "rdy s" "alloc_ok E dsk s ms" "good_order (tree s) wk (te_order E s)" "even_keys (tree s)"
    "levels_ok (tree s) wk (at_node s) h (bt_root (tree s)) lv ups" "owned E dsk s ms (lv # ups)"
    using assms by (simp_all add: whole_def)
  show "level_ok (tree s) wk (at_node s) h lv" using levels_ok_nth(1) [OF f(5), of 0] by simp
  have "distinct (map fst lv)" using f(6) by (simp add: owned_def)
  moreover have "k \<in> set (nodes_of (lv # ups))" if "k \<in> fst ` set lv" for k using that by simp
  ultimately show "level_in s ms lv" using owned_inside [OF f(2,6)] by (auto simp: level_in_def)
qed

lemma whole_keeps:
  assumes "whole wk s ms h lv ups" and "kp T s s'" and "T \<inter> set (nodes_of (lv # ups)) = {}" and "alloc_ok E dsk s' ms"
    and "free s' ms \<subseteq> free s ms" and "form (tree s') = form (tree s)" and "bt_root (tree s') = bt_root (tree s)"
    and "bt_totalNodes (tree s') = bt_totalNodes (tree s)"
  shows "whole wk s' ms h lv ups"
proof -
  note w = whole_facts [OF assms(1)] and k = keeps_facts [OF assms(2)] and f = form_cong [OF assms(6)]
  have "at_node s' n = at_node s n" if "n \<in> set (nodes_of (lv # ups))" for n
    using k(6) [of n] owned_inside(1) [OF w(2,6) that] assms(3) that by blast
  then have "levels_ok (tree s) wk (at_node s') h (bt_root (tree s)) lv ups"
    using levels_ok_cong [OF w(5), of "at_node s'" "tree s"] by simp
  moreover have "owned E dsk s' ms (lv # ups)" using w(6) assms(5) by (auto simp: owned_def assms(8))
  ultimately show ?thesis using w k(1) assms(4) by (simp add: whole_def f k(5) assms(7))
qed

lemma whole_view:
  assumes "whole wk s ms h lv ups" and "view s s'" and "rdy s'"
  shows "whole wk s' ms h lv ups" and "free s' ms = free s ms"
proof -
  note k = view_keeps [OF assms(2,3)] and t = view_tree [OF assms(2)]
  note a = alloc_ok_keeps [OF k _ whole_facts(2) [OF assms(1)]]
  show "free s' ms = free s ms" using a(2) t by simp
  then show "whole wk s' ms h lv ups"
    using whole_keeps [OF assms(1) k] a(1) t form_bare [OF view_facts(6) [OF assms(2)]] by simp
qed

lemma whole_up: "whole wk s ms h lv (up # ups) \<Longrightarrow> whole wk s ms (Suc h) up ups"
  by (simp add: whole_def owned_def)

lemma whole_down:
  assumes "whole wk s ms (Suc h) up ups" and "level_ok (tree s) wk (at_node s) h lv" and "level_in s ms lv"
    and "contents up = map (entry (tree s)) lv" and "fst ` set lv \<inter> set (nodes_of (up # ups)) = {}"
    and "\<And>n. n \<in> fst ` set lv \<Longrightarrow> n < bt_totalNodes (tree s)"
  shows "whole wk s ms h lv (up # ups)"
proof -
  note w = whole_facts [OF assms(1)]
  have "owned E dsk s ms (lv # up # ups)"
    using w(6) assms(3,5,6) by (auto simp: owned_def level_in_def)
  then show ?thesis using w assms(2,4) by (simp add: whole_def)
qed


text \<open>At most one free node goes to a level.\<close>

lemma free_left:
  assumes "finite F" and "F' = F - A" and "A \<subseteq> insert n F" and "n \<in> A" and "n \<notin> F" and "finite A" and "card A \<le> 2"
  shows "card F \<le> Suc (card F')"
proof -
  have "F' = F - (A - {n})" using assms(2,5) by blast
  moreover have "card (A - {n}) \<le> 1" using assms(4,6,7) by simp
  moreover have "card F - card (A - {n}) \<le> card (F - (A - {n}))" by (rule diff_card_le_card_Diff) (use assms(6) in simp)
  ultimately show ?thesis by simp
qed

lemma store_ok:
  assumes "whole wk s ms h (xs @ (n, rs) # ys) ups" and "1 \<le> h" and "steps ! length ups = step_of n h" and "path_ok steps n h ups"
    and "storable (tree s) recs" and "\<forall>r\<in>set recs. record_ok (tree s) wk (h \<noteq> 1) r" and "length ups + 2 \<le> card (free s ms)"
  shows "\<exists>s' ls ups'. store E steps (length ups) recs s = (Inr (), s') \<and> whole wk s' ms h (xs @ ls @ ys) ups'
    \<and> contents ls = recs \<and> ls \<noteq> [] \<and> fst (hd ls) = n \<and> length ups' \<le> Suc (length ups)
    \<and> set (nodes_of ((xs @ ls @ ys) # ups')) \<subseteq> set (nodes_of ((xs @ (n, rs) # ys) # ups)) \<union> free s ms
    \<and> free s' ms \<subseteq> free s ms \<and> kp (set (nodes_of ((xs @ (n, rs) # ys) # ups)) \<union> free s ms \<union> map_nodes ms) s s'
    \<and> (\<exists>f r. bare (tree s') = (bare (tree s))\<lparr>bt_freeNodes := f, bt_root := r,
        bt_depth := bt_depth (tree s) + (of_nat (length ups') - of_nat (length ups)),
        bt_lastLeaf := (if h = 1 \<and> bt_lastLeaf (tree s) = n then fst (last ls) else bt_lastLeaf (tree s))\<rparr>)"
  using assms
proof (induction ups arbitrary: s h xs n rs ys recs)
  case Nil
  note w = whole_facts [OF Nil.prems(1)]
  have lv: "xs = []" "ys = []" "bt_root (tree s) = n" using w(5) by (auto simp: append_eq_Cons_conv)
  have fn: "bt_freeNodes (tree s) \<noteq> 0" using Nil.prems(7) w(2) by (auto simp: alloc_ok_def)
  obtain w s1 ls where s1: "store_node E (step_of n h) recs s = (Inr w, s1)" "node_stored wk s ms h xs n rs ys recs w s1 ls"
    using store_node_ok [OF w(1,2) fn w(7,8) Nil.prems(5,6)] by blast
  note f = node_stored_facts [OF s1(2), unfolded lv, simplified]
  have st: "steps ! 0 = step_of n h" using Nil.prems(3) by simp
  have tot: "n < bt_totalNodes (tree s)" and nf: "n \<notin> free s ms" using w(6) lv by (auto simp: owned_def)
  have ftot: "k < bt_totalNodes (tree s)" if "k \<in> free s ms" for k using that by (simp add: free_nodes_def)
  have left: "card (free s ms) \<le> Suc (card (free s1 ms))"
    by (rule free_left [OF _ f(7-9) nf]) (use f(13) card_length [of "map fst ls"] in \<open>auto intro: order_trans\<close>)
  have go: "good_order (tree s1) wk (te_order E s1)" "even_keys (tree s1)" "te_order E s1 = te_order E s"
    using w(3,4) form_cong(15,16) [OF f(14)] keeps_facts(5) [OF f(5)] by simp_all
  have kps: "kp ({n} \<union> free s ms \<union> map_nodes ms) s s1" by (rule keeps_mono [OF f(5)]) (use f(8) in auto)
  have stays: "whole wk s1 ms h ls [] \<and> (\<exists>f r. bare (tree s1) = (bare (tree s))\<lparr>bt_freeNodes := f, bt_root := r,
      bt_depth := bt_depth (tree s) + (of_nat (length []) - of_nat (length [])),
      bt_lastLeaf := (if h = 1 \<and> bt_lastLeaf (tree s) = n then fst (last ls) else bt_lastLeaf (tree s))\<rparr>)"
    if ls: "ls = [(n, recs)]"
  proof
    have "owned E dsk s1 ms [ls]" using f(4) tot f(16) by (simp add: ls owned_def level_in_def)
    then show "whole wk s1 ms h ls []" using keeps_facts(1) [OF f(5)] f(3,6) go lv(3) f(15) by (simp add: whole_def ls)
    obtain x where "bare (tree s1) = (bare (tree s))\<lparr>bt_freeNodes := x,
        bt_lastLeaf := (if h = 1 \<and> bt_lastLeaf (tree s) = n then fst (last ls) else bt_lastLeaf (tree s))\<rparr>" using f(10) by auto
    then show "\<exists>f r. bare (tree s1) = (bare (tree s))\<lparr>bt_freeNodes := f, bt_root := r,
      bt_depth := bt_depth (tree s) + (of_nat (length []) - of_nat (length [])),
      bt_lastLeaf := (if h = 1 \<and> bt_lastLeaf (tree s) = n then fst (last ls) else bt_lastLeaf (tree s))\<rparr>"
      by (intro exI [of _ x] exI [of _ "bt_root (tree s)"]) (simp add: bare_def)
  qed
  have keepsroot: ?case if "store E steps 0 recs s = (Inr (), s1)" "ls = [(n, recs)]"
    using that(1) stays [OF that(2)] f(2,7,8,11,12) kps lv by (intro exI [of _ s1] exI [of _ ls] exI [of _ "[]"]) auto
  from f(1) show ?case
  proof (elim disjE exE conjE)
    fix l r m assume ws: "w = W_split (hd l) (hd r) m" "ls = [(n, l), (m, r)]"
    have fn1: "bt_freeNodes (tree s1) \<noteq> 0" using left Nil.prems(7) f(6) by (auto simp: alloc_ok_def)
    obtain k s' where s': "new_root E (step_of n h) (hd l) (hd r) m s1 = (Inr (), s')" "k \<in> free s1 ms"
      "levels_ok (tree s') wk (at_node s') h k ls [[(k, map (entry (tree s1)) ls)]]" "kp (insert k (map_nodes ms)) s1 s'"
      "alloc_ok E dsk s' ms" "free s' ms = free s1 ms - {k}"
      "bare (tree s') = (bare (tree s1))\<lparr>bt_freeNodes := bt_freeNodes (tree s1) - 1, bt_root := k, bt_depth := bt_depth (tree s1) + 1\<rparr>"
      using new_root_ok [OF keeps_facts(1) [OF f(5)] f(6) fn1 go(1,2), of h n l m r] f(3,4) Nil.prems(2) unfolding ws(2) by blast
    have form': "form (tree s') = form (tree s)" using s'(7) f(14) by (metis form_update(1,2,3,7))
    have r': "bt_root (tree s') = k" "bt_totalNodes (tree s') = bt_totalNodes (tree s)"
      using arg_cong [OF s'(7), of bt_root] arg_cong [OF s'(7), of bt_totalNodes] f(16) by simp_all
    obtain x where x: "bare (tree s1) = (bare (tree s))\<lparr>bt_freeNodes := x,
        bt_lastLeaf := (if h = 1 \<and> bt_lastLeaf (tree s) = n then fst (last ls) else bt_lastLeaf (tree s))\<rparr>" using f(10) by auto
    have b': "bare (tree s') = (bare (tree s))\<lparr>bt_freeNodes := bt_freeNodes (tree s1) - 1, bt_root := k, bt_depth := bt_depth (tree s) + 1,
        bt_lastLeaf := (if h = 1 \<and> bt_lastLeaf (tree s) = n then fst (last ls) else bt_lastLeaf (tree s))\<rparr>"
      using f(17) unfolding s'(7) x by simp
    have "k \<notin> fst ` set ls" "k \<in> free s ms" using s'(2) f(7) by auto
    moreover have "k \<notin> map_nodes ms" using s'(2) f(6) by (auto simp: alloc_ok_def)
    ultimately have o': "owned E dsk s' ms [ls, [(k, map (entry (tree s1)) ls)]]"
      using f(4,7,8) s'(2,5,6) tot ftot r'(2) by (auto simp: owned_def level_in_def alloc_ok_def)
    have "whole wk s' ms h ls [[(k, map (entry (tree s1)) ls)]]"
      using keeps_facts(1,5) [OF s'(4)] s'(3,5) go w(3,4) o' form_cong(15,16) [OF form'] by (simp add: whole_def r'(1))
    moreover have "store E steps 0 recs s = (Inr (), s')" using s1(1) s'(1) st by (simp add: op_simps ws(1))
    moreover have "kp ({n} \<union> free s ms \<union> map_nodes ms) s s'"
      by (rule keeps_more [OF kps s'(4)]) (use s'(2) f(7) in auto)
    ultimately show ?thesis using f(2,8,11,12) b' s'(2,6) f(7) lv
      by (intro exI [of _ s'] exI [of _ ls] exI [of _ "[[(k, map (entry (tree s1)) ls)]]"]) auto
  next
    assume "w = W_done" and ls: "ls = [(n, recs)]"
    then have "store E steps 0 recs s = (Inr (), s1)" using s1(1) st by (simp add: op_simps)
    then show ?thesis using keepsroot ls by blast
  next
    assume "w = W_first (hd recs)" and ls: "ls = [(n, recs)]"
    then have "store E steps 0 recs s = (Inr (), s1)" using s1(1) st by (simp add: op_simps)
    then show ?thesis using keepsroot ls by blast
  qed
next
  case (Cons up ups)
  let ?lv = "xs @ (n, rs) # ys"
  note w = whole_facts [OF Cons.prems(1)]
  have fn: "bt_freeNodes (tree s) \<noteq> 0" using Cons.prems(7) w(2) by (auto simp: alloc_ok_def)
  obtain w s1 ls where s1: "store_node E (step_of n h) recs s = (Inr w, s1)" "node_stored wk s ms h xs n rs ys recs w s1 ls"
    using store_node_ok [OF w(1,2) fn w(7,8) Cons.prems(5,6)] by blast
  note f = node_stored_facts [OF s1(2)]
  let ?lv' = "xs @ ls @ ys" and ?S = "set (nodes_of (up # ups)) \<union> free s1 ms \<union> map_nodes ms"
  note wu = whole_up [OF Cons.prems(1)]
  have own: "distinct (map fst ?lv)" "fst ` set ?lv \<inter> set (nodes_of (up # ups)) = {}"
    "\<And>k. k \<in> fst ` set ?lv \<union> set (nodes_of (up # ups)) \<Longrightarrow> k < bt_totalNodes (tree s) \<and> k \<notin> free s ms \<and> k \<notin> map_nodes ms"
    using w(6) by (auto simp: owned_def)
  have nf: "n \<notin> free s ms" using own(3) [of n] by simp
  have dis: "fst ` set ?lv' \<inter> set (nodes_of (up # ups)) = {}"
  proof -
    have "fst ` set ?lv' \<subseteq> fst ` set ?lv \<union> free s ms" using f(8) by auto
    then show ?thesis using own(2,3) by blast
  qed
  have a1: "free s1 ms \<subseteq> free s ms" using f(7) by blast
  have wu1: "whole wk s1 ms (Suc h) up ups"
    by (rule whole_keeps [OF wu f(5) _ f(6) a1 f(14-16)]) (use dis own(3) in blast)
  have left: "card (free s ms) \<le> Suc (card (free s1 ms))"
    by (rule free_left [OF _ f(7-9) nf]) (use f(13) card_length [of "map fst ls"] in \<open>auto intro: order_trans\<close>)
  obtain p prs where p: "(p, prs) \<in> set up" "steps ! length ups = step_of p (Suc h)" "\<exists>r\<in>set prs. childOf r = n" "path_ok steps p (Suc h) ups"
    using Cons.prems(2,4) by (auto simp: step_of_def node_kind_def)
  obtain us vs where up: "up = us @ (p, prs) # vs" using split_list [OF p(1)] by blast
  have cont: "contents (us @ (p, prs) # vs) = map (entry (tree s)) ?lv" using w(5) by (simp add: up)
  obtain i where i: "child_index n prs = Some i" "i < length prs" "prs ! i = entry (tree s) (n, rs)"
    "contents us @ take i prs = map (entry (tree s)) xs" "drop (Suc i) prs @ contents vs = map (entry (tree s)) ys"
    using parent_entry [OF cont own(1) p(3)] by blast
  define prs' where "prs' = take i prs @ map (entry (tree s)) ls @ drop (Suc i) prs"
  have cont': "contents us @ prs' @ contents vs = map (entry (tree s)) ?lv'"
  proof -
    have "contents us @ prs' @ contents vs = (contents us @ take i prs) @ map (entry (tree s)) ls @ (drop (Suc i) prs @ contents vs)"
      by (simp add: prs'_def)
    then show ?thesis unfolding i(4,5) by simp
  qed
  note lu = level_ok_facts [OF whole_facts(7) [OF wu] w(3) p(1)]
  have pfits: "fits (tree s) prs" using lu(6) by (auto simp: node_shape_def)
  have pok: "\<forall>r\<in>set prs. record_ok (tree s) wk True r" using lu(2) Cons.prems(2) by auto
  have eok: "record_ok (tree s) wk True (entry (tree s) x)" if xls: "x \<in> set ls" for x
  proof -
    obtain m es where xe: "x = (m, es)" by fastforce
    have "(m, es) \<in> set ?lv'" using xls xe by simp
    note x = xe this
    note g = level_ok_facts [OF f(3) [unfolded form_cong [OF f(14)]] w(3) x(2)]
    have "record_ok (tree s) wk (h \<noteq> 1) (hd (snd x))" using g(2) [OF g(5)] x(1) by simp
    then show ?thesis unfolding entry_def by (rule index_rec_ok(1) [OF w(3,4)])
  qed
  have st': "storable (tree s) prs'" unfolding prs'_def
    by (rule storable_index [OF pfits pok i(2)]) (use f(11,13) eok in auto)
  have rok': "\<forall>r\<in>set prs'. record_ok (tree s) wk True r" using pok eok by (auto simp: prs'_def dest: in_set_takeD in_set_dropD)
  have "\<exists>s' up' ups'. store E steps (length (up # ups)) recs s = (Inr (), s') \<and> whole wk s' ms (Suc h) up' ups'
    \<and> contents up' = map (entry (tree s)) ?lv' \<and> length ups' \<le> Suc (length ups)
    \<and> set (nodes_of (up' # ups')) \<subseteq> set (nodes_of (up # ups)) \<union> free s1 ms \<and> free s' ms \<subseteq> free s1 ms \<and> kp ?S s1 s'
    \<and> (\<exists>f r. bare (tree s') = (bare (tree s1))\<lparr>bt_freeNodes := f, bt_root := r,
        bt_depth := bt_depth (tree s1) + (of_nat (length ups') - of_nat (length ups))\<rparr>)"
    (is "\<exists>s' up' ups'. ?run s' \<and> ?rest s' up' ups'")
  proof -
    have stay: ?thesis if "?run s'" "view s1 s'" "rdy s'" "entry (tree s) (n, rs) = entry (tree s) (n, recs)" "ls = [(n, recs)]" for s'
    proof -
      have "contents up = map (entry (tree s)) ?lv'" using cont that(4,5) by (simp add: up)
      moreover have "kp ?S s1 s'" by (rule keeps_mono [OF view_keeps [OF that(2,3)]]) simp
      moreover have "\<exists>f r. bare (tree s') = (bare (tree s1))\<lparr>bt_freeNodes := f, bt_root := r,
          bt_depth := bt_depth (tree s1) + (of_nat (length ups) - of_nat (length ups))\<rparr>"
        unfolding view_facts(6) [OF that(2)] by (intro exI [of _ "bt_freeNodes (tree s1)"] exI [of _ "bt_root (tree s1)"]) (simp add: bare_def)
      ultimately have "?rest s' up ups" using whole_view [OF wu1 that(2,3)] by (intro conjI) simp_all
      then show ?thesis using that(1) by blast
    qed
    have pin: "inside s1 p"
      by (rule owned_inside(1) [OF f(6) whole_facts(6) [OF wu1]]) (simp add: up)
    obtain s2 where s2: "node E p s1 = (Some (at_node s1 p), s2)" "view s1 s2" "rdy s2"
      using node_read [OF whole_facts(1) [OF wu1] pin] by blast
    have form2: "form (tree s2) = form (tree s)" using form_bare [OF view_facts(6) [OF s2(2)]] f(14) by simp
    note f2 = form_cong [OF form2]
    note wu2 = whole_view [OF wu1 s2(2,3)]
    have prs: "records (tree s) (at_node s1 p) = prs"
      using level_ok_facts(6) [OF whole_facts(7,3) [OF wu1] p(1)] shape_records unfolding form_cong [OF f(14)] by blast
    have par: "with_parent E (step_of p (Suc h)) n c s1 = c (tree s2) prs i s2" for c
      using s2(1) i(1) by (simp add: with_parent_def op_simps Let_def f2 prs)
    have climb: ?thesis if "store E steps (length (up # ups)) recs s = store E steps (length ups) prs' s2"
    proof -
      have len: "length ups + 2 \<le> card (free s2 ms)" using Cons.prems(7) left wu2(2) by simp
      have st2: "storable (tree s2) prs'" using st' by (simp add: storable_def f2)
      have rok2: "\<forall>r\<in>set prs'. record_ok (tree s2) wk (Suc h \<noteq> 1) r" using rok' Cons.prems(2) by (simp add: f2)
      have h1: "1 \<le> Suc h" by simp
      note ih = Cons.IH [OF wu2(1) [unfolded up] h1 p(2,4) st2 rok2 len, folded up]
      obtain s' ls2 ups' where s': "store E steps (length ups) prs' s2 = (Inr (), s')" "whole wk s' ms (Suc h) (us @ ls2 @ vs) ups'"
        "contents ls2 = prs'" "length ups' \<le> Suc (length ups)"
        "set (nodes_of ((us @ ls2 @ vs) # ups')) \<subseteq> set (nodes_of (up # ups)) \<union> free s2 ms" "free s' ms \<subseteq> free s2 ms"
        "kp (set (nodes_of (up # ups)) \<union> free s2 ms \<union> map_nodes ms) s2 s'"
        "\<exists>f r. bare (tree s') = (bare (tree s2))\<lparr>bt_freeNodes := f, bt_root := r,
          bt_depth := bt_depth (tree s2) + (of_nat (length ups') - of_nat (length ups)),
          bt_lastLeaf := (if Suc h = 1 \<and> bt_lastLeaf (tree s2) = p then fst (last ls2) else bt_lastLeaf (tree s2))\<rparr>"
        using ih by (elim exE conjE) blast
      have kk: "kp ?S s1 s'" by (rule keeps_more [OF view_keeps [OF s2(2,3)] s'(7)]) (use wu2(2) in auto)
      obtain x r where b: "bare (tree s') = (bare (tree s2))\<lparr>bt_freeNodes := x, bt_root := r,
          bt_depth := bt_depth (tree s2) + (of_nat (length ups') - of_nat (length ups)), bt_lastLeaf := bt_lastLeaf (tree s2)\<rparr>"
        using s'(8) Cons.prems(2) by auto
      have "bare (tree s') = (bare (tree s1))\<lparr>bt_freeNodes := x, bt_root := r,
          bt_depth := bt_depth (tree s1) + (of_nat (length ups') - of_nat (length ups))\<rparr>"
        unfolding b view_facts(6) [OF s2(2)] view_tree [OF s2(2)] by (simp add: bare_def)
      then have bb: "\<exists>f r. bare (tree s') = (bare (tree s1))\<lparr>bt_freeNodes := f, bt_root := r,
          bt_depth := bt_depth (tree s1) + (of_nat (length ups') - of_nat (length ups))\<rparr>" by blast
      have "contents (us @ ls2 @ vs) = map (entry (tree s)) ?lv'" using cont' s'(3) by simp
      then have "?rest s' (us @ ls2 @ vs) ups'" using s'(2,4-6) kk bb wu2(2) by (intro conjI) simp_all
      moreover have "?run s'" unfolding that by (rule s'(1))
      ultimately show ?thesis by blast
    qed
    have st: "steps ! Suc (length ups) = step_of n h" using Cons.prems(3) by simp
    have first: "indexRecord (tree s) (hd recs) n = entry (tree s) (n, recs)" by (simp add: entry_def)
    from f(1) show ?thesis
    proof (elim disjE exE conjE)
      assume "w = W_done" and e: "ls = [(n, recs)]" "entry (tree s) (n, rs) = entry (tree s) (n, recs)"
      then have "?run s1" using s1(1) st by (simp add: op_simps)
      then show ?thesis using stay [OF _ view_refl whole_facts(1) [OF wu1] e(2,1)] by blast
    next
      assume wf: "w = W_first (hd recs)" and ls: "ls = [(n, recs)]"
      have run: "store E steps (length (up # ups)) recs s = (if entry (tree s) (n, recs) = prs ! i then ret () else store E steps (length ups) prs') s2"
        using s1(1) st p(2) par i(2) by (simp add: op_simps wf Let_def f2 first prs'_def ls upd_conv_take_nth_drop)
      show ?thesis
      proof (cases "entry (tree s) (n, recs) = prs ! i")
        case True
        then have "?run s2" using run by (simp add: op_simps)
        then show ?thesis using stay [OF _ s2(2,3) _ ls] True i(3) by simp
      qed (use run climb in simp)
    next
      fix l r m assume ws: "w = W_split (hd l) (hd r) m" "ls = [(n, l), (m, r)]"
      have "store E steps (length (up # ups)) recs s = store E steps (length ups) prs' s2"
        using s1(1) st p(2) par by (simp add: op_simps ws(1) f2 prs'_def ws(2) entry_def)
      then show ?thesis by (rule climb)
    qed
  qed
  then obtain s' up' ups' where s': "store E steps (length (up # ups)) recs s = (Inr (), s')" "whole wk s' ms (Suc h) up' ups'"
    "contents up' = map (entry (tree s)) ?lv'" "length ups' \<le> Suc (length ups)"
    "set (nodes_of (up' # ups')) \<subseteq> set (nodes_of (up # ups)) \<union> free s1 ms" "free s' ms \<subseteq> free s1 ms" "kp ?S s1 s'"
    "\<exists>f r. bare (tree s') = (bare (tree s1))\<lparr>bt_freeNodes := f, bt_root := r,
        bt_depth := bt_depth (tree s1) + (of_nat (length ups') - of_nat (length ups))\<rparr>"
    by blast
  note k' = keeps_facts [OF s'(7)]
  obtain x r where b: "bare (tree s') = (bare (tree s1))\<lparr>bt_freeNodes := x, bt_root := r,
        bt_depth := bt_depth (tree s1) + (of_nat (length ups') - of_nat (length ups))\<rparr>" using s'(8) by (elim exE)
  obtain y where b1: "bare (tree s1) = (bare (tree s))\<lparr>bt_freeNodes := y,
        bt_lastLeaf := (if h = 1 \<and> bt_lastLeaf (tree s) = n then fst (last ls) else bt_lastLeaf (tree s))\<rparr>" using f(10) by (elim exE)
  have form': "form (tree s') = form (tree s1)" using b by (metis form_update(1,2,3,7))
  note f' = form_cong [OF form'] and f1 = form_cong [OF f(14)]
  have tot: "bt_totalNodes (tree s') = bt_totalNodes (tree s1)" using arg_cong [OF b, of bt_totalNodes] by simp
  have apart: "fst ` set ?lv' \<inter> ?S = {}" using dis f(4) by (auto simp: level_in_def)
  have same: "at_node s' k = at_node s1 k" if "k \<in> fst ` set ?lv'" for k
  proof (rule k'(6))
    show "inside s1 k" using f(4) that unfolding level_in_def by blast
    show "k \<notin> ?S" using apart that by blast
  qed
  have low: "level_ok (tree s') wk (at_node s') h ?lv'"
    unfolding f' by (rule level_ok_cong [OF f(3) same refl])
  have lin: "level_in s' ms ?lv'" using f(4) k'(3) s'(6) by (auto simp: level_in_def)
  have cont2: "contents up' = map (entry (tree s')) ?lv'" unfolding f' f1 by (rule s'(3))
  have apart2: "fst ` set ?lv' \<inter> set (nodes_of (up' # ups')) = {}" using apart s'(5) by blast
  have ltot: "k < bt_totalNodes (tree s')" if "k \<in> fst ` set ?lv'" for k
  proof -
    have "k \<in> fst ` set ?lv \<union> free s ms" using that f(8) by auto
    then show ?thesis unfolding tot f(16) using own(3) [of k] by (auto simp: free_nodes_def)
  qed
  have wh: "whole wk s' ms h ?lv' (up' # ups')" by (rule whole_down [OF s'(2) low lin cont2 apart2 ltot])
  have nodes: "set (nodes_of (?lv' # up' # ups')) \<subseteq> set (nodes_of (?lv # up # ups)) \<union> free s ms"
    using s'(5) a1 f(8) by auto
  have kk: "kp (set (nodes_of (?lv # up # ups)) \<union> free s ms \<union> map_nodes ms) s s'"
    by (rule keeps_more [OF f(5) s'(7)]) (use f(8) a1 in auto)
  have fr: "free s' ms \<subseteq> free s ms" using s'(6) a1 by blast
  have dep: "bt_depth (tree s1) + (of_nat (length ups') - of_nat (length ups))
      = bt_depth (tree s) + (of_nat (length (up' # ups')) - of_nat (length (up # ups)))" using f(17) by simp
  have bb: "bare (tree s') = (bare (tree s))\<lparr>bt_freeNodes := x, bt_root := r,
      bt_depth := bt_depth (tree s) + (of_nat (length (up' # ups')) - of_nat (length (up # ups))),
      bt_lastLeaf := (if h = 1 \<and> bt_lastLeaf (tree s) = n then fst (last ls) else bt_lastLeaf (tree s))\<rparr>"
    unfolding b dep b1 by simp
  show ?case
    by (rule exI [of _ s'], rule exI [of _ ls], rule exI [of _ "up' # ups'"])
       (intro conjI s'(1) wh f(2,11,12) nodes fr kk exI [of _ x] exI [of _ r] bb, use s'(4) in simp)
qed

end

end
