(* ===== verification/HFSP_Insert.thy ===== *)
theory HFSP_Insert
  imports HFSP_Store
begin

text \<open>
  Inserting and replacing records: the abstract content of a tree is the sorted list of its leaf
  records, and the operations refine insertion into and update of that list.
\<close>

section \<open>Sorted lists of records\<close>

lemma insert_index_facts:
  "case insert_index cmp rs of
     None \<Rightarrow> \<exists>r\<in>set rs. cmp r = 0
   | Some i \<Rightarrow> i \<le> length rs \<and> (\<forall>r\<in>set (take i rs). 0 < cmp r) \<and> (i < length rs \<longrightarrow> cmp (rs ! i) < 0)"
proof (induction rs)
  case (Cons r rs)
  then show ?case by (auto split: option.splits)
qed simp

lemma padded_key: "\<exists>x. padded_key key = key @ x"
  by (cases "odd (length key)") (auto simp: padded_key_def)

text \<open>Where a key belongs in a leaf, and in the whole tree.\<close>

lemma sorted_tail:
  assumes "good_order t wk ord" and "keys_sorted ord (a # as)" and "\<forall>r\<in>set (a # as). wk r" and "wk key" and "ord key a < 0"
  shows "\<forall>r\<in>set (a # as). ord key r < 0"
proof
  fix r assume r: "r \<in> set (a # as)"
  show "ord key r < 0"
  proof (cases "r = a")
    case False
    then have "ord a r < 0" using r assms(2) by (simp add: keys_sorted_def)
    then show ?thesis using order_trans(1) [OF assms(1,4), of a r] assms(3,5) r by auto
  qed (use assms(5) in simp)
qed

lemma place_in_leaf:
  assumes "good_order t wk ord" and "keys_sorted ord rs" and "\<forall>r\<in>set rs. wk r" and "wk key" and "insert_index (ord key) rs = Some i"
  shows "\<forall>r\<in>set (take i rs). ord r key < 0" and "\<forall>r\<in>set (drop i rs). ord key r < 0"
proof -
  have i: "i \<le> length rs" "\<forall>r\<in>set (take i rs). 0 < ord key r" "i < length rs \<longrightarrow> ord key (rs ! i) < 0"
    using insert_index_facts [where cmp = "ord key" and rs = rs] assms(5) by simp_all
  show "\<forall>r\<in>set (take i rs). ord r key < 0"
    using i(2) assms(3) order_facts(8) [OF assms(1,4)] by (fastforce dest: in_set_takeD)
  show "\<forall>r\<in>set (drop i rs). ord key r < 0"
  proof (cases "i < length rs")
    case True
    have d: "drop i rs = rs ! i # drop (Suc i) rs" using True by (rule Cons_nth_drop_Suc [symmetric])
    have "keys_sorted ord (take i rs @ drop i rs)" using assms(2) by simp
    then have "keys_sorted ord (drop i rs)" by (simp only: keys_sorted_def sorted_wrt_append)
    moreover have "\<forall>r\<in>set (drop i rs). wk r" using assms(3) by (auto dest: in_set_dropD)
    moreover have "ord key (rs ! i) < 0" using i(3) True by simp
    ultimately show ?thesis unfolding d by (intro sorted_tail [OF assms(1)] assms(4))
  qed simp
qed

lemma keys_sorted_insert:
  assumes "good_order t wk ord" and "keys_sorted ord (as @ bs)" and "\<forall>r\<in>set (as @ bs). wk r" and "wk key"
    and "\<forall>r\<in>set as. ord r key < 0" and "\<forall>r\<in>set bs. ord key r < 0"
  shows "keys_sorted ord (as @ (key @ x) # bs)"
proof -
  have "ord r (key @ x) = ord r key" "ord (key @ x) r = ord key r" if "r \<in> set (as @ bs)" for r
    using order_facts(4) [OF assms(1) _ assms(4)] order_facts(5) [OF assms(1,4)] assms(3) that by blast+
  then show ?thesis using assms(2,5,6) by (simp add: keys_sorted_def sorted_wrt_append)
qed

lemma storable_leaf:
  assumes "fits t (as @ bs)" and "\<forall>r\<in>set (as @ bs). record_ok t wk False r" and "record_ok t wk False rec"
  shows "storable t (as @ rec # bs)"
proof -
  let ?N = "unat (bt_nodeSize t)"
  define B where "B = (3 * ?N - 58) div 15"
  have len: "8 \<le> length r" "length r \<le> B" if "record_ok t wk False r" for r
    using that by (auto simp: record_ok_def B_def)
  have r58: "58 \<le> 3 * ?N" using assms(3) by (simp add: record_ok_def)
  have "15 * B \<le> 3 * ?N - 58" unfolding B_def by (rule times_div_less_eq_dividend)
  then have "15 * B + 58 \<le> 3 * ?N" using r58 by (simp add: le_diff_conv2)
  moreover have "16 + 2 * length (as @ rec # bs) + bytes_of (as @ rec # bs) \<le> ?N + (B + 2)"
    using assms(1) len(2) [OF assms(3)] by (simp add: fits_def)
  moreover have "\<forall>r\<in>set (as @ rec # bs). 8 \<le> length r \<and> length r \<le> B" using assms(2,3) len by auto
  ultimately show ?thesis unfolding storable_def by (intro conjI exI [of _ B] exI [of _ "B + 2"]) simp_all
qed

text \<open>The record with the key's data exchanged.\<close>

definition with_data :: "btree \<Rightarrow> bytes \<Rightarrow> bytes \<Rightarrow> bytes" where
  "with_data t r dat = take (keyBytes t r False) r @ dat"

lemma storable_update:
  assumes "fits t rs" and "\<forall>r\<in>set rs. record_ok t wk False r" and "record_ok t wk False rec" and "i < length rs"
  shows "storable t (rs[i := rec])"
proof -
  have f: "fits t (take i rs @ drop (Suc i) rs)"
  proof -
    have "bytes_of (take i rs) + bytes_of (drop (Suc i) rs) \<le> bytes_of rs"
      using arg_cong [OF id_take_nth_drop [OF assms(4)], of bytes_of] by simp
    then show ?thesis using assms(1,4) by (simp add: fits_def)
  qed
  have "\<forall>r\<in>set (take i rs @ drop (Suc i) rs). record_ok t wk False r" using assms(2) by (auto dest: in_set_takeD in_set_dropD)
  from storable_leaf [OF f this assms(3)] show ?thesis by (simp add: upd_conv_take_nth_drop assms(4))
qed

lemma same_key_facts:
  "case same_key cmp rs of None \<Rightarrow> \<forall>r\<in>set rs. cmp r \<noteq> 0 | Some i \<Rightarrow> i < length rs \<and> cmp (rs ! i) = 0"
proof (cases "same_key cmp rs")
  case None
  then have "\<forall>r\<in>set rs. cmp r \<noteq> 0" by (auto simp: same_key_def find_None_iff in_set_conv_nth)
  then show ?thesis using None by simp
next
  case (Some i)
  then have "i < length rs \<and> cmp (rs ! i) = 0" by (auto simp: same_key_def find_Some_iff)
  then show ?thesis using Some by simp
qed

context tree_file begin

text \<open>The last steps of a change: the count of records, and the header.\<close>

lemma header_whole:
  assumes "whole wk s ms h lv ups"
  shows "\<exists>s'. writeHeader E s = (Inr (), s') \<and> whole wk s' ms h lv ups \<and> bare (tree s') = bare (tree s) \<and> free s' ms = free s ms
    \<and> kp (map_nodes ms) s s'"
proof -
  note w = whole_facts [OF assms]
  have mo: "map_ok E dsk s ms" using w(2) by (simp add: alloc_ok_def)
  obtain s' where s': "writeHeader E s = (Inr (), s')" "kp (map_nodes ms) s s'" "bare (tree s') = bare (tree s)"
    "map_ok E dsk s' ms" "node_used (at_node s') ms = node_used (at_node s) ms"
    using writeHeader_map [OF w(1) mo] by blast
  note b = node_fun_cong [OF s'(3)]
  have fr: "free s' ms = free s ms" by (simp add: free_nodes_def s'(5) b)
  have a: "alloc_ok E dsk s' ms" using w(2) s'(4) keeps_facts(3) [OF s'(2)] by (simp add: alloc_ok_def fr b)
  have "whole wk s' ms h lv ups"
    by (rule whole_keeps [OF assms s'(2) _ a]) (use w(6) fr b form_bare [OF s'(3)] in \<open>auto simp: owned_def\<close>)
  then show ?thesis using s'(1,2,3) fr by blast
qed

lemma update_whole:
  assumes "whole wk s ms h lv ups" and "form (f (tree s)) = form (tree s)" and "bt_cache (f (tree s)) = bt_cache (tree s)"
    and "bt_root (f (tree s)) = bt_root (tree s)" and "bt_totalNodes (f (tree s)) = bt_totalNodes (tree s)"
    and "bt_freeNodes (f (tree s)) = bt_freeNodes (tree s)"
  shows "whole wk (te_upd E f s) ms h lv ups" and "free (te_upd E f s) ms = free s ms"
    and "kp {} s (te_upd E f s)" and "bare (tree (te_upd E f s)) = bare (f (tree s))"
proof -
  note w = whole_facts [OF assms(1)]
  show k: "kp {} s (te_upd E f s)" and "bare (tree (te_upd E f s)) = bare (f (tree s))"
    using update_keeps [where f = f, OF w(1) _ assms(3)] assms(2) by (simp_all add: form_def)
  show fr: "free (te_upd E f s) ms = free s ms"
    using alloc_ok_keeps(2) [OF k _ w(2)] assms(5,6) by (simp add: upd_laws)
  show "whole wk (te_upd E f s) ms h lv ups"
    by (rule whole_keeps [OF assms(1) k]) (use alloc_ok_keeps(1) [OF k _ w(2)] assms fr in \<open>simp_all add: upd_laws\<close>)
qed

section \<open>The leaf of a key\<close>

lemma tree_whole:
  "tree_ok E dsk live wk s ms lv ups \<longleftrightarrow>
     whole wk s ms 1 lv ups \<and> keys_sorted (te_order E s) (contents lv) \<and> length ups < 32
     \<and> bt_depth (tree s) = of_nat (length (lv # ups)) \<and> bt_firstLeaf (tree s) = fst (hd lv)
     \<and> bt_lastLeaf (tree s) = fst (last lv) \<and> bt_leafRecords (tree s) = of_nat (length (contents lv))"
  by (auto simp: tree_ok_def whole_def Let_def)

lemma tree_heads:
  assumes "tree_ok E dsk live wk s ms lv ups"
  shows "heads_sorted (te_order E s) lv" "\<forall>x\<in>set lv. snd x \<noteq> [] \<and> (\<forall>r\<in>set (snd x). wk r)"
    "\<forall>r\<in>set (contents lv). wk r \<and> record_ok (tree s) wk False r"
proof -
  note w = whole_facts [OF conjunct1 [OF assms [unfolded tree_whole]]]
  have l: "snd x \<noteq> []" "r \<in> set (snd x) \<Longrightarrow> wk r \<and> record_ok (tree s) wk False r" if "x \<in> set lv" for x r
    using level_ok_facts(1-3) [OF w(7,3), of "fst x" "snd x"] that by simp_all
  then show "\<forall>x\<in>set lv. snd x \<noteq> [] \<and> (\<forall>r\<in>set (snd x). wk r)" by blast
  show "\<forall>r\<in>set (contents lv). wk r \<and> record_ok (tree s) wk False r" using l(2) by (auto simp: contents_def)
  show "heads_sorted (te_order E s) lv"
    by (rule heads_of_contents) (use l(1) assms in \<open>simp_all add: tree_whole\<close>)
qed

lemma path_ok_leaf:
  assumes "tree_ok E dsk live wk s ms lv ups" and "wk key"
  shows "\<exists>steps s' xs n rs ys. path E key s = (Some steps, s') \<and> view s s' \<and> rdy s' \<and> length steps = Suc (length ups)
    \<and> lv = xs @ (n, rs) # ys \<and> on_way (te_order E s) key xs rs ys \<and> path_ok steps n 1 ups
    \<and> steps ! length ups = step_of n 1 \<and> last steps = step_of n 1"
proof -
  note w = whole_facts [OF conjunct1 [OF assms(1) [unfolded tree_whole]]]
  let ?top = "(lv # ups) ! length ups"
  have len: "length ups < length (lv # ups)" "length ups < 32" using assms(1) by (simp_all add: tree_whole)
  have top: "map fst ?top = [bt_root (tree s)]"
    using levels_ok_nth(3) [OF w(5) len(1)] by (cases ups rule: rev_cases) (simp_all add: nth_append)
  then obtain rs0 where t: "?top = [] @ (bt_root (tree s), rs0) # []" by auto
  have ins: "\<forall>n\<in>set (nodes_of (lv # ups)). inside s n \<and> n \<noteq> 0" using owned_inside(1,2) [OF w(2,6)] by blast
  have pok: "path_ok [] (bt_root (tree s)) (Suc (length ups)) (drop (Suc (length ups)) (lv # ups))" by simp
  have onw: "on_way (te_order E s) key [] rs0 []" by (simp add: on_way_def)
  have len0: "length ([] :: step list) = length (lv # ups) - Suc (length ups)" by simp
  obtain sts s' xs n rs ys where *: "path_loop E key 32 (bt_root (tree s)) s = (Some sts, s')" "view s s'" "rdy s'"
    "length sts = Suc (length ups)" "lv = xs @ (n, rs) # ys" "on_way (te_order E s) key xs rs ys" "path_ok ([] @ sts) n 1 ups"
    "last sts = \<lparr>st_node = n, st_kind = kLeafNode, st_height = 1\<rparr>"
    using path_loop_ok [OF w(1,3) refl w(5) tree_heads(1) [OF assms(1)] ins assms(2) len(1) len(2) t onw len0 pok] by blast
  have last: "last sts = step_of n 1" using *(8) by (simp add: step_of_def)
  have "sts \<noteq> []" using *(4) by auto
  then have "sts ! length ups = step_of n 1" using *(4) last by (simp add: last_conv_nth)
  then show ?thesis using *(1-7) last unfolding path_def
    by (intro exI [of _ sts] exI [of _ s'] exI [of _ xs] exI [of _ n] exI [of _ rs] exI [of _ ys]) simp
qed

lemma leaf_records_ok:
  assumes "whole wk s ms 1 (xs @ (n, rs) # ys) ups" and "last steps = step_of n 1"
  shows "\<exists>s'. leaf_records E steps f s = f (tree s') rs s' \<and> view s s' \<and> rdy s'"
proof -
  note w = whole_facts [OF assms(1)]
  have n: "inside s n" using w(8) by (simp add: level_in_def)
  obtain s' where s': "node E n s = (Some (at_node s n), s')" "view s s'" "rdy s'" using node_read [OF w(1) n] by blast
  have "records (tree s) (at_node s n) = rs" using shape_records [OF node_of_level(1) [OF w(7)]] .
  then show ?thesis using s' assms(2) view_tree(5) [OF s'(2)] by (intro exI [of _ s']) (simp add: leaf_records_def op_simps)
qed


section \<open>Insertion\<close>

lemma whole_order: "whole wk s ms h lv ups \<Longrightarrow> good_order (tree s) wk (te_order E s)"
  by (simp add: whole_def)

text \<open>The invariant, but for the count of records in the header.\<close>

definition uncounted :: "(bytes \<Rightarrow> bool) \<Rightarrow> 's \<Rightarrow> map_record list \<Rightarrow> level \<Rightarrow> level list \<Rightarrow> bool" where
  "uncounted wk s ms lv ups \<longleftrightarrow>
     whole wk s ms 1 lv ups \<and> keys_sorted (te_order E s) (contents lv) \<and> length ups < 32
     \<and> bt_depth (tree s) = of_nat (length (lv # ups)) \<and> bt_firstLeaf (tree s) = fst (hd lv) \<and> bt_lastLeaf (tree s) = fst (last lv)"

lemma tree_uncounted:
  "tree_ok E dsk live wk s ms lv ups \<longleftrightarrow> uncounted wk s ms lv ups \<and> bt_leafRecords (tree s) = of_nat (length (contents lv))"
  unfolding tree_whole uncounted_def by blast

lemma uncounted_header:
  assumes "uncounted wk s ms lv ups"
  shows "\<exists>s'. writeHeader E s = (Inr (), s') \<and> uncounted wk s' ms lv ups \<and> bare (tree s') = bare (tree s) \<and> kp (map_nodes ms) s s'"
proof -
  obtain s' where s': "writeHeader E s = (Inr (), s')" "whole wk s' ms 1 lv ups" "bare (tree s') = bare (tree s)" "kp (map_nodes ms) s s'"
    using header_whole assms unfolding uncounted_def by blast
  then show ?thesis
    using assms node_fun_cong [OF s'(3)] keeps_facts(5) [OF s'(4)] by (intro exI [of _ s']) (simp add: uncounted_def)
qed

lemma uncounted_count:
  assumes "uncounted wk s ms lv ups"
  shows "uncounted wk (te_upd E (\<lambda>t. t\<lparr>bt_leafRecords := c t\<rparr>) s) ms lv ups"
    and "kp {} s (te_upd E (\<lambda>t. t\<lparr>bt_leafRecords := c t\<rparr>) s)"
    and "bare (tree (te_upd E (\<lambda>t. t\<lparr>bt_leafRecords := c t\<rparr>) s)) = (bare (tree s))\<lparr>bt_leafRecords := c (tree s)\<rparr>"
proof -
  let ?g = "\<lambda>t :: btree. t\<lparr>bt_leafRecords := c t\<rparr>"
  have gg: "form (?g (tree s)) = form (tree s)" "bt_cache (?g (tree s)) = bt_cache (tree s)" "bt_root (?g (tree s)) = bt_root (tree s)"
    "bt_totalNodes (?g (tree s)) = bt_totalNodes (tree s)" "bt_freeNodes (?g (tree s)) = bt_freeNodes (tree s)" by simp_all
  have w: "whole wk s ms 1 lv ups" using assms by (simp add: uncounted_def)
  note u = update_whole [where f = ?g, OF w gg]
  show "kp {} s (te_upd E ?g s)" by (rule u(3))
  show "bare (tree (te_upd E ?g s)) = (bare (tree s))\<lparr>bt_leafRecords := c (tree s)\<rparr>" using u(4) by (simp add: bare_update)
  show "uncounted wk (te_upd E ?g s) ms lv ups" using assms u(1) by (simp add: uncounted_def upd_laws)
qed

text \<open>Storing a leaf's records after the way to it was found: the tree with the leaf's records replaced.\<close>

lemma store_leaf_ok:
  assumes "uncounted wk s ms (xs @ (n, rs) # ys) ups" and "steps ! length ups = step_of n 1" and "path_ok steps n 1 ups"
    and "storable (tree s) recs" and "\<forall>r\<in>set recs. record_ok (tree s) wk False r" and "length ups + 2 \<le> card (free s ms)" and "length ups < 31"
    and "keys_sorted (te_order E s) (contents xs @ recs @ contents ys)"
  shows "\<exists>s' lv' ups'. store E steps (length ups) recs s = (Inr (), s') \<and> uncounted wk s' ms lv' ups'
    \<and> contents lv' = contents xs @ recs @ contents ys \<and> bt_leafRecords (tree s') = bt_leafRecords (tree s)
    \<and> kp (set (nodes_of ((xs @ (n, rs) # ys) # ups)) \<union> free s ms \<union> map_nodes ms) s s'
    \<and> form (tree s') = form (tree s)"
proof -
  let ?lv = "xs @ (n, rs) # ys"
  have wh: "whole wk s ms 1 ?lv ups" and tf: "bt_depth (tree s) = of_nat (length (?lv # ups))" "bt_firstLeaf (tree s) = fst (hd ?lv)"
    "bt_lastLeaf (tree s) = fst (last ?lv)"
    using assms(1) by (simp_all only: uncounted_def)
  have rok: "\<forall>r\<in>set recs. record_ok (tree s) wk (1 \<noteq> (1 :: nat)) r" using assms(5) by simp
  obtain s' ls ups' x r where s1: "store E steps (length ups) recs s = (Inr (), s')" "whole wk s' ms 1 (xs @ ls @ ys) ups'"
    "contents ls = recs" "ls \<noteq> []" "fst (hd ls) = n" "length ups' \<le> Suc (length ups)"
    "kp (set (nodes_of (?lv # ups)) \<union> free s ms \<union> map_nodes ms) s s'"
    "bare (tree s') = (bare (tree s))\<lparr>bt_freeNodes := x, bt_root := r,
        bt_depth := bt_depth (tree s) + (of_nat (length ups') - of_nat (length ups)),
        bt_lastLeaf := (if 1 = (1 :: nat) \<and> bt_lastLeaf (tree s) = n then fst (last ls) else bt_lastLeaf (tree s))\<rparr>"
    using store_ok [OF wh le_refl assms(2,3,4) rok assms(6)] by (elim exE conjE)
  note bf = arg_cong [OF s1(8), of bt_depth] arg_cong [OF s1(8), of bt_firstLeaf] arg_cong [OF s1(8), of bt_lastLeaf]
    arg_cong [OF s1(8), of bt_leafRecords]
  have ord: "te_order E s' = te_order E s" by (rule keeps_facts(5) [OF s1(7)])
  have ynd: "fst (last ys) \<noteq> n" if "ys \<noteq> []"
  proof -
    have "n \<notin> fst ` set ys" using whole_facts(8) [OF wh] by (simp add: level_in_def)
    then show ?thesis using last_in_set [OF that] by force
  qed
  have cont: "contents (xs @ ls @ ys) = contents xs @ recs @ contents ys" using s1(3) by simp
  have "uncounted wk s' ms (xs @ ls @ ys) ups'"
    unfolding uncounted_def cont
  proof (intro conjI)
    show "bt_depth (tree s') = of_nat (length ((xs @ ls @ ys) # ups'))" using bf(1) tf(1) by simp
    show "bt_firstLeaf (tree s') = fst (hd (xs @ ls @ ys))" using bf(2) tf(2) s1(4,5) by (cases xs) simp_all
    show "bt_lastLeaf (tree s') = fst (last (xs @ ls @ ys))" using bf(3) tf(3) s1(4) ynd by (cases "ys = []") simp_all
  qed (use s1(2) assms(7,8) s1(6) ord in simp_all)
  moreover have "form (tree s') = form (tree s)"
  proof -
    have "form (bare (tree s')) = form (tree s)" unfolding s1(8) by simp
    then show ?thesis by simp
  qed
  ultimately show ?thesis using s1(1,7) bf(4) cont by auto
qed

lemma tree_view:
  assumes "tree_ok E dsk live wk s ms lv ups" and "view s s'" and "rdy s'"
  shows "tree_ok E dsk live wk s' ms lv ups" "free s' ms = free s ms" "te_order E s' = te_order E s" "form (tree s') = form (tree s)"
proof -
  note w = whole_view [OF conjunct1 [OF assms(1) [unfolded tree_whole]] assms(2,3)]
  show "tree_ok E dsk live wk s' ms lv ups"
    using assms(1) w(1) unfolding tree_whole view_facts(5) [OF assms(2)] view_tree [OF assms(2)] by blast
  show "free s' ms = free s ms" "te_order E s' = te_order E s" "form (tree s') = form (tree s)"
    using w(2) view_facts(5) [OF assms(2)] form_bare [OF view_facts(6) [OF assms(2)]] by simp_all
qed

lemma root_used:
  assumes "tree_ok E dsk live wk s ms lv ups"
  shows "bt_root (tree s) \<noteq> 0"
proof -
  note w = whole_facts [OF conjunct1 [OF assms [unfolded tree_whole]]]
  have "map fst (last (lv # ups)) = [bt_root (tree s)]" using levels_ok_nth(3) [OF w(5), of 0] by simp
  then have "bt_root (tree s) \<in> set (map fst (last (lv # ups)))" by simp
  then have "bt_root (tree s) \<in> set (nodes_of (lv # ups))" unfolding nodes_of_def using last_in_set [of "lv # ups"] by fastforce
  then show ?thesis by (rule owned_inside(2) [OF w(2,6)])
qed

lemma insert_ok:
  assumes "tree_ok E dsk live wk s ms lv ups" and "wk key" and "record_ok (tree s) wk False (padded_key key @ dat)"
    and "length ups + 2 \<le> card (free s ms)" and "length ups < 31"
  shows "(\<exists>r\<in>set (contents lv). te_order E s key r = 0) \<Longrightarrow>
      \<exists>s'. bt_insert E key dat s = (Inl E_exists, s') \<and> view s s' \<and> rdy s'"
    and "\<forall>r\<in>set (contents lv). te_order E s key r \<noteq> 0 \<Longrightarrow>
      \<exists>s' lv' ups' as bs. bt_insert E key dat s = (Inr (), s') \<and> tree_ok E dsk live wk s' ms lv' ups'
        \<and> contents lv = as @ bs \<and> contents lv' = as @ (padded_key key @ dat) # bs
        \<and> kp (set (nodes_of (lv # ups)) \<union> free s ms \<union> map_nodes ms) s s' \<and> form (tree s') = form (tree s)"
proof -
  let ?ord = "te_order E s"
  obtain steps s1 xs n rs ys where s1: "path E key s = (Some steps, s1)" "view s s1" "rdy s1" "length steps = Suc (length ups)"
    "lv = xs @ (n, rs) # ys" "on_way ?ord key xs rs ys" "path_ok steps n 1 ups" "steps ! length ups = step_of n 1"
    "last steps = step_of n 1"
    using path_ok_leaf [OF assms(1,2)] by (elim exE conjE)
  note t1 = tree_view [OF assms(1) s1(2,3)]
  note w = whole_facts [OF conjunct1 [OF assms(1) [unfolded tree_whole]]]
  note w1 = conjunct1 [OF t1(1) [unfolded s1(5) tree_whole]]
  define f where "f = (\<lambda>(t :: btree) recs. st_bind (look (te_order E)) (\<lambda>order.
       case insert_index (order key) recs of
         None \<Rightarrow> fail E_exists
       | Some i \<Rightarrow> ok_bind (store E steps (length steps - 1) (take i recs @ (padded_key key @ dat) # drop i recs)) (\<lambda>_.
           ok_bind (modify (te_upd E (\<lambda>t. t\<lparr>bt_leafRecords := bt_leafRecords t + 1\<rparr>))) (\<lambda>_. writeHeader E))))"
  obtain s2 where s2: "leaf_records E steps f s1 = f (tree s2) rs s2" "view s1 s2" "rdy s2"
    using leaf_records_ok [OF w1 s1(9)] by blast
  note v2 = view_trans [OF s1(2) s2(2)]
  note t2 = tree_view [OF assms(1) v2 s2(3)]
  have run: "bt_insert E key dat s = f (tree s2) rs s2"
    using root_used [OF assms(1)] s1(1) s2(1) by (simp add: bt_insert_def op_simps Let_def f_def)
  note hd = tree_heads [OF assms(1)]
  have sorted: "keys_sorted ?ord (contents (xs @ (n, rs) # ys))" using assms(1) by (simp add: tree_whole s1(5))
  then have rsorted: "keys_sorted ?ord rs" by (simp add: keys_sorted_def sorted_wrt_append)
  have wkall: "\<forall>x\<in>set (xs @ (n, rs) # ys). snd x \<noteq> [] \<and> (\<forall>r\<in>set (snd x). wk r)" using hd(2) by (simp only: s1(5))
  have wkrs: "\<forall>r\<in>set rs. wk r" using wkall by simp
  note lo = leaf_order [OF w(3) sorted s1(6) assms(2) wkall]
  have cont: "set (contents lv) = set (contents xs) \<union> set rs \<union> set (contents ys)" by (simp add: s1(5) Un_assoc)
  have wkc: "\<forall>r\<in>set (contents lv). wk r" using hd(3) by blast
  have ltx: "ord' = 0 \<Longrightarrow> False" if "ord' = ?ord key r" "r \<in> set (contents xs)" for ord' r
    using lo(1) [OF that(2)] order_facts(8) [OF w(3) assms(2), of r] wkc cont that by auto
  show "\<exists>s'. bt_insert E key dat s = (Inl E_exists, s') \<and> view s s' \<and> rdy s'"
    if eq: "\<exists>r\<in>set (contents lv). ?ord key r = 0"
  proof -
    have "\<exists>r\<in>set rs. ?ord key r = 0" using eq ltx lo(2) cont by fastforce
    then have "insert_index (?ord key) rs = None"
    proof -
      assume ex: "\<exists>r\<in>set rs. ?ord key r = 0"
      have "insert_index (?ord key) rs \<noteq> Some i" for i
      proof
        assume i: "insert_index (?ord key) rs = Some i"
        note p = place_in_leaf [OF w(3) rsorted wkrs assms(2) i]
        obtain r where r: "r \<in> set rs" "?ord key r = 0" using ex by blast
        have "r \<in> set (take i rs @ drop i rs)" using r(1) by simp
        then have "r \<in> set (take i rs) \<or> r \<in> set (drop i rs)" by (simp del: append_take_drop_id)
        then show False using p r order_facts(8) [OF w(3) assms(2), of r] wkrs by auto
      qed
      then show ?thesis by (cases "insert_index (?ord key) rs") auto
    qed
    then have "bt_insert E key dat s = (Inl E_exists, s2)" using run t2(3) by (simp add: f_def op_simps)
    then show ?thesis using v2 s2(3) by blast
  qed
  show "\<exists>s' lv' ups' as bs. bt_insert E key dat s = (Inr (), s') \<and> tree_ok E dsk live wk s' ms lv' ups'
        \<and> contents lv = as @ bs \<and> contents lv' = as @ (padded_key key @ dat) # bs
        \<and> kp (set (nodes_of (lv # ups)) \<union> free s ms \<union> map_nodes ms) s s' \<and> form (tree s') = form (tree s)"
    if ne: "\<forall>r\<in>set (contents lv). ?ord key r \<noteq> 0"
  proof -
    have "insert_index (?ord key) rs \<noteq> None"
    proof
      assume "insert_index (?ord key) rs = None"
      then have "\<exists>r\<in>set rs. ?ord key r = 0" using insert_index_facts [where cmp = "?ord key" and rs = rs] by simp
      then show False using ne cont by blast
    qed
    then obtain i where i: "insert_index (?ord key) rs = Some i" by blast
    note p = place_in_leaf [OF w(3) rsorted wkrs assms(2) i]
    let ?as = "contents xs @ take i rs" and ?bs = "drop i rs @ contents ys" and ?rec = "padded_key key @ dat"
    obtain x where x: "?rec = key @ x" using padded_key [of key] by auto
    have ab: "contents lv = ?as @ ?bs" by (simp add: s1(5))
    have srt: "keys_sorted ?ord (contents xs @ (take i rs @ ?rec # drop i rs) @ contents ys)"
    proof -
      have "keys_sorted ?ord (?as @ (key @ x) # ?bs)"
      proof (rule keys_sorted_insert [OF w(3) _ _ assms(2)])
        show "keys_sorted ?ord (?as @ ?bs)" using sorted unfolding s1(5) [symmetric] ab .
        show "\<forall>r\<in>set (?as @ ?bs). wk r" using wkc unfolding ab .
        show "\<forall>r\<in>set ?as. ?ord r key < 0" "\<forall>r\<in>set ?bs. ?ord key r < 0" using p lo by auto
      qed
      then show ?thesis by (simp add: x)
    qed
    have shape: "fits (tree s) (take i rs @ drop i rs)" using node_of_level(1) [OF w(7) [unfolded s1(5)]] by (simp add: node_shape_def)
    have rok: "\<forall>r\<in>set (take i rs @ drop i rs). record_ok (tree s) wk False r" using hd(3) cont by auto
    have st: "storable (tree s2) (take i rs @ ?rec # drop i rs)"
      using storable_leaf [OF shape rok assms(3)] by (simp add: storable_def form_cong [OF t2(4)])
    have rok2: "\<forall>r\<in>set (take i rs @ ?rec # drop i rs). record_ok (tree s2) wk False r"
      using rok assms(3) by (auto simp: form_cong [OF t2(4)] dest: in_set_takeD in_set_dropD)
    have cf: "length ups + 2 \<le> card (free s2 ms)" using assms(4) t2(2) by simp
    note un = conjunct1 [OF t2(1) [unfolded s1(5) tree_uncounted]]
    obtain s3 lv' ups' where s3: "store E steps (length ups) (take i rs @ ?rec # drop i rs) s2 = (Inr (), s3)" "uncounted wk s3 ms lv' ups'"
      "contents lv' = contents xs @ (take i rs @ ?rec # drop i rs) @ contents ys" "bt_leafRecords (tree s3) = bt_leafRecords (tree s2)"
      "kp (set (nodes_of (lv # ups)) \<union> free s2 ms \<union> map_nodes ms) s2 s3" "form (tree s3) = form (tree s2)"
      using store_leaf_ok [OF un s1(8,7) st rok2 cf assms(5) srt [folded t2(3)], folded s1(5)] by (elim exE conjE)
    let ?s4 = "te_upd E (\<lambda>t. t\<lparr>bt_leafRecords := bt_leafRecords t + 1\<rparr>) s3"
    note s4 = uncounted_count [OF s3(2), of "\<lambda>t. bt_leafRecords t + 1"]
    obtain s' where s': "writeHeader E ?s4 = (Inr (), s')" "uncounted wk s' ms lv' ups'" "bare (tree s') = bare (tree ?s4)"
      "kp (map_nodes ms) ?s4 s'" using uncounted_header [OF s4(1)] by blast
    have lr: "bt_leafRecords (tree s') = bt_leafRecords (tree s2) + 1"
      using arg_cong [OF trans [OF s'(3) s4(3)], of bt_leafRecords] s3(4) by simp
    have run': "bt_insert E key dat s = (Inr (), s')" using run t2(3) i s3(1) s'(1) s1(4) by (simp add: f_def op_simps)
    have cont': "contents lv' = ?as @ ?rec # ?bs" using s3(3) by simp
    have tok: "tree_ok E dsk live wk s' ms lv' ups'"
      unfolding tree_uncounted using s'(2) lr t2(1) ab by (simp add: tree_uncounted cont')
    have kk: "kp (set (nodes_of (lv # ups)) \<union> free s ms \<union> map_nodes ms) s s'"
      by (rule keeps_more [OF view_keeps [OF v2 s2(3)] keeps_more [OF s3(5) keeps_more [OF s4(2) s'(4) subset_refl] subset_refl]])
         (auto simp: t2(2))
    have "form (bare (tree s')) = form (tree s3)" unfolding s'(3) s4(3) by simp
    then have fm: "form (tree s') = form (tree s)" using s3(6) t2(4) by simp
    show ?thesis using run' tok cont' kk fm ab
      by (intro exI [of _ s'] exI [of _ lv'] exI [of _ ups'] exI [of _ ?as] exI [of _ ?bs]) simp
  qed
qed


section \<open>Replacement\<close>

text \<open>The start that the changes of a record share: the way to the leaf, and the leaf's records.\<close>

lemma leaf_start:
  assumes "tree_ok E dsk live wk s ms lv ups" and "wk key"
  shows "\<exists>steps xs n rs ys s2. lv = xs @ (n, rs) # ys \<and> on_way (te_order E s) key xs rs ys \<and> path_ok steps n 1 ups
    \<and> steps ! length ups = step_of n 1 \<and> length steps = Suc (length ups) \<and> view s s2 \<and> rdy s2
    \<and> (\<forall>G f. some_or G (path E key) (\<lambda>steps. leaf_records E steps (f steps)) s = f steps (tree s2) rs s2)"
proof -
  obtain steps s1 xs n rs ys where s1: "path E key s = (Some steps, s1)" "view s s1" "rdy s1" "length steps = Suc (length ups)"
    "lv = xs @ (n, rs) # ys" "on_way (te_order E s) key xs rs ys" "path_ok steps n 1 ups" "steps ! length ups = step_of n 1"
    "last steps = step_of n 1"
    using path_ok_leaf [OF assms] by (elim exE conjE)
  have w1: "whole wk s1 ms 1 (xs @ (n, rs) # ys) ups"
    using tree_view(1) [OF assms(1) s1(2,3)] unfolding s1(5) tree_whole by blast
  have n: "inside s1 n" using whole_facts(8) [OF w1] by (simp add: level_in_def)
  obtain s2 where s2: "node E n s1 = (Some (at_node s1 n), s2)" "view s1 s2" "rdy s2" using node_read [OF s1(3) n] by blast
  have "records (tree s2) (at_node s1 n) = rs"
    using shape_records [OF node_of_level(1) [OF whole_facts(7) [OF w1]]] view_tree(5) [OF s2(2)] by simp
  then have "some_or G (path E key) (\<lambda>steps. leaf_records E steps (f steps)) s = f steps (tree s2) rs s2" for G f
    using s1(1,9) s2(1) by (simp add: leaf_records_def op_simps)
  then show ?thesis using s1(4-8) s2(3) view_trans [OF s1(2) s2(2)] by blast
qed

lemma replace_ok:
  assumes "tree_ok E dsk live wk s ms lv ups" and "wk key" and "length ups + 2 \<le> card (free s ms)" and "length ups < 31"
  shows "\<forall>r\<in>set (contents lv). te_order E s key r \<noteq> 0 \<Longrightarrow>
      \<exists>s'. bt_replace E key dat s = (Inl E_notFound, s') \<and> view s s' \<and> rdy s'"
    and "r \<in> set (contents lv) \<Longrightarrow> te_order E s key r = 0 \<Longrightarrow> wk (take (keyBytes (tree s) r False) r)
        \<Longrightarrow> record_ok (tree s) wk False (with_data (tree s) r dat) \<Longrightarrow>
      \<exists>s' lv' ups' as bs. bt_replace E key dat s = (Inr (), s') \<and> tree_ok E dsk live wk s' ms lv' ups'
        \<and> contents lv = as @ r # bs \<and> contents lv' = as @ with_data (tree s) r dat # bs
        \<and> kp (set (nodes_of (lv # ups)) \<union> free s ms \<union> map_nodes ms) s s' \<and> form (tree s') = form (tree s)"
proof -
  let ?ord = "te_order E s"
  obtain steps xs n rs ys s2 where l: "lv = xs @ (n, rs) # ys" "on_way ?ord key xs rs ys" "path_ok steps n 1 ups"
    "steps ! length ups = step_of n 1" "length steps = Suc (length ups)" "view s s2" "rdy s2"
    "\<And>(G :: ('s, unit) op) f. some_or G (path E key) (\<lambda>steps. leaf_records E steps (f steps)) s = f steps (tree s2) rs s2"
    using leaf_start [OF assms(1,2)] by blast
  note t2 = tree_view [OF assms(1) l(6,7)] and w = whole_facts [OF conjunct1 [OF assms(1) [unfolded tree_whole]]]
  define f where "f = (\<lambda>steps (t :: btree) recs. st_bind (look (te_order E)) (\<lambda>order.
       case same_key (order key) recs of
         None \<Rightarrow> fail E_notFound
       | Some i \<Rightarrow> ok_bind (store E steps (length steps - 1) (recs[i := take (keyBytes t (recs ! i) False) (recs ! i) @ dat]))
           (\<lambda>_. writeHeader E)))"
  have run: "bt_replace E key dat s = f steps (tree s2) rs s2"
    using root_used [OF assms(1)] l(8) [of _ f] by (simp add: bt_replace_def op_simps f_def)
  have kb: "keyBytes (tree s2) = keyBytes (tree s)" by (simp add: form_cong [OF t2(4)])
  note hd = tree_heads [OF assms(1)]
  have sorted: "keys_sorted ?ord (contents xs @ rs @ contents ys)" using assms(1) by (simp add: tree_whole l(1))
  have wkall: "\<forall>x\<in>set (xs @ (n, rs) # ys). snd x \<noteq> [] \<and> (\<forall>r\<in>set (snd x). wk r)" using hd(2) by (simp only: l(1))
  have cont: "contents lv = contents xs @ rs @ contents ys" by (simp add: l(1))
  show "\<exists>s'. bt_replace E key dat s = (Inl E_notFound, s') \<and> view s s' \<and> rdy s'"
    if ne: "\<forall>r\<in>set (contents lv). ?ord key r \<noteq> 0"
  proof -
    have "same_key (?ord key) rs = None" using same_key_facts [where cmp = "?ord key" and rs = rs] ne cont by (cases "same_key (?ord key) rs") auto
    then show ?thesis using run t2(3) l(6,7) by (intro exI [of _ s2]) (simp add: f_def op_simps)
  qed
  show "\<exists>s' lv' ups' as bs. bt_replace E key dat s = (Inr (), s') \<and> tree_ok E dsk live wk s' ms lv' ups'
        \<and> contents lv = as @ r # bs \<and> contents lv' = as @ with_data (tree s) r dat # bs
        \<and> kp (set (nodes_of (lv # ups)) \<union> free s ms \<union> map_nodes ms) s s' \<and> form (tree s') = form (tree s)"
    if r: "r \<in> set (contents lv)" "?ord key r = 0" "wk (take (keyBytes (tree s) r False) r)" "record_ok (tree s) wk False (with_data (tree s) r dat)"
  proof -
    have srt: "keys_sorted ?ord (contents (xs @ (n, rs) # ys))" using sorted by simp
    note lo = leaf_order [OF w(3) srt l(2) assms(2) wkall]
    have wkc: "\<forall>r\<in>set (contents lv). wk r" using hd(3) by blast
    have uniq: "r' = r" if r': "r' \<in> set (contents lv)" "?ord key r' = 0" for r'
    proof (rule ccontr)
      assume "r' \<noteq> r"
      have one: False if "a \<in> set (contents lv)" "b \<in> set (contents lv)" "?ord a b < 0" "?ord key a = 0" "?ord key b = 0" for a b
        using order_trans(2) [OF w(3) assms(2), of a b] wkc that by auto
      obtain i j where ij: "i < length (contents lv)" "j < length (contents lv)" "contents lv ! i = r" "contents lv ! j = r'"
        using r(1) r'(1) by (metis in_set_conv_nth)
      then have "i \<noteq> j" using \<open>r' \<noteq> r\<close> by auto
      then have "?ord r r' < 0 \<or> ?ord r' r < 0"
        using ij sorted [folded cont] sorted_wrt_nth_less [of "\<lambda>a b. ?ord a b < 0" "contents lv"] unfolding keys_sorted_def by (metis nat_neq_iff)
      then show False using one r(1,2) r' by blast
    qed
    have inleaf: "r \<in> set rs"
    proof -
      have "r \<notin> set (contents xs)" using lo(1) [of r] order_facts(8) [OF w(3) assms(2), of r] wkc r(1,2) by auto
      moreover have "r \<notin> set (contents ys)" using lo(2) [of r] r(2) by auto
      ultimately show ?thesis using r(1) cont by auto
    qed
    have "same_key (?ord key) rs \<noteq> None"
    proof
      assume "same_key (?ord key) rs = None"
      then show False using same_key_facts [where cmp = "?ord key" and rs = rs] inleaf r(2) by simp
    qed
    then obtain i where i: "same_key (?ord key) rs = Some i" by blast
    then have ii: "i < length rs" "?ord key (rs ! i) = 0" using same_key_facts [where cmp = "?ord key" and rs = rs] by simp_all
    have ri: "rs ! i = r" by (rule uniq) (use ii cont in auto)
    let ?rec = "with_data (tree s) r dat" and ?as = "contents xs @ take i rs" and ?bs = "drop (Suc i) rs @ contents ys"
    have sp: "rs = take i rs @ r # drop (Suc i) rs" using id_take_nth_drop [OF ii(1)] ri by simp
    have ab: "contents lv = ?as @ r # ?bs" unfolding cont by (subst sp) simp
    have upd: "rs[i := ?rec] = take i rs @ ?rec # drop (Suc i) rs" by (rule upd_conv_take_nth_drop [OF ii(1)])
    have rrec: "record_ok (tree s) wk False r" using hd(3) r(1) by blast
    have kbl: "keyBytes (tree s) r False \<le> length r" using rrec by (simp add: record_ok_def)
    have sameord: "?ord ?rec x = ?ord r x \<and> ?ord x ?rec = ?ord x r" if "wk x" for x
    proof -
      note a = order_facts(4) [OF w(3) that r(3)] order_facts(5) [OF w(3) r(3) that]
      have "r = take (keyBytes (tree s) r False) r @ drop (keyBytes (tree s) r False) r" by simp
      then have "?ord r x = ?ord (take (keyBytes (tree s) r False) r) x" "?ord x r = ?ord x (take (keyBytes (tree s) r False) r)"
        using a by metis+
      then show ?thesis using a by (simp add: with_data_def)
    qed
    have srt': "keys_sorted ?ord (contents xs @ rs[i := ?rec] @ contents ys)"
    proof -
      have "keys_sorted ?ord (?as @ r # ?bs)" using sorted [folded cont] unfolding ab .
      moreover have "\<forall>x\<in>set (?as @ ?bs). wk x" using wkc unfolding ab by auto
      ultimately have "keys_sorted ?ord (?as @ ?rec # ?bs)" using sameord by (auto simp: keys_sorted_def sorted_wrt_append)
      then show ?thesis unfolding upd by simp
    qed
    have shape: "fits (tree s) rs" using node_of_level(1) [OF w(7) [unfolded l(1)]] by (simp add: node_shape_def)
    have rok: "\<forall>r\<in>set rs. record_ok (tree s) wk False r" using hd(3) cont by auto
    have st: "storable (tree s2) (rs[i := ?rec])"
      using storable_update [OF shape rok r(4) ii(1)] by (simp add: storable_def form_cong [OF t2(4)])
    have rok2: "\<forall>r\<in>set (rs[i := ?rec]). record_ok (tree s2) wk False r"
      using rok r(4) by (auto simp: form_cong [OF t2(4)] dest!: set_update_subset_insert [THEN subsetD])
    have cf: "length ups + 2 \<le> card (free s2 ms)" using assms(3) t2(2) by simp
    note un = conjunct1 [OF t2(1) [unfolded l(1) tree_uncounted]]
    obtain s3 lv' ups' where s3: "store E steps (length ups) (rs[i := ?rec]) s2 = (Inr (), s3)" "uncounted wk s3 ms lv' ups'"
      "contents lv' = contents xs @ rs[i := ?rec] @ contents ys" "bt_leafRecords (tree s3) = bt_leafRecords (tree s2)"
      "kp (set (nodes_of (lv # ups)) \<union> free s2 ms \<union> map_nodes ms) s2 s3" "form (tree s3) = form (tree s2)"
      using store_leaf_ok [OF un l(4,3) st rok2 cf assms(4) srt' [folded t2(3)], folded l(1)] by (elim exE conjE)
    obtain s' where s': "writeHeader E s3 = (Inr (), s')" "uncounted wk s' ms lv' ups'" "bare (tree s') = bare (tree s3)"
      "kp (map_nodes ms) s3 s'" using uncounted_header [OF s3(2)] by blast
    have run': "bt_replace E key dat s = (Inr (), s')"
      using run t2(3) i s3(1) s'(1) l(5) by (simp add: f_def op_simps ri kb flip: with_data_def)
    have cont': "contents lv' = ?as @ ?rec # ?bs" using s3(3) by (simp add: upd)
    have tok: "tree_ok E dsk live wk s' ms lv' ups'"
      unfolding tree_uncounted using s'(2) node_fun_cong(17) [OF s'(3)] s3(4) t2(1) ab by (simp add: tree_uncounted cont')
    have kk: "kp (set (nodes_of (lv # ups)) \<union> free s ms \<union> map_nodes ms) s s'"
      by (rule keeps_more [OF view_keeps [OF l(6,7)] keeps_more [OF s3(5) s'(4) subset_refl]]) (auto simp: t2(2))
    have fm: "form (tree s') = form (tree s)" using form_bare [OF s'(3)] s3(6) t2(4) by simp
    show ?thesis using run' tok cont' kk fm ab
      by (intro exI [of _ s'] exI [of _ lv'] exI [of _ ups'] exI [of _ ?as] exI [of _ ?bs]) simp
  qed
qed


end

end
