(* ===== verification/HFSP_Find.thy ===== *)
theory HFSP_Find
  imports HFSP_Insert
begin

text \<open>
  Finding a record: \<open>seek\<close> and \<open>at\<close> give the first record of the tree that is not below the key.
\<close>

lemma path_ok_nodes:
  "path_ok steps n h ups \<Longrightarrow> i < length ups \<Longrightarrow> st_node (steps ! i) \<in> set (nodes_of ups)"
proof (induction ups arbitrary: n h)
  case (Cons up ups)
  obtain p prs where p: "(p, prs) \<in> set up" "steps ! length ups = \<lparr>st_node = p, st_kind = kIndexNode, st_height = of_nat (Suc h)\<rparr>"
    "path_ok steps p (Suc h) ups" using Cons.prems(1) by auto
  show ?case
  proof (cases "i = length ups")
    case True
    then show ?thesis using p(1,2) by force
  next
    case False
    then show ?thesis using Cons.IH [OF p(3)] Cons.prems(2) by simp
  qed
qed simp

text \<open>The first record of a leaf that is not below the key.\<close>

lemma find_index:
  assumes "m = k + length ys" and "\<And>i. i < length ys \<Longrightarrow> xs ! (k + i) = ys ! i"
  shows "(case find (\<lambda>i. P (xs ! i)) [k..<m] of Some i \<Rightarrow> i | None \<Rightarrow> m) = k + length (takeWhile (\<lambda>x. \<not> P x) ys)"
  using assms
proof (induction ys arbitrary: k)
  case (Cons y ys)
  have y: "xs ! k = y" using Cons.prems(2) [of 0] by simp
  have "(case find (\<lambda>i. P (xs ! i)) [Suc k..<m] of Some i \<Rightarrow> i | None \<Rightarrow> m) = Suc k + length (takeWhile (\<lambda>x. \<not> P x) ys)"
    by (rule Cons.IH) (use Cons.prems(1) Cons.prems(2) [of "Suc _"] in simp_all)
  moreover have "[k..<m] = k # [Suc k..<m]" by (rule upt_conv_Cons) (use Cons.prems(1) in simp)
  ultimately show ?case using y by simp
qed simp

lemma leaf_index_ok:
  assumes "node_shape t nd kLeafNode h fl bl recs" and "good_order t wk ord" and "\<forall>r\<in>set recs. record_ok t wk False r" and "wk key"
  shows "leaf_index t (ord key) nd = length (takeWhile (\<lambda>r. 0 < ord key r) recs)"
proof -
  have at: "(case record_at t nd i of Some (k, _, _) \<Rightarrow> ord key (drop k nd) \<le> 0 | None \<Rightarrow> False) = (ord key (recs ! i) \<le> 0)"
    if i: "i < length recs" for i
  proof -
    have r: "record_ok t wk False (recs ! i)" using assms(3) i by simp
    obtain off rest d room where "record_at t nd i = Some (off, d, room)" "drop off nd = recs ! i @ rest"
      using shape_record_at [OF assms(1,2) r i] by auto
    then show ?thesis using order_facts(4) [OF assms(2,4) rec_ok_wk(1) [OF assms(2) r]] by simp
  qed
  have c: "count nd = length recs" using assms(1) by (simp add: node_shape_def)
  have "find (\<lambda>i. case record_at t nd i of Some (k, _, _) \<Rightarrow> ord key (drop k nd) \<le> 0 | None \<Rightarrow> False) [0..<length recs]
      = find (\<lambda>i. ord key (recs ! i) \<le> 0) [0..<length recs]"
    by (rule find_cong [OF refl]) (use at in simp)
  then show ?thesis
    using find_index [of "length recs" 0 recs recs "\<lambda>r. ord key r \<le> 0"]
    unfolding leaf_index_def c by (simp add: not_le)
qed

text \<open>What the search finds: the first of the records, with what follows it in its node.\<close>

definition found_at :: "btree \<Rightarrow> bytes list \<Rightarrow> ((u32 \<times> nat) \<times> bytes \<times> bytes \<times> nat) option \<Rightarrow> bool" where
  "found_at t recs res \<longleftrightarrow>
     (case recs of
        [] \<Rightarrow> res = None
      | r # _ \<Rightarrow> \<exists>p rest. let dat = drop (keyBytes t r False) (r @ rest) in res = Some (p, r @ rest, dat, length dat))"

context tree_file begin

text \<open>\<open>seek\<close> takes the way \<open>path\<close> takes.\<close>

lemma seek_path:
  assumes "path_loop E key g n s = (Some sts, s')" and "rdy s" and "te_order E s = ord" and "\<forall>st\<in>set sts. inside s (st_node st)"
  shows "seek_loop E (ord key) g n s
    = (Some (st_node (last sts), leaf_index (tree s) (ord key) (at_node s (st_node (last sts)))), s')"
  using assms
proof (induction g arbitrary: n s sts)
  case (Suc g)
  have n: "n \<noteq> 0" using Suc.prems(1) by (auto split: if_splits)
  obtain nd s1 where nd: "node E n s = (Some nd, s1)" using Suc.prems(1) n by (auto split: prod.splits option.splits)
  have hd: "sts \<noteq> [] \<and> st_node (hd sts) = n"
    using Suc.prems(1) n nd by (auto simp: Let_def split: if_splits option.splits prod.splits)
  then have ins: "inside s n" using Suc.prems(4) by (cases sts) auto
  obtain s1' where "node E n s = (Some (at_node s n), s1')" "view s s1'" "rdy s1'" using node_read [OF Suc.prems(2) ins] by blast
  then have s1: "nd = at_node s n" "view s s1" "rdy s1" using nd by simp_all
  note v = view_facts [OF s1(2)]
  have ord: "te_order E s1 = ord" by (rule trans [OF v(5) Suc.prems(3)])
  have li: "leaf_index (tree s1) = leaf_index (tree s)" by (simp add: fun_eq_iff leaf_index_def view_tree [OF s1(2)])
  show ?case
  proof (cases "kind nd = kLeafNode")
    case True
    then have "sts = [\<lparr>st_node = n, st_kind = kind nd, st_height = nd ! 9\<rparr>]" "s' = s1" using Suc.prems(1) n nd by (auto simp: Let_def)
    then show ?thesis using n nd True s1(1) by (simp add: Let_def li)
  next
    case False
    then obtain child sts' where c: "kind nd = kIndexNode" "child_loop (tree s1) (ord key) nd 0 [0..<count nd] = Some child"
      "path_loop E key g child s1 = (Some sts', s')" "sts = \<lparr>st_node = n, st_kind = kind nd, st_height = nd ! 9\<rparr> # sts'"
      using Suc.prems(1) n nd ord by (auto simp: Let_def split: if_splits option.splits prod.splits)
    have "\<forall>st\<in>set sts'. inside s1 (st_node st)" using Suc.prems(4) c(4) v(3) by simp
    note ih = Suc.IH [OF c(3) s1(3) ord this]
    have "sts' \<noteq> []" using c(3) by (cases g) (auto simp: Let_def split: if_splits option.splits prod.splits)
    then show ?thesis using n nd c ih by (simp add: Let_def li v(2))
  qed
qed simp

lemma at_record:
  assumes "whole wk s ms 1 (xs @ (n, rs) # ys) ups" and "i < length rs"
  shows "\<exists>s' rest. at_loop E (Suc g) (n, i) s
      = (Some ((n, i), rs ! i @ rest, drop (keyBytes (tree s) (rs ! i) False) (rs ! i @ rest),
          length (drop (keyBytes (tree s) (rs ! i) False) (rs ! i @ rest))), s') \<and> view s s' \<and> rdy s'"
proof -
  note w = whole_facts [OF assms(1)]
  have n: "inside s n" "n \<noteq> 0" using w(8) by (auto simp: level_in_def)
  obtain s' where s': "node E n s = (Some (at_node s n), s')" "view s s'" "rdy s'" using node_read [OF w(1) n(1)] by blast
  have sh: "node_shape (tree s) (at_node s n) kLeafNode 1 (first_or 0 ys) (last_or 0 xs) rs" using node_of_level(1) [OF w(7)] by simp
  have r: "record_ok (tree s) wk False (rs ! i)" using level_ok_facts(2) [OF w(7,3), of n rs "rs ! i"] assms(2) by simp
  obtain off rest where o': "record_at (tree s) (at_node s n) i = Some (off, off + keyBytes (tree s) (rs ! i) False,
      unat (bt_nodeSize (tree s)) - (off + keyBytes (tree s) (rs ! i) False))"
    "drop off (at_node s n) = rs ! i @ rest" "off + length (rs ! i) + 2 \<le> unat (bt_nodeSize (tree s))"
    "length (at_node s n) = unat (bt_nodeSize (tree s))"
    using shape_record_at [OF sh w(3) r assms(2)] by auto
  have d: "drop (off + keyBytes (tree s) (rs ! i) False) (at_node s n) = drop (keyBytes (tree s) (rs ! i) False) (rs ! i @ rest)"
    unfolding o'(2) [symmetric] by (simp add: add.commute)
  have len: "length (drop (keyBytes (tree s) (rs ! i) False) (rs ! i @ rest))
      = unat (bt_nodeSize (tree s)) - (off + keyBytes (tree s) (rs ! i) False)"
    unfolding d [symmetric] using o'(4) by simp
  have "kind (at_node s n) = kLeafNode" "count (at_node s n) = length rs" using sh by (simp_all add: node_shape_def)
  then have "at_loop E (Suc g) (n, i) s = (Some ((n, i), rs ! i @ rest, drop (keyBytes (tree s) (rs ! i) False) (rs ! i @ rest),
          length (drop (keyBytes (tree s) (rs ! i) False) (rs ! i @ rest))), s')"
    using s'(1) n(2) assms(2) o'(1,2) d len by (simp only: at_loop.simps if_False if_True prod.case option.case view_tree [OF s'(2)]) simp
  then show ?thesis using s'(2,3) by blast
qed

lemma find_ok:
  assumes "tree_ok E dsk live wk s ms lv ups" and "wk key"
  shows "\<exists>pos s1 res s'. seek E (te_order E s key) s = (Some pos, s1) \<and> at_pos E pos s1 = (res, s') \<and> view s s' \<and> rdy s' \<and> view s s1
    \<and> found_at (tree s) (dropWhile (\<lambda>r. 0 < te_order E s key r) (contents lv)) res"
proof -
  let ?ord = "te_order E s"
  obtain steps s1 xs n rs ys where s1: "path E key s = (Some steps, s1)" "view s s1" "rdy s1" "length steps = Suc (length ups)"
    "lv = xs @ (n, rs) # ys" "on_way ?ord key xs rs ys" "path_ok steps n 1 ups" "steps ! length ups = step_of n 1"
    "last steps = step_of n 1"
    using path_ok_leaf [OF assms] by (elim exE conjE)
  note w = whole_facts [OF conjunct1 [OF assms(1) [unfolded tree_whole]]]
  have own: "inside s k" if "k \<in> set (nodes_of (lv # ups))" for k using owned_inside(1) [OF w(2,6) that] .
  have ins: "\<forall>st\<in>set steps. inside s (st_node st)"
  proof
    fix st assume "st \<in> set steps"
    then obtain i where i: "i < Suc (length ups)" "st = steps ! i" using s1(4) by (metis in_set_conv_nth)
    show "inside s (st_node st)"
    proof (cases "i = length ups")
      case True
      then show ?thesis using own [of n] s1(5,8) i(2) by simp
    next
      case False
      then show ?thesis using path_ok_nodes [OF s1(7), of i] own [of "st_node st"] i by simp
    qed
  qed
  have sh: "node_shape (tree s) (at_node s n) kLeafNode 1 (first_or 0 ys) (last_or 0 xs) rs"
    using node_of_level(1) [OF w(7) [unfolded s1(5)]] by simp
  have hd: "\<forall>r\<in>set rs. record_ok (tree s) wk False r" using tree_heads(3) [OF assms(1)] by (simp add: s1(5))
  let ?j = "length (takeWhile (\<lambda>r. 0 < ?ord key r) rs)"
  have seek: "seek E (?ord key) s = (Some (n, ?j), s1)"
    using seek_path [OF s1(1) [unfolded path_def] w(1) refl ins] leaf_index_ok [OF sh w(3) hd assms(2)]
    by (simp add: seek_def s1(9))
  have sorted: "keys_sorted ?ord (contents (xs @ (n, rs) # ys))" using assms(1) by (simp add: tree_whole s1(5))
  have wkall: "\<forall>x\<in>set (xs @ (n, rs) # ys). snd x \<noteq> [] \<and> (\<forall>r\<in>set (snd x). wk r)"
    using tree_heads(2) [OF assms(1)] by (simp only: s1(5))
  note lo = leaf_order [OF w(3) sorted s1(6) assms(2) wkall]
  have below: "0 < ?ord key r" if "r \<in> set (contents xs)" for r
  proof -
    have "wk r" using wkall that by (force simp: contents_def)
    then show ?thesis using lo(1) [OF that] order_facts(8) [OF w(3) assms(2), of r] by simp
  qed
  have dw: "dropWhile (\<lambda>r. 0 < ?ord key r) (contents lv) = dropWhile (\<lambda>r. 0 < ?ord key r) (rs @ contents ys)"
    using below by (simp add: s1(5) dropWhile_append)
  have wh1: "whole wk s1 ms 1 (xs @ (n, rs) # ys) ups"
    using whole_view(1) [OF conjunct1 [OF assms(1) [unfolded tree_whole]] s1(2,3)] by (simp only: s1(5))
  have kb: "keyBytes (tree s1) = keyBytes (tree s)" by (rule view_tree(3) [OF s1(2)])
  obtain g where g: "(2 :: nat) ^ 20 = Suc (Suc g)" by (rule that [of "2 ^ 20 - 2"]) simp
  show ?thesis
  proof (cases "?j < length rs")
    case True
    obtain s' rest where s': "at_loop E (Suc (Suc g)) (n, ?j) s1 = (Some ((n, ?j), rs ! ?j @ rest,
        drop (keyBytes (tree s) (rs ! ?j) False) (rs ! ?j @ rest), length (drop (keyBytes (tree s) (rs ! ?j) False) (rs ! ?j @ rest))), s')"
      "view s1 s'" "rdy s'"
      using at_record [OF wh1 True] unfolding kb by blast
    have "dropWhile (\<lambda>r. 0 < ?ord key r) rs = rs ! ?j # drop (Suc ?j) rs"
      unfolding dropWhile_eq_drop by (rule Cons_nth_drop_Suc [OF True, symmetric])
    moreover from this have "\<not> (\<forall>r\<in>set rs. 0 < ?ord key r)" by (metis dropWhile_eq_Nil_conv list.distinct(1))
    ultimately have "dropWhile (\<lambda>r. 0 < ?ord key r) (contents lv) = rs ! ?j # drop (Suc ?j) rs @ contents ys"
      unfolding dw dropWhile_append by (simp only: if_False append_Cons)
    then have "found_at (tree s) (dropWhile (\<lambda>r. 0 < ?ord key r) (contents lv)) (Some ((n, ?j), rs ! ?j @ rest,
        drop (keyBytes (tree s) (rs ! ?j) False) (rs ! ?j @ rest), length (drop (keyBytes (tree s) (rs ! ?j) False) (rs ! ?j @ rest))))"
      by (auto simp: found_at_def Let_def)
    then show ?thesis using seek s' view_trans [OF s1(2) s'(2)] s1(2) unfolding at_pos_def g by blast
  next
    case False
    then have j: "?j = length rs" using length_takeWhile_le [of "\<lambda>r. 0 < ?ord key r" rs] by simp
    then have "takeWhile (\<lambda>r. 0 < ?ord key r) rs = rs" by (metis takeWhile_eq_take take_all le_refl)
    then have "\<forall>r\<in>set rs. 0 < ?ord key r" by (simp add: takeWhile_eq_all_conv)
    moreover have "dropWhile (\<lambda>r. 0 < ?ord key r) (contents ys) = contents ys"
    proof (cases "contents ys")
      case (Cons r rs')
      then have "?ord key r < 0" using lo(2) [of r] by simp
      then show ?thesis using Cons by simp
    qed simp
    ultimately have dw': "dropWhile (\<lambda>r. 0 < ?ord key r) (contents lv) = contents ys" by (simp add: dw dropWhile_append)
    note w1 = whole_facts [OF wh1]
    have n: "inside s1 n" "n \<noteq> 0" using w1(8) by (auto simp: level_in_def)
    obtain s2 where s2: "node E n s1 = (Some (at_node s1 n), s2)" "view s1 s2" "rdy s2" using node_read [OF s1(3) n(1)] by blast
    have "at_node s1 n = at_node s n" by (simp add: view_facts(2) [OF s1(2)])
    then have nd: "kind (at_node s1 n) = kLeafNode" "count (at_node s1 n) = length rs" "next_link (at_node s1 n) = first_or 0 ys"
      using sh by (simp_all add: node_shape_def)
    have step: "at_loop E (Suc (Suc g)) (n, ?j) s1 = at_loop E (Suc g) (first_or 0 ys, 0) s2"
      using s2(1) n(2) nd by (subst at_loop.simps) (simp add: j)
    show ?thesis
    proof (cases ys)
      case Nil
      then have "at_loop E (Suc (Suc g)) (n, ?j) s1 = (None, s2)" using step by simp
      moreover have "found_at (tree s) (dropWhile (\<lambda>r. 0 < ?ord key r) (contents lv)) None" by (simp add: dw' Nil found_at_def)
      ultimately show ?thesis using seek s2(2,3) view_trans [OF s1(2) s2(2)] s1(2) unfolding at_pos_def g by blast
    next
      case (Cons y ys')
      obtain m qs where y: "y = (m, qs)" by fastforce
      have wh2: "whole wk s2 ms 1 ((xs @ [(n, rs)]) @ (m, qs) # ys') ups" using whole_view(1) [OF wh1 s2(2,3)] by (simp add: Cons y)
      have qs: "0 < length qs" using wkall by (simp add: Cons y)
      have kb2: "keyBytes (tree s2) = keyBytes (tree s)" using view_tree(3) [OF s2(2)] kb by simp
      obtain s' rest where s': "at_loop E (Suc g) (m, 0) s2 = (Some ((m, 0), qs ! 0 @ rest,
        drop (keyBytes (tree s) (qs ! 0) False) (qs ! 0 @ rest), length (drop (keyBytes (tree s) (qs ! 0) False) (qs ! 0 @ rest))), s')"
        "view s2 s'" "rdy s'"
        using at_record [OF wh2 qs] unfolding kb2 by blast
      have "contents ys = qs ! 0 # tl qs @ contents ys'" using qs by (cases qs) (simp_all add: Cons y)
      then have "found_at (tree s) (dropWhile (\<lambda>r. 0 < ?ord key r) (contents lv)) (Some ((m, 0), qs ! 0 @ rest,
        drop (keyBytes (tree s) (qs ! 0) False) (qs ! 0 @ rest), length (drop (keyBytes (tree s) (qs ! 0) False) (qs ! 0 @ rest))))"
        unfolding dw' by (auto simp: found_at_def Let_def)
      moreover have "at_loop E (Suc (Suc g)) (n, ?j) s1 = at_loop E (Suc g) (m, 0) s2" using step by (simp add: Cons y)
      ultimately show ?thesis using seek s' view_trans [OF s1(2) view_trans [OF s2(2) s'(2)]] s1(2) unfolding at_pos_def g by metis
    qed
  qed
qed


end

end
