(* ===== verification/HFSP_Keys.thy ===== *)
theory HFSP_Keys
  imports HFSP_Find
begin

text \<open>The keys of the catalog and the extents file, and that their orders are orders.\<close>

section \<open>Lexicographic comparison\<close>

lemma compare3_swap: "d = - c \<Longrightarrow> compare3 b a d = - compare3 a b c"
  by (auto simp: compare3_def)

lemma compare3_trans:
  assumes "compare3 a b x \<le> 0" and "compare3 b c y \<le> 0" and "x \<le> 0 \<Longrightarrow> y \<le> 0 \<Longrightarrow> z \<le> 0"
  shows "compare3 a c z \<le> 0"
  using assms by (auto simp: compare3_def split: if_splits)

lemma binary_trans: "binaryCompare a b \<le> 0 \<Longrightarrow> binaryCompare b c \<le> 0 \<Longrightarrow> binaryCompare a c \<le> 0"
  using binary_compare_trans by blast

lemma compareNames_swap: "compareNames v b a = - compareNames v a b"
  by (simp add: compareNames_def fast_compare_folded binary_compare_swap [of b a] binary_compare_swap [of "folded b" "folded a"])

lemma compareNames_trans: "compareNames v a b \<le> 0 \<Longrightarrow> compareNames v b c \<le> 0 \<Longrightarrow> compareNames v a c \<le> 0"
  by (auto simp: compareNames_def fast_compare_folded dest: binary_trans)

section \<open>Catalog keys\<close>

definition catalog_key_ok :: "bytes \<Rightarrow> bool" where
  "catalog_key_ok a \<longleftrightarrow> 6 \<le> key_len a \<and> 2 + key_len a \<le> length a"

lemma be_take:
  "off + 2 \<le> n \<Longrightarrow> n \<le> length a \<Longrightarrow> be16_at (take n a) off = be16_at a off"
  "off + 4 \<le> n \<Longrightarrow> n \<le> length a \<Longrightarrow> be32_at (take n a) off = be32_at a off"
  by (simp_all add: be16_at_def be32_at_def)

text \<open>The order looks at the key's own bytes only.\<close>

lemma catalog_view:
  assumes "catalog_key_ok a"
  shows "be32_at (take (2 + key_len a) a) 2 = be32_at a 2" "key_name (take (2 + key_len a) a) = key_name a"
    "key_len (take (2 + key_len a) a) = key_len a"
proof -
  let ?n = "2 + key_len a"
  have n: "8 \<le> ?n" "?n \<le> length a" using assms by (simp_all add: catalog_key_ok_def)
  show "be32_at (take ?n a) 2 = be32_at a 2" and kl: "key_len (take ?n a) = key_len a" using n by (simp_all add: be_take)
  have d: "be16_at (drop 6 (take ?n a)) off = be16_at (drop 6 a) off" if "off + 6 + 2 \<le> ?n" for off
    using n that by (simp add: be16_at_def)
  have "key_name (take ?n a) = map (\<lambda>i. be16_at (drop 6 (take ?n a)) (2 + 2 * i)) [0..<min (unat (be16_at (drop 6 a) 0)) ((key_len a - 6) div 2)]"
    unfolding key_name_def readUniStr_def kl using d [of 0] n by simp
  also have "\<dots> = map (\<lambda>i. be16_at (drop 6 a) (2 + 2 * i)) [0..<min (unat (be16_at (drop 6 a) 0)) ((key_len a - 6) div 2)]"
    by (rule map_cong [OF refl], rule d) (use n in auto)
  also have "\<dots> = key_name a" unfolding key_name_def readUniStr_def using n by simp
  finally show "key_name (take ?n a) = key_name a" .
qed

lemma catalog_same:
  assumes "catalog_key_ok a" and "catalog_key_ok b" and "take (2 + key_len a) b = take (2 + key_len a) a"
  shows "catalogOrder v a c = catalogOrder v b c" "catalogOrder v c a = catalogOrder v c b"
proof -
  have "2 + key_len a \<le> length b"
    using arg_cong [OF assms(3), of length] assms(1) by (simp add: catalog_key_ok_def min_def split: if_splits)
  then have "key_len b = key_len a"
    using be_take(1) [of 0 "2 + key_len a" b] catalog_view(3) [OF assms(1)] unfolding assms(3) by simp
  then have "be32_at b 2 = be32_at a 2" "key_name b = key_name a"
    using catalog_view(1,2) [OF assms(1)] catalog_view(1,2) [OF assms(2)] assms(3) by simp_all
  then show "catalogOrder v a c = catalogOrder v b c" "catalogOrder v c a = catalogOrder v c b" by (simp_all add: catalogOrder_def)
qed

lemma index_key_prefix:
  assumes "variable_keys t" and "2 + key_len a \<le> length a"
  shows "take (2 + key_len a) (indexKey t a) = take (2 + key_len a) a"
  using assms by (auto simp: indexKey_def Let_def)

lemma catalog_good_order:
  assumes "variable_keys t"
  shows "good_order t catalog_key_ok (catalogOrder v)"
proof -
  have ev: "even_keys t" using assms by (simp add: even_keys_def)
  have app: "catalog_key_ok (a @ x)" if "catalog_key_ok a" for a x using that by (simp add: catalog_key_ok_def)
  have idx: "catalog_key_ok (indexKey t a)" if "catalog_key_ok a" for a
  proof -
    have l: "2 + key_len a \<le> length a" using that by (simp add: catalog_key_ok_def)
    have "2 + key_len a \<le> keyBytes t a True" using assms by (simp add: keyBytes_def)
    then show ?thesis using that key_len_index [OF l, of t] length_indexKey [OF l ev] assms by (simp add: catalog_key_ok_def)
  qed
  have sa: "catalogOrder v (a @ x) c = catalogOrder v a c" "catalogOrder v c (a @ x) = catalogOrder v c a" if "catalog_key_ok a" for a x c
    using catalog_same [OF that app [OF that], of x] that by (simp_all add: catalog_key_ok_def)
  have si: "catalogOrder v (indexKey t a) c = catalogOrder v a c" "catalogOrder v c (indexKey t a) = catalogOrder v c a"
    if "catalog_key_ok a" for a c
    using catalog_same [OF that idx [OF that]] index_key_prefix [OF assms, of a] that by (simp_all add: catalog_key_ok_def)
  have len: "4 \<le> length a" "2 + key_len a \<le> length a" if "catalog_key_ok a" for a using that by (simp_all add: catalog_key_ok_def)
  have sw: "catalogOrder v b a = - catalogOrder v a b" for a b
    unfolding catalogOrder_def by (rule compare3_swap) (rule compareNames_swap)
  have tr: "catalogOrder v a b \<le> 0 \<Longrightarrow> catalogOrder v b c \<le> 0 \<Longrightarrow> catalogOrder v a c \<le> 0" for a b c
    unfolding catalogOrder_def by (erule compare3_trans, assumption, erule compareNames_trans)
  show ?thesis unfolding good_order_def
    by (intro conjI allI impI; (rule len app idx sa si sw tr; assumption?; assumption?)?) (use idx len in blast)+
qed

section \<open>The key of a name\<close>

lemma be16_concat: "i < length xs \<Longrightarrow> be16_at (concat (map bytes16 xs) @ r) (2 * i) = xs ! i"
proof (induction xs arbitrary: i)
  case (Cons x xs)
  show ?case
  proof (cases i)
    case 0
    have "be16_at (bytes16 x @ concat (map bytes16 xs) @ r) 0 = be16_at (bytes16 x) 0" by (simp add: be16_at_def nth_append bytes16_def)
    then show ?thesis by (simp add: 0)
  next
    case (Suc j)
    have "be16_at (bytes16 x @ concat (map bytes16 xs) @ r) (2 * Suc j) = be16_at (concat (map bytes16 xs) @ r) (2 * j)"
      by (simp add: be16_at_def bytes16_def)
    then show ?thesis using Cons by (simp add: Suc)
  qed
qed simp

lemma catalogKey_facts:
  assumes "length name \<le> 255"
  shows "catalog_key_ok (catalogKey parent name)" "be32_at (catalogKey parent name) 2 = parent" "key_name (catalogKey parent name) = name"
proof -
  let ?k = "catalogKey parent name" and ?n = "length name"
  have len: "length ?k = 8 + 2 * ?n" by (simp add: catalogKey_def length_concat comp_def sum_list_triv)
  have small: "unat (of_nat m :: u16) = m" if "m < 65536" for m using that by (simp add: unat_of_nat)
  have u: "unat (of_nat (6 + 2 * ?n) :: u16) = 6 + 2 * ?n" "unat (of_nat ?n :: u16) = ?n" by (rule small; use assms in simp)+
  have "be16_at ?k 0 = of_nat (6 + 2 * ?n)" by (simp add: catalogKey_def be16_at_def bytes16_def nth_append be16_split)
  then have kl: "key_len ?k = 6 + 2 * ?n" by (simp only: u)
  then show "catalog_key_ok ?k" by (simp add: catalog_key_ok_def len)
  have "drop 2 ?k = bytes32 parent @ bytes16 (of_nat ?n) @ concat (map bytes16 name)" by (simp add: catalogKey_def)
  moreover have "be32_at ?k 2 = be32_at (drop 2 ?k) 0" by (simp add: be32_at_def len)
  ultimately show "be32_at ?k 2 = parent" by simp
  have d6: "drop 6 ?k = bytes16 (of_nat ?n) @ concat (map bytes16 name)" by (simp add: catalogKey_def)
  have at: "be16_at (drop 6 ?k) (2 + 2 * i) = name ! i" if "i < ?n" for i
  proof -
    have "be16_at (drop 6 ?k) (2 + 2 * i) = be16_at (concat (map bytes16 name) @ []) (2 * i)"
      unfolding d6 by (simp add: be16_at_def bytes16_def)
    also have "\<dots> = name ! i" by (rule be16_concat [OF that])
    finally show ?thesis .
  qed
  have "be16_at (drop 6 ?k) 0 = of_nat ?n" unfolding d6 by simp
  then have "key_name ?k = map (\<lambda>i. be16_at (drop 6 ?k) (2 + 2 * i)) [0..<?n]"
    unfolding key_name_def readUniStr_def kl using u(2) by simp
  also have "\<dots> = map ((!) name) [0..<?n]" by (rule map_cong [OF refl], rule at) simp
  also have "\<dots> = name" by (rule map_nth)
  finally show "key_name ?k = name" .
qed

lemma catalog_cmp_order: "length name \<le> 255 \<Longrightarrow> catalog_cmp v parent name = catalogOrder v (catalogKey parent name)"
  using catalogKey_facts(2,3) [of name parent] by (simp add: fun_eq_iff catalog_cmp_def catalogOrder_def)

section \<open>Extent keys\<close>

definition extent_key_ok :: "bytes \<Rightarrow> bool" where
  "extent_key_ok a \<longleftrightarrow> key_len a = 10 \<and> 12 \<le> length a"

lemma extent_good_order:
  assumes "bt_maxKeyLength t = 10"
  shows "good_order t extent_key_ok extentOrder"
proof -
  have app: "extent_key_ok (a @ x)" if "extent_key_ok a" for a x using that by (simp add: extent_key_ok_def)
  have idx: "indexKey t a = take 12 a" if "extent_key_ok a" for a
  proof -
    have k: "key_len a = 10" "12 \<le> length a" using that by (simp_all add: extent_key_ok_def)
    have "be16_at a 0 = of_nat (key_len a)" by simp
    then have w: "be16_at a 0 = 10" unfolding k by simp
    have "put16_at 0 10 (take 12 a) = take 12 a"
    proof (rule nth_equalityI)
      fix i assume "i < length (put16_at 0 10 (take 12 a))"
      then have i: "i < 12" using k(2) by simp
      have "bytes16 (be16_at a 0) = [a ! 0, a ! 1]" by (simp add: be16_at_def bytes16_def)
      then have "bytes16 10 = [a ! 0, a ! 1]" unfolding w .
      then show "put16_at 0 10 (take 12 a) ! i = take 12 a ! i"
        using i k(2) by (auto simp: put16_at_def nth_overwrite less_Suc_eq nth_Cons')
    qed (use k(2) in simp)
    then show ?thesis using k assms by (simp add: indexKey_def Let_def)
  qed
  have same: "extentOrder a c = extentOrder b c \<and> extentOrder c a = extentOrder c b"
    if "12 \<le> length a" "12 \<le> length b" "take 12 a = take 12 b" for a b c
  proof -
    have "be32_at a 4 = be32_at b 4" "be32_at a 8 = be32_at b 8" "a ! 2 = b ! 2"
      using be_take(2) [of 4 12 a] be_take(2) [of 4 12 b] be_take(2) [of 8 12 a] be_take(2) [of 8 12 b]
        nth_take [of 2 12 a] nth_take [of 2 12 b] that by simp_all
    then show ?thesis by (simp add: extentOrder_def)
  qed
  have sa: "extentOrder (a @ x) c = extentOrder a c" "extentOrder c (a @ x) = extentOrder c a"
    and si: "extentOrder (indexKey t a) c = extentOrder a c" "extentOrder c (indexKey t a) = extentOrder c a"
    and wi: "extent_key_ok (indexKey t a)" and len: "4 \<le> length (indexKey t a)" "2 + key_len a \<le> length a"
    if "extent_key_ok a" for a x c
    using same [of "a @ x" a c] same [of "take 12 a" a c] idx [OF that] that be_take(1) [of 0 12 a]
    by (simp_all add: extent_key_ok_def)
  have sw: "extentOrder b a = - extentOrder a b" for a b
    unfolding extentOrder_def by (rule compare3_swap)+ simp
  have tr: "extentOrder a b \<le> 0 \<Longrightarrow> extentOrder b c \<le> 0 \<Longrightarrow> extentOrder a c \<le> 0" for a b c
    unfolding extentOrder_def by (erule compare3_trans, assumption)+ simp
  show ?thesis unfolding good_order_def
    by (intro conjI allI impI; (rule len app wi sa si sw tr; assumption?; assumption?)?)
qed

end
