(* ===== verification/HFSP_Catalog.thy ===== *)
theory HFSP_Catalog
  imports HFSP_Keys
begin

text \<open>
  The catalog of a volume as a B-tree file: inserting, replacing and finding records, on the
  volume's own forks, caches and orders, and a small volume on which they run.
\<close>

section \<open>A small volume\<close>

definition header_node :: bytes where
  "header_node = node_bytes 512 kHeaderNode 0 0 0 [replicate 106 0, replicate 128 0, 0xC0 # replicate 255 0]"

definition first_record :: bytes where
  "first_record = catalogKey 2 [0x41] @ [0, 3, 0, 0, 0, 0, 0, 1, 0, 0]"

definition leaf_node :: bytes where
  "leaf_node = node_bytes 512 kLeafNode 1 0 0 [first_record]"

definition small_catalog :: btree where
  "small_catalog =
     \<lparr>bt_depth = 1, bt_nodeSize = 512, bt_maxKeyLength = 516, bt_root = 1, bt_leafRecords = 1, bt_firstLeaf = 1, bt_lastLeaf = 1,
      bt_totalNodes = 4, bt_freeNodes = 2, bt_clumpSize = 2048, bt_attributes = 6, bt_keyCompareType = 0xCF, bt_cache = []\<rparr>"

definition small_volume :: vol where
  "small_volume =
     (start_volume
       \<lparr>img_data = header_node @ leaf_node @ replicate 1024 0, img_answers = (\<lambda>_. replicate 2048 (Transfer 2048)), img_next = 0,
        img_writable = True, img_size = 2048, img_punch = False\<rparr>
       0 False 0 0 ((parse_header (replicate 512 0))\<lparr>vh_blockSize := 512, vh_totalBlocks := 4\<rparr>) (\<lambda>_. 0))
     \<lparr>v_catalog := small_catalog, v_catalogFork := \<lparr>fk_size = 2048, fk_extents = [(0, 4)], fk_complete = True\<rparr>\<rparr>"

definition small_map :: map_record where
  "small_map = \<lparr>mr_node = 0, mr_offset = 248, mr_bytes = 256, mr_first = 0\<rparr>"

lemma small_map_simps [simp]: "mr_node small_map = 0" "mr_offset small_map = 248" "mr_bytes small_map = 256" "mr_first small_map = 0"
  by (simp_all add: small_map_def)

lemma small_nodes:
  "node_shape small_catalog header_node kHeaderNode 0 0 0 [replicate 106 0, replicate 128 0, 0xC0 # replicate 255 0]"
  "node_shape small_catalog leaf_node kLeafNode 1 0 0 [first_record]"
proof -
  have N: "unat (bt_nodeSize small_catalog) = 512" by (simp add: small_catalog_def)
  have l: "length first_record = 20" by (simp add: first_record_def catalogKey_def)
  have "fits small_catalog [replicate 106 0, replicate 128 0, 0xC0 # replicate 255 0]" "fits small_catalog [first_record]"
    by (simp_all add: fits_def N l)
  then show "node_shape small_catalog header_node kHeaderNode 0 0 0 [replicate 106 0, replicate 128 0, 0xC0 # replicate 255 0]"
    "node_shape small_catalog leaf_node kLeafNode 1 0 0 [first_record]"
    using node_bytes_shape unfolding header_node_def leaf_node_def N [symmetric] by blast+
qed

lemma small_lengths [simp]: "length header_node = 512" "length leaf_node = 512"
  using small_nodes by (simp_all add: node_shape_def small_catalog_def)

lemma small_live: "cat_live small_volume" "cat_disk small_volume = header_node @ leaf_node @ replicate 1024 0"
  by (simp_all add: cat_live_def cat_disk_def steady_image_def reliable_def small_volume_def start_volume_def fork_ok_def inside_image_def
      extent_at_def extent_len_def block_size_def fork_blocks_def blocks_of_def fork_bytes_def fork_content_def slice_def upt_rec list_all_iff)

abbreviation cat_env :: "(u32 \<Rightarrow> (vol, unit) op) \<Rightarrow> vol tree_env" where "cat_env \<equiv> catalog_tree"

lemma small_tree [simp]: "te_get (cat_env grow) small_volume = small_catalog" "node_size (cat_env grow) small_volume = 512"
  by (simp_all add: catalog_tree_def small_volume_def start_volume_def node_size_def small_catalog_def)

lemma small_at:
  "nodeb (cat_env grow) cat_disk small_volume 0 = header_node" "nodeb (cat_env grow) cat_disk small_volume 1 = leaf_node"
  "n < 4 \<Longrightarrow> in_file (cat_env grow) cat_disk small_volume n"
proof -
  show "nodeb (cat_env grow) cat_disk small_volume 0 = header_node" "nodeb (cat_env grow) cat_disk small_volume 1 = leaf_node"
    by (simp_all add: nodeb_def small_live slice_def)
  show "in_file (cat_env grow) cat_disk small_volume n" if "n < 4"
    using that by (simp add: in_file_def small_live word_less_nat_alt)
qed

lemma small_map_byte: "header_node ! 248 = 0xC0"
proof -
  have "slice 14 490 header_node = concat [replicate 106 0, replicate 128 0, 0xC0 # replicate 255 0]"
    using small_nodes(1) by (simp add: node_shape_def)
  then have "slice 14 490 header_node ! 234 = concat [replicate 106 0, replicate 128 0, 0xC0 # replicate 255 0] ! 234" by (rule arg_cong)
  then show ?thesis by (simp add: nth_slice nth_append)
qed

lemma below_four: "n < (4 :: u32) \<Longrightarrow> n = 0 \<or> n = 1 \<or> n = 2 \<or> n = 3"
proof -
  assume "n < 4"
  then have "unat n < 4" by (simp add: word_less_nat_alt)
  then have "unat n = unat (0 :: u32) \<or> unat n = unat (1 :: u32) \<or> unat n = unat (2 :: u32) \<or> unat n = unat (3 :: u32)" by auto
  then show ?thesis using unsigned_word_eqI by blast
qed

lemma small_map_ok: "map_ok (cat_env grow) cat_disk small_volume [small_map]"
proof -
  have off: "offset_at small_catalog header_node 2 = 248" "offset_at small_catalog header_node 3 = 504" "count header_node = 3"
    "kind header_node = 1" "next_link header_node = 0"
    using small_nodes(1) by (simp_all add: node_shape_def eval_nat_numeral)
  then have "map_node_ok small_catalog header_node 0 0 small_map"
    by (simp add: map_node_ok_def small_map_def small_catalog_def Let_def)
  then show ?thesis using off(5) small_at(3) by (simp add: map_ok_def small_at(1))
qed

lemma small_used: "n < 4 \<Longrightarrow> node_used (nodeb (cat_env grow) cat_disk small_volume) [small_map] n \<longleftrightarrow> n = 0 \<or> n = 1"
proof -
  assume n: "n < 4"
  have m: "map_for [small_map] n = Some small_map"
    using n by (simp add: map_for_def small_map_def word_less_nat_alt)
  have "bit_pos small_map n = 248" using n by (simp add: bit_pos_def small_map_def word_less_nat_alt)
  then have "node_used (nodeb (cat_env grow) cat_disk small_volume) [small_map] n = bit (0xC0 :: u8) (7 - unat n mod 8)"
    by (simp add: node_used_def m small_at(1) small_map_byte)
  then show ?thesis using below_four [OF n] by auto
qed

lemma small_free: "free_nodes (cat_env grow) cat_disk small_volume [small_map] = {2, 3}"
proof -
  have "bt_totalNodes small_catalog = 4" by (simp add: small_catalog_def)
  then show ?thesis using small_used below_four by (auto simp: free_nodes_def)
qed

text \<open>The invariant holds of the small volume's catalog: one leaf with one record, two free nodes.\<close>

lemma small_tree_ok:
  "tree_ok (cat_env grow) cat_disk cat_live catalog_key_ok small_volume [small_map] [(1, [first_record])] []"
proof -
  let ?E = "cat_env grow"
  have key: "catalog_key_ok (catalogKey 2 [0x41])" by (rule catalogKey_facts(1)) simp
  have wk: "catalog_key_ok first_record" using key by (simp add: first_record_def catalog_key_ok_def be16_at_def nth_append catalogKey_def bytes16_def)
  have var: "variable_keys small_catalog" by (simp add: variable_keys_def small_catalog_def)
  have kl: "key_len first_record = 8" by (simp add: first_record_def catalogKey_def be16_at_def bytes16_def be16_split)
  have len: "length first_record = 20" by (simp add: first_record_def catalogKey_def)
  have N: "unat (bt_nodeSize small_catalog) = 512" by (simp add: small_catalog_def)
  have idx: "length (indexKey small_catalog first_record) = 10"
    using length_indexKey [of first_record small_catalog] kl len var by (simp add: even_keys_def keyBytes_def)
  have rok: "record_ok small_catalog catalog_key_ok False first_record"
    using wk var by (simp add: record_ok_def len N idx keyBytes_def kl)
  have "level_ok small_catalog catalog_key_ok (nodeb ?E cat_disk small_volume) 1 [(1, [first_record])]"
    using small_nodes(2) rok by (simp add: level_ok_def small_at(2))
  moreover have "bt_root small_catalog = 1" by (simp add: small_catalog_def)
  ultimately have lev: "levels_ok small_catalog catalog_key_ok (nodeb ?E cat_disk small_volume) 1 (bt_root small_catalog) [(1, [first_record])] []"
    by simp
  have ready: "ready ?E cat_disk cat_live small_volume"
    using small_live(1) by (simp add: ready_def cache_ok_def) (simp add: small_catalog_def)
  have tot: "bt_totalNodes small_catalog = 4" "bt_freeNodes small_catalog = 2" by (simp_all add: small_catalog_def)
  have "map_for [small_map] n \<noteq> None" if "n < 4" for n
    using that by (simp add: map_for_def word_less_nat_alt)
  then have al: "alloc_ok ?E cat_disk small_volume [small_map]"
    using small_map_ok [of grow] small_at(3) [of _ grow] by (simp add: alloc_ok_def small_free tot)
  have ow: "owned ?E cat_disk small_volume [small_map] [[(1, [first_record])]]"
    by (simp add: owned_def small_free tot)
  have ord: "te_order ?E small_volume = catalogOrder small_volume" by (simp add: catalog_tree_def)
  show ?thesis
    unfolding tree_ok_def Let_def small_tree ord
    using ready al catalog_good_order [OF var] var lev ow
    by (simp add: even_keys_def keys_sorted_def) (simp add: small_catalog_def)
qed

section \<open>What the operations of the catalog do\<close>

lemma cat_order [simp]: "te_order (cat_env grow) v = catalogOrder v" and cat_get [simp]: "te_get (cat_env grow) v = v_catalog v"
  by (simp_all add: catalog_tree_def)

lemma cat_disk_view: "same_view (cat_env grow) cat_disk v v' \<Longrightarrow> cat_disk v' = cat_disk v"
  by (simp add: same_view_def)


lemma new_key_apart: "catalogOrder small_volume (catalogKey 3 []) first_record \<noteq> 0"
  using catalogKey_facts(2) [of "[]" 3]
  by (simp add: catalogOrder_def compare3_def first_record_def catalogKey_def be32_at_def nth_append bytes16_def bytes32_def be32_split)

lemma new_record_ok: "record_ok small_catalog catalog_key_ok False (padded_key (catalogKey 3 []) @ [1, 2])"
proof -
  let ?k = "catalogKey 3 []"
  have key: "catalog_key_ok ?k" by (rule catalogKey_facts(1)) simp
  have r: "padded_key ?k @ [1, 2] = ?k @ [1, 2]" by (simp add: padded_key_def catalogKey_def)
  have len: "length (?k @ [1, 2 :: u8]) = 10" by (simp add: catalogKey_def)
  have kl: "key_len (?k @ [1, 2]) = 6" by (simp add: catalogKey_def be16_at_def bytes16_def be16_split)
  have wk: "catalog_key_ok (?k @ [1, 2])" using key len kl by (simp add: catalog_key_ok_def)
  have var: "variable_keys small_catalog" and N: "unat (bt_nodeSize small_catalog) = 512" by (simp_all add: variable_keys_def small_catalog_def)
  have "length (indexKey small_catalog (?k @ [1, 2])) = 8"
    using length_indexKey [of "?k @ [1, 2]" small_catalog] kl len var by (simp add: even_keys_def keyBytes_def)
  then show ?thesis unfolding r using wk var by (simp add: record_ok_def len N keyBytes_def kl del: length_append)
qed



lemma find_record_ok:
  assumes "tree_ok cat_ro cat_disk cat_live catalog_key_ok v ms lv ups" and "length name \<le> 255"
  shows "\<exists>res v'. find_record parent name v = (res, v') \<and> cat_disk v' = cat_disk v
    \<and> (case res of
         None \<Rightarrow> \<forall>r\<in>set (contents lv). catalogOrder v (catalogKey parent name) r \<noteq> 0
       | Some (key, dat, room) \<Rightarrow> \<exists>r\<in>set (contents lv). \<exists>rest. catalogOrder v (catalogKey parent name) r = 0
           \<and> key = r @ rest \<and> dat = drop (keyBytes (v_catalog v) r False) key \<and> room = length dat)"
proof -
  let ?key = "catalogKey parent name" and ?ord = "catalogOrder v"
  have wk: "catalog_key_ok ?key" by (rule catalogKey_facts(1) [OF assms(2)])
  have f: "good_order (v_catalog v) catalog_key_ok ?ord" "keys_sorted ?ord (contents lv)" using tree_ok_facts(3,7) [OF assms(1)] by simp_all
  have wkc: "\<forall>r\<in>set (contents lv). catalog_key_ok r" using cat_file.tree_heads(3) [OF assms(1)] by blast
  obtain pos v1 res v' where s: "seek cat_ro (?ord ?key) v = (Some pos, v1)" "at_pos cat_ro pos v1 = (res, v')"
    "same_view cat_ro cat_disk v v'" "same_view cat_ro cat_disk v v1"
    "found_at (v_catalog v) (dropWhile (\<lambda>r. 0 < ?ord ?key r) (contents lv)) res"
    using cat_file.find_ok [OF assms(1) wk] by auto
  have disk: "cat_disk v' = cat_disk v" by (rule cat_disk_view [OF s(3)])
  have cmp: "catalog_cmp v' parent name = ?ord ?key" "catalog_cmp v parent name = ?ord ?key"
    using catalog_cmp_order [OF assms(2)] cat_file.view_facts(5) [OF s(3)] by simp_all
  let ?l = "dropWhile (\<lambda>r. 0 < ?ord ?key r) (contents lv)"
  let ?t = "takeWhile (\<lambda>r. 0 < ?ord ?key r) (contents lv)"
  have parts: "?t @ ?l = contents lv" by (rule takeWhile_dropWhile_id)
  then have sets: "set (contents lv) = set ?t \<union> set ?l" by (metis set_append)
  have skipped: "0 < ?ord ?key q" if "q \<in> set (contents lv)" "q \<notin> set ?l" for q
  proof -
    have "q \<in> set ?t" using that sets by blast
    then show ?thesis by (rule set_takeWhileD [THEN conjunct2])
  qed
  show ?thesis
  proof (cases ?l)
    case Nil
    have "res = None" using s(5) unfolding Nil by (simp add: found_at_def)
    moreover have "?ord ?key q \<noteq> 0" if "q \<in> set (contents lv)" for q using skipped [OF that] Nil by simp
    ultimately show ?thesis using s(1,2) disk cmp by (simp add: find_record_def)
  next
    case (Cons r l)
    have r: "r \<in> set (contents lv)" using sets Cons by simp
    have r0: "?ord ?key r \<le> 0"
    proof -
      have "?l \<noteq> []" using Cons by simp
      from hd_dropWhile [OF this] show ?thesis using Cons by simp
    qed
    obtain p rest where res: "res = Some (p, r @ rest, drop (keyBytes (v_catalog v) r False) (r @ rest),
        length (drop (keyBytes (v_catalog v) r False) (r @ rest)))"
      using s(5) unfolding Cons by (auto simp: found_at_def Let_def)
    have rk: "?ord ?key (r @ rest) = ?ord ?key r" by (rule order_facts(4) [OF f(1) wk]) (use wkc r in blast)
    show ?thesis
    proof (cases "?ord ?key r = 0")
      case True
      have "find_record parent name v = (Some (r @ rest, drop (keyBytes (v_catalog v) r False) (r @ rest),
          length (drop (keyBytes (v_catalog v) r False) (r @ rest))), v')"
        using s(1,2) cmp rk True by (simp add: find_record_def res)
      then show ?thesis using disk r True by fastforce
    next
      case False
      have "?ord ?key q \<noteq> 0" if q: "q \<in> set (contents lv)" for q
      proof (cases "q \<in> set ?l")
        case True
        have "keys_sorted ?ord (?t @ r # l)" using f(2) parts unfolding Cons by argo
        then have srt: "keys_sorted ?ord (r # l)" unfolding keys_sorted_def sorted_wrt_append by blast
        have wkl: "\<forall>q\<in>set (r # l). catalog_key_ok q" using wkc sets unfolding Cons by blast
        have "?ord ?key r < 0" using r0 False by simp
        from sorted_tail [OF f(1) srt wkl wk this] show ?thesis using True unfolding Cons by fastforce
      qed (use skipped [OF q] in auto)
      moreover have "find_record parent name v = (None, v')" using s(1,2) cmp rk False by (simp add: find_record_def res)
      ultimately show ?thesis using disk by fastforce
    qed
  qed
qed

text \<open>
  C38: Looking a name up in the catalog finds the record with its parent and name, and only that one;
  when there is none, the search says so. It reads the disk only.
\<close>

theorem catalog_find:
  assumes "tree_ok cat_ro cat_disk cat_live catalog_key_ok v ms lv ups" and "length name \<le> 255"
  shows "\<exists>res v'. find_record parent name v = (res, v') \<and> cat_disk v' = cat_disk v
    \<and> (case res of
         None \<Rightarrow> \<forall>r\<in>set (contents lv). catalogOrder v (catalogKey parent name) r \<noteq> 0
       | Some (key, dat, room) \<Rightarrow> \<exists>r\<in>set (contents lv). \<exists>rest. catalogOrder v (catalogKey parent name) r = 0
           \<and> key = r @ rest \<and> dat = drop (keyBytes (v_catalog v) r False) key \<and> room = length dat)"
  by (rule find_record_ok [OF assms])

lemma catalog_find_witness:
  "\<exists>v'. find_record 3 [] small_volume = (None, v') \<and> cat_disk v' = cat_disk small_volume"
proof -
  obtain res v' where "find_record 3 [] small_volume = (res, v')" "cat_disk v' = cat_disk small_volume"
    "case res of None \<Rightarrow> True | Some (key, dat, room) \<Rightarrow> catalogOrder small_volume (catalogKey 3 []) first_record = 0"
    using catalog_find [OF small_tree_ok, of "[]" 3] by (fastforce split: option.splits)
  then show ?thesis using new_key_apart by (cases res) auto
qed


lemma tree_ok_grow: "tree_ok (catalog_tree grow) cat_disk cat_live wk v ms lv ups = tree_ok cat_ro cat_disk cat_live wk v ms lv ups"
proof -
  have n: "node_size (catalog_tree g) v = unat (bt_nodeSize (v_catalog v))" for g by (simp add: node_size_def)
  have "nodeb (catalog_tree g) cat_disk v = (\<lambda>n. slice (unat n * unat (bt_nodeSize (v_catalog v))) (unat (bt_nodeSize (v_catalog v))) (cat_disk v))"
    "in_file (catalog_tree g) cat_disk v = (\<lambda>n. unat n * unat (bt_nodeSize (v_catalog v)) + unat (bt_nodeSize (v_catalog v)) \<le> length (cat_disk v))"
    for g by (simp_all add: fun_eq_iff nodeb_def in_file_def n)
  then show ?thesis
    by (simp add: tree_ok_def Let_def ready_def cache_ok_def alloc_ok_def map_ok_def free_nodes_def owned_def n)
qed

lemma even_catalog_key: "padded_key (catalogKey parent name) = catalogKey parent name"
  by (simp add: padded_key_def catalogKey_def length_concat comp_def sum_list_triv)

text \<open>
  C39: A record that was inserted is found: the search gives its key and its data, followed by what
  follows them in their node.
\<close>

theorem catalog_insert_find:
  assumes "tree_ok (catalog_tree grow) cat_disk cat_live catalog_key_ok v ms lv ups" and "length name \<le> 255"
    and "record_ok (v_catalog v) catalog_key_ok False (catalogKey parent name @ dat)"
    and "length ups + 2 \<le> card (free_nodes (catalog_tree grow) cat_disk v ms)" and "length ups < 31"
    and "\<forall>r\<in>set (contents lv). catalogOrder v (catalogKey parent name) r \<noteq> 0"
  shows "\<exists>v1 rest v2. bt_insert (catalog_tree grow) (catalogKey parent name) dat v = (Inr (), v1)
    \<and> find_record parent name v1
      = (Some (catalogKey parent name @ dat @ rest, dat @ rest, length (dat @ rest)), v2)"
proof -
  let ?key = "catalogKey parent name"
  have wk: "catalog_key_ok ?key" by (rule catalogKey_facts(1) [OF assms(2)])
  obtain v1 lv1 ups1 as bs where i: "bt_insert (catalog_tree grow) ?key dat v = (Inr (), v1)"
    "tree_ok (catalog_tree grow) cat_disk cat_live catalog_key_ok v1 ms lv1 ups1"
    "contents lv = as @ bs" "contents lv1 = as @ (?key @ dat) # bs"
    "form (v_catalog v1) = form (v_catalog v)" "te_order (catalog_tree grow) v1 = te_order (catalog_tree grow) v"
    using cat_file.insert_ok(2) [OF assms(1) wk _ assms(4,5), of dat] assms(3,6) cat_file.keeps_facts(5)
    unfolding even_catalog_key cat_get cat_order by (metis (no_types, lifting))
  have ord: "catalogOrder v1 = catalogOrder v" using i(6) by simp
  note f = tree_ok_facts(3) [OF assms(1), unfolded cat_get cat_order]
  have self: "catalogOrder v ?key (?key @ x) = 0" for x
    using order_facts(4) [OF f wk wk] order_facts(8) [OF f wk wk] by simp
  obtain res v2 where r: "find_record parent name v1 = (res, v2)"
    "case res of
         None \<Rightarrow> \<forall>r\<in>set (contents lv1). catalogOrder v1 ?key r \<noteq> 0
       | Some (key, dat, room) \<Rightarrow> \<exists>r\<in>set (contents lv1). \<exists>rest. catalogOrder v1 ?key r = 0
           \<and> key = r @ rest \<and> dat = drop (keyBytes (v_catalog v1) r False) key \<and> room = length dat"
    using find_record_ok [OF i(2) [unfolded tree_ok_grow [of grow]] assms(2)] by blast
  have only: "r = ?key @ dat" if "r \<in> set (contents lv1)" "catalogOrder v ?key r = 0" for r
    using that assms(6) i(3,4) by auto
  have "res \<noteq> None" using r(2) self [of dat] i(4) by (cases res) (auto simp: ord)
  then obtain rest where rest: "res = Some ((?key @ dat) @ rest, drop (keyBytes (v_catalog v1) (?key @ dat) False) ((?key @ dat) @ rest),
      length (drop (keyBytes (v_catalog v1) (?key @ dat) False) ((?key @ dat) @ rest)))"
  proof -
    assume ne: "res \<noteq> None"
    obtain r' rest' where "r' \<in> set (contents lv1)" "catalogOrder v ?key r' = 0"
      "res = Some (r' @ rest', drop (keyBytes (v_catalog v1) r' False) (r' @ rest'), length (drop (keyBytes (v_catalog v1) r' False) (r' @ rest')))"
      using r(2) ne unfolding ord by (cases res) auto
    then show ?thesis using only that by blast
  qed
  have len: "length ?key = 8 + 2 * length name" by (simp add: catalogKey_def length_concat comp_def sum_list_triv)
  have "keyBytes (v_catalog v1) (?key @ dat) False = length ?key"
  proof -
    have "be16_at (?key @ dat) 0 = be16_at ?key 0" using len by (simp add: be16_at_def nth_append)
    moreover have "be16_at ?key 0 = of_nat (6 + 2 * length name)" by (simp add: catalogKey_def be16_at_def bytes16_def nth_append be16_split)
    moreover have "unat (of_nat (6 + 2 * length name) :: u16) = 6 + 2 * length name"
      by (simp only: unat_of_nat) (use assms(2) in simp)
    ultimately show ?thesis by (simp add: keyBytes_def len)
  qed
  then show ?thesis using i(1) r(1) rest by (intro exI [of _ v1] exI [of _ rest] exI [of _ v2]) simp
qed

lemma catalog_insert_find_witness:
  "\<exists>v1 rest v2. bt_insert cat_ro (catalogKey 3 []) [1, 2] small_volume = (Inr (), v1)
    \<and> find_record 3 [] v1 = (Some (catalogKey 3 [] @ [1, 2] @ rest, [1, 2] @ rest, length ([1, 2 :: u8] @ rest)), v2)"
proof (rule catalog_insert_find [OF small_tree_ok])
  show "record_ok (v_catalog small_volume) catalog_key_ok False (catalogKey 3 [] @ [1, 2])"
    using new_record_ok by (simp add: even_catalog_key small_volume_def)
qed (use new_key_apart in \<open>simp_all add: small_free\<close>)


lemma take_key_ok:
  assumes "catalog_key_ok r"
  shows "catalog_key_ok (take (keyBytes t r False) r)"
proof -
  have "2 + key_len r \<le> keyBytes t r False" by (simp add: keyBytes_def)
  then have l: "2 + key_len r \<le> length (take (keyBytes t r False) r)" using assms by (simp add: catalog_key_ok_def)
  then have "key_len (take (keyBytes t r False) r) = key_len r" by (simp add: be16_at_def)
  then show ?thesis using l assms by (simp add: catalog_key_ok_def)
qed

text \<open>
  C40: Replacing the data of a record keeps its key and its place; all other records stay, also where
  the longer data makes the leaf split. A key that is not there is reported, without a write.
\<close>

theorem catalog_replace:
  assumes "tree_ok (catalog_tree grow) cat_disk cat_live catalog_key_ok v ms lv ups" and "catalog_key_ok key"
    and "\<forall>r\<in>set (contents lv). catalogOrder v key r = 0 \<longrightarrow> record_ok (v_catalog v) catalog_key_ok False (with_data (v_catalog v) r dat)"
    and "length ups + 2 \<le> card (free_nodes (catalog_tree grow) cat_disk v ms)" and "length ups < 31"
  shows "if \<exists>r\<in>set (contents lv). catalogOrder v key r = 0
    then \<exists>v' lv' ups' as r bs. bt_replace (catalog_tree grow) key dat v = (Inr (), v')
      \<and> tree_ok (catalog_tree grow) cat_disk cat_live catalog_key_ok v' ms lv' ups' \<and> catalogOrder v key r = 0
      \<and> contents lv = as @ r # bs \<and> contents lv' = as @ with_data (v_catalog v) r dat # bs
    else \<exists>v'. bt_replace (catalog_tree grow) key dat v = (Inl E_notFound, v') \<and> cat_disk v' = cat_disk v"
proof (cases "\<exists>r\<in>set (contents lv). catalogOrder v key r = 0")
  case True
  then obtain r where r: "r \<in> set (contents lv)" "catalogOrder v key r = 0" by blast
  have "catalog_key_ok r" using cat_file.tree_heads(3) [OF assms(1)] r(1) by blast
  then have wk: "catalog_key_ok (take (keyBytes (v_catalog v) r False) r)" by (rule take_key_ok)
  show ?thesis
    using cat_file.replace_ok(2) [OF assms(1,2,4,5), of r dat] r wk assms(3) unfolding cat_get cat_order if_P [OF True] by blast
next
  case False
  then show ?thesis using cat_file.replace_ok(1) [OF assms(1,2,4,5), of dat] cat_disk_view by (simp only: if_False) fastforce
qed

lemma catalog_replace_witness:
  "\<exists>v' lv' ups'. bt_replace cat_ro (catalogKey 2 [0x41]) [7, 7] small_volume = (Inr (), v')
    \<and> tree_ok cat_ro cat_disk cat_live catalog_key_ok v' [small_map] lv' ups' \<and> contents lv' = [catalogKey 2 [0x41] @ [7, 7]]"
proof -
  let ?k = "catalogKey 2 [0x41]" and ?t = "v_catalog small_volume"
  have t: "?t = small_catalog" by (simp add: small_volume_def)
  have key: "catalog_key_ok ?k" by (rule catalogKey_facts(1)) simp
  have kl: "key_len first_record = 8" "key_len (?k @ x) = 8" for x
    by (simp_all add: first_record_def catalogKey_def be16_at_def bytes16_def be16_split nth_append)
  have len: "length ?k = 10" by (simp add: catalogKey_def)
  have kb: "keyBytes small_catalog first_record False = 10" "keyBytes small_catalog (?k @ x) False = 10" for x
    using kl(2) [of x] by (simp_all add: keyBytes_def kl(1))
  then have wd: "with_data small_catalog first_record [7, 7] = ?k @ [7, 7]" by (simp add: with_data_def first_record_def len)
  have wk: "catalog_key_ok (?k @ [7, 7])" using key kl(2) [of "[7, 7]"] by (simp add: catalog_key_ok_def len)
  have var: "variable_keys small_catalog" and N: "unat (bt_nodeSize small_catalog) = 512" by (simp_all add: variable_keys_def small_catalog_def)
  have "length (indexKey small_catalog (?k @ [7, 7])) = 10"
    using length_indexKey [of "?k @ [7, 7]" small_catalog] kl(2) [of "[7, 7]"] len var by (simp add: even_keys_def keyBytes_def)
  then have rok: "record_ok small_catalog catalog_key_ok False (?k @ [7, 7])"
    using wk by (simp add: record_ok_def len N kb(2))
  have same: "catalogOrder small_volume ?k first_record = 0"
    using order_facts(4) [OF catalog_good_order [OF var] key key] order_facts(8) [OF catalog_good_order [OF var] key key]
    by (simp add: first_record_def)
  have ok: "\<forall>r\<in>set (contents [(1 :: u32, [first_record])]). catalogOrder small_volume ?k r = 0
      \<longrightarrow> record_ok ?t catalog_key_ok False (with_data ?t r [7, 7])" by (simp add: t wd rok)
  have room: "length ([] :: level list) + 2 \<le> card (free_nodes cat_ro cat_disk small_volume [small_map])" by (simp add: small_free)
  show ?thesis using catalog_replace [OF small_tree_ok key ok room] same
    by (auto simp: t wd Cons_eq_append_conv)
qed


end
