(* ===== verification/Spec2Isabelle.thy ===== *)
theory Spec2Isabelle
  imports Web_Socket Browser_Ring Overlay_Durability ADB_Manager Guest_Memory Time_Manager Sony_Driver
    Mac_Roman XPRAM_Store SCSI_Manager HFSP_Writer HFSP_Catalog
begin

text \<open>
  A verification library for MacPhoenix, an emulator of 68k and PowerPC Macintoshes with a web
  front end.

  \<^bold>\<open>The program.\<close> A CPU core runs the Mac's ROM and system in guest memory
  (\<^verbatim>\<open>src/cpu/core/guest_memory.cpp\<close>). Patched traps and drivers leave the guest through
  \<^verbatim>\<open>src/core/emul_op.cpp\<close> and reach the managers and drivers of \<^verbatim>\<open>src/core\<close>: the Time Manager
  (\<^verbatim>\<open>timer.cpp\<close>), the Apple Desktop Bus (\<^verbatim>\<open>adb.cpp\<close>), the disk and floppy drivers
  (\<^verbatim>\<open>disk.cpp\<close>, \<^verbatim>\<open>sony.cpp\<close>), the SCSI Manager (\<^verbatim>\<open>scsi.cpp\<close>), parameter RAM
  (\<^verbatim>\<open>xpram.cpp\<close>). They read and write guest memory, call guest code back through
  \<^verbatim>\<open>Execute68k\<close>, and reach the host through the function table \<^verbatim>\<open>g_platform\<close>
  (\<^verbatim>\<open>src/drivers/platform\<close>). The web front end talks to the emulator over WebSockets
  (\<^verbatim>\<open>src/webserver/websocket.cpp\<close>), the Mac's browser over two rings in shared memory
  (\<^verbatim>\<open>src/drivers/browser/ring.cpp\<close>), and the executor of \<^verbatim>\<open>executor/host\<close> writes disk images
  through a copy-on-write overlay (\<^verbatim>\<open>overlay.cpp\<close>).

  \<^bold>\<open>The theories.\<close>
  \<^item> \<open>Phoenix_Prelude\<close>: names of the machine types, fact collections, lemmas on lists, words and
    big-endian bytes.
  \<^item> \<open>Posix_IO\<close>: the loops around \<^verbatim>\<open>recv\<close>, \<^verbatim>\<open>send\<close>, \<^verbatim>\<open>pread\<close>, \<^verbatim>\<open>pwrite\<close>. The kernel is
    a list of answers (how much a call moves, or how it fails); the lemmas hold for every list.
  \<^item> \<open>Web_Socket\<close>: frames, reassembly, control frames and closing (\<^verbatim>\<open>websocket.cpp\<close>), with the
    properties of delivery, of frame round trips and of closing.
  \<^item> \<open>Browser_Ring\<close>: push and pop (\<^verbatim>\<open>ring.cpp\<close>) refine a queue of messages.
  \<^item> \<open>Disk_Overlay\<close> (the operations of the class \<^verbatim>\<open>Overlay\<close>), \<open>Overlay_View\<close> (the disk the
    guest sees, as an abstract byte list), \<open>Overlay_Meta\<close> (the JSON of a record),
    \<open>Overlay_Durability\<close> (sync, compaction, crashes and reopening).
  \<^item> \<open>Mac_Memory\<close>: the accessors of guest memory the managers use (\<^verbatim>\<open>cpu_emulation.h\<close>), as a locale of
    byte memories with two interpretations; \<open>Guest_Memory\<close>: the page table, the windows and the
    accesses behind them.
  \<^item> \<open>ADB_Manager\<close>, \<open>Time_Manager\<close> with \<open>Host_Clock\<close> (\<^verbatim>\<open>timer_unix.cpp\<close> and the virtual clock),
    \<open>Mac_Util\<close> (\<^verbatim>\<open>macos_util.cpp\<close>), \<open>Mac_Roman\<close>, \<open>XPRAM_Store\<close>, \<open>SCSI_Manager\<close>: one file of
    \<^verbatim>\<open>src/core\<close> each.
  \<^item> \<open>Sys_Files\<close>: the host files of \<^verbatim>\<open>platform_unix.cpp\<close>; \<open>Block_Store\<close>: the function table as a
    record, the contract the drivers rely on as locales, and their interpretation on the Unix
    table; \<open>Mac_Device\<close>: error codes, offsets and calls of guest code; \<open>Drive_Icons\<close>,
    \<open>Disk_Driver\<close> and \<open>Sony_Driver\<close>: the drivers; \<open>Disk_Guarantees\<close>: what they promise.

  \<^bold>\<open>State.\<close> The static variables of a file are a record, every routine returns the new one. Guest
  memory is a function from addresses to bytes, except in \<open>Guest_Memory\<close>, where it is the window
  list and the host memory behind it. Machine integers keep their width.

  \<^bold>\<open>Loops and fuel.\<close> Loops over lists of answers end with the list. \<open>FindFreeDriveNumber\<close> and the walks
  along guest queues take fuel: 65536 covers every drive number, a queue walk ends in fewer steps
  than the queue has elements. \<open>TimerInterrupt\<close> takes one unit for each task. A transfer
  program of the SCSI Manager can loop for ever; \<open>exec_tib\<close> takes fuel, and \<open>block_transfer\<close> says
  how much is enough for the programs drivers use.

  \<^bold>\<open>Parameters.\<close> The answers of the kernel; the guest code a driver calls (\<open>exec\<close>, a function on
  registers and memory); the address map \<^verbatim>\<open>Mac2HostAddr\<close>; the host's clock; the SCSI targets;
  loading and saving of parameter RAM; \<^verbatim>\<open>PatchAfterStartup\<close>; the CD-ROM driver's share of
  \<^verbatim>\<open>MountVolume\<close>.

  \<^bold>\<open>Not modelled.\<close> The instruction interpreters and recompilers (vendored and generated), the
  executor's rewrite of the Mac toolbox, video, audio, Ethernet and serial drivers, the ROM
  patches (tables of binary patterns), the HTTP server and WebRTC (bindings to libraries), the
  configuration and the client's JavaScript. Windows-only branches and debug output are left out
  of the files that are modelled.
\<close>

end
